(* ===== verification/Upb_Prelude.thy ===== *)
theory Upb_Prelude
  imports Main "HOL-Library.Word"
begin

text \<open>
  Shared vocabulary of the development: the C integer types at their width, bytes and memory,
  the error result of a computation that may leave by \<open>longjmp\<close>, and the generic lemmas on
  words, bytes and lists that the component theories use.
\<close>

unbundle bit_operations_syntax

section \<open>Machine types\<close>

type_synonym byte = "8 word"
type_synonym u16 = "16 word"
type_synonym u32 = "32 word"
type_synonym u64 = "64 word"

text \<open>
  C memory as the readers see it: a byte for every address. Addresses are integers, so that
  pointer differences are the C ones.
\<close>

type_synonym memory = "int \<Rightarrow> byte"

text \<open>The \<open>n\<close> bytes of memory from address \<open>p\<close> on.\<close>

definition bytes_at :: "memory \<Rightarrow> int \<Rightarrow> nat \<Rightarrow> byte list" where
  "bytes_at mem p n = map (\<lambda>k. mem (p + int k)) [0..<n]"

lemma length_bytes_at [simp]: "length (bytes_at mem p n) = n"
  by (simp add: bytes_at_def)

lemma nth_bytes_at [simp]: "k < n \<Longrightarrow> bytes_at mem p n ! k = mem (p + int k)"
  by (simp add: bytes_at_def)

lemma bytes_at_0 [simp]: "bytes_at mem p 0 = []"
  by (simp add: bytes_at_def)

lemma bytes_at_Suc: "bytes_at mem p (Suc n) = mem p # bytes_at mem (p + 1) n"
  unfolding bytes_at_def map_upt_Suc by (simp add: add.assoc)

lemma bytes_at_Suc_snoc: "bytes_at mem p (Suc n) = bytes_at mem p n @ [mem (p + int n)]"
  by (simp add: bytes_at_def)

lemma bytes_at_add: "bytes_at mem p (m + n) = bytes_at mem p m @ bytes_at mem (p + int m) n"
  by (induction n) (simp_all add: bytes_at_Suc_snoc add.assoc)

text \<open>\<open>memcpy\<close> of up to eight bytes into a number, on a little-endian machine.\<close>

definition le_u64 :: "byte list \<Rightarrow> u64" where
  "le_u64 bs = foldr (\<lambda>b acc. ucast b OR push_bit 8 acc) bs 0"

section \<open>Results with an error\<close>

text \<open>
  A C function that leaves by \<open>longjmp\<close> with a status returns \<open>Inl status\<close>; a normal return is
  \<open>Inr\<close>. \<open>bindE\<close> runs the rest of the function after a call that may leave.
\<close>

definition bindE :: "'e + 'a \<Rightarrow> ('a \<Rightarrow> 'e + 'b) \<Rightarrow> 'e + 'b" where
  "bindE x f = (case x of Inl e \<Rightarrow> Inl e | Inr a \<Rightarrow> f a)"

lemma bindE_simps [simp]: "bindE (Inl e) f = Inl e" "bindE (Inr a) f = f a"
  by (simp_all add: bindE_def)

lemma bindE_Inr_conv: "bindE x f = Inr b \<longleftrightarrow> (\<exists>a. x = Inr a \<and> f a = Inr b)"
  by (cases x) simp_all

lemma bindE_Inl_conv: "bindE x f = Inl e \<longleftrightarrow> x = Inl e \<or> (\<exists>a. x = Inr a \<and> f a = Inl e)"
  by (cases x) simp_all

lemma bindE_assoc: "bindE (bindE x f) g = bindE x (\<lambda>a. bindE (f a) g)"
  by (cases x) simp_all

lemma bindE_cong [fundef_cong]:
  "x = y \<Longrightarrow> (\<And>a. y = Inr a \<Longrightarrow> f a = g a) \<Longrightarrow> bindE x f = bindE y g"
  by (cases y) simp_all

section \<open>Words and bits\<close>

text \<open>The continuation bit of a varint byte, tested in C as \<open>byte & 0x80\<close>.\<close>

lemma and_0x80_iff: "(b AND 0x80 = 0) \<longleftrightarrow> \<not> bit (b :: 'a :: len word) 7"
  using and_exp_eq_0_iff_not_bit [of b 7] by simp

lemma bit_0x80: "bit (0x80 :: 'a::len word) n \<longleftrightarrow> n = 7 \<and> 7 < LENGTH('a)"
  using bit_exp_iff [where 'a = "'a word", of 7 n] by auto

lemma bit_0x7f: "bit (0x7f :: 'a::len word) n \<longleftrightarrow> n < 7 \<and> n < LENGTH('a)"
proof -
  have eq: "(0x7f :: 'a word) = mask 7" by (simp add: mask_eq_exp_minus_1)
  show ?thesis unfolding eq by (simp only: bit_mask_iff possible_bit_word) auto
qed

lemma unat_drop_bit: "unat (drop_bit n w) = unat w div 2 ^ n"
proof -
  have "unat (drop_bit n w) = drop_bit n (unat w)"
    by (rule bit_eqI) (auto simp only: bit_unsigned_iff bit_drop_bit_eq comp_apply possible_bit_nat
        dest: bit_imp_le_length)
  then show ?thesis by (simp only: drop_bit_eq_div)
qed

lemma unat_drop_bit_less: "w \<noteq> 0 \<Longrightarrow> 0 < n \<Longrightarrow> unat (drop_bit n w) < unat w"
  unfolding unat_drop_bit using one_less_power [of "2::nat" n]
  by (intro div_less_dividend) (simp_all add: unat_gt_0)

lemma word_split_7: "(v AND 0x7f) + 128 * drop_bit 7 v = (v :: 'a::len word)"
proof -
  have "(0x7f :: 'a word) = mask 7" by (simp add: mask_eq_exp_minus_1)
  then have "v AND 0x7f = take_bit 7 v" by (simp add: take_bit_eq_mask)
  moreover have "push_bit 7 (drop_bit 7 v) = 128 * drop_bit 7 v"
    by (simp only: push_bit_eq_mult) simp
  ultimately show ?thesis
    using bits_ident [of 7 v] by (simp only: add.commute)
qed

lemma unat_ucast_u32: "unat (ucast (w :: u32) :: u64) = unat w"
  using unsigned_less [where ?'a = nat and w = w]
  by (simp add: unsigned_ucast_eq take_bit_nat_eq_self)

lemma ucast_up_eq_0: "(ucast (w :: u32) :: u64) = 0 \<longleftrightarrow> w = 0"
  using unat_ucast_u32 [of w] by (metis unat_eq_zero)

lemma unat_ucast_byte: "unat (ucast (w :: byte) :: u64) = unat w"
  using unsigned_less [where ?'a = nat and w = w]
  by (simp add: unsigned_ucast_eq take_bit_nat_eq_self)

lemma ucast_up_down: "ucast (ucast (w :: u32) :: u64) = w" "ucast (ucast (b :: byte) :: u64) = b"
  by (rule bit_word_eqI, simp add: bit_simps)+

end
