(* ===== verification/Wire_Varint.thy ===== *)
theory Wire_Varint
  imports Upb_Prelude
begin

text \<open>
  The base-128 varint of the wire format: the readers of \<open>upb/wire/internal/reader.h\<close>,
  \<open>upb/wire/reader.h\<close> and \<open>upb/wire/reader.c\<close> and the varint writers and zigzag maps of
  \<open>upb/wire/encode.c\<close> and \<open>upb/wire/decode.c\<close>. A pointer is an address in a \<open>memory\<close>; a
  reader returns the address past what it read, \<open>None\<close> for NULL.
\<close>

section \<open>The reference: what a varint is and what it denotes\<close>

fun is_varint :: "byte list \<Rightarrow> bool" where
  "is_varint [] = False"
| "is_varint [b] = (\<not> bit b 7)"
| "is_varint (b # bs) = (bit b 7 \<and> is_varint bs)"

fun varint_val :: "byte list \<Rightarrow> u64" where
  "varint_val [] = 0"
| "varint_val (b # bs) = ucast (b AND 0x7f) + 128 * varint_val bs"

lemma is_varint_Cons: "is_varint (b # bs) \<longleftrightarrow> (if bit b 7 then is_varint bs else bs = [])"
  by (cases bs) auto

lemma is_varint_nonempty: "is_varint bs \<Longrightarrow> bs \<noteq> []"
  by (cases bs) auto

lemma is_varint_prefix_unique:
  "is_varint xs \<Longrightarrow> is_varint ys \<Longrightarrow> xs @ us = ys @ vs \<Longrightarrow> xs = ys"
proof (induction xs arbitrary: ys)
  case Nil
  then show ?case by simp
next
  case (Cons x xs)
  then obtain y zs where ys: "ys = y # zs" by (cases ys) auto
  with Cons show ?case by (auto simp: is_varint_Cons split: if_splits)
qed

lemma varint_val_append:
  "varint_val (xs @ ys) = varint_val xs + 128 ^ length xs * varint_val ys"
  by (induction xs) (simp_all add: algebra_simps)

section \<open>Reading a varint\<close>

function ReadLongVarint_loop :: "memory \<Rightarrow> int \<Rightarrow> u64 \<Rightarrow> nat \<Rightarrow> (int \<times> u64) option" where
  "ReadLongVarint_loop mem ptr val i =
     (if i < 10 then
        let byte = (ucast (mem (ptr + int i)) :: u64);
            val = val + push_bit (i * 7) (byte - 1)
        in if byte AND 0x80 = 0 then Some (ptr + int i + 1, val)
           else ReadLongVarint_loop mem ptr val (i + 1)
      else None)"
  by pat_completeness auto
termination
  by (relation "measure (\<lambda>(mem, ptr, val, i). 10 - i)") auto

declare ReadLongVarint_loop.simps [simp del]

definition upb_WireReader_ReadLongVarint :: "memory \<Rightarrow> int \<Rightarrow> u64 \<Rightarrow> (int \<times> u64) option" where
  "upb_WireReader_ReadLongVarint mem ptr val = ReadLongVarint_loop mem ptr val 1"

definition wr_ReadVarint :: "memory \<Rightarrow> int \<Rightarrow> int \<Rightarrow> u64 \<Rightarrow> (int \<times> u64) option" where
  "wr_ReadVarint mem ptr maxlen maxval =
     (let byte = (ucast (mem ptr) :: u64) in
      if byte AND 0x80 = 0 then Some (ptr + 1, ucast (ucast byte :: u32))
      else case upb_WireReader_ReadLongVarint mem ptr byte of
             None \<Rightarrow> None
           | Some (p, v) \<Rightarrow>
               if (maxlen < 10 \<and> p - ptr > maxlen) \<or> v > maxval then None
               else Some (p, v))"

definition upb_WireReader_GetFieldNumber :: "u32 \<Rightarrow> u32" where
  "upb_WireReader_GetFieldNumber tag = drop_bit 3 tag"

definition upb_WireReader_GetWireType :: "u32 \<Rightarrow> byte" where
  "upb_WireReader_GetWireType tag = ucast (tag AND 7)"

definition upb_WireReader_ReadTag :: "memory \<Rightarrow> int \<Rightarrow> (int \<times> u32) option" where
  "upb_WireReader_ReadTag mem ptr =
     (case wr_ReadVarint mem ptr 5 0xFFFFFFFF of
        None \<Rightarrow> None
      | Some (p, v) \<Rightarrow> Some (p, ucast v))"

definition upb_WireReader_ReadVarint :: "memory \<Rightarrow> int \<Rightarrow> (int \<times> u64) option" where
  "upb_WireReader_ReadVarint mem ptr = wr_ReadVarint mem ptr 10 0xFFFFFFFFFFFFFFFF"

definition upb_WireReader_SkipVarint :: "memory \<Rightarrow> int \<Rightarrow> int option" where
  "upb_WireReader_SkipVarint mem ptr = map_option fst (upb_WireReader_ReadVarint mem ptr)"

definition upb_WireReader_ReadSize :: "memory \<Rightarrow> int \<Rightarrow> (int \<times> int) option" where
  "upb_WireReader_ReadSize mem ptr =
     (case upb_WireReader_ReadVarint mem ptr of
        None \<Rightarrow> None
      | Some (p, size64) \<Rightarrow>
          if size64 \<ge> 0x7FFFFFFF then None else Some (p, uint size64))"

subsection \<open>What the long loop computes\<close>

text \<open>
  The loop adds \<open>(byte - 1) << 7 i\<close>: the \<open>-1\<close> cancels the continuation bit of the byte before.
  With \<open>i\<close> bytes read, all with the bit set, the accumulator is the value of their payload bits
  plus \<open>128 ^ i\<close>.
\<close>

lemma unat_byte_split: "unat (b :: byte) = unat b mod 128 + (if bit b 7 then 128 else 0)"
proof -
  have "unat b < 256" using unsigned_less [of b] by simp
  moreover have "bit b 7 \<longleftrightarrow> odd (unat b div 128)"
  proof -
    have "bit b 7 \<longleftrightarrow> bit (unat b) 7" by (simp add: bit_unsigned_iff)
    then show ?thesis by (simp add: bit_iff_odd)
  qed
  ultimately show ?thesis
    by (cases "unat b < 128") (auto simp: mod_if not_less div_if)
qed

lemma unat_and_0x7f: "unat ((b :: byte) AND 0x7f) = unat b mod 128"
proof -
  have "b AND 0x7f = take_bit 7 b"
    by (simp add: take_bit_eq_mask mask_numeral)
  then show ?thesis by (simp add: take_bit_eq_mod unat_mod)
qed

lemma ucast_byte_split:
  "(ucast (b :: byte) :: u64) = ucast (b AND 0x7f) + (if bit b 7 then 128 else 0)"
proof -
  have "(ucast b :: u64) = of_nat (unat b)" by simp
  also have "\<dots> = of_nat (unat b mod 128) + of_nat (if bit b 7 then 128 else 0)"
    by (subst unat_byte_split) (simp only: of_nat_add)
  also have "of_nat (unat b mod 128) = (ucast (b AND 0x7f) :: u64)"
    by (simp flip: unat_and_0x7f)
  finally show ?thesis by simp
qed

lemma bit_ucast_byte [simp]: "bit (ucast (b :: byte) :: u64) 7 \<longleftrightarrow> bit b 7"
  by (simp add: bit_simps)

lemma is_varint_append:
  "\<forall>b\<in>set xs. bit b 7 \<Longrightarrow> is_varint (xs @ ys) \<longleftrightarrow> is_varint ys"
  by (induction xs) (auto simp: is_varint_Cons)

lemma is_varint_bits: "is_varint bs \<Longrightarrow> b \<in> set (butlast bs) \<Longrightarrow> bit b 7"
  by (induction bs) (auto simp: is_varint_Cons split: if_splits)

lemma ReadLongVarint_step:
  "varint_val bs + 128 ^ i + push_bit (i * 7) (ucast (b :: byte) - 1) =
     varint_val bs + 128 ^ i * ucast (b AND 0x7f) + (if bit b 7 then 128 ^ Suc i else 0)"
proof -
  have "push_bit (i * 7) (ucast b - 1 :: u64) = (ucast b - 1) * 128 ^ i"
    by (simp add: push_bit_eq_mult power_mult [of 2 7, simplified] mult.commute [of i])
  then show ?thesis
    by (subst (asm) (2) ucast_byte_split) (simp add: algebra_simps)
qed

lemma ReadLongVarint_loop_correct:
  assumes "\<forall>b\<in>set (bytes_at mem ptr i). bit b 7"
  shows "ReadLongVarint_loop mem ptr (varint_val (bytes_at mem ptr i) + 128 ^ i) i = Some (p, v) \<longleftrightarrow>
    (\<exists>n. i < n \<and> n \<le> 10 \<and> is_varint (bytes_at mem ptr n) \<and> p = ptr + int n \<and>
      v = varint_val (bytes_at mem ptr n))"
  using assms
proof (induction "10 - i" arbitrary: i)
  case 0
  then show ?case by (simp add: ReadLongVarint_loop.simps)
next
  case (Suc k)
  let ?b = "mem (ptr + int i)" and ?bs = "bytes_at mem ptr i"
  have snoc: "bytes_at mem ptr (Suc i) = ?bs @ [?b]" by (rule bytes_at_Suc_snoc)
  have split: "bytes_at mem ptr n = ?bs @ ?b # bytes_at mem (ptr + int i + 1) (n - Suc i)" if "i < n" for n
    using that bytes_at_add [of mem ptr i "n - i"]
    by (simp add: Suc_diff_Suc flip: bytes_at_Suc)
  show ?case
  proof (cases "bit ?b 7")
    case True
    have IH: "ReadLongVarint_loop mem ptr (varint_val (bytes_at mem ptr (Suc i)) + 128 ^ Suc i) (Suc i) = Some (p, v) \<longleftrightarrow>
      (\<exists>n. Suc i < n \<and> n \<le> 10 \<and> is_varint (bytes_at mem ptr n) \<and> p = ptr + int n \<and>
        v = varint_val (bytes_at mem ptr n))"
      using Suc.hyps(2) Suc.prems True by (intro Suc.hyps(1)) (auto simp: snoc)
    have "\<not> is_varint (bytes_at mem ptr (Suc i))"
      using True Suc.prems by (simp add: snoc is_varint_append)
    then have "(\<exists>n. Suc i < n \<and> n \<le> 10 \<and> is_varint (bytes_at mem ptr n) \<and> p = ptr + int n \<and>
        v = varint_val (bytes_at mem ptr n)) \<longleftrightarrow>
      (\<exists>n. i < n \<and> n \<le> 10 \<and> is_varint (bytes_at mem ptr n) \<and> p = ptr + int n \<and>
        v = varint_val (bytes_at mem ptr n))"
      by (metis Suc_lessD Suc_lessI)
    with IH True Suc.hyps(2) show ?thesis
      by (subst ReadLongVarint_loop.simps)
        (simp add: ReadLongVarint_step and_0x80_iff snoc varint_val_append)
  next
    case False
    have "(\<exists>n. i < n \<and> n \<le> 10 \<and> is_varint (bytes_at mem ptr n) \<and> p = ptr + int n \<and>
        v = varint_val (bytes_at mem ptr n)) \<longleftrightarrow>
      p = ptr + int (Suc i) \<and> v = varint_val (bytes_at mem ptr (Suc i))"
      (is "(\<exists>n. ?P n) \<longleftrightarrow> ?R")
    proof
      assume "\<exists>n. ?P n"
      then obtain n where n: "?P n" by blast
      then have "n - Suc i = 0"
        using split [of n] False Suc.prems
        by (auto simp: is_varint_append is_varint_Cons dest: arg_cong [where f = length])
      with n have "n = Suc i" by simp
      with n show ?R by blast
    next
      assume ?R
      then show "\<exists>n. ?P n"
        using Suc.hyps(2) Suc.prems False
        by (intro exI [of _ "Suc i"]) (auto simp: snoc is_varint_append)
    qed
    with False Suc.hyps(2) show ?thesis
      by (subst ReadLongVarint_loop.simps)
        (auto simp: ReadLongVarint_step and_0x80_iff snoc varint_val_append)
  qed
qed

subsection \<open>The readers against the reference\<close>

definition varint_at :: "memory \<Rightarrow> int \<Rightarrow> nat \<Rightarrow> u64 \<Rightarrow> bool" where
  "varint_at mem ptr n v \<longleftrightarrow>
     n \<le> 10 \<and> is_varint (bytes_at mem ptr n) \<and> v = varint_val (bytes_at mem ptr n)"

lemma varint_at_pos: "varint_at mem ptr n v \<Longrightarrow> 0 < n"
  by (cases n) (auto simp: varint_at_def)

lemma varint_at_unique:
  assumes "varint_at mem ptr m v" and "varint_at mem ptr n w"
  shows "m = n" and "v = w"
proof -
  have "m = n" if "m \<le> n" "is_varint (bytes_at mem ptr m)" "is_varint (bytes_at mem ptr n)" for m n
  proof -
    have "bytes_at mem ptr m @ bytes_at mem (ptr + int m) (n - m) = bytes_at mem ptr n @ []"
      using that(1) bytes_at_add [of mem ptr m "n - m"] by simp
    with that(2,3) have "bytes_at mem ptr m = bytes_at mem ptr n"
      by (rule is_varint_prefix_unique)
    then show ?thesis by (metis length_bytes_at)
  qed
  from this [of m n] this [of n m] nat_le_linear [of m n] assms show "m = n"
    by (auto simp: varint_at_def)
  with assms show "v = w" by (simp add: varint_at_def)
qed

lemma varint_at_1: "varint_at mem ptr (Suc 0) v \<longleftrightarrow> \<not> bit (mem ptr) 7 \<and> v = ucast (mem ptr)"
  using ucast_byte_split [of "mem ptr"] by (auto simp: varint_at_def bytes_at_Suc)

lemma ReadLongVarint_correct:
  assumes "bit (mem ptr) 7"
  shows "upb_WireReader_ReadLongVarint mem ptr (ucast (mem ptr)) = Some (p, v) \<longleftrightarrow>
    (\<exists>n. varint_at mem ptr n v \<and> p = ptr + int n)"
proof -
  have "ucast (mem ptr) = varint_val (bytes_at mem ptr 1) + 128 ^ 1"
    using assms ucast_byte_split [of "mem ptr"] by (simp add: bytes_at_Suc)
  moreover have "(1 < n \<and> n \<le> 10 \<and> is_varint (bytes_at mem ptr n)) \<longleftrightarrow>
      (n \<le> 10 \<and> is_varint (bytes_at mem ptr n))" for n
  proof (cases "1 < n")
    case False
    with assms show ?thesis by (cases n) (auto simp: bytes_at_Suc)
  qed simp
  ultimately show ?thesis
    using assms ReadLongVarint_loop_correct [of mem ptr 1 p v]
    unfolding upb_WireReader_ReadLongVarint_def varint_at_def
    by (simp add: bytes_at_Suc) blast
qed

lemma wr_ReadVarint_Some_iff:
  assumes "1 \<le> maxlen" and "127 \<le> maxval"
  shows "wr_ReadVarint mem ptr maxlen maxval = Some (p, v) \<longleftrightarrow>
    (\<exists>n. varint_at mem ptr n v \<and> p = ptr + int n \<and> (maxlen < 10 \<longrightarrow> int n \<le> maxlen) \<and> v \<le> maxval)"
proof (cases "bit (mem ptr) 7")
  case False
  have le: "(ucast (mem ptr) :: u64) \<le> 127"
    using False ucast_byte_split [of "mem ptr"]
    by (simp add: word_le_nat_alt unsigned_ucast_eq unat_and_0x7f take_bit_eq_mod)
  have one: "n = Suc 0" if "varint_at mem ptr n v" for n v
    using that varint_at_1 [of mem ptr "ucast (mem ptr)"] False
    by (blast intro: varint_at_unique(1))
  have ex: "varint_at mem ptr n v \<longleftrightarrow> n = Suc 0 \<and> v = ucast (mem ptr)" for n v
    using one [of n v] varint_at_1 [of mem ptr v] False by blast
  have uu: "ucast (ucast (ucast (mem ptr) :: u64) :: u32) = (ucast (mem ptr) :: u64)"
    by (rule bit_word_eqI) (auto simp: bit_simps dest: bit_imp_le_length)
  have "wr_ReadVarint mem ptr maxlen maxval = Some (ptr + 1, ucast (mem ptr))"
    using False uu by (simp add: wr_ReadVarint_def and_0x80_iff)
  moreover have "(\<exists>n. varint_at mem ptr n v \<and> p = ptr + int n \<and> (maxlen < 10 \<longrightarrow> int n \<le> maxlen) \<and> v \<le> maxval)
      \<longleftrightarrow> p = ptr + 1 \<and> v = ucast (mem ptr)"
    using assms(1) order_trans [OF le assms(2)] by (auto simp: ex)
  ultimately show ?thesis by auto
next
  case True
  have "wr_ReadVarint mem ptr maxlen maxval = Some (p, v) \<longleftrightarrow>
      upb_WireReader_ReadLongVarint mem ptr (ucast (mem ptr)) = Some (p, v) \<and>
      (maxlen < 10 \<longrightarrow> p - ptr \<le> maxlen) \<and> v \<le> maxval"
    by (auto simp: wr_ReadVarint_def and_0x80_iff True split: option.splits if_splits)
  then show ?thesis by (auto simp: ReadLongVarint_correct [of mem ptr, OF True])
qed

lemma upb_WireReader_ReadVarint_iff:
  "upb_WireReader_ReadVarint mem ptr = Some (p, v) \<longleftrightarrow>
     (\<exists>n. varint_at mem ptr n v \<and> p = ptr + int n)"
proof -
  have "v \<le> 0xFFFFFFFFFFFFFFFF" for v :: u64
    using unsigned_less [where ?'a = nat and w = v] by (simp add: word_le_nat_alt)
  then show ?thesis
    by (simp add: upb_WireReader_ReadVarint_def wr_ReadVarint_Some_iff)
qed

lemma upb_WireReader_ReadTag_iff:
  "upb_WireReader_ReadTag mem ptr = Some (p, t) \<longleftrightarrow>
     (\<exists>n v. varint_at mem ptr n v \<and> p = ptr + int n \<and> n \<le> 5 \<and> v \<le> 0xFFFFFFFF \<and> t = ucast v)"
proof -
  have "upb_WireReader_ReadTag mem ptr = Some (p, t) \<longleftrightarrow>
      (\<exists>v. wr_ReadVarint mem ptr 5 0xFFFFFFFF = Some (p, v) \<and> t = ucast v)"
    by (auto simp: upb_WireReader_ReadTag_def split: option.splits)
  then show ?thesis by (auto simp: wr_ReadVarint_Some_iff)
qed

lemma upb_WireReader_ReadSize_iff:
  "upb_WireReader_ReadSize mem ptr = Some (p, k) \<longleftrightarrow>
     (\<exists>n v. varint_at mem ptr n v \<and> p = ptr + int n \<and> uint v < 0x7FFFFFFF \<and> k = uint v)"
proof -
  have "upb_WireReader_ReadSize mem ptr = Some (p, k) \<longleftrightarrow>
      (\<exists>v. upb_WireReader_ReadVarint mem ptr = Some (p, v) \<and> uint v < 0x7FFFFFFF \<and> k = uint v)"
    by (auto simp: upb_WireReader_ReadSize_def word_le_def not_le split: option.splits)
  then show ?thesis by (auto simp: upb_WireReader_ReadVarint_iff)
qed

section \<open>Writing a varint\<close>

text \<open>
  The \<open>do \<dots> while (val)\<close> loop of \<open>encode_longvarint\<close>: the bytes it writes, in order.
\<close>

function longvarint_loop :: "u64 \<Rightarrow> byte list" where
  "longvarint_loop val =
     (let byte = (ucast (val AND 0x7f) :: byte);
          val' = drop_bit 7 val
      in if val' \<noteq> 0 then (byte OR 0x80) # longvarint_loop val' else [byte])"
  by pat_completeness auto
termination
  by (relation "measure unat") (auto intro!: unat_drop_bit_less)

declare longvarint_loop.simps [simp del]

text \<open>The same loop over a 32-bit value: \<open>upb_Decoder_EncodeVarint32\<close> of \<open>decode.c\<close>.\<close>

function upb_Decoder_EncodeVarint32 :: "u32 \<Rightarrow> byte list" where
  "upb_Decoder_EncodeVarint32 val =
     (let byte = (ucast (val AND 0x7f) :: byte);
          val' = drop_bit 7 val
      in if val' \<noteq> 0 then (byte OR 0x80) # upb_Decoder_EncodeVarint32 val' else [byte])"
  by pat_completeness auto
termination
  by (relation "measure unat") (auto intro!: unat_drop_bit_less)

declare upb_Decoder_EncodeVarint32.simps [simp del]

lemma payload_byte:
  "(ucast (ucast (val AND 0x7f :: u64) :: byte) :: u64) = val AND 0x7f"
  "\<not> bit (ucast (val AND 0x7f :: u64) :: byte) 7"
  "(ucast (val AND 0x7f :: u64) :: byte) AND 0x7f = ucast (val AND 0x7f)"
  "((ucast (val AND 0x7f :: u64) :: byte) OR 0x80) AND 0x7f = ucast (val AND 0x7f)"
  "bit ((ucast (val AND 0x7f :: u64) :: byte) OR 0x80) 7"
  by (auto intro!: bit_word_eqI simp only: bit_and_iff bit_or_iff bit_unsigned_iff bit_0x80 bit_0x7f
      possible_bit_word len_num1 len_bit0 len_bit1 len_num0)

lemma is_varint_longvarint_loop: "is_varint (longvarint_loop v)"
  by (induction v rule: longvarint_loop.induct)
    (subst longvarint_loop.simps, auto simp: Let_def is_varint_Cons payload_byte)

lemma varint_val_longvarint_loop: "varint_val (longvarint_loop v) = v"
proof (induction v rule: longvarint_loop.induct)
  case (1 v)
  show ?case
  proof (cases "drop_bit 7 v = 0")
    case True
    then show ?thesis
      using word_split_7 [of v]
      by (subst longvarint_loop.simps) (simp only: Let_def varint_val.simps payload_byte simp_thms if_False)
  next
    case False
    with "1.IH" [OF refl refl False] show ?thesis
      using word_split_7 [of v] by (subst longvarint_loop.simps) (simp add: payload_byte)
  qed
qed

lemma longvarint_loop_length: "unat v < 128 ^ Suc n \<Longrightarrow> length (longvarint_loop v) \<le> Suc n"
proof (induction n arbitrary: v)
  case 0
  then have "unat (drop_bit 7 v) = 0" by (simp add: unat_drop_bit)
  then have "drop_bit 7 v = 0" by (simp only: unat_eq_0)
  then show ?case by (subst longvarint_loop.simps) simp
next
  case (Suc n)
  from Suc.prems have "unat (drop_bit 7 v) < 128 ^ Suc n"
    unfolding unat_drop_bit by (simp add: less_mult_imp_div_less mult.commute)
  from Suc.IH [OF this] show ?case by (subst longvarint_loop.simps) (simp add: Let_def)
qed

lemma longvarint_loop_length_10: "length (longvarint_loop v) \<le> 10"
proof -
  have "unat v < 2 ^ 64" using unsigned_less [where ?'a = nat and w = v] by simp
  also have "(2::nat) ^ 64 \<le> 128 ^ Suc 9" by simp
  finally show ?thesis using longvarint_loop_length [of v 9] by simp
qed

lemma longvarint_loop_small: "v < 128 \<Longrightarrow> longvarint_loop v = [ucast v]"
proof -
  assume v: "v < 128"
  then have "unat (drop_bit 7 v) = 0" by (simp add: unat_drop_bit word_less_nat_alt)
  then have d: "drop_bit 7 v = 0" by (simp only: unat_eq_0)
  then have "v AND 0x7f = v" using word_split_7 [of v] by simp
  with d show ?thesis by (subst longvarint_loop.simps) (simp only: Let_def simp_thms if_False cong: if_cong)
qed

text \<open>A varint written anywhere in memory is read back by the reader.\<close>

lemma varint_at_longvarint_loop:
  "bytes_at mem ptr (length (longvarint_loop v)) = longvarint_loop v \<Longrightarrow>
     varint_at mem ptr (length (longvarint_loop v)) v"
  by (simp add: varint_at_def is_varint_longvarint_loop varint_val_longvarint_loop
      longvarint_loop_length_10)

lemma EncodeVarint32_eq: "upb_Decoder_EncodeVarint32 v = longvarint_loop (ucast v)"
proof (induction v rule: upb_Decoder_EncodeVarint32.induct)
  case (1 v)
  have conj: "(ucast v AND 0x7f :: u64) = ucast (v AND 0x7f)"
    and drop: "drop_bit 7 (ucast v :: u64) = ucast (drop_bit 7 v)"
    by (auto intro!: bit_word_eqI simp only: bit_and_iff bit_unsigned_iff bit_0x7f bit_drop_bit_eq
        comp_apply possible_bit_word) (auto dest: bit_imp_le_length)
  have z: "(ucast (drop_bit 7 v) :: u64) = 0 \<longleftrightarrow> drop_bit 7 v = 0"
    by (rule ucast_up_eq_0)
  have u: "(ucast (ucast (v AND 0x7f) :: u64) :: byte) = ucast (v AND 0x7f)"
    by (auto intro!: bit_word_eqI simp only: bit_and_iff bit_unsigned_iff bit_0x7f
        possible_bit_word len_bit0 len_bit1 len_num1)
  show ?case
    using "1.IH" [OF refl refl]
    by (subst upb_Decoder_EncodeVarint32.simps, subst longvarint_loop.simps)
      (simp only: Let_def conj drop z u, auto)
qed

section \<open>Zigzag\<close>

definition encode_zz32 :: "u32 \<Rightarrow> u32" where
  "encode_zz32 n = push_bit 1 n XOR signed_drop_bit 31 n"

definition encode_zz64 :: "u64 \<Rightarrow> u64" where
  "encode_zz64 n = push_bit 1 n XOR signed_drop_bit 63 n"

text \<open>The decoder's inverse, the \<open>SInt32\<close> and \<open>SInt64\<close> cases of \<open>_upb_Decoder_Munge\<close>.\<close>

definition munge_SInt32 :: "u32 \<Rightarrow> u32" where
  "munge_SInt32 n = drop_bit 1 n XOR (- (n AND 1))"

definition munge_SInt64 :: "u64 \<Rightarrow> u64" where
  "munge_SInt64 n = drop_bit 1 n XOR (- (n AND 1))"

lemma minus_and_1: "- ((n :: 'a::len word) AND 1) = (if bit n 0 then -1 else 0)"
  by (simp add: and_one_eq mod_2_eq_odd bit_0)

lemma bit_encode_zz32:
  "bit (encode_zz32 n) k \<longleftrightarrow> k < 32 \<and> ((0 < k \<and> bit n (k - 1)) \<noteq> bit n 31)"
  unfolding encode_zz32_def
  by (auto simp only: bit_xor_iff bit_push_bit_iff bit_signed_drop_bit_iff possible_bit_word
      len_bit0 len_num1 split: if_split_asm dest: bit_imp_le_length) (cases k; auto dest: bit_imp_le_length)+

lemma bit_encode_zz64:
  "bit (encode_zz64 n) k \<longleftrightarrow> k < 64 \<and> ((0 < k \<and> bit n (k - 1)) \<noteq> bit n 63)"
  unfolding encode_zz64_def
  by (auto simp only: bit_xor_iff bit_push_bit_iff bit_signed_drop_bit_iff possible_bit_word
      len_bit0 len_num1 split: if_split_asm dest: bit_imp_le_length) (cases k; auto dest: bit_imp_le_length)+

lemma munge_encode_zz32: "munge_SInt32 (encode_zz32 n) = n"
proof (rule bit_word_eqI)
  fix k assume "k < LENGTH(32)"
  then show "bit (munge_SInt32 (encode_zz32 n)) k = bit n k"
    unfolding munge_SInt32_def minus_and_1
    by (cases "k = 31") (auto simp: bit_simps bit_encode_zz32)
qed

lemma munge_encode_zz64: "munge_SInt64 (encode_zz64 n) = n"
proof (rule bit_word_eqI)
  fix k assume "k < LENGTH(64)"
  then show "bit (munge_SInt64 (encode_zz64 n)) k = bit n k"
    unfolding munge_SInt64_def minus_and_1
    by (cases "k = 63") (auto simp: bit_simps bit_encode_zz64)
qed

section \<open>Properties\<close>

text \<open>C18: the three readers accept exactly the varints of the wire format. \<open>ReadVarint\<close> returns the
  value and the pointer past the at most ten bytes; \<open>ReadTag\<close> also refuses more than five bytes and
  more than 32 bits; \<open>ReadSize\<close> refuses every size from \<open>INT_MAX\<close> on.\<close>

theorem readers_accept_exactly:
  "(upb_WireReader_ReadVarint mem ptr = Some (p, v) \<longleftrightarrow> (\<exists>n. varint_at mem ptr n v \<and> p = ptr + int n)) \<and>
   (upb_WireReader_ReadTag mem ptr = Some (q, t) \<longleftrightarrow>
     (\<exists>n v. varint_at mem ptr n v \<and> q = ptr + int n \<and> n \<le> 5 \<and> v \<le> 0xFFFFFFFF \<and> t = ucast v)) \<and>
   (upb_WireReader_ReadSize mem ptr = Some (r, k) \<longleftrightarrow>
     (\<exists>n v. varint_at mem ptr n v \<and> r = ptr + int n \<and> uint v < 0x7FFFFFFF \<and> k = uint v))"
  by (intro conjI upb_WireReader_ReadVarint_iff upb_WireReader_ReadTag_iff upb_WireReader_ReadSize_iff)

text \<open>C17: round trip of varints between the encoder and the readers: where the bytes the encoder writes
  for a value lie in memory, \<open>ReadVarint\<close> returns that value and the pointer just past them, and
  \<open>ReadTag\<close> does so for every 32-bit value. The decoder's own \<open>EncodeVarint32\<close> writes the same bytes.\<close>

theorem varint_roundtrip:
  assumes "bytes_at mem ptr (length (longvarint_loop v)) = longvarint_loop v"
  shows "upb_WireReader_ReadVarint mem ptr = Some (ptr + int (length (longvarint_loop v)), v) \<and>
    (\<forall>t :: u32. v = ucast t \<longrightarrow>
      upb_WireReader_ReadTag mem ptr = Some (ptr + int (length (upb_Decoder_EncodeVarint32 t)), t))"
proof -
  from varint_at_longvarint_loop [OF assms] have at: "varint_at mem ptr (length (longvarint_loop v)) v" .
  have tag: "upb_WireReader_ReadTag mem ptr = Some (ptr + int (length (upb_Decoder_EncodeVarint32 t)), t)"
    if v: "v = ucast t" for t :: u32
  proof -
    have "unat v < 2 ^ 32" using v unsigned_less [where ?'a = nat and w = t] by (simp add: unat_ucast_u32)
    then have "length (longvarint_loop v) \<le> Suc 4" by (intro longvarint_loop_length) simp
    then have "length (longvarint_loop v) \<le> 5" by simp
    moreover have "v \<le> 0xFFFFFFFF" using \<open>unat v < 2 ^ 32\<close> by (simp add: word_le_nat_alt)
    moreover have "t = ucast v" using v by (simp only: ucast_up_down)
    ultimately show ?thesis
      using at unfolding upb_WireReader_ReadTag_iff EncodeVarint32_eq v [symmetric] by blast
  qed
  moreover have "upb_WireReader_ReadVarint mem ptr = Some (ptr + int (length (longvarint_loop v)), v)"
    using at unfolding upb_WireReader_ReadVarint_iff by blast
  ultimately show ?thesis by blast
qed

theorem varint_roundtrip_witness:
  "upb_WireReader_ReadVarint (\<lambda>a. if a = 0 then 0xAC else 2) 0 = Some (2, 300) \<and>
   upb_WireReader_ReadTag (\<lambda>a. if a = 0 then 0xAC else 2) 0 = Some (2, 300)"
proof -
  let ?m = "\<lambda>a :: int. if a = 0 then 0xAC else 2 :: byte"
  have bs: "longvarint_loop 300 = [0xAC, 2]" by code_simp
  have at: "bytes_at ?m 0 (length (longvarint_loop 300)) = longvarint_loop 300"
    unfolding bs by (simp add: bytes_at_def)
  from varint_roundtrip [OF at] have
    "upb_WireReader_ReadTag ?m 0 = Some (0 + int (length (upb_Decoder_EncodeVarint32 300)), 300)" by simp
  with varint_roundtrip [OF at] show ?thesis
    unfolding EncodeVarint32_eq by (simp add: bs)
qed

text \<open>Zigzag decoding inverts zigzag encoding, at both widths.\<close>

theorem zigzag_roundtrip: "munge_SInt32 (encode_zz32 n) = n \<and> munge_SInt64 (encode_zz64 m) = m"
  by (simp add: munge_encode_zz32 munge_encode_zz64)

end
