(* ===== verification/Mini_Table.thy ===== *)
theory Mini_Table
  imports Upb_Prelude
begin

text \<open>
  The mini tables: the run-time layout of a message type. \<open>upb/mini_table/internal/field.h\<close>,
  \<open>upb/mini_table/internal/message.h\<close>, \<open>upb/mini_table/message.c\<close>,
  \<open>upb/mini_table/internal/enum.h\<close>, \<open>upb/mini_table/internal/size_log2.h\<close> and the enums of
  \<open>upb/base/descriptor_constants.h\<close>. Mini tables refer to each other by pointer, cycles
  included: a reference is a key (\<open>mt_ref\<close>) of the environment that holds the tables.
\<close>

section \<open>Field and C types\<close>

datatype upb_CType =
    kUpb_CType_Bool | kUpb_CType_Float | kUpb_CType_Int32 | kUpb_CType_UInt32 | kUpb_CType_Enum
  | kUpb_CType_Message | kUpb_CType_Double | kUpb_CType_Int64 | kUpb_CType_UInt64
  | kUpb_CType_String | kUpb_CType_Bytes

datatype upb_FieldType =
    kUpb_FieldType_Double | kUpb_FieldType_Float | kUpb_FieldType_Int64 | kUpb_FieldType_UInt64
  | kUpb_FieldType_Int32 | kUpb_FieldType_Fixed64 | kUpb_FieldType_Fixed32 | kUpb_FieldType_Bool
  | kUpb_FieldType_String | kUpb_FieldType_Group | kUpb_FieldType_Message | kUpb_FieldType_Bytes
  | kUpb_FieldType_UInt32 | kUpb_FieldType_Enum | kUpb_FieldType_SFixed32 | kUpb_FieldType_SFixed64
  | kUpb_FieldType_SInt32 | kUpb_FieldType_SInt64

fun FieldType_number :: "upb_FieldType \<Rightarrow> nat" where
  "FieldType_number kUpb_FieldType_Double = 1"
| "FieldType_number kUpb_FieldType_Float = 2"
| "FieldType_number kUpb_FieldType_Int64 = 3"
| "FieldType_number kUpb_FieldType_UInt64 = 4"
| "FieldType_number kUpb_FieldType_Int32 = 5"
| "FieldType_number kUpb_FieldType_Fixed64 = 6"
| "FieldType_number kUpb_FieldType_Fixed32 = 7"
| "FieldType_number kUpb_FieldType_Bool = 8"
| "FieldType_number kUpb_FieldType_String = 9"
| "FieldType_number kUpb_FieldType_Group = 10"
| "FieldType_number kUpb_FieldType_Message = 11"
| "FieldType_number kUpb_FieldType_Bytes = 12"
| "FieldType_number kUpb_FieldType_UInt32 = 13"
| "FieldType_number kUpb_FieldType_Enum = 14"
| "FieldType_number kUpb_FieldType_SFixed32 = 15"
| "FieldType_number kUpb_FieldType_SFixed64 = 16"
| "FieldType_number kUpb_FieldType_SInt32 = 17"
| "FieldType_number kUpb_FieldType_SInt64 = 18"

fun upb_FieldType_CType :: "upb_FieldType \<Rightarrow> upb_CType" where
  "upb_FieldType_CType kUpb_FieldType_Double = kUpb_CType_Double"
| "upb_FieldType_CType kUpb_FieldType_Float = kUpb_CType_Float"
| "upb_FieldType_CType kUpb_FieldType_Int64 = kUpb_CType_Int64"
| "upb_FieldType_CType kUpb_FieldType_UInt64 = kUpb_CType_UInt64"
| "upb_FieldType_CType kUpb_FieldType_Int32 = kUpb_CType_Int32"
| "upb_FieldType_CType kUpb_FieldType_Fixed64 = kUpb_CType_UInt64"
| "upb_FieldType_CType kUpb_FieldType_Fixed32 = kUpb_CType_UInt32"
| "upb_FieldType_CType kUpb_FieldType_Bool = kUpb_CType_Bool"
| "upb_FieldType_CType kUpb_FieldType_String = kUpb_CType_String"
| "upb_FieldType_CType kUpb_FieldType_Group = kUpb_CType_Message"
| "upb_FieldType_CType kUpb_FieldType_Message = kUpb_CType_Message"
| "upb_FieldType_CType kUpb_FieldType_Bytes = kUpb_CType_Bytes"
| "upb_FieldType_CType kUpb_FieldType_UInt32 = kUpb_CType_UInt32"
| "upb_FieldType_CType kUpb_FieldType_Enum = kUpb_CType_Enum"
| "upb_FieldType_CType kUpb_FieldType_SFixed32 = kUpb_CType_Int32"
| "upb_FieldType_CType kUpb_FieldType_SFixed64 = kUpb_CType_Int64"
| "upb_FieldType_CType kUpb_FieldType_SInt32 = kUpb_CType_Int32"
| "upb_FieldType_CType kUpb_FieldType_SInt64 = kUpb_CType_Int64"

definition upb_FieldType_IsPackable :: "upb_FieldType \<Rightarrow> bool" where
  "upb_FieldType_IsPackable field_type \<longleftrightarrow>
     (let kUnpackableTypes = push_bit (FieldType_number kUpb_FieldType_String) 1 OR
            push_bit (FieldType_number kUpb_FieldType_Bytes) 1 OR
            push_bit (FieldType_number kUpb_FieldType_Message) 1 OR
            push_bit (FieldType_number kUpb_FieldType_Group) (1 :: u32)
      in push_bit (FieldType_number field_type) 1 AND NOT kUnpackableTypes \<noteq> 0)"

text \<open>The 64-bit build: \<open>UPB_SIZE(a, b)\<close> is \<open>b\<close>.\<close>

fun upb_FieldType_SizeLg2 :: "upb_FieldType \<Rightarrow> nat" where
  "upb_FieldType_SizeLg2 kUpb_FieldType_Double = 3"
| "upb_FieldType_SizeLg2 kUpb_FieldType_Float = 2"
| "upb_FieldType_SizeLg2 kUpb_FieldType_Int64 = 3"
| "upb_FieldType_SizeLg2 kUpb_FieldType_UInt64 = 3"
| "upb_FieldType_SizeLg2 kUpb_FieldType_Int32 = 2"
| "upb_FieldType_SizeLg2 kUpb_FieldType_Fixed64 = 3"
| "upb_FieldType_SizeLg2 kUpb_FieldType_Fixed32 = 2"
| "upb_FieldType_SizeLg2 kUpb_FieldType_Bool = 0"
| "upb_FieldType_SizeLg2 kUpb_FieldType_String = 4"
| "upb_FieldType_SizeLg2 kUpb_FieldType_Group = 3"
| "upb_FieldType_SizeLg2 kUpb_FieldType_Message = 3"
| "upb_FieldType_SizeLg2 kUpb_FieldType_Bytes = 4"
| "upb_FieldType_SizeLg2 kUpb_FieldType_UInt32 = 2"
| "upb_FieldType_SizeLg2 kUpb_FieldType_Enum = 2"
| "upb_FieldType_SizeLg2 kUpb_FieldType_SFixed32 = 2"
| "upb_FieldType_SizeLg2 kUpb_FieldType_SFixed64 = 3"
| "upb_FieldType_SizeLg2 kUpb_FieldType_SInt32 = 2"
| "upb_FieldType_SizeLg2 kUpb_FieldType_SInt64 = 3"

fun upb_CType_SizeLg2 :: "upb_CType \<Rightarrow> nat" where
  "upb_CType_SizeLg2 kUpb_CType_Bool = 0"
| "upb_CType_SizeLg2 kUpb_CType_Float = 2"
| "upb_CType_SizeLg2 kUpb_CType_Int32 = 2"
| "upb_CType_SizeLg2 kUpb_CType_UInt32 = 2"
| "upb_CType_SizeLg2 kUpb_CType_Enum = 2"
| "upb_CType_SizeLg2 kUpb_CType_Message = 3"
| "upb_CType_SizeLg2 kUpb_CType_Double = 3"
| "upb_CType_SizeLg2 kUpb_CType_Int64 = 3"
| "upb_CType_SizeLg2 kUpb_CType_UInt64 = 3"
| "upb_CType_SizeLg2 kUpb_CType_String = 4"
| "upb_CType_SizeLg2 kUpb_CType_Bytes = 4"

lemma SizeLg2_agree: "upb_CType_SizeLg2 (upb_FieldType_CType t) = upb_FieldType_SizeLg2 t"
  by (cases t) simp_all

section \<open>Fields\<close>

record upb_MiniTableField =
  mtf_number :: u32
  mtf_offset :: u16
  mtf_presence :: int
  mtf_submsg_index :: u16
  mtf_descriptortype :: upb_FieldType
  mtf_mode :: byte

datatype upb_FieldMode = kUpb_FieldMode_Map | kUpb_FieldMode_Array | kUpb_FieldMode_Scalar

datatype upb_FieldRep =
  kUpb_FieldRep_1Byte | kUpb_FieldRep_4Byte | kUpb_FieldRep_StringView | kUpb_FieldRep_8Byte

text \<open>The mode value 3 is no \<open>upb_FieldMode\<close>: the code's switches treat it as unreachable.\<close>

definition upb_MiniTableField_Mode :: "upb_MiniTableField \<Rightarrow> upb_FieldMode option" where
  "upb_MiniTableField_Mode f =
     (let m = mtf_mode f AND 3 in
      if m = 0 then Some kUpb_FieldMode_Map else if m = 1 then Some kUpb_FieldMode_Array
      else if m = 2 then Some kUpb_FieldMode_Scalar else None)"

definition upb_MiniTableField_GetRep :: "upb_MiniTableField \<Rightarrow> upb_FieldRep" where
  "upb_MiniTableField_GetRep f =
     (let r = drop_bit 6 (mtf_mode f) in
      if r = 0 then kUpb_FieldRep_1Byte else if r = 1 then kUpb_FieldRep_4Byte
      else if r = 2 then kUpb_FieldRep_StringView else kUpb_FieldRep_8Byte)"

definition upb_MiniTableField_IsArray :: "upb_MiniTableField \<Rightarrow> bool" where
  "upb_MiniTableField_IsArray f \<longleftrightarrow> upb_MiniTableField_Mode f = Some kUpb_FieldMode_Array"

definition upb_MiniTableField_IsMap :: "upb_MiniTableField \<Rightarrow> bool" where
  "upb_MiniTableField_IsMap f \<longleftrightarrow> upb_MiniTableField_Mode f = Some kUpb_FieldMode_Map"

definition upb_MiniTableField_IsScalar :: "upb_MiniTableField \<Rightarrow> bool" where
  "upb_MiniTableField_IsScalar f \<longleftrightarrow> upb_MiniTableField_Mode f = Some kUpb_FieldMode_Scalar"

definition upb_MiniTableField_IsAlternate :: "upb_MiniTableField \<Rightarrow> bool" where
  "upb_MiniTableField_IsAlternate f \<longleftrightarrow> mtf_mode f AND 16 \<noteq> 0"

definition upb_MiniTableField_IsExtension :: "upb_MiniTableField \<Rightarrow> bool" where
  "upb_MiniTableField_IsExtension f \<longleftrightarrow> mtf_mode f AND 8 \<noteq> 0"

definition upb_MiniTableField_IsPacked :: "upb_MiniTableField \<Rightarrow> bool" where
  "upb_MiniTableField_IsPacked f \<longleftrightarrow> mtf_mode f AND 4 \<noteq> 0"

definition upb_MiniTableField_Type :: "upb_MiniTableField \<Rightarrow> upb_FieldType" where
  "upb_MiniTableField_Type f =
     (let type = mtf_descriptortype f in
      if upb_MiniTableField_IsAlternate f \<and> type = kUpb_FieldType_Int32 then kUpb_FieldType_Enum
      else if upb_MiniTableField_IsAlternate f \<and> type = kUpb_FieldType_Bytes then kUpb_FieldType_String
      else type)"

definition upb_MiniTableField_CType :: "upb_MiniTableField \<Rightarrow> upb_CType" where
  "upb_MiniTableField_CType f = upb_FieldType_CType (upb_MiniTableField_Type f)"

definition upb_MiniTableField_HasHasbit :: "upb_MiniTableField \<Rightarrow> bool" where
  "upb_MiniTableField_HasHasbit f \<longleftrightarrow> mtf_presence f > 0"

definition upb_MiniTableField_HasbitMask :: "upb_MiniTableField \<Rightarrow> byte" where
  "upb_MiniTableField_HasbitMask f = push_bit (nat (mtf_presence f) mod 8) 1"

definition upb_MiniTableField_HasbitOffset :: "upb_MiniTableField \<Rightarrow> nat" where
  "upb_MiniTableField_HasbitOffset f = nat (mtf_presence f) div 8"

definition upb_MiniTableField_IsClosedEnum :: "upb_MiniTableField \<Rightarrow> bool" where
  "upb_MiniTableField_IsClosedEnum f \<longleftrightarrow> mtf_descriptortype f = kUpb_FieldType_Enum"

definition upb_MiniTableField_IsInOneof :: "upb_MiniTableField \<Rightarrow> bool" where
  "upb_MiniTableField_IsInOneof f \<longleftrightarrow> mtf_presence f < 0"

definition upb_MiniTableField_IsSubMessage :: "upb_MiniTableField \<Rightarrow> bool" where
  "upb_MiniTableField_IsSubMessage f \<longleftrightarrow>
     mtf_descriptortype f = kUpb_FieldType_Message \<or> mtf_descriptortype f = kUpb_FieldType_Group"

definition upb_MiniTableField_HasPresence :: "upb_MiniTableField \<Rightarrow> bool" where
  "upb_MiniTableField_HasPresence f \<longleftrightarrow>
     (if upb_MiniTableField_IsExtension f then upb_MiniTableField_IsScalar f
      else mtf_presence f \<noteq> 0)"

text \<open>\<open>~(ptrdiff_t)f->presence\<close>.\<close>

definition upb_MiniTableField_OneofOffset :: "upb_MiniTableField \<Rightarrow> nat" where
  "upb_MiniTableField_OneofOffset f = nat (- mtf_presence f - 1)"

definition upb_MiniTableField_ElemSizeLg2 :: "upb_MiniTableField \<Rightarrow> nat" where
  "upb_MiniTableField_ElemSizeLg2 f = upb_FieldType_SizeLg2 (upb_MiniTableField_Type f)"

section \<open>Closed enums\<close>

text \<open>
  \<open>data\<close> is a bitfield of \<open>mask_limit\<close> bits in 32-bit words, followed by \<open>value_count\<close> values.
\<close>

record upb_MiniTableEnum =
  mte_mask_limit :: u32
  mte_value_count :: u32
  mte_data :: "u32 list"

text \<open>The loop over the values after the bitfield, from word \<open>p\<close> to \<open>limit\<close>.\<close>

function enum_scan :: "u32 list \<Rightarrow> u32 \<Rightarrow> nat \<Rightarrow> nat \<Rightarrow> bool" where
  "enum_scan data val p limit =
     (if p < limit then (if data ! p = val then True else enum_scan data val (p + 1) limit)
      else False)"
  by pat_completeness auto
termination
  by (relation "measure (\<lambda>(data, val, p, limit). limit - p)") auto

declare enum_scan.simps [simp del]

definition upb_MiniTableEnum_CheckValue :: "upb_MiniTableEnum \<Rightarrow> u32 \<Rightarrow> bool" where
  "upb_MiniTableEnum_CheckValue e val =
     (if val < 64 then
        let mask = (ucast (mte_data e ! 0) :: u64) OR push_bit 32 (ucast (mte_data e ! 1));
            b = push_bit (unat val) 1
        in mask AND b \<noteq> 0
      else if val < mte_mask_limit e then
        let mask = mte_data e ! (unat val div 32);
            b = push_bit (unat val mod 32) 1
        in mask AND b \<noteq> 0
      else
        let start = unat (mte_mask_limit e) div 32;
            limit = unat (mte_mask_limit e) div 32 + unat (mte_value_count e)
        in enum_scan (mte_data e) val start limit)"

lemma enum_scan_iff: "enum_scan data val p limit \<longleftrightarrow> (\<exists>k. p \<le> k \<and> k < limit \<and> data ! k = val)"
proof (induction "limit - p" arbitrary: p)
  case 0
  then show ?case by (subst enum_scan.simps) auto
next
  case (Suc n)
  then have "enum_scan data val (p + 1) limit \<longleftrightarrow> (\<exists>k. p + 1 \<le> k \<and> k < limit \<and> data ! k = val)"
    by simp
  moreover have "(\<exists>k. p \<le> k \<and> k < limit \<and> data ! k = val) \<longleftrightarrow>
      data ! p = val \<or> (\<exists>k. p + 1 \<le> k \<and> k < limit \<and> data ! k = val)"
    using Suc.hyps(2)
    by (metis Suc_eq_plus1 Suc_leD Suc_leI le_neq_implies_less le_refl zero_less_Suc zero_less_diff)
  ultimately show ?case
    using Suc.hyps(2) by (subst enum_scan.simps) auto
qed

text \<open>The set of values the table stands for, and when it is well formed.\<close>

definition enum_mask_bit :: "u32 list \<Rightarrow> nat \<Rightarrow> bool" where
  "enum_mask_bit data v \<longleftrightarrow> bit (data ! (v div 32)) (v mod 32)"

definition enum_wf :: "upb_MiniTableEnum \<Rightarrow> bool" where
  "enum_wf e \<longleftrightarrow> 64 \<le> unat (mte_mask_limit e) \<and> unat (mte_mask_limit e) mod 32 = 0 \<and>
     length (mte_data e) = unat (mte_mask_limit e) div 32 + unat (mte_value_count e)"

lemma and_push_bit_1: "(w AND push_bit n 1 \<noteq> 0) \<longleftrightarrow> bit (w :: 'a::len word) n"
proof -
  have "(w AND push_bit n 1 = 0) \<longleftrightarrow> \<not> bit w n"
    using and_exp_eq_0_iff_not_bit [of w n] by (simp only: push_bit_eq_mult mult_1)
  then show ?thesis by simp
qed

lemma CheckValue_mask:
  assumes "enum_wf e" and "val < mte_mask_limit e"
  shows "upb_MiniTableEnum_CheckValue e val \<longleftrightarrow> enum_mask_bit (mte_data e) (unat val)"
proof (cases "val < 64")
  case True
  then have v: "unat val < 64" by (simp add: word_less_nat_alt)
  have "bit ((ucast (mte_data e ! 0) :: u64) OR push_bit 32 (ucast (mte_data e ! 1))) (unat val)
      \<longleftrightarrow> bit (mte_data e ! (unat val div 32)) (unat val mod 32)"
  proof (cases "unat val < 32")
    case True
    then show ?thesis by (auto simp: bit_or_iff bit_push_bit_iff bit_unsigned_iff)
  next
    case False
    then have "unat val div 32 = 1" "unat val mod 32 = unat val - 32"
      using v by (auto simp: div_nat_eqI mod_if not_less)
    with False v show ?thesis
      by (auto simp: bit_or_iff bit_push_bit_iff bit_unsigned_iff dest: bit_imp_le_length)
  qed
  with True show ?thesis
    by (simp only: upb_MiniTableEnum_CheckValue_def Let_def and_push_bit_1 if_True enum_mask_bit_def)
next
  case False
  with assms show ?thesis
    by (simp only: upb_MiniTableEnum_CheckValue_def Let_def and_push_bit_1 if_False if_True enum_mask_bit_def)
qed

lemma CheckValue_list:
  assumes "enum_wf e" and "mte_mask_limit e \<le> val"
  shows "upb_MiniTableEnum_CheckValue e val \<longleftrightarrow>
    val \<in> set (drop (unat (mte_mask_limit e) div 32) (mte_data e))"
proof -
  have "\<not> val < 64" "\<not> val < mte_mask_limit e"
    using assms by (auto simp: enum_wf_def word_less_nat_alt word_le_nat_alt)
  moreover have "(\<exists>k. unat (mte_mask_limit e) div 32 \<le> k \<and>
      k < unat (mte_mask_limit e) div 32 + unat (mte_value_count e) \<and> mte_data e ! k = val) \<longleftrightarrow>
    val \<in> set (drop (unat (mte_mask_limit e) div 32) (mte_data e))" (is "?L \<longleftrightarrow> ?R")
  proof
    assume ?L
    then obtain k where "unat (mte_mask_limit e) div 32 \<le> k"
      "k < length (mte_data e)" "mte_data e ! k = val"
      using assms(1) by (auto simp: enum_wf_def)
    then show ?R by (auto simp: in_set_conv_nth intro!: exI [of _ "k - unat (mte_mask_limit e) div 32"])
  next
    assume ?R
    then obtain j where "j < unat (mte_value_count e)"
      "mte_data e ! (unat (mte_mask_limit e) div 32 + j) = val"
      using assms(1) by (auto simp: in_set_conv_nth enum_wf_def)
    then show ?L by (intro exI [of _ "unat (mte_mask_limit e) div 32 + j"]) auto
  qed
  ultimately show ?thesis
    by (simp add: upb_MiniTableEnum_CheckValue_def Let_def enum_scan_iff)
qed

section \<open>Mini tables\<close>

datatype upb_ExtMode =
  kUpb_ExtMode_NonExtendable | kUpb_ExtMode_Extendable | kUpb_ExtMode_IsMessageSet
| kUpb_ExtMode_IsMessageSet_ITEM | kUpb_ExtMode_IsMapEntry

text \<open>\<open>MT_Empty\<close> is the address of \<open>_kUpb_MiniTable_Empty\<close>.\<close>

datatype mt_ref = MT_Empty | MT nat

datatype upb_MiniTableSub = SubMsg mt_ref | SubEnum upb_MiniTableEnum

text \<open>\<open>field_count\<close> is the length of \<open>mt_fields\<close>.\<close>

record upb_MiniTable =
  mt_subs :: "upb_MiniTableSub list"
  mt_fields :: "upb_MiniTableField list"
  mt_size :: u16
  mt_ext :: upb_ExtMode
  mt_dense_below :: byte
  mt_required_count :: byte

definition upb_MiniTable_IsEmpty :: "mt_ref \<Rightarrow> bool" where
  "upb_MiniTable_IsEmpty m \<longleftrightarrow> m = MT_Empty"

definition upb_MiniTable_FieldCount :: "upb_MiniTable \<Rightarrow> nat" where
  "upb_MiniTable_FieldCount m = length (mt_fields m)"

definition upb_MiniTable_IsMessageSet :: "upb_MiniTable \<Rightarrow> bool" where
  "upb_MiniTable_IsMessageSet m \<longleftrightarrow> mt_ext m = kUpb_ExtMode_IsMessageSet"

text \<open>The binary search; the found pointer is an index of \<open>mt_fields\<close>.\<close>

function find_field_bsearch ::
  "upb_MiniTableField list \<Rightarrow> u32 \<Rightarrow> int \<Rightarrow> int \<Rightarrow> nat option" where
  "find_field_bsearch base number hi lo =
     (if hi \<ge> lo then
        let mid = (hi + lo) div 2;
            num = mtf_number (base ! nat mid);
            hi_mid = mid - 1;
            lo_mid = mid + 1
        in if num = number then Some (nat mid)
           else if num < number then find_field_bsearch base number hi lo_mid
           else find_field_bsearch base number hi_mid lo
      else None)"
  by pat_completeness auto
termination
  by (relation "measure (\<lambda>(base, number, hi, lo). nat (hi - lo + 1))") auto

declare find_field_bsearch.simps [simp del]

definition upb_MiniTable_FindFieldByNumber :: "upb_MiniTable \<Rightarrow> u32 \<Rightarrow> nat option" where
  "upb_MiniTable_FindFieldByNumber m number =
     (let i = (ucast number :: u64) - 1 in
      if i < ucast (mt_dense_below m) then Some (unat i)
      else
        let hi = int (length (mt_fields m)) - 1 in
        if hi < 0 \<or> number > mtf_number (mt_fields m ! nat hi) then None
        else find_field_bsearch (mt_fields m) number hi (uint (mt_dense_below m)))"

text \<open>What the builder guarantees: numbers ascend, and the first \<open>dense_below\<close> are 1, 2, \<dots>\<close>

definition mt_sorted :: "upb_MiniTable \<Rightarrow> bool" where
  "mt_sorted m \<longleftrightarrow>
     sorted_wrt (<) (map mtf_number (mt_fields m)) \<and>
     unat (mt_dense_below m) \<le> length (mt_fields m) \<and>
     (\<forall>i<unat (mt_dense_below m). unat (mtf_number (mt_fields m ! i)) = Suc i)"

lemma mt_sorted_mono:
  "mt_sorted m \<Longrightarrow> i < j \<Longrightarrow> j < length (mt_fields m) \<Longrightarrow>
     mtf_number (mt_fields m ! i) < mtf_number (mt_fields m ! j)"
  by (auto simp: mt_sorted_def sorted_wrt_iff_nth_less)

lemma mt_sorted_inj:
  "mt_sorted m \<Longrightarrow> i < length (mt_fields m) \<Longrightarrow> j < length (mt_fields m) \<Longrightarrow>
     mtf_number (mt_fields m ! i) = mtf_number (mt_fields m ! j) \<Longrightarrow> i = j"
  by (metis linorder_neqE_nat mt_sorted_mono order_less_irrefl)

lemma find_field_bsearch_correct:
  assumes "mt_sorted m" and "0 \<le> lo" and "hi < int (length (mt_fields m))"
    and "\<forall>j<length (mt_fields m). mtf_number (mt_fields m ! j) = number \<longrightarrow> lo \<le> int j \<and> int j \<le> hi"
  shows "find_field_bsearch (mt_fields m) number hi lo = Some i \<longleftrightarrow>
    i < length (mt_fields m) \<and> mtf_number (mt_fields m ! i) = number"
  using assms(2-)
proof (induction "nat (hi - lo + 1)" arbitrary: hi lo rule: less_induct)
  case less
  show ?case
  proof (cases "lo \<le> hi")
    case False
    with less.prems show ?thesis by (subst find_field_bsearch.simps) auto
  next
    case True
    let ?fs = "mt_fields m" and ?mid = "(hi + lo) div 2"
    have mid: "lo \<le> ?mid" "?mid \<le> hi" "nat ?mid < length ?fs"
      using True less.prems by auto
    consider "mtf_number (?fs ! nat ?mid) = number" | "mtf_number (?fs ! nat ?mid) < number"
      | "number < mtf_number (?fs ! nat ?mid)" by force
    then show ?thesis
    proof cases
      case 1
      then show ?thesis
        using True mid mt_sorted_inj [OF assms(1)]
        by (subst find_field_bsearch.simps) (auto simp: Let_def)
    next
      case 2
      have "?mid + 1 \<le> int j" if "j < length ?fs" "mtf_number (?fs ! j) = number" for j
        using that 2 mid mt_sorted_mono [OF assms(1), of j "nat ?mid"] less.prems
        by (cases j "nat ?mid" rule: linorder_cases) auto
      with 2 True mid less.prems less.hyps [of hi "?mid + 1"] show ?thesis
        by (subst find_field_bsearch.simps) (auto simp: Let_def)
    next
      case 3
      have "int j \<le> ?mid - 1" if "j < length ?fs" "mtf_number (?fs ! j) = number" for j
        using that 3 mid mt_sorted_mono [OF assms(1), of "nat ?mid" j] less.prems
        by (cases j "nat ?mid" rule: linorder_cases) auto
      with 3 True mid less.prems less.hyps [of "?mid - 1" lo] show ?thesis
        by (subst find_field_bsearch.simps) (auto simp: Let_def)
    qed
  qed
qed

text \<open>The lookup finds exactly the field with the number, on the dense and the binary search path.\<close>

lemma FindFieldByNumber_iff:
  assumes wf: "mt_sorted m"
  shows "upb_MiniTable_FindFieldByNumber m number = Some i \<longleftrightarrow>
    i < length (mt_fields m) \<and> mtf_number (mt_fields m ! i) = number"
proof -
  let ?i = "(ucast number :: u64) - 1" and ?d = "unat (mt_dense_below m)" and ?fs = "mt_fields m"
  have ui: "unat ?i = unat number - 1" if "number \<noteq> 0"
    using that ucast_up_eq_0 [of number] by (simp add: unat_minus_one unat_ucast_u32)
  have dense: "?i < ucast (mt_dense_below m) \<longleftrightarrow> number \<noteq> 0 \<and> unat number \<le> ?d"
  proof (cases "number = 0")
    case True
    have "unat (mt_dense_below m) < 256"
      using unsigned_less [where ?'a = nat and w = "mt_dense_below m"] by simp
    with True show ?thesis by (simp add: word_less_nat_alt unat_ucast_byte unsigned_minus_1_eq_mask mask_eq_exp_minus_1)
  next
    case False
    then have "0 < unat number" by (simp add: unat_gt_0)
    with False ui show ?thesis by (auto simp: word_less_nat_alt unat_ucast_byte)
  qed
  show ?thesis
  proof (cases "?i < ucast (mt_dense_below m)")
    case True
    then have n: "number \<noteq> 0" "unat number \<le> ?d" using dense by auto
    then have "0 < unat number" by (simp add: unat_gt_0)
    with n ui wf have "unat ?i < length ?fs" "unat (mtf_number (?fs ! unat ?i)) = unat number"
      by (auto simp: mt_sorted_def)
    then have "mtf_number (?fs ! unat ?i) = number" by (simp add: word_unat_eq_iff)
    with True \<open>unat ?i < length ?fs\<close> mt_sorted_inj [OF wf] show ?thesis
      by (auto simp: upb_MiniTable_FindFieldByNumber_def Let_def)
  next
    case False
    have lo: "uint (mt_dense_below m) \<le> int j" if "j < length ?fs" "mtf_number (?fs ! j) = number" for j
    proof (rule ccontr)
      assume "\<not> ?thesis"
      then have "j < ?d" using uint_nat [of "mt_dense_below m"] by linarith
      then have "unat number = Suc j" using wf that by (auto simp: mt_sorted_def)
      with False dense \<open>j < ?d\<close> show False by auto
    qed
    have hi: "nat (int (length ?fs) - 1) = length ?fs - 1" by simp
    consider "?fs = []" | "?fs \<noteq> []" "number > mtf_number (?fs ! (length ?fs - 1))"
      | "?fs \<noteq> []" "\<not> number > mtf_number (?fs ! (length ?fs - 1))" by blast
    then show ?thesis
    proof cases
      case 1
      with False show ?thesis by (simp add: upb_MiniTable_FindFieldByNumber_def Let_def)
    next
      case 2
      have "mtf_number (?fs ! j) \<le> mtf_number (?fs ! (length ?fs - 1))" if "j < length ?fs" for j
        using that mt_sorted_mono [OF wf, of j "length ?fs - 1"] by (cases "j = length ?fs - 1") (simp, metis Suc_pred' diff_less less_Suc_eq less_imp_le
            less_nat_zero_code neq0_conv One_nat_def)
      with 2(2) have "\<not> (i < length ?fs \<and> mtf_number (?fs ! i) = number)"
        by (meson leD)
      moreover have "upb_MiniTable_FindFieldByNumber m number = None"
        using 2 False hi by (simp add: upb_MiniTable_FindFieldByNumber_def Let_def)
      ultimately show ?thesis by simp
    next
      case 3
      with False hi have "upb_MiniTable_FindFieldByNumber m number =
          find_field_bsearch ?fs number (int (length ?fs) - 1) (uint (mt_dense_below m))"
        by (simp add: upb_MiniTable_FindFieldByNumber_def Let_def)
      moreover have "find_field_bsearch ?fs number (int (length ?fs) - 1) (uint (mt_dense_below m)) = Some i \<longleftrightarrow>
          i < length ?fs \<and> mtf_number (?fs ! i) = number"
        using lo by (intro find_field_bsearch_correct [OF wf]) auto
      ultimately show ?thesis by simp
    qed
  qed
qed

lemma FindFieldByNumber_bound:
  "mt_sorted m \<Longrightarrow> upb_MiniTable_FindFieldByNumber m number = Some i \<Longrightarrow> i < length (mt_fields m)"
  by (simp add: FindFieldByNumber_iff)

section \<open>Oneofs and submessages\<close>

text \<open>The search loops over \<open>fields\<close> from index \<open>k\<close> for the first field of the same oneof.\<close>

fun scan_presence :: "int \<Rightarrow> nat \<Rightarrow> upb_MiniTableField list \<Rightarrow> nat option" where
  "scan_presence pr k [] = None"
| "scan_presence pr k (f # fs) = (if mtf_presence f = pr then Some k else scan_presence pr (Suc k) fs)"

definition upb_MiniTable_GetOneof :: "upb_MiniTable \<Rightarrow> upb_MiniTableField \<Rightarrow> nat option" where
  "upb_MiniTable_GetOneof m f =
     (if \<not> upb_MiniTableField_IsInOneof f then None
      else scan_presence (mtf_presence f) 0 (mt_fields m))"

text \<open>\<open>NextOneofField\<close> on the index of \<open>*f\<close>: the index it moves to, \<open>None\<close> for false.\<close>

definition upb_MiniTable_NextOneofField :: "upb_MiniTable \<Rightarrow> nat \<Rightarrow> nat option" where
  "upb_MiniTable_NextOneofField m k =
     scan_presence (mtf_presence (mt_fields m ! k)) (Suc k) (drop (Suc k) (mt_fields m))"

lemma scan_presence_Some:
  "scan_presence pr k fs = Some i \<longleftrightarrow>
     (\<exists>xs f ys. fs = xs @ f # ys \<and> mtf_presence f = pr \<and> pr \<notin> mtf_presence ` set xs \<and>
        i = k + length xs)"
proof (induction fs arbitrary: k)
  case (Cons f fs)
  show ?case
  proof (cases "mtf_presence f = pr")
    case True
    then show ?thesis by (auto simp: Cons_eq_append_conv)
  next
    case False
    then have "(\<exists>xs g ys. f # fs = xs @ g # ys \<and> mtf_presence g = pr \<and> pr \<notin> mtf_presence ` set xs \<and>
        i = k + length xs) \<longleftrightarrow>
      (\<exists>xs g ys. fs = xs @ g # ys \<and> mtf_presence g = pr \<and> pr \<notin> mtf_presence ` set xs \<and>
        i = Suc k + length xs)" (is "?L \<longleftrightarrow> ?R")
    proof (intro iffI)
      assume ?L
      then obtain xs g ys where *: "f # fs = xs @ g # ys" "mtf_presence g = pr"
        "pr \<notin> mtf_presence ` set xs" "i = k + length xs" by blast
      with False obtain zs where "xs = f # zs" by (cases xs) auto
      with * show ?R by auto
    next
      assume ?R
      then obtain xs g ys where *: "fs = xs @ g # ys" "mtf_presence g = pr"
        "pr \<notin> mtf_presence ` set xs" "i = Suc k + length xs" by blast
      with False show ?L by (intro exI [of _ "f # xs"] exI [of _ g] exI [of _ ys]) auto
    qed
    with False Cons.IH [of "Suc k"] show ?thesis by simp
  qed
qed simp

definition upb_MiniTable_GetSubTableByIndex :: "upb_MiniTable \<Rightarrow> nat \<Rightarrow> mt_ref option" where
  "upb_MiniTable_GetSubTableByIndex m i =
     (if i < length (mt_subs m)
      then (case mt_subs m ! i of SubMsg r \<Rightarrow> Some r | SubEnum e \<Rightarrow> None) else None)"

definition upb_MiniTable_SubMessage :: "upb_MiniTable \<Rightarrow> upb_MiniTableField \<Rightarrow> mt_ref option" where
  "upb_MiniTable_SubMessage m f =
     (if upb_MiniTableField_CType f \<noteq> kUpb_CType_Message then None
      else upb_MiniTable_GetSubTableByIndex m (unat (mtf_submsg_index f)))"

definition upb_MiniTable_GetSubMessageTable :: "upb_MiniTable \<Rightarrow> upb_MiniTableField \<Rightarrow> mt_ref option" where
  "upb_MiniTable_GetSubMessageTable m f =
     (case upb_MiniTable_SubMessage m f of
        None \<Rightarrow> None
      | Some r \<Rightarrow> if upb_MiniTable_IsEmpty r then None else Some r)"

definition upb_MiniTable_FieldIsLinked :: "upb_MiniTable \<Rightarrow> upb_MiniTableField \<Rightarrow> bool" where
  "upb_MiniTable_FieldIsLinked m f \<longleftrightarrow> upb_MiniTable_GetSubMessageTable m f \<noteq> None"

definition upb_MiniTable_GetSubEnumTable ::
  "upb_MiniTable \<Rightarrow> upb_MiniTableField \<Rightarrow> upb_MiniTableEnum option" where
  "upb_MiniTable_GetSubEnumTable m f =
     (if unat (mtf_submsg_index f) < length (mt_subs m)
      then (case mt_subs m ! unat (mtf_submsg_index f) of SubMsg r \<Rightarrow> None | SubEnum e \<Rightarrow> Some e)
      else None)"

text \<open>The mask of the low hasbits, \<open>(1ULL << n) - 1\<close> with \<open>n\<close> required fields.\<close>

definition upb_MiniTable_RequiredMask :: "upb_MiniTable \<Rightarrow> u64" where
  "upb_MiniTable_RequiredMask m = push_bit (unat (mt_required_count m)) 1 - 1"

lemma bit_RequiredMask:
  "bit (upb_MiniTable_RequiredMask m) k \<longleftrightarrow> k < unat (mt_required_count m) \<and> k < 64"
proof -
  have "upb_MiniTable_RequiredMask m = mask (unat (mt_required_count m))"
    by (simp add: upb_MiniTable_RequiredMask_def mask_eq_exp_minus_1 push_bit_eq_mult)
  then show ?thesis by (auto simp: bit_mask_iff)
qed

section \<open>Properties\<close>

text \<open>C21: looking a field up by number, by the dense index or by binary search, finds the field with that
  number if the table has one and nothing otherwise, in every table sorted by field number.\<close>

theorem FindFieldByNumber_exact:
  assumes "mt_sorted m"
  shows "case upb_MiniTable_FindFieldByNumber m number of
      None \<Rightarrow> number \<notin> mtf_number ` set (mt_fields m)
    | Some i \<Rightarrow> i < length (mt_fields m) \<and> mtf_number (mt_fields m ! i) = number"
proof (cases "upb_MiniTable_FindFieldByNumber m number")
  case None
  then have "mtf_number (mt_fields m ! i) \<noteq> number" if "i < length (mt_fields m)" for i
    using FindFieldByNumber_iff [OF assms, of number i] that by simp
  then have "number \<notin> mtf_number ` set (mt_fields m)" by (metis imageE in_set_conv_nth)
  with None show ?thesis by simp
next
  case (Some i)
  with FindFieldByNumber_iff [OF assms, of number i] show ?thesis by simp
qed

theorem FindFieldByNumber_exact_witness:
  "\<exists>m. map mtf_number (mt_fields m) = [1, 2, 9] \<and> mt_dense_below m = 2 \<and>
    (case upb_MiniTable_FindFieldByNumber m 9 of None \<Rightarrow> False
     | Some i \<Rightarrow> i < 3 \<and> mtf_number (mt_fields m ! i) = 9)"
proof -
  define f :: "u32 \<Rightarrow> upb_MiniTableField" where
    "f n = \<lparr>mtf_number = n, mtf_offset = 8, mtf_presence = 0, mtf_submsg_index = 0,
       mtf_descriptortype = kUpb_FieldType_Int32, mtf_mode = 2\<rparr>" for n
  define m where "m = \<lparr>mt_subs = [], mt_fields = [f 1, f 2, f 9], mt_size = 24,
    mt_ext = kUpb_ExtMode_NonExtendable, mt_dense_below = 2, mt_required_count = 0\<rparr>"
  have wf: "mt_sorted m" by (auto simp: mt_sorted_def m_def f_def less_Suc_eq dest!: less_2_cases)
  show ?thesis
    using FindFieldByNumber_exact [OF wf, of 9]
    by (intro exI [of _ m]) (auto simp: m_def f_def split: option.splits)
qed

text \<open>C22: the test of an enum value reads the table as the set it encodes: the bits of the mask for the
  values below the mask limit (the first two words as one 64-bit load), the listed values above it.\<close>

theorem CheckValue_exact:
  assumes "enum_wf e"
  shows "upb_MiniTableEnum_CheckValue e val \<longleftrightarrow>
    (if val < mte_mask_limit e then enum_mask_bit (mte_data e) (unat val)
     else val \<in> set (drop (unat (mte_mask_limit e) div 32) (mte_data e)))"
  using CheckValue_mask [OF assms, of val] CheckValue_list [OF assms, of val] by (auto simp: not_less)

theorem CheckValue_exact_witness:
  "upb_MiniTableEnum_CheckValue \<lparr>mte_mask_limit = 64, mte_value_count = 1, mte_data = [5, 1, 1000]\<rparr> 32 \<and>
   upb_MiniTableEnum_CheckValue \<lparr>mte_mask_limit = 64, mte_value_count = 1, mte_data = [5, 1, 1000]\<rparr> 1000"
  using CheckValue_exact [of "\<lparr>mte_mask_limit = 64, mte_value_count = 1, mte_data = [5, 1, 1000]\<rparr>" 32]
    CheckValue_exact [of "\<lparr>mte_mask_limit = 64, mte_value_count = 1, mte_data = [5, 1, 1000]\<rparr>" 1000]
  by (simp add: enum_wf_def enum_mask_bit_def)

end
