(* ===== verification/Message_Model.thy ===== *)
theory Message_Model
  imports Mini_Table
begin

text \<open>
  Messages in memory: \<open>upb/message/internal/message.h\<close>, \<open>message.c\<close>, \<open>accessors.h\<close>,
  \<open>extension.{h,c}\<close>. A message is the cells of its fields by offset, its hasbit bytes and oneof
  cases, and the internal list of extensions and unknown fields.
\<close>

section \<open>The internal list\<close>

text \<open>
  \<open>upb_TaggedAuxPtr\<close>: NULL, an extension, or unknown data with its aliased bit. The unknown
  data is a string view at address \<open>aux_view\<close> of \<open>aux_bytes\<close>, which lie at \<open>aux_data\<close>.
\<close>

datatype 'x aux_ptr =
  AuxNull
| AuxExtension 'x
| AuxUnknown (aux_aliased: bool) (aux_view: int) (aux_data: int) (aux_bytes: "byte list")

definition upb_TaggedAuxPtr_IsExtension :: "'x aux_ptr \<Rightarrow> bool" where
  "upb_TaggedAuxPtr_IsExtension p = (case p of AuxExtension _ \<Rightarrow> True | _ \<Rightarrow> False)"

definition upb_TaggedAuxPtr_IsUnknown :: "'x aux_ptr \<Rightarrow> bool" where
  "upb_TaggedAuxPtr_IsUnknown p = (case p of AuxUnknown _ _ _ _ \<Rightarrow> True | _ \<Rightarrow> False)"

definition upb_TaggedAuxPtr_IsUnknownAliased :: "'x aux_ptr \<Rightarrow> bool" where
  "upb_TaggedAuxPtr_IsUnknownAliased p = (case p of AuxUnknown al _ _ _ \<Rightarrow> al | _ \<Rightarrow> False)"

text \<open>\<open>upb_Message_Internal\<close>; \<open>size\<close> is the length of the list.\<close>

record 'x upb_Message_Internal =
  in_capacity :: nat
  in_aux :: "'x aux_ptr list"

text \<open>
  \<open>NextUnknown\<close> from index \<open>i\<close> of the list: the entry found and the new index, or \<open>None\<close>
  with the index at the end.
\<close>

function next_unknown :: "'x aux_ptr list \<Rightarrow> nat \<Rightarrow> 'x aux_ptr option \<times> nat" where
  "next_unknown aux i =
     (if i < length aux then
        if upb_TaggedAuxPtr_IsUnknown (aux ! i) then (Some (aux ! i), i + 1)
        else next_unknown aux (i + 1)
      else (None, i))"
  by pat_completeness auto
termination
  by (relation "measure (\<lambda>(aux, i). length aux - i)") auto

declare next_unknown.simps [simp del]

definition upb_Message_NextUnknown ::
  "'x upb_Message_Internal option \<Rightarrow> nat \<Rightarrow> 'x aux_ptr option \<times> nat" where
  "upb_Message_NextUnknown msg iter =
     (case msg of None \<Rightarrow> (None, iter) | Some i \<Rightarrow> next_unknown (in_aux i) iter)"

definition upb_Message_HasUnknown :: "'x upb_Message_Internal option \<Rightarrow> bool" where
  "upb_Message_HasUnknown msg \<longleftrightarrow> fst (upb_Message_NextUnknown msg 0) \<noteq> None"

lemma next_unknown_snd: "i \<le> length aux \<Longrightarrow> i \<le> snd (next_unknown aux i) \<and> snd (next_unknown aux i) \<le> length aux"
  by (induction aux i rule: next_unknown.induct) (subst (1 2) next_unknown.simps, auto)

lemma next_unknown_Some: "next_unknown aux i = (Some p, j) \<Longrightarrow> i < j \<and> j \<le> length aux"
  by (induction aux i rule: next_unknown.induct) (subst (asm) (2) next_unknown.simps, auto split: if_splits)

text \<open>The loops \<open>while (upb_Message_NextUnknown(msg, &unknown, &iter))\<close>: the views in order.\<close>

function unknowns_from :: "'x aux_ptr list \<Rightarrow> nat \<Rightarrow> byte list list" where
  "unknowns_from aux i =
     (case next_unknown aux i of
        (None, _) \<Rightarrow> []
      | (Some p, j) \<Rightarrow> aux_bytes p # unknowns_from aux j)"
  by pat_completeness auto
termination
proof (relation "measure (\<lambda>(aux, i). length aux - i)", goal_cases)
  case (2 aux i r j p)
  from next_unknown_Some [OF 2(1) [symmetric, unfolded 2(2)]] show ?case by auto
qed simp

declare unknowns_from.simps [simp del]

definition unknown_bytes :: "'x aux_ptr list \<Rightarrow> byte list list" where
  "unknown_bytes aux = map aux_bytes (filter upb_TaggedAuxPtr_IsUnknown aux)"

lemma next_unknown_filter:
  "case next_unknown aux i of
     (None, j) \<Rightarrow> filter upb_TaggedAuxPtr_IsUnknown (drop i aux) = []
   | (Some p, j) \<Rightarrow> filter upb_TaggedAuxPtr_IsUnknown (drop i aux) =
       p # filter upb_TaggedAuxPtr_IsUnknown (drop j aux)"
proof (induction aux i rule: next_unknown.induct)
  case (1 aux i)
  then show ?case
    by (subst next_unknown.simps) (auto simp: Cons_nth_drop_Suc [symmetric] split: prod.splits option.splits)
qed

text \<open>The iterator visits exactly the unknown entries, in order.\<close>

lemma unknowns_from_eq: "unknowns_from aux i = unknown_bytes (drop i aux)"
proof (induction "length aux - i" arbitrary: i rule: less_induct)
  case less
  then show ?case
    using next_unknown_filter [where aux = aux and i = i] next_unknown_Some [of aux i]
    by (subst unknowns_from.simps) (auto simp: unknown_bytes_def split: prod.splits option.splits)
qed

section \<open>Messages\<close>

record upb_MiniTableExtension =
  mx_field :: upb_MiniTableField
  mx_extendee :: mt_ref
  mx_sub :: upb_MiniTableSub

text \<open>
  A cell is what the code reads at a field's offset: zeroed memory, the bits of a scalar (in
  the low bytes), a string view, a tagged message pointer with its empty bit, an array
  with its capacity, or a map. A map has the entries of its array part in index order and those of its table in the
  order of the slots; a string table (\<open>is_strtable\<close>) has no array part.
\<close>

datatype upb_Message = Message
    (msg_cells: "(nat \<times> cell) list") (msg_hasbits: "nat \<Rightarrow> byte") (msg_cases: "nat \<Rightarrow> u32")
    (msg_aux: "upb_Extension aux_ptr list option") (msg_aux_capacity: nat)
and cell =
    CZero
  | CScalar u64
  | CStr "byte list"
  | CSub bool upb_Message
  | CArr nat "cell list"
  | CMap bool "(cell \<times> cell) list" "(cell \<times> cell) list"
and upb_Extension = Extension (ext_ext: upb_MiniTableExtension) (ext_data: cell)

definition msg_cell :: "upb_Message \<Rightarrow> nat \<Rightarrow> cell" where
  "msg_cell msg off = (case map_of (msg_cells msg) off of None \<Rightarrow> CZero | Some c \<Rightarrow> c)"

text \<open>Memory read as an integer: a pointer that is not NULL is some non-zero address.\<close>

definition cell_u64 :: "cell \<Rightarrow> u64" where
  "cell_u64 c = (case c of CZero \<Rightarrow> 0 | CScalar w \<Rightarrow> w | _ \<Rightarrow> 1)"

definition cell_str :: "cell \<Rightarrow> byte list" where
  "cell_str c = (case c of CStr bs \<Rightarrow> bs | _ \<Rightarrow> [])"

definition upb_Array_Elems :: "cell \<Rightarrow> cell list" where
  "upb_Array_Elems c = (case c of CArr _ cs \<Rightarrow> cs | _ \<Rightarrow> [])"

definition upb_Map_Size :: "cell \<Rightarrow> nat" where
  "upb_Map_Size c = (case c of CMap s arr tab \<Rightarrow> length arr + length tab | _ \<Rightarrow> 0)"

definition upb_Message_GetHasbit :: "upb_Message \<Rightarrow> upb_MiniTableField \<Rightarrow> bool" where
  "upb_Message_GetHasbit msg f \<longleftrightarrow>
     msg_hasbits msg (upb_MiniTableField_HasbitOffset f) AND upb_MiniTableField_HasbitMask f \<noteq> 0"

definition upb_Message_GetOneofCase :: "upb_Message \<Rightarrow> upb_MiniTableField \<Rightarrow> u32" where
  "upb_Message_GetOneofCase msg f = msg_cases msg (upb_MiniTableField_OneofOffset f)"

definition upb_Message_WhichOneof :: "upb_Message \<Rightarrow> upb_MiniTable \<Rightarrow> upb_MiniTableField \<Rightarrow> nat option" where
  "upb_Message_WhichOneof msg m f =
     (let field_number = upb_Message_GetOneofCase msg f in
      if field_number = 0 then None else upb_MiniTable_FindFieldByNumber m field_number)"

text \<open>The 8 bytes after the header, little-endian, against the mask of required hasbits.\<close>

definition upb_Message_IsInitializedShallow :: "upb_Message \<Rightarrow> upb_MiniTable \<Rightarrow> bool" where
  "upb_Message_IsInitializedShallow msg m \<longleftrightarrow>
     (let bits = le_u64 (map (\<lambda>i. msg_hasbits msg (8 + i)) [0..<8])
      in upb_MiniTable_RequiredMask m AND NOT bits = 0)"

section \<open>Extensions\<close>

definition upb_MiniTableExtension_Number :: "upb_MiniTableExtension \<Rightarrow> u32" where
  "upb_MiniTableExtension_Number e = mtf_number (mx_field e)"

definition upb_MiniTableExtension_CType :: "upb_MiniTableExtension \<Rightarrow> upb_CType" where
  "upb_MiniTableExtension_CType e = upb_MiniTableField_CType (mx_field e)"

definition upb_MiniTableExtension_GetSubMessage :: "upb_MiniTableExtension \<Rightarrow> mt_ref option" where
  "upb_MiniTableExtension_GetSubMessage e =
     (if upb_MiniTableExtension_CType e \<noteq> kUpb_CType_Message then None
      else case mx_sub e of SubMsg r \<Rightarrow> Some r | SubEnum _ \<Rightarrow> None)"

definition upb_MiniTableExtension_GetSubEnum :: "upb_MiniTableExtension \<Rightarrow> upb_MiniTableEnum option" where
  "upb_MiniTableExtension_GetSubEnum e =
     (if upb_MiniTableExtension_CType e \<noteq> kUpb_CType_Enum then None
      else case mx_sub e of SubMsg _ \<Rightarrow> None | SubEnum t \<Rightarrow> Some t)"

definition upb_MiniTableExtension_SetSubMessage ::
  "upb_MiniTableExtension \<Rightarrow> mt_ref \<Rightarrow> upb_MiniTableExtension \<times> bool" where
  "upb_MiniTableExtension_SetSubMessage e m =
     (if mtf_descriptortype (mx_field e) \<noteq> kUpb_FieldType_Message then (e, False)
      else (e\<lparr>mx_sub := SubMsg m\<rparr>, True))"

definition upb_MiniTableExtension_SetSubEnum ::
  "upb_MiniTableExtension \<Rightarrow> upb_MiniTableEnum \<Rightarrow> upb_MiniTableExtension \<times> bool" where
  "upb_MiniTableExtension_SetSubEnum e en =
     (if mtf_descriptortype (mx_field e) \<noteq> kUpb_FieldType_Enum then (e, False)
      else (e\<lparr>mx_sub := SubEnum en\<rparr>, True))"

text \<open>The unreachable mode counts as a scalar.\<close>

definition upb_Extension_IsEmpty :: "upb_Extension \<Rightarrow> bool" where
  "upb_Extension_IsEmpty ext =
     (case upb_MiniTableField_Mode (mx_field (ext_ext ext)) of
        Some kUpb_FieldMode_Array \<Rightarrow> length (upb_Array_Elems (ext_data ext)) = 0
      | Some kUpb_FieldMode_Map \<Rightarrow> upb_Map_Size (ext_data ext) = 0
      | _ \<Rightarrow> False)"

function next_extension :: "upb_Extension aux_ptr list \<Rightarrow> nat \<Rightarrow> upb_Extension option \<times> nat" where
  "next_extension aux i =
     (if i < length aux then
        (case aux ! i of
           AuxExtension ext \<Rightarrow>
             if upb_Extension_IsEmpty ext then next_extension aux (i + 1) else (Some ext, i + 1)
         | _ \<Rightarrow> next_extension aux (i + 1))
      else (None, i))"
  by pat_completeness auto
termination
  by (relation "measure (\<lambda>(aux, i). length aux - i)") auto

declare next_extension.simps [simp del]

definition upb_Message_NextExtension :: "upb_Message \<Rightarrow> nat \<Rightarrow> upb_Extension option \<times> nat" where
  "upb_Message_NextExtension msg iter =
     (case msg_aux msg of None \<Rightarrow> (None, iter) | Some aux \<Rightarrow> next_extension aux iter)"

text \<open>The reverse iterator counts from the end: it reads \<open>aux_data[size - 1 - i]\<close>.\<close>

function next_extension_reverse :: "upb_Extension aux_ptr list \<Rightarrow> nat \<Rightarrow> upb_Extension option \<times> nat" where
  "next_extension_reverse aux i =
     (if i < length aux then
        (case aux ! (length aux - 1 - i) of
           AuxExtension ext \<Rightarrow>
             if upb_Extension_IsEmpty ext then next_extension_reverse aux (i + 1) else (Some ext, i + 1)
         | _ \<Rightarrow> next_extension_reverse aux (i + 1))
      else (None, i))"
  by pat_completeness auto
termination
  by (relation "measure (\<lambda>(aux, i). length aux - i)") auto

declare next_extension_reverse.simps [simp del]

definition upb_Message_NextExtensionReverse :: "upb_Message \<Rightarrow> nat \<Rightarrow> upb_Extension option \<times> nat" where
  "upb_Message_NextExtensionReverse msg iter =
     (case msg_aux msg of None \<Rightarrow> (None, iter) | Some aux \<Rightarrow> next_extension_reverse aux iter)"

lemma next_extension_Some: "next_extension aux i = (Some p, j) \<Longrightarrow> i < j \<and> j \<le> length aux"
proof (induction aux i rule: next_extension.induct)
  case (1 aux i)
  from 1(4) have "(if i < length aux then
        (case aux ! i of
           AuxExtension ext \<Rightarrow>
             if upb_Extension_IsEmpty ext then next_extension aux (i + 1) else (Some ext, i + 1)
         | _ \<Rightarrow> next_extension aux (i + 1))
      else (None, i)) = (Some p, j)" by (simp only: next_extension.simps [of aux i])
  with 1(1-3) show ?case by (auto split: if_splits aux_ptr.splits)
qed

lemma next_extension_reverse_Some:
  "next_extension_reverse aux i = (Some p, j) \<Longrightarrow> i < j \<and> j \<le> length aux"
proof (induction aux i rule: next_extension_reverse.induct)
  case (1 aux i)
  from 1(4) have "(if i < length aux then
        (case aux ! (length aux - 1 - i) of
           AuxExtension ext \<Rightarrow>
             if upb_Extension_IsEmpty ext then next_extension_reverse aux (i + 1) else (Some ext, i + 1)
         | _ \<Rightarrow> next_extension_reverse aux (i + 1))
      else (None, i)) = (Some p, j)" by (simp only: next_extension_reverse.simps [of aux i])
  with 1(1-3) show ?case by (auto split: if_splits aux_ptr.splits)
qed

end
