(* ===== verification/Map_Sorter.thy ===== *)
theory Map_Sorter
  imports Message_Model
begin

text \<open>
  \<open>upb/message/map_sorter.c\<close>: the order in which deterministic encoding visits map entries and
  extensions. The comparison functions are modelled on keys; \<open>qsort\<close> is insertion sort by them,
  which for pairwise different keys is the only sorted permutation.
\<close>

definition c_compare :: "'a::linorder \<Rightarrow> 'a \<Rightarrow> int" where
  "c_compare a b = (if a < b then -1 else if a > b then 1 else 0)"

fun memcmp :: "byte list \<Rightarrow> byte list \<Rightarrow> int" where
  "memcmp (a # as) (b # bs) = (if a = b then memcmp as bs else uint a - uint b)"
| "memcmp _ _ = 0"

definition upb_mapsorter_intkeys :: "cell \<Rightarrow> cell \<Rightarrow> int" where
  "upb_mapsorter_intkeys a b = c_compare (cell_u64 a) (cell_u64 b)"

definition upb_mapsorter_cmpi64 :: "cell \<Rightarrow> cell \<Rightarrow> int" where
  "upb_mapsorter_cmpi64 a b = c_compare (sint (cell_u64 a)) (sint (cell_u64 b))"

definition upb_mapsorter_cmpu64 :: "cell \<Rightarrow> cell \<Rightarrow> int" where
  "upb_mapsorter_cmpu64 a b = c_compare (cell_u64 a) (cell_u64 b)"

definition upb_mapsorter_cmpi32 :: "cell \<Rightarrow> cell \<Rightarrow> int" where
  "upb_mapsorter_cmpi32 a b = c_compare (sint (ucast (cell_u64 a) :: u32)) (sint (ucast (cell_u64 b) :: u32))"

definition upb_mapsorter_cmpu32 :: "cell \<Rightarrow> cell \<Rightarrow> int" where
  "upb_mapsorter_cmpu32 a b = c_compare (ucast (cell_u64 a) :: u32) (ucast (cell_u64 b) :: u32)"

definition upb_mapsorter_cmpbool :: "cell \<Rightarrow> cell \<Rightarrow> int" where
  "upb_mapsorter_cmpbool a b = c_compare (ucast (cell_u64 a) :: byte) (ucast (cell_u64 b) :: byte)"

text \<open>Different bytes compare in the opposite order, a proper prefix comes first.\<close>

definition upb_mapsorter_cmpstr :: "cell \<Rightarrow> cell \<Rightarrow> int" where
  "upb_mapsorter_cmpstr a b =
     (let as = cell_str a; bs = cell_str b;
          common_size = min (length as) (length bs);
          cmp = memcmp (take common_size as) (take common_size bs)
      in if cmp \<noteq> 0 then - cmp else c_compare (length as) (length bs))"

text \<open>The table of comparison functions; it has no entry for the other types.\<close>

definition compar :: "upb_FieldType \<Rightarrow> (cell \<Rightarrow> cell \<Rightarrow> int) option" where
  "compar t =
     (case t of
        kUpb_FieldType_Int64 \<Rightarrow> Some upb_mapsorter_cmpi64
      | kUpb_FieldType_SFixed64 \<Rightarrow> Some upb_mapsorter_cmpi64
      | kUpb_FieldType_SInt64 \<Rightarrow> Some upb_mapsorter_cmpi64
      | kUpb_FieldType_UInt64 \<Rightarrow> Some upb_mapsorter_cmpu64
      | kUpb_FieldType_Fixed64 \<Rightarrow> Some upb_mapsorter_cmpu64
      | kUpb_FieldType_Int32 \<Rightarrow> Some upb_mapsorter_cmpi32
      | kUpb_FieldType_SInt32 \<Rightarrow> Some upb_mapsorter_cmpi32
      | kUpb_FieldType_SFixed32 \<Rightarrow> Some upb_mapsorter_cmpi32
      | kUpb_FieldType_Enum \<Rightarrow> Some upb_mapsorter_cmpi32
      | kUpb_FieldType_UInt32 \<Rightarrow> Some upb_mapsorter_cmpu32
      | kUpb_FieldType_Fixed32 \<Rightarrow> Some upb_mapsorter_cmpu32
      | kUpb_FieldType_Bool \<Rightarrow> Some upb_mapsorter_cmpbool
      | kUpb_FieldType_String \<Rightarrow> Some upb_mapsorter_cmpstr
      | kUpb_FieldType_Bytes \<Rightarrow> Some upb_mapsorter_cmpstr
      | _ \<Rightarrow> None)"

fun qsort_insert :: "('a \<Rightarrow> 'a \<Rightarrow> int) \<Rightarrow> 'a \<Rightarrow> 'a list \<Rightarrow> 'a list" where
  "qsort_insert cmp x [] = [x]"
| "qsort_insert cmp x (y # ys) = (if cmp x y \<le> 0 then x # y # ys else y # qsort_insert cmp x ys)"

definition qsort :: "('a \<Rightarrow> 'a \<Rightarrow> int) \<Rightarrow> 'a list \<Rightarrow> 'a list" where
  "qsort cmp xs = foldr (qsort_insert cmp) xs []"

text \<open>
  \<open>pushmap\<close>: the table entries in the order of \<open>_upb_sortedmap_next\<close>. The array part of an
  integer table is not pushed.
\<close>

definition upb_mapsorter_pushmap ::
  "upb_FieldType \<Rightarrow> bool \<Rightarrow> (cell \<times> cell) list \<Rightarrow> (cell \<times> cell) list" where
  "upb_mapsorter_pushmap key_type is_strtable tab =
     (let cmp = (if is_strtable then the (compar key_type) else upb_mapsorter_intkeys)
      in qsort (\<lambda>a b. cmp (fst a) (fst b)) tab)"

definition upb_mapsorter_cmpext :: "upb_Extension \<Rightarrow> upb_Extension \<Rightarrow> int" where
  "upb_mapsorter_cmpext a b =
     (let a_num = upb_MiniTableExtension_Number (ext_ext a);
          b_num = upb_MiniTableExtension_Number (ext_ext b)
      in if a_num < b_num then -1 else 1)"

definition upb_mapsorter_pushexts :: "upb_Extension aux_ptr list \<Rightarrow> upb_Extension list" where
  "upb_mapsorter_pushexts aux =
     qsort upb_mapsorter_cmpext
       (List.map_filter (\<lambda>p. case p of AuxExtension ext \<Rightarrow> Some ext | _ \<Rightarrow> None) aux)"

section \<open>Sorting does not depend on the order of the table\<close>

lemma set_qsort_insert: "set (qsort_insert cmp x zs) = insert x (set zs)"
  by (induction zs) auto

lemma set_qsort: "set (qsort cmp xs) = set xs"
  by (induction xs) (simp_all add: qsort_def set_qsort_insert)

text \<open>
  A comparison function is a linear order on a set of keys when its sign is antisymmetric and
  transitive there and it separates the keys.
\<close>

locale comparator =
  fixes cmp :: "'a \<Rightarrow> 'a \<Rightarrow> int" and S :: "'a set"
  assumes antisym: "x \<in> S \<Longrightarrow> y \<in> S \<Longrightarrow> x \<noteq> y \<Longrightarrow> (cmp x y \<le> 0) \<noteq> (cmp y x \<le> 0)"
    and trans: "x \<in> S \<Longrightarrow> y \<in> S \<Longrightarrow> z \<in> S \<Longrightarrow> cmp x y \<le> 0 \<Longrightarrow> cmp y z \<le> 0 \<Longrightarrow> x \<noteq> z \<Longrightarrow> cmp x z \<le> 0"
begin

lemma insert_comm:
  assumes "x \<in> S" and "y \<in> S" and "x \<noteq> y" and "set zs \<subseteq> S" and "x \<notin> set zs" and "y \<notin> set zs"
  shows "qsort_insert cmp x (qsort_insert cmp y zs) = qsort_insert cmp y (qsort_insert cmp x zs)"
  using assms
proof (induction zs)
  case Nil
  then show ?case using antisym [of x y] by auto
next
  case (Cons z zs)
  then have S: "x \<in> S" "y \<in> S" "z \<in> S" "x \<noteq> y" "x \<noteq> z" "y \<noteq> z" by auto
  note a = antisym [OF S(1,2,4)] antisym [OF S(1,3,5)] antisym [OF S(2,3,6)]
  note t = trans [OF S(1,2,3)] trans [OF S(2,1,3)]
  show ?case using Cons a t S by (auto)
qed

lemma qsort_swap:
  assumes "set (xs @ x # ys) \<subseteq> S" and "distinct (xs @ x # ys)"
  shows "qsort cmp (xs @ x # ys) = qsort_insert cmp x (qsort cmp (xs @ ys))"
  using assms
proof (induction xs)
  case Nil
  then show ?case by (simp add: qsort_def)
next
  case (Cons w xs)
  have "qsort cmp (w # xs @ x # ys) = qsort_insert cmp w (qsort_insert cmp x (qsort cmp (xs @ ys)))"
    using Cons by (simp add: qsort_def)
  also have "\<dots> = qsort_insert cmp x (qsort_insert cmp w (qsort cmp (xs @ ys)))"
    using Cons.prems by (intro insert_comm) (auto simp: set_qsort)
  finally show ?case by (simp add: qsort_def)
qed

text \<open>Two tables with the same entries in any two orders sort to the same list.\<close>

lemma qsort_permute:
  assumes "set xs \<subseteq> S" and "distinct xs" and "distinct ys" and "set xs = set ys"
  shows "qsort cmp xs = qsort cmp ys"
  using assms
proof (induction xs arbitrary: ys)
  case Nil
  then show ?case by simp
next
  case (Cons x xs)
  then obtain us vs where ys: "ys = us @ x # vs"
    by (metis in_set_conv_decomp list.set_intros(1))
  have "set xs = set (us @ vs)" using Cons.prems ys by auto
  with Cons.prems ys have "qsort cmp xs = qsort cmp (us @ vs)" by (intro Cons.IH) auto
  moreover have "qsort cmp ys = qsort_insert cmp x (qsort cmp (us @ vs))"
    using Cons.prems unfolding ys by (intro qsort_swap) auto
  ultimately show ?case by (simp add: qsort_def)
qed

end

section \<open>The comparison functions are linear orders\<close>

lemma c_compare_le: "c_compare a b \<le> 0 \<longleftrightarrow> a \<le> b"
  by (auto simp: c_compare_def)

lemma c_compare_comparator:
  "inj_on g S \<Longrightarrow> comparator (\<lambda>a b. c_compare (g a) (g b)) S"
  by unfold_locales (auto simp: c_compare_le dest: inj_onD)

lemma comparator_entries:
  assumes "comparator cmp K" and "fst ` E \<subseteq> K" and "inj_on fst E"
  shows "comparator (\<lambda>a b. cmp (fst a) (fst b)) E"
proof unfold_locales
  fix x y assume "x \<in> E" "y \<in> E" "x \<noteq> y"
  then have "fst x \<in> K" "fst y \<in> K" "fst x \<noteq> fst y" using assms(2,3) by (auto dest: inj_onD)
  then show "(cmp (fst x) (fst y) \<le> 0) \<noteq> (cmp (fst y) (fst x) \<le> 0)"
    by (rule comparator.antisym [OF assms(1)])
next
  fix x y z assume "x \<in> E" "y \<in> E" "z \<in> E" "cmp (fst x) (fst y) \<le> 0" "cmp (fst y) (fst z) \<le> 0" "x \<noteq> z"
  moreover from this have "fst x \<in> K" "fst y \<in> K" "fst z \<in> K" "fst x \<noteq> fst z"
    using assms(2,3) by (auto dest: inj_onD)
  ultimately show "cmp (fst x) (fst z) \<le> 0"
    using comparator.trans [OF assms(1), of "fst x" "fst y" "fst z"] by simp
qed

text \<open>The order of \<open>cmpstr\<close> by recursion on the strings.\<close>

fun str_le :: "byte list \<Rightarrow> byte list \<Rightarrow> bool" where
  "str_le [] bs = True"
| "str_le (a # as) [] = False"
| "str_le (a # as) (b # bs) = (if a = b then str_le as bs else b < a)"

lemma cmpstr_le: "upb_mapsorter_cmpstr (CStr as) (CStr bs) \<le> 0 \<longleftrightarrow> str_le as bs"
proof -
  have "(let n = min (length as) (length bs); cmp = memcmp (take n as) (take n bs)
      in if cmp \<noteq> 0 then - cmp else c_compare (length as) (length bs)) \<le> 0 \<longleftrightarrow> str_le as bs"
    by (induction as bs rule: str_le.induct)
      (auto simp: Let_def c_compare_def word_less_def word_uint_eq_iff split: if_splits)
  then show ?thesis by (simp add: upb_mapsorter_cmpstr_def cell_str_def Let_def)
qed

lemma str_le_Nil: "str_le bs [] \<longleftrightarrow> bs = []"
  by (cases bs) auto

lemma str_le_antisym: "as \<noteq> bs \<Longrightarrow> str_le as bs \<noteq> str_le bs as"
  by (induction as bs rule: str_le.induct) (auto simp: str_le_Nil split: if_splits)

lemma str_le_trans: "str_le as bs \<Longrightarrow> str_le bs cs \<Longrightarrow> str_le as cs"
proof (induction as arbitrary: bs cs)
  case (Cons a as)
  then obtain b bs' where bs: "bs = b # bs'" by (cases bs) auto
  with Cons.prems obtain c cs' where cs: "cs = c # cs'" by (cases cs) auto
  show ?case using Cons bs cs by (auto split: if_splits)
qed simp

interpretation i64: comparator upb_mapsorter_cmpi64 "range CScalar"
  unfolding upb_mapsorter_cmpi64_def
  by (rule c_compare_comparator) (auto simp: inj_on_def cell_u64_def dest: signed_word_eqI)

interpretation u64: comparator upb_mapsorter_cmpu64 "range CScalar"
  unfolding upb_mapsorter_cmpu64_def
  by (rule c_compare_comparator) (auto simp: inj_on_def cell_u64_def)

interpretation int_keys: comparator upb_mapsorter_intkeys "range CScalar"
  unfolding upb_mapsorter_intkeys_def
  by (rule c_compare_comparator) (auto simp: inj_on_def cell_u64_def)

interpretation i32: comparator upb_mapsorter_cmpi32 "range (\<lambda>w :: u32. CScalar (ucast w))"
  unfolding upb_mapsorter_cmpi32_def
  by (rule c_compare_comparator)
    (auto simp: inj_on_def cell_u64_def ucast_up_down dest!: signed_word_eqI)

interpretation u32: comparator upb_mapsorter_cmpu32 "range (\<lambda>w :: u32. CScalar (ucast w))"
  unfolding upb_mapsorter_cmpu32_def
  by (rule c_compare_comparator) (auto simp: inj_on_def cell_u64_def ucast_up_down)

interpretation bool_keys: comparator upb_mapsorter_cmpbool "range (\<lambda>w :: byte. CScalar (ucast w))"
  unfolding upb_mapsorter_cmpbool_def
  by (rule c_compare_comparator) (auto simp: inj_on_def cell_u64_def ucast_up_down)

interpretation str_keys: comparator upb_mapsorter_cmpstr "range CStr"
proof unfold_locales
  fix x y assume "x \<in> range CStr" "y \<in> range CStr" "x \<noteq> y"
  then show "(upb_mapsorter_cmpstr x y \<le> 0) \<noteq> (upb_mapsorter_cmpstr y x \<le> 0)"
    by (auto simp: cmpstr_le dest: str_le_antisym)
next
  fix x y z assume "x \<in> range CStr" "y \<in> range CStr" "z \<in> range CStr"
    "upb_mapsorter_cmpstr x y \<le> 0" "upb_mapsorter_cmpstr y z \<le> 0"
  then show "upb_mapsorter_cmpstr x z \<le> 0"
    by (auto simp: cmpstr_le intro: str_le_trans)
qed

text \<open>The keys a map of each key type can hold.\<close>

definition key_cells :: "upb_FieldType \<Rightarrow> bool \<Rightarrow> cell set" where
  "key_cells t is_strtable =
     (if \<not> is_strtable then range CScalar
      else case t of
        kUpb_FieldType_String \<Rightarrow> range CStr
      | kUpb_FieldType_Bytes \<Rightarrow> range CStr
      | kUpb_FieldType_Bool \<Rightarrow> range (\<lambda>w :: byte. CScalar (ucast w))
      | kUpb_FieldType_Int64 \<Rightarrow> range CScalar
      | kUpb_FieldType_SFixed64 \<Rightarrow> range CScalar
      | kUpb_FieldType_SInt64 \<Rightarrow> range CScalar
      | kUpb_FieldType_UInt64 \<Rightarrow> range CScalar
      | kUpb_FieldType_Fixed64 \<Rightarrow> range CScalar
      | kUpb_FieldType_Double \<Rightarrow> {}
      | kUpb_FieldType_Float \<Rightarrow> {}
      | kUpb_FieldType_Group \<Rightarrow> {}
      | kUpb_FieldType_Message \<Rightarrow> {}
      | _ \<Rightarrow> range (\<lambda>w :: u32. CScalar (ucast w)))"

lemma pushmap_comparator:
  assumes "fst ` set tab \<subseteq> key_cells t is_strtable" and "distinct (map fst tab)"
    and "tab \<noteq> []"
  shows "comparator (\<lambda>a b. (if is_strtable then the (compar t) else upb_mapsorter_intkeys) (fst a) (fst b)) (set tab)"
proof (rule comparator_entries [OF _ assms(1)])
  show "inj_on fst (set tab)" using assms(2) by (simp add: distinct_map)
  have "key_cells t is_strtable \<noteq> {}" using assms(1,3) by auto
  then show "comparator (if is_strtable then the (compar t) else upb_mapsorter_intkeys) (key_cells t is_strtable)"
    unfolding key_cells_def compar_def
    using i64.comparator_axioms u64.comparator_axioms int_keys.comparator_axioms
      i32.comparator_axioms u32.comparator_axioms bool_keys.comparator_axioms str_keys.comparator_axioms
    by (cases t) (simp_all split: if_splits)
qed

text \<open>The order in which the entries lie in the table does not change what is visited.\<close>

lemma pushmap_permute:
  assumes "fst ` set tab \<subseteq> key_cells t is_strtable" and "distinct (map fst tab)"
    and "distinct (map fst tab')" and "set tab' = set tab"
  shows "upb_mapsorter_pushmap t is_strtable tab' = upb_mapsorter_pushmap t is_strtable tab"
proof (cases "tab = []")
  case True
  with assms(4) show ?thesis by simp
next
  case False
  show ?thesis
    unfolding upb_mapsorter_pushmap_def Let_def
    by (rule comparator.qsort_permute [OF pushmap_comparator [OF assms(1,2) False]])
      (use assms in \<open>auto simp: distinct_map\<close>)
qed

end
