(* ===== verification/Wire_Encode.thy ===== *)
theory Wire_Encode
  imports Wire_Varint Map_Sorter
begin

text \<open>
  \<open>upb/wire/encode.c\<close>, the encoder. It fills its buffer from the end towards the front, so
  that the length of a submessage is known when its length prefix is written. A pointer is an
  offset from \<open>e->buf\<close>; everything from \<open>ptr\<close> to \<open>limit\<close> has been written.
\<close>

section \<open>The buffer\<close>

datatype upb_EncodeStatus =
  kUpb_EncodeStatus_Ok | kUpb_EncodeStatus_OutOfMemory | kUpb_EncodeStatus_MaxDepthExceeded
| kUpb_EncodeStatus_MissingRequired
| EncodeOutOfFuel

text \<open>
  \<open>es_mem\<close> is the memory from \<open>buf\<close> to \<open>limit\<close>. \<open>EncodeOutOfFuel\<close> is not a status of the code:
  it marks the end of the recursion bound of the model, which \<open>upb_Encode_terminates\<close> shows unreachable.
\<close>

record upb_encstate =
  es_mem :: "byte list"
  es_options :: u32
  es_depth :: int

abbreviation (input) "kUpb_EncodeOption_Deterministic \<equiv> 1 :: u32"
abbreviation (input) "kUpb_EncodeOption_SkipUnknown \<equiv> 2 :: u32"
abbreviation (input) "kUpb_EncodeOption_CheckRequired \<equiv> 4 :: u32"

abbreviation (input) "kUpb_WireType_Varint \<equiv> 0 :: byte"
abbreviation (input) "kUpb_WireType_64Bit \<equiv> 1 :: byte"
abbreviation (input) "kUpb_WireType_Delimited \<equiv> 2 :: byte"
abbreviation (input) "kUpb_WireType_StartGroup \<equiv> 3 :: byte"
abbreviation (input) "kUpb_WireType_EndGroup \<equiv> 4 :: byte"
abbreviation (input) "kUpb_WireType_32Bit \<equiv> 5 :: byte"

type_synonym 'a encres = "upb_EncodeStatus + 'a"

function roundup_pow2_loop :: "nat \<Rightarrow> nat \<Rightarrow> nat" where
  "roundup_pow2_loop ret bytes =
     (if 0 < ret \<and> ret < bytes then roundup_pow2_loop (ret * 2) bytes else ret)"
  by pat_completeness auto
termination
  by (relation "measure (\<lambda>(ret, bytes). bytes - ret)") auto

declare roundup_pow2_loop.simps [simp del]

definition upb_roundup_pow2 :: "nat \<Rightarrow> nat" where
  "upb_roundup_pow2 bytes = roundup_pow2_loop 128 bytes"

text \<open>
  \<open>alloc n\<close> says whether the arena grants \<open>n\<close> bytes. \<open>realloc\<close> keeps the old bytes at the front
  (fresh memory is taken as 0) and \<open>memmove\<close> puts a copy at the end.
\<close>

definition encode_growbuffer ::
  "(nat \<Rightarrow> bool) \<Rightarrow> nat \<Rightarrow> upb_encstate \<Rightarrow> nat \<Rightarrow> (upb_encstate \<times> nat) encres" where
  "encode_growbuffer alloc ptr e bytes =
     (let old_size = length (es_mem e);
          needed_size = bytes + (length (es_mem e) - ptr);
          new_size = upb_roundup_pow2 needed_size
      in if \<not> alloc new_size then Inl kUpb_EncodeStatus_OutOfMemory
         else
           let new_buf = es_mem e @ replicate (new_size - old_size) 0;
               new_buf = take (new_size - old_size) new_buf @ es_mem e
           in Inr (e\<lparr>es_mem := new_buf\<rparr>, new_size - needed_size))"

definition encode_reserve ::
  "(nat \<Rightarrow> bool) \<Rightarrow> nat \<Rightarrow> upb_encstate \<Rightarrow> nat \<Rightarrow> (upb_encstate \<times> nat) encres" where
  "encode_reserve alloc ptr e bytes =
     (if ptr < bytes then encode_growbuffer alloc ptr e bytes else Inr (e, ptr - bytes))"

text \<open>\<open>memcpy(ptr, data, n)\<close> into the buffer.\<close>

definition write_at :: "upb_encstate \<Rightarrow> nat \<Rightarrow> byte list \<Rightarrow> upb_encstate" where
  "write_at e ptr data =
     e\<lparr>es_mem := take ptr (es_mem e) @ data @ drop (ptr + length data) (es_mem e)\<rparr>"

definition encode_bytes ::
  "(nat \<Rightarrow> bool) \<Rightarrow> nat \<Rightarrow> upb_encstate \<Rightarrow> byte list \<Rightarrow> (upb_encstate \<times> nat) encres" where
  "encode_bytes alloc ptr e data =
     (if length data = 0 then Inr (e, ptr)
      else bindE (encode_reserve alloc ptr e (length data)) (\<lambda>(e, ptr).
             Inr (write_at e ptr data, ptr)))"

text \<open>The bytes of an integer in memory on the little-endian machine.\<close>

definition le_bytes :: "nat \<Rightarrow> u64 \<Rightarrow> byte list" where
  "le_bytes n w = map (\<lambda>i. ucast (drop_bit (8 * i) w)) [0..<n]"

definition encode_fixed64 ::
  "(nat \<Rightarrow> bool) \<Rightarrow> nat \<Rightarrow> upb_encstate \<Rightarrow> u64 \<Rightarrow> (upb_encstate \<times> nat) encres" where
  "encode_fixed64 alloc ptr e val = encode_bytes alloc ptr e (le_bytes 8 val)"

definition encode_fixed32 ::
  "(nat \<Rightarrow> bool) \<Rightarrow> nat \<Rightarrow> upb_encstate \<Rightarrow> u32 \<Rightarrow> (upb_encstate \<times> nat) encres" where
  "encode_fixed32 alloc ptr e val = encode_bytes alloc ptr e (le_bytes 4 (ucast val))"

text \<open>The loop writes at the front of the 10 reserved bytes; \<open>memmove\<close> puts the result at their end.\<close>

definition encode_longvarint ::
  "(nat \<Rightarrow> bool) \<Rightarrow> nat \<Rightarrow> upb_encstate \<Rightarrow> u64 \<Rightarrow> (upb_encstate \<times> nat) encres" where
  "encode_longvarint alloc ptr e val =
     bindE (encode_reserve alloc ptr e 10) (\<lambda>(e, ptr).
       let bytes = longvarint_loop val;
           e = write_at e ptr bytes;
           start = ptr + 10 - length bytes
       in Inr (write_at e start bytes, start))"

definition encode_varint ::
  "(nat \<Rightarrow> bool) \<Rightarrow> nat \<Rightarrow> upb_encstate \<Rightarrow> u64 \<Rightarrow> (upb_encstate \<times> nat) encres" where
  "encode_varint alloc ptr e val =
     (if val < 128 \<and> ptr \<noteq> 0 then Inr (write_at e (ptr - 1) [ucast val], ptr - 1)
      else encode_longvarint alloc ptr e val)"

text \<open>\<open>encode_double\<close> and \<open>encode_float\<close> take the bits of the value, which is all they use.\<close>

definition encode_double ::
  "(nat \<Rightarrow> bool) \<Rightarrow> nat \<Rightarrow> upb_encstate \<Rightarrow> u64 \<Rightarrow> (upb_encstate \<times> nat) encres" where
  "encode_double alloc ptr e d = encode_fixed64 alloc ptr e d"

definition encode_float ::
  "(nat \<Rightarrow> bool) \<Rightarrow> nat \<Rightarrow> upb_encstate \<Rightarrow> u32 \<Rightarrow> (upb_encstate \<times> nat) encres" where
  "encode_float alloc ptr e d = encode_fixed32 alloc ptr e d"

definition encode_tag ::
  "(nat \<Rightarrow> bool) \<Rightarrow> nat \<Rightarrow> upb_encstate \<Rightarrow> u32 \<Rightarrow> byte \<Rightarrow> (upb_encstate \<times> nat) encres" where
  "encode_tag alloc ptr e field_number wire_type =
     encode_varint alloc ptr e (ucast (push_bit 3 field_number OR ucast wire_type :: u32))"

section \<open>Fields\<close>

text \<open>
  The encoder of a submessage is a parameter \<open>em\<close> of the functions below (state, pointer,
  message and table to state, pointer and size); \<open>encode_message\<close> ties the knot.
\<close>

type_synonym msg_encoder =
  "nat \<Rightarrow> upb_encstate \<Rightarrow> upb_Message \<Rightarrow> mt_ref \<Rightarrow> (upb_encstate \<times> nat \<times> nat) encres"

definition upb_Encoder_GetSubMiniTable :: "upb_MiniTableSub list \<Rightarrow> upb_MiniTableField \<Rightarrow> mt_ref" where
  "upb_Encoder_GetSubMiniTable subs f =
     (case subs ! unat (mtf_submsg_index f) of SubMsg r \<Rightarrow> r | SubEnum _ \<Rightarrow> MT_Empty)"

definition encode_TaggedMessagePtr ::
  "msg_encoder \<Rightarrow> nat \<Rightarrow> upb_encstate \<Rightarrow> bool \<Rightarrow> upb_Message \<Rightarrow> mt_ref \<Rightarrow>
     (upb_encstate \<times> nat \<times> nat) encres" where
  "encode_TaggedMessagePtr em ptr e is_empty msg m =
     (let m = (if is_empty then MT_Empty else m) in em ptr e msg m)"

text \<open>The varint of a scalar of each varint type, read from its memory.\<close>

definition varint_of :: "upb_FieldType \<Rightarrow> u64 \<Rightarrow> u64 option" where
  "varint_of t w =
     (case t of
        kUpb_FieldType_Int64 \<Rightarrow> Some w
      | kUpb_FieldType_UInt64 \<Rightarrow> Some w
      | kUpb_FieldType_UInt32 \<Rightarrow> Some (ucast (ucast w :: u32))
      | kUpb_FieldType_Int32 \<Rightarrow> Some (scast (ucast w :: u32))
      | kUpb_FieldType_Enum \<Rightarrow> Some (scast (ucast w :: u32))
      | kUpb_FieldType_Bool \<Rightarrow> Some (ucast (ucast w :: byte))
      | kUpb_FieldType_SInt32 \<Rightarrow> Some (ucast (encode_zz32 (ucast w)))
      | kUpb_FieldType_SInt64 \<Rightarrow> Some (encode_zz64 w)
      | _ \<Rightarrow> None)"

text \<open>The cases of \<open>encode_scalar\<close>; a NULL submessage returns at once, without a tag.\<close>

definition encode_scalar ::
  "(nat \<Rightarrow> bool) \<Rightarrow> msg_encoder \<Rightarrow> nat \<Rightarrow> upb_encstate \<Rightarrow> cell \<Rightarrow> upb_MiniTableSub list \<Rightarrow>
     upb_MiniTableField \<Rightarrow> (upb_encstate \<times> nat) encres" where
  "encode_scalar alloc em ptr e mem subs f =
     (let finish = (\<lambda>wire_type (e, ptr). encode_tag alloc ptr e (mtf_number f) wire_type) in
      case mtf_descriptortype f of
        kUpb_FieldType_Double \<Rightarrow>
          bindE (encode_double alloc ptr e (cell_u64 mem)) (finish kUpb_WireType_64Bit)
      | kUpb_FieldType_Float \<Rightarrow>
          bindE (encode_float alloc ptr e (ucast (cell_u64 mem))) (finish kUpb_WireType_32Bit)
      | kUpb_FieldType_SFixed64 \<Rightarrow>
          bindE (encode_fixed64 alloc ptr e (cell_u64 mem)) (finish kUpb_WireType_64Bit)
      | kUpb_FieldType_Fixed64 \<Rightarrow>
          bindE (encode_fixed64 alloc ptr e (cell_u64 mem)) (finish kUpb_WireType_64Bit)
      | kUpb_FieldType_Fixed32 \<Rightarrow>
          bindE (encode_fixed32 alloc ptr e (ucast (cell_u64 mem))) (finish kUpb_WireType_32Bit)
      | kUpb_FieldType_SFixed32 \<Rightarrow>
          bindE (encode_fixed32 alloc ptr e (ucast (cell_u64 mem))) (finish kUpb_WireType_32Bit)
      | kUpb_FieldType_String \<Rightarrow>
          bindE (encode_bytes alloc ptr e (cell_str mem)) (\<lambda>(e, ptr).
          bindE (encode_varint alloc ptr e (of_nat (length (cell_str mem)))) (finish kUpb_WireType_Delimited))
      | kUpb_FieldType_Bytes \<Rightarrow>
          bindE (encode_bytes alloc ptr e (cell_str mem)) (\<lambda>(e, ptr).
          bindE (encode_varint alloc ptr e (of_nat (length (cell_str mem)))) (finish kUpb_WireType_Delimited))
      | kUpb_FieldType_Group \<Rightarrow>
          (case mem of
             CSub is_empty msg \<Rightarrow>
               let subm = upb_Encoder_GetSubMiniTable subs f;
                   e = e\<lparr>es_depth := es_depth e - 1\<rparr> in
               if es_depth e = 0 then Inl kUpb_EncodeStatus_MaxDepthExceeded
               else
                 bindE (encode_tag alloc ptr e (mtf_number f) kUpb_WireType_EndGroup) (\<lambda>(e, ptr).
                 bindE (encode_TaggedMessagePtr em ptr e is_empty msg subm) (\<lambda>(e, ptr, sz).
                 finish kUpb_WireType_StartGroup (e\<lparr>es_depth := es_depth e + 1\<rparr>, ptr)))
           | _ \<Rightarrow> Inr (e, ptr))
      | kUpb_FieldType_Message \<Rightarrow>
          (case mem of
             CSub is_empty msg \<Rightarrow>
               let subm = upb_Encoder_GetSubMiniTable subs f;
                   e = e\<lparr>es_depth := es_depth e - 1\<rparr> in
               if es_depth e = 0 then Inl kUpb_EncodeStatus_MaxDepthExceeded
               else
                 bindE (encode_TaggedMessagePtr em ptr e is_empty msg subm) (\<lambda>(e, ptr, sz).
                 bindE (encode_varint alloc ptr e (of_nat sz)) (\<lambda>(e, ptr).
                 finish kUpb_WireType_Delimited (e\<lparr>es_depth := es_depth e + 1\<rparr>, ptr)))
           | _ \<Rightarrow> Inr (e, ptr))
      | t \<Rightarrow>
          bindE (encode_varint alloc ptr e (the (varint_of t (cell_u64 mem)))) (finish kUpb_WireType_Varint))"

subsection \<open>Arrays\<close>

text \<open>
  The loops run from the last element to the first: \<open>elems\<close> is the part of the array still to be
  written, reversed. A tag of 0 means a packed array.
\<close>

fun fixedarray_loop ::
  "(nat \<Rightarrow> bool) \<Rightarrow> nat \<Rightarrow> upb_encstate \<Rightarrow> nat \<Rightarrow> u32 \<Rightarrow> cell list \<Rightarrow> (upb_encstate \<times> nat) encres" where
  "fixedarray_loop alloc ptr e elem_size tag [] = Inr (e, ptr)"
| "fixedarray_loop alloc ptr e elem_size tag (c # elems) =
     bindE (encode_bytes alloc ptr e (le_bytes elem_size (cell_u64 c))) (\<lambda>(e, ptr).
     bindE (if tag \<noteq> 0 then encode_varint alloc ptr e (ucast tag) else Inr (e, ptr)) (\<lambda>(e, ptr).
     fixedarray_loop alloc ptr e elem_size tag elems))"

definition encode_fixedarray ::
  "(nat \<Rightarrow> bool) \<Rightarrow> nat \<Rightarrow> upb_encstate \<Rightarrow> cell list \<Rightarrow> nat \<Rightarrow> u32 \<Rightarrow> (upb_encstate \<times> nat) encres" where
  "encode_fixedarray alloc ptr e arr elem_size tag =
     (if tag \<noteq> 0 then fixedarray_loop alloc ptr e elem_size tag (rev arr)
      else encode_bytes alloc ptr e (concat (map (\<lambda>c. le_bytes elem_size (cell_u64 c)) arr)))"

fun varint_array_loop ::
  "(nat \<Rightarrow> bool) \<Rightarrow> nat \<Rightarrow> upb_encstate \<Rightarrow> upb_FieldType \<Rightarrow> u32 \<Rightarrow> cell list \<Rightarrow>
     (upb_encstate \<times> nat) encres" where
  "varint_array_loop alloc ptr e t tag [] = Inr (e, ptr)"
| "varint_array_loop alloc ptr e t tag (c # elems) =
     bindE (encode_varint alloc ptr e (the (varint_of t (cell_u64 c)))) (\<lambda>(e, ptr).
     bindE (if tag \<noteq> 0 then encode_varint alloc ptr e (ucast tag) else Inr (e, ptr)) (\<lambda>(e, ptr).
     varint_array_loop alloc ptr e t tag elems))"

fun string_array_loop ::
  "(nat \<Rightarrow> bool) \<Rightarrow> nat \<Rightarrow> upb_encstate \<Rightarrow> u32 \<Rightarrow> cell list \<Rightarrow> (upb_encstate \<times> nat) encres" where
  "string_array_loop alloc ptr e number [] = Inr (e, ptr)"
| "string_array_loop alloc ptr e number (c # elems) =
     bindE (encode_bytes alloc ptr e (cell_str c)) (\<lambda>(e, ptr).
     bindE (encode_varint alloc ptr e (of_nat (length (cell_str c)))) (\<lambda>(e, ptr).
     bindE (encode_tag alloc ptr e number kUpb_WireType_Delimited) (\<lambda>(e, ptr).
     string_array_loop alloc ptr e number elems)))"

text \<open>The elements of an array of messages are never NULL; a cell that is no message is skipped.\<close>

fun group_array_loop ::
  "(nat \<Rightarrow> bool) \<Rightarrow> msg_encoder \<Rightarrow> nat \<Rightarrow> upb_encstate \<Rightarrow> u32 \<Rightarrow> mt_ref \<Rightarrow> cell list \<Rightarrow>
     (upb_encstate \<times> nat) encres" where
  "group_array_loop alloc em ptr e number subm [] = Inr (e, ptr)"
| "group_array_loop alloc em ptr e number subm (c # elems) =
     (case c of
        CSub is_empty msg \<Rightarrow>
          bindE (encode_tag alloc ptr e number kUpb_WireType_EndGroup) (\<lambda>(e, ptr).
          bindE (encode_TaggedMessagePtr em ptr e is_empty msg subm) (\<lambda>(e, ptr, sz).
          bindE (encode_tag alloc ptr e number kUpb_WireType_StartGroup) (\<lambda>(e, ptr).
          group_array_loop alloc em ptr e number subm elems)))
      | _ \<Rightarrow> group_array_loop alloc em ptr e number subm elems)"

fun message_array_loop ::
  "(nat \<Rightarrow> bool) \<Rightarrow> msg_encoder \<Rightarrow> nat \<Rightarrow> upb_encstate \<Rightarrow> u32 \<Rightarrow> mt_ref \<Rightarrow> cell list \<Rightarrow>
     (upb_encstate \<times> nat) encres" where
  "message_array_loop alloc em ptr e number subm [] = Inr (e, ptr)"
| "message_array_loop alloc em ptr e number subm (c # elems) =
     (case c of
        CSub is_empty msg \<Rightarrow>
          bindE (encode_TaggedMessagePtr em ptr e is_empty msg subm) (\<lambda>(e, ptr, sz).
          bindE (encode_varint alloc ptr e (of_nat sz)) (\<lambda>(e, ptr).
          bindE (encode_tag alloc ptr e number kUpb_WireType_Delimited) (\<lambda>(e, ptr).
          message_array_loop alloc em ptr e number subm elems)))
      | _ \<Rightarrow> message_array_loop alloc em ptr e number subm elems)"

definition encode_array ::
  "(nat \<Rightarrow> bool) \<Rightarrow> msg_encoder \<Rightarrow> nat \<Rightarrow> upb_encstate \<Rightarrow> cell \<Rightarrow> upb_MiniTableSub list \<Rightarrow>
     upb_MiniTableField \<Rightarrow> (upb_encstate \<times> nat) encres" where
  "encode_array alloc em ptr e mem subs f =
     (let arr = upb_Array_Elems mem;
          packed = upb_MiniTableField_IsPacked f;
          pre_len = length (es_mem e) - ptr;
          t = mtf_descriptortype f;
          tag = (\<lambda>wire_type :: byte. if packed then 0 else push_bit 3 (mtf_number f) OR ucast wire_type);
          finish = (\<lambda>(e, ptr).
            if packed then
              bindE (encode_varint alloc ptr e (of_nat (length (es_mem e) - ptr - pre_len))) (\<lambda>(e, ptr).
              encode_tag alloc ptr e (mtf_number f) kUpb_WireType_Delimited)
            else Inr (e, ptr))
      in if arr = [] then Inr (e, ptr)
         else if t = kUpb_FieldType_Double \<or> t = kUpb_FieldType_SFixed64 \<or> t = kUpb_FieldType_Fixed64 then
           bindE (encode_fixedarray alloc ptr e arr 8 (tag kUpb_WireType_64Bit)) finish
         else if t = kUpb_FieldType_Float \<or> t = kUpb_FieldType_Fixed32 \<or> t = kUpb_FieldType_SFixed32 then
           bindE (encode_fixedarray alloc ptr e arr 4 (tag kUpb_WireType_32Bit)) finish
         else if t = kUpb_FieldType_String \<or> t = kUpb_FieldType_Bytes then
           string_array_loop alloc ptr e (mtf_number f) (rev arr)
         else if t = kUpb_FieldType_Group then
           let subm = upb_Encoder_GetSubMiniTable subs f;
               e = e\<lparr>es_depth := es_depth e - 1\<rparr> in
           if es_depth e = 0 then Inl kUpb_EncodeStatus_MaxDepthExceeded
           else bindE (group_array_loop alloc em ptr e (mtf_number f) subm (rev arr)) (\<lambda>(e, ptr).
                  Inr (e\<lparr>es_depth := es_depth e + 1\<rparr>, ptr))
         else if t = kUpb_FieldType_Message then
           let subm = upb_Encoder_GetSubMiniTable subs f;
               e = e\<lparr>es_depth := es_depth e - 1\<rparr> in
           if es_depth e = 0 then Inl kUpb_EncodeStatus_MaxDepthExceeded
           else bindE (message_array_loop alloc em ptr e (mtf_number f) subm (rev arr)) (\<lambda>(e, ptr).
                  Inr (e\<lparr>es_depth := es_depth e + 1\<rparr>, ptr))
         else bindE (varint_array_loop alloc ptr e t (tag kUpb_WireType_Varint) (rev arr)) finish)"

subsection \<open>Maps\<close>

definition encode_mapentry ::
  "(nat \<Rightarrow> bool) \<Rightarrow> msg_encoder \<Rightarrow> nat \<Rightarrow> upb_encstate \<Rightarrow> u32 \<Rightarrow> upb_MiniTable \<Rightarrow> cell \<times> cell \<Rightarrow>
     (upb_encstate \<times> nat) encres" where
  "encode_mapentry alloc em ptr e number layout ent =
     (let key_field = mt_fields layout ! 0;
          val_field = mt_fields layout ! 1;
          pre_len = length (es_mem e) - ptr
      in bindE (encode_scalar alloc em ptr e (snd ent) (mt_subs layout) val_field) (\<lambda>(e, ptr).
         bindE (encode_scalar alloc em ptr e (fst ent) (mt_subs layout) key_field) (\<lambda>(e, ptr).
         let sz = (length (es_mem e) - ptr) - pre_len in
         bindE (encode_varint alloc ptr e (of_nat sz)) (\<lambda>(e, ptr).
         encode_tag alloc ptr e number kUpb_WireType_Delimited))))"

fun mapentry_loop ::
  "(nat \<Rightarrow> bool) \<Rightarrow> msg_encoder \<Rightarrow> nat \<Rightarrow> upb_encstate \<Rightarrow> u32 \<Rightarrow> upb_MiniTable \<Rightarrow> (cell \<times> cell) list \<Rightarrow>
     (upb_encstate \<times> nat) encres" where
  "mapentry_loop alloc em ptr e number layout [] = Inr (e, ptr)"
| "mapentry_loop alloc em ptr e number layout (ent # ents) =
     bindE (encode_mapentry alloc em ptr e number layout ent) (\<lambda>(e, ptr).
     mapentry_loop alloc em ptr e number layout ents)"

text \<open>
  The stack of the map sorter is taken to grow when asked: the code ignores the result of
  \<open>_upb_mapsorter_pushmap\<close>.
\<close>

definition encode_map ::
  "(nat \<Rightarrow> bool) \<Rightarrow> (mt_ref \<Rightarrow> upb_MiniTable) \<Rightarrow> msg_encoder \<Rightarrow> nat \<Rightarrow> upb_encstate \<Rightarrow> cell \<Rightarrow>
     upb_MiniTableSub list \<Rightarrow> upb_MiniTableField \<Rightarrow> (upb_encstate \<times> nat) encres" where
  "encode_map alloc tabs em ptr e mem subs f =
     (let layout = tabs (upb_Encoder_GetSubMiniTable subs f) in
      case mem of
        CMap is_strtable arr tab \<Rightarrow>
          if upb_Map_Size mem = 0 then Inr (e, ptr)
          else if es_options e AND kUpb_EncodeOption_Deterministic \<noteq> 0 then
            bindE (if \<not> is_strtable then mapentry_loop alloc em ptr e (mtf_number f) layout arr
                   else Inr (e, ptr)) (\<lambda>(e, ptr).
            mapentry_loop alloc em ptr e (mtf_number f) layout
              (upb_mapsorter_pushmap (mtf_descriptortype (mt_fields layout ! 0)) is_strtable tab))
          else if is_strtable then mapentry_loop alloc em ptr e (mtf_number f) layout tab
          else mapentry_loop alloc em ptr e (mtf_number f) layout (arr @ tab)
      | _ \<Rightarrow> Inr (e, ptr))"

section \<open>Messages\<close>

definition encode_shouldencode :: "upb_Message \<Rightarrow> upb_MiniTableField \<Rightarrow> bool" where
  "encode_shouldencode msg f =
     (if mtf_presence f = 0 then
        let mem = msg_cell msg (unat (mtf_offset f)) in
        case upb_MiniTableField_GetRep f of
          kUpb_FieldRep_1Byte \<Rightarrow> (ucast (cell_u64 mem) :: byte) \<noteq> 0
        | kUpb_FieldRep_4Byte \<Rightarrow> (ucast (cell_u64 mem) :: u32) \<noteq> 0
        | kUpb_FieldRep_8Byte \<Rightarrow> cell_u64 mem \<noteq> 0
        | kUpb_FieldRep_StringView \<Rightarrow> length (cell_str mem) \<noteq> 0
      else if upb_MiniTableField_HasHasbit f then upb_Message_GetHasbit msg f
      else upb_Message_GetOneofCase msg f = mtf_number f)"

text \<open>The unreachable mode counts as a scalar.\<close>

definition encode_field ::
  "(nat \<Rightarrow> bool) \<Rightarrow> (mt_ref \<Rightarrow> upb_MiniTable) \<Rightarrow> msg_encoder \<Rightarrow> nat \<Rightarrow> upb_encstate \<Rightarrow> cell \<Rightarrow>
     upb_MiniTableSub list \<Rightarrow> upb_MiniTableField \<Rightarrow> (upb_encstate \<times> nat) encres" where
  "encode_field alloc tabs em ptr e mem subs field =
     (case upb_MiniTableField_Mode field of
        Some kUpb_FieldMode_Array \<Rightarrow> encode_array alloc em ptr e mem subs field
      | Some kUpb_FieldMode_Map \<Rightarrow> encode_map alloc tabs em ptr e mem subs field
      | _ \<Rightarrow> encode_scalar alloc em ptr e mem subs field)"

definition encode_msgset_item ::
  "(nat \<Rightarrow> bool) \<Rightarrow> msg_encoder \<Rightarrow> nat \<Rightarrow> upb_encstate \<Rightarrow> upb_MiniTableExtension \<Rightarrow> upb_Message \<Rightarrow>
     (upb_encstate \<times> nat) encres" where
  "encode_msgset_item alloc em ptr e ext msg =
     bindE (encode_tag alloc ptr e 1 kUpb_WireType_EndGroup) (\<lambda>(e, ptr).
     bindE (em ptr e msg (the (upb_MiniTableExtension_GetSubMessage ext))) (\<lambda>(e, ptr, sz).
     bindE (encode_varint alloc ptr e (of_nat sz)) (\<lambda>(e, ptr).
     bindE (encode_tag alloc ptr e 3 kUpb_WireType_Delimited) (\<lambda>(e, ptr).
     bindE (encode_varint alloc ptr e (ucast (upb_MiniTableExtension_Number ext))) (\<lambda>(e, ptr).
     bindE (encode_tag alloc ptr e 2 kUpb_WireType_Varint) (\<lambda>(e, ptr).
     encode_tag alloc ptr e 1 kUpb_WireType_StartGroup))))))"

text \<open>In a message set the value is a message; anything else is skipped by the model.\<close>

definition encode_ext ::
  "(nat \<Rightarrow> bool) \<Rightarrow> (mt_ref \<Rightarrow> upb_MiniTable) \<Rightarrow> msg_encoder \<Rightarrow> nat \<Rightarrow> upb_encstate \<Rightarrow> upb_Extension \<Rightarrow>
     bool \<Rightarrow> (upb_encstate \<times> nat) encres" where
  "encode_ext alloc tabs em ptr e ext is_message_set =
     (if is_message_set then
        (case ext_data ext of
           CSub _ msg \<Rightarrow> encode_msgset_item alloc em ptr e (ext_ext ext) msg
         | _ \<Rightarrow> Inr (e, ptr))
      else encode_field alloc tabs em ptr e (ext_data ext) [mx_sub (ext_ext ext)] (mx_field (ext_ext ext)))"

fun ext_loop ::
  "(nat \<Rightarrow> bool) \<Rightarrow> (mt_ref \<Rightarrow> upb_MiniTable) \<Rightarrow> msg_encoder \<Rightarrow> nat \<Rightarrow> upb_encstate \<Rightarrow> bool \<Rightarrow>
     upb_Extension list \<Rightarrow> (upb_encstate \<times> nat) encres" where
  "ext_loop alloc tabs em ptr e is_message_set [] = Inr (e, ptr)"
| "ext_loop alloc tabs em ptr e is_message_set (ext # exts) =
     bindE (encode_ext alloc tabs em ptr e ext is_message_set) (\<lambda>(e, ptr).
     ext_loop alloc tabs em ptr e is_message_set exts)"

text \<open>The extensions the reverse iterator delivers from index \<open>i\<close> on.\<close>

function extensions_reverse_from :: "upb_Extension aux_ptr list \<Rightarrow> nat \<Rightarrow> upb_Extension list" where
  "extensions_reverse_from aux i =
     (case next_extension_reverse aux i of
        (None, _) \<Rightarrow> []
      | (Some ext, j) \<Rightarrow> ext # extensions_reverse_from aux j)"
  by pat_completeness auto
termination
proof (relation "measure (\<lambda>(aux, i). length aux - i)", goal_cases)
  case (2 aux i r j ext)
  from next_extension_reverse_Some [OF 2(1) [symmetric, unfolded 2(2)]] show ?case by auto
qed simp

declare extensions_reverse_from.simps [simp del]

definition encode_exts ::
  "(nat \<Rightarrow> bool) \<Rightarrow> (mt_ref \<Rightarrow> upb_MiniTable) \<Rightarrow> msg_encoder \<Rightarrow> nat \<Rightarrow> upb_encstate \<Rightarrow> upb_MiniTable \<Rightarrow>
     upb_Message \<Rightarrow> (upb_encstate \<times> nat) encres" where
  "encode_exts alloc tabs em ptr e m msg =
     (if mt_ext m = kUpb_ExtMode_NonExtendable then Inr (e, ptr)
      else case msg_aux msg of
        None \<Rightarrow> Inr (e, ptr)
      | Some aux \<Rightarrow>
          if fst (upb_Message_NextExtensionReverse msg 0) = None then Inr (e, ptr)
          else if es_options e AND kUpb_EncodeOption_Deterministic \<noteq> 0 then
            ext_loop alloc tabs em ptr e (mt_ext m = kUpb_ExtMode_IsMessageSet) (upb_mapsorter_pushexts aux)
          else
            ext_loop alloc tabs em ptr e (mt_ext m = kUpb_ExtMode_IsMessageSet)
              (extensions_reverse_from aux 0))"

fun field_loop ::
  "(nat \<Rightarrow> bool) \<Rightarrow> (mt_ref \<Rightarrow> upb_MiniTable) \<Rightarrow> msg_encoder \<Rightarrow> nat \<Rightarrow> upb_encstate \<Rightarrow> upb_Message \<Rightarrow>
     upb_MiniTableSub list \<Rightarrow> upb_MiniTableField list \<Rightarrow> (upb_encstate \<times> nat) encres" where
  "field_loop alloc tabs em ptr e msg subs [] = Inr (e, ptr)"
| "field_loop alloc tabs em ptr e msg subs (f # fs) =
     (if encode_shouldencode msg f then
        bindE (encode_field alloc tabs em ptr e (msg_cell msg (unat (mtf_offset f))) subs f) (\<lambda>(e, ptr).
        field_loop alloc tabs em ptr e msg subs fs)
      else field_loop alloc tabs em ptr e msg subs fs)"

text \<open>The unknown fields are written in order into space reserved for all of them.\<close>

fun unknown_loop :: "upb_encstate \<Rightarrow> nat \<Rightarrow> byte list list \<Rightarrow> upb_encstate" where
  "unknown_loop e tmp_ptr [] = e"
| "unknown_loop e tmp_ptr (u # us) = unknown_loop (write_at e tmp_ptr u) (tmp_ptr + length u) us"

definition encode_unknown ::
  "(nat \<Rightarrow> bool) \<Rightarrow> nat \<Rightarrow> upb_encstate \<Rightarrow> upb_Message \<Rightarrow> (upb_encstate \<times> nat) encres" where
  "encode_unknown alloc ptr e msg =
     (if es_options e AND kUpb_EncodeOption_SkipUnknown = 0 then
        let unknowns = (case msg_aux msg of None \<Rightarrow> [] | Some aux \<Rightarrow> unknowns_from aux 0);
            unknown_size = sum_list (map length unknowns)
        in if unknown_size \<noteq> 0 then
             bindE (encode_reserve alloc ptr e unknown_size) (\<lambda>(e, ptr).
               Inr (unknown_loop e ptr unknowns, ptr))
           else Inr (e, ptr)
      else Inr (e, ptr))"

fun encode_message ::
  "(nat \<Rightarrow> bool) \<Rightarrow> (mt_ref \<Rightarrow> upb_MiniTable) \<Rightarrow> nat \<Rightarrow> nat \<Rightarrow> upb_encstate \<Rightarrow> upb_Message \<Rightarrow> mt_ref \<Rightarrow>
     (upb_encstate \<times> nat \<times> nat) encres" where
  "encode_message alloc tabs 0 ptr e msg r = Inl EncodeOutOfFuel"
| "encode_message alloc tabs (Suc fuel) ptr e msg r =
     (let m = tabs r;
          em = encode_message alloc tabs fuel;
          pre_len = length (es_mem e) - ptr
      in if es_options e AND kUpb_EncodeOption_CheckRequired \<noteq> 0 \<and> mt_required_count m \<noteq> 0 \<and>
            \<not> upb_Message_IsInitializedShallow msg m
         then Inl kUpb_EncodeStatus_MissingRequired
         else
           bindE (encode_unknown alloc ptr e msg) (\<lambda>(e, ptr).
           bindE (encode_exts alloc tabs em ptr e m msg) (\<lambda>(e, ptr).
           bindE (field_loop alloc tabs em ptr e msg (mt_subs m) (rev (mt_fields m))) (\<lambda>(e, ptr).
           Inr (e, ptr, (length (es_mem e) - ptr) - pre_len)))))"

text \<open>\<open>upb_Encoder_Encode\<close>: the status with the output, \<open>None\<close> for the NULL buffer of a failure.\<close>

definition upb_Encoder_Encode ::
  "(nat \<Rightarrow> bool) \<Rightarrow> (mt_ref \<Rightarrow> upb_MiniTable) \<Rightarrow> nat \<Rightarrow> nat \<Rightarrow> upb_encstate \<Rightarrow> upb_Message \<Rightarrow> mt_ref \<Rightarrow>
     bool \<Rightarrow> upb_EncodeStatus \<times> byte list option" where
  "upb_Encoder_Encode alloc tabs fuel ptr encoder msg l prepend_len =
     (case bindE (encode_message alloc tabs fuel ptr encoder msg l) (\<lambda>(e, ptr, encoded_msg_size).
             if prepend_len then encode_varint alloc ptr e (of_nat encoded_msg_size) else Inr (e, ptr)) of
        Inl status \<Rightarrow> (status, None)
      | Inr (e, ptr) \<Rightarrow> (kUpb_EncodeStatus_Ok, Some (drop ptr (es_mem e))))"

definition upb_EncodeOptions_GetMaxDepth :: "u32 \<Rightarrow> u16" where
  "upb_EncodeOptions_GetMaxDepth options = ucast (drop_bit 16 options)"

definition upb_EncodeOptions_GetEffectiveMaxDepth :: "u32 \<Rightarrow> u16" where
  "upb_EncodeOptions_GetEffectiveMaxDepth options =
     (let max_depth = upb_EncodeOptions_GetMaxDepth options
      in if max_depth \<noteq> 0 then max_depth else 100)"

definition upb_Encode_internal ::
  "(nat \<Rightarrow> bool) \<Rightarrow> (mt_ref \<Rightarrow> upb_MiniTable) \<Rightarrow> nat \<Rightarrow> upb_Message \<Rightarrow> mt_ref \<Rightarrow> u32 \<Rightarrow> bool \<Rightarrow>
     upb_EncodeStatus \<times> byte list option" where
  "upb_Encode_internal alloc tabs fuel msg l options prepend_len =
     upb_Encoder_Encode alloc tabs fuel 0
       \<lparr>es_mem = [], es_options = options,
        es_depth = uint (upb_EncodeOptions_GetEffectiveMaxDepth options)\<rparr> msg l prepend_len"

definition upb_Encode ::
  "(nat \<Rightarrow> bool) \<Rightarrow> (mt_ref \<Rightarrow> upb_MiniTable) \<Rightarrow> nat \<Rightarrow> upb_Message \<Rightarrow> mt_ref \<Rightarrow> u32 \<Rightarrow>
     upb_EncodeStatus \<times> byte list option" where
  "upb_Encode alloc tabs fuel msg l options = upb_Encode_internal alloc tabs fuel msg l options False"

definition upb_EncodeLengthPrefixed ::
  "(nat \<Rightarrow> bool) \<Rightarrow> (mt_ref \<Rightarrow> upb_MiniTable) \<Rightarrow> nat \<Rightarrow> upb_Message \<Rightarrow> mt_ref \<Rightarrow> u32 \<Rightarrow>
     upb_EncodeStatus \<times> byte list option" where
  "upb_EncodeLengthPrefixed alloc tabs fuel msg l options =
     upb_Encode_internal alloc tabs fuel msg l options True"

definition upb_EncodeStatus_String :: "upb_EncodeStatus \<Rightarrow> string" where
  "upb_EncodeStatus_String status =
     (case status of
        kUpb_EncodeStatus_Ok \<Rightarrow> ''Ok''
      | kUpb_EncodeStatus_MissingRequired \<Rightarrow> ''Missing required field''
      | kUpb_EncodeStatus_MaxDepthExceeded \<Rightarrow> ''Max depth exceeded''
      | kUpb_EncodeStatus_OutOfMemory \<Rightarrow> ''Arena alloc failed''
      | _ \<Rightarrow> ''Unknown encode status'')"

end
