(* ===== verification/Encode_Refinement.thy ===== *)
theory Encode_Refinement
  imports Wire_Encode
begin

text \<open>
  What the encoder writes, without the buffer: \<open>wire_message\<close> gives the bytes of a message in
  reading order, or the error. The encoder refines it: it prepends exactly those bytes to what
  the buffer holds, reports the same error, or runs out of memory.
\<close>

section \<open>The bytes of a message\<close>

definition varint_bytes :: "u64 \<Rightarrow> byte list" where
  "varint_bytes v = longvarint_loop v"

definition tag_bytes :: "u32 \<Rightarrow> byte \<Rightarrow> byte list" where
  "tag_bytes number wire_type = varint_bytes (ucast (push_bit 3 number OR ucast wire_type :: u32))"

definition len_bytes :: "byte list \<Rightarrow> byte list" where
  "len_bytes bs = varint_bytes (of_nat (length bs)) @ bs"

text \<open>The bytes of a list of items; the errors come from the last item first, as in the code.\<close>

fun wire_list :: "('a \<Rightarrow> byte list encres) \<Rightarrow> 'a list \<Rightarrow> byte list encres" where
  "wire_list g [] = Inr []"
| "wire_list g (x # xs) = bindE (wire_list g xs) (\<lambda>rest. bindE (g x) (\<lambda>b. Inr (b @ rest)))"

type_synonym msg_bytes = "u32 \<Rightarrow> int \<Rightarrow> upb_Message \<Rightarrow> mt_ref \<Rightarrow> byte list encres"

definition wire_scalar ::
  "msg_bytes \<Rightarrow> u32 \<Rightarrow> int \<Rightarrow> cell \<Rightarrow> upb_MiniTableSub list \<Rightarrow> upb_MiniTableField \<Rightarrow> byte list encres" where
  "wire_scalar sem opts depth mem subs f =
     (let n = mtf_number f; w = cell_u64 mem; t = mtf_descriptortype f;
          subm = (\<lambda>is_empty. if is_empty then MT_Empty else upb_Encoder_GetSubMiniTable subs f) in
      if t = kUpb_FieldType_Double \<or> t = kUpb_FieldType_SFixed64 \<or> t = kUpb_FieldType_Fixed64 then
        Inr (tag_bytes n 1 @ le_bytes 8 w)
      else if t = kUpb_FieldType_Float \<or> t = kUpb_FieldType_SFixed32 \<or> t = kUpb_FieldType_Fixed32 then
        Inr (tag_bytes n 5 @ le_bytes 4 (ucast (ucast w :: u32)))
      else if t = kUpb_FieldType_String \<or> t = kUpb_FieldType_Bytes then
        Inr (tag_bytes n 2 @ len_bytes (cell_str mem))
      else if t = kUpb_FieldType_Group then
        (case mem of
           CSub is_empty msg \<Rightarrow>
             if depth - 1 = 0 then Inl kUpb_EncodeStatus_MaxDepthExceeded
             else bindE (sem opts (depth - 1) msg (subm is_empty)) (\<lambda>b.
                    Inr (tag_bytes n 3 @ b @ tag_bytes n 4))
         | _ \<Rightarrow> Inr [])
      else if t = kUpb_FieldType_Message then
        (case mem of
           CSub is_empty msg \<Rightarrow>
             if depth - 1 = 0 then Inl kUpb_EncodeStatus_MaxDepthExceeded
             else bindE (sem opts (depth - 1) msg (subm is_empty)) (\<lambda>b.
                    Inr (tag_bytes n 2 @ len_bytes b))
         | _ \<Rightarrow> Inr [])
      else Inr (tag_bytes n 0 @ varint_bytes (the (varint_of t w))))"

definition wire_submessage ::
  "msg_bytes \<Rightarrow> u32 \<Rightarrow> int \<Rightarrow> mt_ref \<Rightarrow> (byte list \<Rightarrow> byte list) \<Rightarrow> cell \<Rightarrow> byte list encres" where
  "wire_submessage sem opts depth subm wrap c =
     (case c of
        CSub is_empty msg \<Rightarrow>
          bindE (sem opts depth msg (if is_empty then MT_Empty else subm)) (\<lambda>b. Inr (wrap b))
      | _ \<Rightarrow> Inr [])"

text \<open>The tag of a number in an array is left out when it is 0, which no valid field number gives.\<close>

definition wire_array ::
  "msg_bytes \<Rightarrow> u32 \<Rightarrow> int \<Rightarrow> cell \<Rightarrow> upb_MiniTableSub list \<Rightarrow> upb_MiniTableField \<Rightarrow> byte list encres" where
  "wire_array sem opts depth mem subs f =
     (let arr = upb_Array_Elems mem; n = mtf_number f; t = mtf_descriptortype f;
          subm = upb_Encoder_GetSubMiniTable subs f;
          items = (\<lambda>wt (elem :: u64 \<Rightarrow> byte list).
            if upb_MiniTableField_IsPacked f
            then Inr (tag_bytes n 2 @ len_bytes (concat (map (\<lambda>c. elem (cell_u64 c)) arr)))
            else let tag = push_bit 3 n OR ucast (wt :: byte) :: u32 in
              Inr (concat (map (\<lambda>c. (if tag \<noteq> 0 then varint_bytes (ucast tag) else []) @
                     elem (cell_u64 c)) arr))) in
      if arr = [] then Inr []
      else if t = kUpb_FieldType_Double \<or> t = kUpb_FieldType_SFixed64 \<or> t = kUpb_FieldType_Fixed64 then
        items 1 (le_bytes 8)
      else if t = kUpb_FieldType_Float \<or> t = kUpb_FieldType_SFixed32 \<or> t = kUpb_FieldType_Fixed32 then
        items 5 (le_bytes 4)
      else if t = kUpb_FieldType_String \<or> t = kUpb_FieldType_Bytes then
        Inr (concat (map (\<lambda>c. tag_bytes n 2 @ len_bytes (cell_str c)) arr))
      else if t = kUpb_FieldType_Group then
        if depth - 1 = 0 then Inl kUpb_EncodeStatus_MaxDepthExceeded
        else wire_list (wire_submessage sem opts (depth - 1) subm
               (\<lambda>b. tag_bytes n 3 @ b @ tag_bytes n 4)) arr
      else if t = kUpb_FieldType_Message then
        if depth - 1 = 0 then Inl kUpb_EncodeStatus_MaxDepthExceeded
        else wire_list (wire_submessage sem opts (depth - 1) subm (\<lambda>b. tag_bytes n 2 @ len_bytes b)) arr
      else items 0 (\<lambda>w. varint_bytes (the (varint_of t w))))"

definition wire_mapentry ::
  "msg_bytes \<Rightarrow> u32 \<Rightarrow> int \<Rightarrow> u32 \<Rightarrow> upb_MiniTable \<Rightarrow> cell \<times> cell \<Rightarrow> byte list encres" where
  "wire_mapentry sem opts depth number layout ent =
     bindE (wire_scalar sem opts depth (snd ent) (mt_subs layout) (mt_fields layout ! 1)) (\<lambda>v.
     bindE (wire_scalar sem opts depth (fst ent) (mt_subs layout) (mt_fields layout ! 0)) (\<lambda>k.
     Inr (tag_bytes number 2 @ len_bytes (k @ v))))"

text \<open>The entries of a map in the order the encoder visits them; they come out reversed.\<close>

definition map_order :: "u32 \<Rightarrow> upb_FieldType \<Rightarrow> cell \<Rightarrow> (cell \<times> cell) list" where
  "map_order opts key_type mem =
     (case mem of
        CMap is_strtable arr tab \<Rightarrow>
          (if is_strtable then [] else arr) @
            (if opts AND kUpb_EncodeOption_Deterministic \<noteq> 0
             then upb_mapsorter_pushmap key_type is_strtable tab else tab)
      | _ \<Rightarrow> [])"

definition wire_map ::
  "(mt_ref \<Rightarrow> upb_MiniTable) \<Rightarrow> msg_bytes \<Rightarrow> u32 \<Rightarrow> int \<Rightarrow> cell \<Rightarrow> upb_MiniTableSub list \<Rightarrow>
     upb_MiniTableField \<Rightarrow> byte list encres" where
  "wire_map tabs sem opts depth mem subs f =
     (let layout = tabs (upb_Encoder_GetSubMiniTable subs f) in
      if upb_Map_Size mem = 0 then Inr []
      else wire_list (wire_mapentry sem opts depth (mtf_number f) layout)
             (rev (map_order opts (mtf_descriptortype (mt_fields layout ! 0)) mem)))"

definition wire_field ::
  "(mt_ref \<Rightarrow> upb_MiniTable) \<Rightarrow> msg_bytes \<Rightarrow> u32 \<Rightarrow> int \<Rightarrow> cell \<Rightarrow> upb_MiniTableSub list \<Rightarrow>
     upb_MiniTableField \<Rightarrow> byte list encres" where
  "wire_field tabs sem opts depth mem subs f =
     (case upb_MiniTableField_Mode f of
        Some kUpb_FieldMode_Array \<Rightarrow> wire_array sem opts depth mem subs f
      | Some kUpb_FieldMode_Map \<Rightarrow> wire_map tabs sem opts depth mem subs f
      | _ \<Rightarrow> wire_scalar sem opts depth mem subs f)"

definition wire_ext ::
  "(mt_ref \<Rightarrow> upb_MiniTable) \<Rightarrow> msg_bytes \<Rightarrow> u32 \<Rightarrow> int \<Rightarrow> bool \<Rightarrow> upb_Extension \<Rightarrow> byte list encres" where
  "wire_ext tabs sem opts depth is_message_set ext =
     (if is_message_set then
        (case ext_data ext of
           CSub _ msg \<Rightarrow>
             bindE (sem opts depth msg (the (upb_MiniTableExtension_GetSubMessage (ext_ext ext)))) (\<lambda>b.
               Inr (tag_bytes 1 3 @ tag_bytes 2 0 @
                    varint_bytes (ucast (upb_MiniTableExtension_Number (ext_ext ext))) @
                    tag_bytes 3 2 @ len_bytes b @ tag_bytes 1 4))
         | _ \<Rightarrow> Inr [])
      else wire_field tabs sem opts depth (ext_data ext) [mx_sub (ext_ext ext)] (mx_field (ext_ext ext)))"

definition ext_order :: "u32 \<Rightarrow> upb_MiniTable \<Rightarrow> upb_Message \<Rightarrow> upb_Extension list" where
  "ext_order opts m msg =
     (if mt_ext m = kUpb_ExtMode_NonExtendable then []
      else case msg_aux msg of
        None \<Rightarrow> []
      | Some aux \<Rightarrow>
          if fst (upb_Message_NextExtensionReverse msg 0) = None then []
          else if opts AND kUpb_EncodeOption_Deterministic \<noteq> 0 then upb_mapsorter_pushexts aux
          else extensions_reverse_from aux 0)"

definition wire_unknown :: "u32 \<Rightarrow> upb_Message \<Rightarrow> byte list" where
  "wire_unknown opts msg =
     (if opts AND kUpb_EncodeOption_SkipUnknown = 0
      then concat (case msg_aux msg of None \<Rightarrow> [] | Some aux \<Rightarrow> unknown_bytes aux) else [])"

text \<open>Fields in table order, then extensions, then unknown fields.\<close>

fun wire_message :: "(mt_ref \<Rightarrow> upb_MiniTable) \<Rightarrow> nat \<Rightarrow> msg_bytes" where
  "wire_message tabs 0 opts depth msg r = Inl EncodeOutOfFuel"
| "wire_message tabs (Suc fuel) opts depth msg r =
     (let m = tabs r; sem = wire_message tabs fuel in
      if opts AND kUpb_EncodeOption_CheckRequired \<noteq> 0 \<and> mt_required_count m \<noteq> 0 \<and>
         \<not> upb_Message_IsInitializedShallow msg m
      then Inl kUpb_EncodeStatus_MissingRequired
      else
        bindE (wire_list (wire_ext tabs sem opts depth (mt_ext m = kUpb_ExtMode_IsMessageSet))
                 (rev (ext_order opts m msg))) (\<lambda>exts.
        bindE (wire_list (\<lambda>f. wire_field tabs sem opts depth (msg_cell msg (unat (mtf_offset f))) (mt_subs m) f)
                 (filter (encode_shouldencode msg) (mt_fields m))) (\<lambda>fields.
        Inr (fields @ exts @ wire_unknown opts msg))))"

section \<open>Prepending to the buffer\<close>

definition wrote :: "upb_encstate \<Rightarrow> nat \<Rightarrow> byte list \<Rightarrow> upb_encstate \<Rightarrow> nat \<Rightarrow> bool" where
  "wrote e ptr data e' ptr' \<longleftrightarrow>
     ptr' \<le> length (es_mem e') \<and> drop ptr' (es_mem e') = data @ drop ptr (es_mem e) \<and>
     es_options e' = es_options e"

text \<open>
  The result \<open>r\<close> of an operation at \<open>ptr\<close> does what \<open>spec\<close> says and leaves the depth at \<open>d\<close>, or
  the arena is exhausted.
\<close>

definition refines ::
  "(nat \<Rightarrow> bool) \<Rightarrow> int \<Rightarrow> upb_encstate \<Rightarrow> nat \<Rightarrow> byte list encres \<Rightarrow> (upb_encstate \<times> nat) encres \<Rightarrow> bool" where
  "refines alloc d e ptr spec r \<longleftrightarrow>
     (r = Inl kUpb_EncodeStatus_OutOfMemory \<and> (\<exists>n. \<not> alloc n)) \<or>
     (case spec of
        Inl s \<Rightarrow> r = Inl s
      | Inr data \<Rightarrow> \<exists>e' ptr'. r = Inr (e', ptr') \<and> wrote e ptr data e' ptr' \<and> es_depth e' = d)"

lemma wrote_refl: "ptr \<le> length (es_mem e) \<Longrightarrow> wrote e ptr [] e ptr"
  by (simp add: wrote_def)

lemma wrote_trans: "wrote e p a e1 p1 \<Longrightarrow> wrote e1 p1 b e2 p2 \<Longrightarrow> wrote e p (b @ a) e2 p2"
  by (simp add: wrote_def)

lemma wrote_bound: "wrote e p a e1 p1 \<Longrightarrow> p1 \<le> length (es_mem e1)"
  by (simp add: wrote_def)

lemma wrote_options: "wrote e p a e1 p1 \<Longrightarrow> es_options e1 = es_options e"
  by (simp add: wrote_def)

lemma wrote_depth [simp]: "wrote (e\<lparr>es_depth := d\<rparr>) p a e1 p1 \<longleftrightarrow> wrote e p a e1 p1"
  "wrote e p a (e1\<lparr>es_depth := d\<rparr>) p1 \<longleftrightarrow> wrote e p a e1 p1"
  by (simp_all add: wrote_def)

lemma wrote_length:
  "wrote e p a e1 p1 \<Longrightarrow> p \<le> length (es_mem e) \<Longrightarrow>
     length (es_mem e1) - p1 - (length (es_mem e) - p) = length a"
  by (auto simp: wrote_def dest!: arg_cong [where f = length])

lemma refines_Inr: "ptr \<le> length (es_mem e) \<Longrightarrow> refines alloc (es_depth e) e ptr (Inr []) (Inr (e, ptr))"
  by (auto simp: refines_def wrote_refl)

lemma refines_Inl: "refines alloc d e ptr (Inl s) (Inl s)"
  by (simp add: refines_def)

lemma refines_depth [simp]: "refines alloc d (e\<lparr>es_depth := d'\<rparr>) ptr spec r \<longleftrightarrow> refines alloc d e ptr spec r"
  by (cases spec) (simp_all add: refines_def)

lemma refines_bind:
  assumes "refines alloc d1 e ptr spec r"
    and "\<And>data e' ptr'. spec = Inr data \<Longrightarrow> wrote e ptr data e' ptr' \<Longrightarrow> es_depth e' = d1 \<Longrightarrow>
      refines alloc d e' ptr' (spec' data) (f (e', ptr'))"
  shows "refines alloc d e ptr (bindE spec (\<lambda>a. bindE (spec' a) (\<lambda>b. Inr (b @ a)))) (bindE r f)"
proof -
  consider "r = Inl kUpb_EncodeStatus_OutOfMemory" "\<exists>n. \<not> alloc n"
    | s where "spec = Inl s" "r = Inl s"
    | a e' p' where "spec = Inr a" "r = Inr (e', p')" "wrote e ptr a e' p'" "es_depth e' = d1"
    using assms(1) by (auto simp: refines_def split: sum.splits)
  then show ?thesis
  proof cases
    case 3
    with assms(2) [OF 3(1,3,4)] show ?thesis
      by (cases "spec' a") (auto simp: refines_def intro: wrote_trans)
  qed (auto simp: refines_def)
qed

lemma roundup_pow2_ge: "bytes \<le> upb_roundup_pow2 bytes"
proof -
  have "0 < ret \<Longrightarrow> bytes \<le> roundup_pow2_loop ret bytes" for ret
    by (induction ret bytes rule: roundup_pow2_loop.induct) (subst roundup_pow2_loop.simps, auto)
  then show ?thesis by (simp add: upb_roundup_pow2_def)
qed

text \<open>Reserved space lies right before what is written.\<close>

definition reserved :: "upb_encstate \<Rightarrow> nat \<Rightarrow> nat \<Rightarrow> upb_encstate \<Rightarrow> nat \<Rightarrow> bool" where
  "reserved e ptr n e' ptr' \<longleftrightarrow>
     ptr' + n \<le> length (es_mem e') \<and> drop (ptr' + n) (es_mem e') = drop ptr (es_mem e) \<and>
     es_options e' = es_options e \<and> es_depth e' = es_depth e"

lemma encode_reserve_ok:
  assumes "ptr \<le> length (es_mem e)"
  shows "(encode_reserve alloc ptr e n = Inl kUpb_EncodeStatus_OutOfMemory \<and> (\<exists>n. \<not> alloc n)) \<or>
    (\<exists>e' ptr'. encode_reserve alloc ptr e n = Inr (e', ptr') \<and> reserved e ptr n e' ptr')"
proof (cases "ptr < n")
  case False
  then show ?thesis using assms by (auto simp: encode_reserve_def reserved_def)
next
  case True
  define old needed new where "old = length (es_mem e)" and "needed = n + (old - ptr)"
    and "new = upb_roundup_pow2 needed"
  have le: "needed \<le> new" "old < needed"
    using roundup_pow2_ge [of needed] True assms by (auto simp: new_def needed_def old_def)
  define front where "front = take (new - old) (es_mem e @ replicate (new - old) 0)"
  let ?mem = "front @ es_mem e"
  have "length front = new - old" by (auto simp: front_def min_def)
  then have "length ?mem = new" "drop (new - needed + n) ?mem = drop ptr (es_mem e)"
    using le assms by (auto simp: old_def needed_def intro: arg_cong [where f = "\<lambda>k. drop k (es_mem e)"])
  then have "reserved e ptr n (e\<lparr>es_mem := ?mem\<rparr>) (new - needed)"
    using le assms by (auto simp: reserved_def needed_def)
  with True show ?thesis
    by (auto simp: encode_reserve_def encode_growbuffer_def Let_def front_def old_def needed_def new_def)
qed

lemma write_at_reserved:
  assumes "reserved e ptr (length data) e' ptr'"
  shows "wrote e ptr data (write_at e' ptr' data) ptr'"
  using assms by (simp add: reserved_def wrote_def write_at_def)

lemma write_at_depth [simp]: "es_depth (write_at e ptr data) = es_depth e"
  by (simp add: write_at_def)

lemma reserved_depth: "reserved e ptr n e' ptr' \<Longrightarrow> es_depth e' = es_depth e"
  by (simp add: reserved_def)

lemma encode_bytes_ok:
  assumes "ptr \<le> length (es_mem e)"
  shows "refines alloc (es_depth e) e ptr (Inr data) (encode_bytes alloc ptr e data)"
proof (cases "data = []")
  case True
  with assms show ?thesis by (simp add: encode_bytes_def refines_Inr)
next
  case False
  with encode_reserve_ok [OF assms, of alloc "length data"] show ?thesis
    by (auto simp: encode_bytes_def refines_def intro: write_at_reserved reserved_depth)
qed

lemma encode_longvarint_ok:
  assumes "ptr \<le> length (es_mem e)"
  shows "refines alloc (es_depth e) e ptr (Inr (varint_bytes v)) (encode_longvarint alloc ptr e v)"
proof -
  let ?bs = "longvarint_loop v"
  have le: "length ?bs \<le> 10" by (rule longvarint_loop_length_10)
  have "wrote e ptr ?bs (write_at (write_at e' p' ?bs) (p' + 10 - length ?bs) ?bs) (p' + 10 - length ?bs)"
    if "reserved e ptr 10 e' p'" for e' p'
  proof (rule write_at_reserved)
    have eq: "p' + 10 - length ?bs + length ?bs = p' + 10" using le by simp
    have "p' + 10 \<le> length (es_mem e')" using that by (simp add: reserved_def)
    then have "drop (p' + 10) (es_mem (write_at e' p' ?bs)) = drop (p' + 10) (es_mem e')"
      using le by (simp add: write_at_def add.commute)
    moreover have "p' + 10 \<le> length (es_mem (write_at e' p' ?bs))"
      using that le by (simp add: reserved_def write_at_def)
    ultimately show "reserved e ptr (length ?bs) (write_at e' p' ?bs) (p' + 10 - length ?bs)"
      using that unfolding reserved_def eq by (simp add: write_at_def)
  qed
  with encode_reserve_ok [OF assms, of alloc 10] show ?thesis
    by (auto simp: encode_longvarint_def refines_def varint_bytes_def Let_def intro: reserved_depth)
qed

lemma encode_varint_ok:
  assumes "ptr \<le> length (es_mem e)"
  shows "refines alloc (es_depth e) e ptr (Inr (varint_bytes v)) (encode_varint alloc ptr e v)"
proof (cases "v < 128 \<and> ptr \<noteq> 0")
  case True
  then have "reserved e ptr (length [ucast v :: byte]) e (ptr - 1)" using assms by (simp add: reserved_def)
  from write_at_reserved [OF this] True show ?thesis
    by (auto simp: encode_varint_def refines_def varint_bytes_def longvarint_loop_small)
next
  case False
  then show ?thesis using encode_longvarint_ok [OF assms] by (auto simp: encode_varint_def)
qed

lemma encode_tag_ok:
  "ptr \<le> length (es_mem e) \<Longrightarrow> refines alloc (es_depth e) e ptr (Inr (tag_bytes n wt)) (encode_tag alloc ptr e n wt)"
  by (simp add: encode_tag_def tag_bytes_def encode_varint_ok)

lemma encode_fixed_ok:
  "ptr \<le> length (es_mem e) \<Longrightarrow> refines alloc (es_depth e) e ptr (Inr (le_bytes 8 w)) (encode_fixed64 alloc ptr e w)"
  "ptr \<le> length (es_mem e) \<Longrightarrow> refines alloc (es_depth e) e ptr (Inr (le_bytes 4 (ucast v))) (encode_fixed32 alloc ptr e v)"
  by (simp_all add: encode_fixed64_def encode_fixed32_def encode_bytes_ok)

text \<open>Writing \<open>b\<close>, then more in front of it.\<close>

lemma refines_seq:
  assumes "refines alloc d1 e ptr (Inr b) r"
    and "\<And>e' ptr'. wrote e ptr b e' ptr' \<Longrightarrow> es_depth e' = d1 \<Longrightarrow> refines alloc d e' ptr' (Inr a) (f (e', ptr'))"
  shows "refines alloc d e ptr (Inr (a @ b)) (bindE r f)"
  using refines_bind [OF assms(1), where spec' = "\<lambda>_. Inr a" and f = f] assms(2) by auto

lemmas write_ok = encode_bytes_ok encode_varint_ok encode_tag_ok encode_fixed_ok

lemma tag_step: "wrote e ptr b e' ptr' \<Longrightarrow> es_depth e' = d \<Longrightarrow>
    refines alloc d e' ptr' (Inr (tag_bytes n wt)) (encode_tag alloc ptr' e' n wt)"
  using encode_tag_ok [OF wrote_bound] by blast

lemma varint_step: "wrote e ptr b e' ptr' \<Longrightarrow> es_depth e' = d \<Longrightarrow>
    refines alloc d e' ptr' (Inr (varint_bytes v)) (encode_varint alloc ptr' e' v)"
  using encode_varint_ok [OF wrote_bound] by blast

lemma tag_restore: "ptr \<le> length (es_mem e) \<Longrightarrow> es_depth e + 1 = d \<Longrightarrow>
    refines alloc d e ptr (Inr (tag_bytes n wt)) (encode_tag alloc ptr (e\<lparr>es_depth := d\<rparr>) n wt)"
  using encode_tag_ok [of ptr "e\<lparr>es_depth := d\<rparr>"] by simp

lemma encode_delimited_ok:
  assumes "ptr \<le> length (es_mem e)"
  shows "refines alloc (es_depth e) e ptr (Inr (tag_bytes n 2 @ len_bytes bs))
    (bindE (encode_bytes alloc ptr e bs) (\<lambda>(e, ptr).
     bindE (encode_varint alloc ptr e (of_nat (length bs))) (\<lambda>(e, ptr). encode_tag alloc ptr e n 2)))"
proof -
  have "refines alloc (es_depth e) e ptr (Inr ((tag_bytes n 2 @ varint_bytes (of_nat (length bs))) @ bs))
    (bindE (encode_bytes alloc ptr e bs) (\<lambda>(e, ptr).
     bindE (encode_varint alloc ptr e (of_nat (length bs))) (\<lambda>(e, ptr). encode_tag alloc ptr e n 2)))"
    by (rule refines_seq [OF encode_bytes_ok [OF assms]])
      (auto intro!: refines_seq varint_step tag_step)
  then show ?thesis by (simp add: len_bytes_def)
qed

lemma wire_list_append:
  "wire_list g (xs @ ys) = bindE (wire_list g ys) (\<lambda>b. bindE (wire_list g xs) (\<lambda>a. Inr (a @ b)))"
proof (induction xs)
  case Nil
  then show ?case by (cases "wire_list g ys") simp_all
next
  case (Cons x xs)
  then show ?case
    by (cases "wire_list g ys"; cases "wire_list g xs"; cases "g x") simp_all
qed

lemma wire_list_Inr: "wire_list (\<lambda>x. Inr (h x)) xs = Inr (concat (map h xs))"
  by (induction xs) simp_all

lemma wire_list_cong: "(\<And>x. x \<in> set xs \<Longrightarrow> g x = h x) \<Longrightarrow> wire_list g xs = wire_list h xs"
  by (induction xs) (auto cong: bindE_cong)

text \<open>A loop over a list writes the items in the opposite order of its visits.\<close>

lemma loop_ok:
  assumes nil: "\<And>e p. L e p [] = Inr (e, p)"
    and cons: "\<And>e p x xs. L e p (x # xs) = bindE (step e p x) (\<lambda>(e, p). L e p xs)"
    and step: "\<And>e p x. x \<in> set xs \<Longrightarrow> p \<le> length (es_mem e) \<Longrightarrow> es_options e = opts \<Longrightarrow> es_depth e = d \<Longrightarrow>
      refines alloc d e p (g x) (step e p x)"
    and p: "p \<le> length (es_mem e)" "es_options e = opts" "es_depth e = d"
  shows "refines alloc d e p (wire_list g (rev xs)) (L e p xs)"
  using step p
proof (induction xs arbitrary: e p)
  case Nil
  then show ?case using refines_Inr [of p e alloc] by (simp add: nil)
next
  case (Cons x xs)
  have "wire_list g (rev (x # xs)) = bindE (g x) (\<lambda>b. bindE (wire_list g (rev xs)) (\<lambda>a. Inr (a @ b)))"
    by (cases "g x") (simp_all add: wire_list_append)
  moreover have "refines alloc d e p (bindE (g x) (\<lambda>b. bindE (wire_list g (rev xs)) (\<lambda>a. Inr (a @ b)))) (L e p (x # xs))"
    unfolding cons
  proof (rule refines_bind)
    show "refines alloc d e p (g x) (step e p x)" using Cons.prems by simp
  next
    fix data e' p' assume "wrote e p data e' p'" "es_depth e' = d"
    then show "refines alloc d e' p' (wire_list g (rev xs)) (case (e', p') of (e, p) \<Rightarrow> L e p xs)"
      using Cons.prems Cons.IH [of p' e'] by (auto dest: wrote_bound wrote_options)
  qed
  ultimately show ?case by simp
qed

text \<open>An item of an array of numbers: its bytes, and its tag unless the array is packed.\<close>

lemma tagged_item_ok:
  assumes "refines alloc (es_depth e) e p (Inr b) r"
  shows "refines alloc (es_depth e) e p (Inr ((if tag \<noteq> 0 then varint_bytes (ucast tag) else []) @ b))
    (bindE r (\<lambda>(e, ptr). if tag \<noteq> 0 then encode_varint alloc ptr e (ucast (tag :: u32)) else Inr (e, ptr)))"
proof (rule refines_seq [OF assms])
  fix e' p' assume "wrote e p b e' p'" "es_depth e' = es_depth e"
  then show "refines alloc (es_depth e) e' p' (Inr (if tag \<noteq> 0 then varint_bytes (ucast tag) else []))
      (case (e', p') of (e, ptr) \<Rightarrow> if tag \<noteq> 0 then encode_varint alloc ptr e (ucast tag) else Inr (e, ptr))"
    using refines_Inr [OF wrote_bound, of e p b e' p' alloc] by (auto intro: varint_step)
qed

lemma fixedarray_loop_ok:
  assumes "p \<le> length (es_mem e)"
  shows "refines alloc (es_depth e) e p
    (Inr (concat (map (\<lambda>c. (if tag \<noteq> 0 then varint_bytes (ucast tag) else []) @ le_bytes n (cell_u64 c)) (rev cs))))
    (fixedarray_loop alloc p e n tag cs)"
  unfolding wire_list_Inr [symmetric]
proof (rule loop_ok [where L = "\<lambda>e p cs. fixedarray_loop alloc p e n tag cs" and opts = "es_options e" and
      step = "\<lambda>e p c. bindE (encode_bytes alloc p e (le_bytes n (cell_u64 c))) (\<lambda>(e, ptr).
        if tag \<noteq> 0 then encode_varint alloc ptr e (ucast tag) else Inr (e, ptr))"])
  fix e' :: upb_encstate and p' c assume p': "p' \<le> length (es_mem e')" and d: "es_depth e' = es_depth e"
  show "refines alloc (es_depth e) e' p' (Inr ((if tag \<noteq> 0 then varint_bytes (ucast tag) else []) @ le_bytes n (cell_u64 c)))
      (bindE (encode_bytes alloc p' e' (le_bytes n (cell_u64 c))) (\<lambda>(e, ptr).
        if tag \<noteq> 0 then encode_varint alloc ptr e (ucast tag) else Inr (e, ptr)))"
    unfolding d [symmetric] by (rule tagged_item_ok [OF encode_bytes_ok [OF p']])
qed (simp_all add: assms bindE_assoc case_prod_unfold)

lemma varint_array_loop_ok:
  assumes "p \<le> length (es_mem e)"
  shows "refines alloc (es_depth e) e p
    (Inr (concat (map (\<lambda>c. (if tag \<noteq> 0 then varint_bytes (ucast tag) else []) @
        varint_bytes (the (varint_of t (cell_u64 c)))) (rev cs))))
    (varint_array_loop alloc p e t tag cs)"
  unfolding wire_list_Inr [symmetric]
proof (rule loop_ok [where L = "\<lambda>e p cs. varint_array_loop alloc p e t tag cs" and opts = "es_options e" and
      step = "\<lambda>e p c. bindE (encode_varint alloc p e (the (varint_of t (cell_u64 c)))) (\<lambda>(e, ptr).
        if tag \<noteq> 0 then encode_varint alloc ptr e (ucast tag) else Inr (e, ptr))"])
  fix e' :: upb_encstate and p' c assume p': "p' \<le> length (es_mem e')" and d: "es_depth e' = es_depth e"
  show "refines alloc (es_depth e) e' p' (Inr ((if tag \<noteq> 0 then varint_bytes (ucast tag) else []) @
        varint_bytes (the (varint_of t (cell_u64 c)))))
      (bindE (encode_varint alloc p' e' (the (varint_of t (cell_u64 c)))) (\<lambda>(e, ptr).
        if tag \<noteq> 0 then encode_varint alloc ptr e (ucast tag) else Inr (e, ptr)))"
    unfolding d [symmetric] by (rule tagged_item_ok [OF encode_varint_ok [OF p']])
qed (simp_all add: assms bindE_assoc case_prod_unfold)

lemma string_array_loop_ok:
  assumes "p \<le> length (es_mem e)"
  shows "refines alloc (es_depth e) e p
    (Inr (concat (map (\<lambda>c. tag_bytes n 2 @ len_bytes (cell_str c)) (rev cs))))
    (string_array_loop alloc p e n cs)"
  unfolding wire_list_Inr [symmetric]
proof (rule loop_ok [where L = "\<lambda>e p cs. string_array_loop alloc p e n cs" and opts = "es_options e" and
      step = "\<lambda>e p c. bindE (encode_bytes alloc p e (cell_str c)) (\<lambda>(e, ptr).
        bindE (encode_varint alloc ptr e (of_nat (length (cell_str c)))) (\<lambda>(e, ptr). encode_tag alloc ptr e n 2))"])
  fix e' :: upb_encstate and p' c assume p': "p' \<le> length (es_mem e')" and d: "es_depth e' = es_depth e"
  show "refines alloc (es_depth e) e' p' (Inr (tag_bytes n 2 @ len_bytes (cell_str c)))
      (bindE (encode_bytes alloc p' e' (cell_str c)) (\<lambda>(e, ptr).
        bindE (encode_varint alloc ptr e (of_nat (length (cell_str c)))) (\<lambda>(e, ptr). encode_tag alloc ptr e n 2)))"
    unfolding d [symmetric] by (rule encode_delimited_ok [OF p'])
qed (simp_all add: assms bindE_assoc case_prod_unfold)

lemma packed_ok:
  assumes p: "p \<le> length (es_mem e)" and "refines alloc (es_depth e) e p (Inr body) r"
  shows "refines alloc (es_depth e) e p (Inr (tag_bytes n 2 @ len_bytes body))
    (bindE r (\<lambda>(e', ptr).
       bindE (encode_varint alloc ptr e' (of_nat (length (es_mem e') - ptr - (length (es_mem e) - p))))
         (\<lambda>(e, ptr). encode_tag alloc ptr e n 2)))"
proof -
  have "refines alloc (es_depth e) e p (Inr ((tag_bytes n 2 @ varint_bytes (of_nat (length body))) @ body))
    (bindE r (\<lambda>(e', ptr).
       bindE (encode_varint alloc ptr e' (of_nat (length (es_mem e') - ptr - (length (es_mem e) - p))))
         (\<lambda>(e, ptr). encode_tag alloc ptr e n 2)))"
  proof (rule refines_seq [OF assms(2)])
    fix e' p' assume w: "wrote e p body e' p'" "es_depth e' = es_depth e"
    show "refines alloc (es_depth e) e' p' (Inr (tag_bytes n 2 @ varint_bytes (of_nat (length body))))
      (case (e', p') of (e', ptr) \<Rightarrow>
       bindE (encode_varint alloc ptr e' (of_nat (length (es_mem e') - ptr - (length (es_mem e) - p))))
         (\<lambda>(e, ptr). encode_tag alloc ptr e n 2))"
      unfolding prod.case wrote_length [OF w(1) p]
      by (rule refines_seq [OF varint_step [OF w]]) (auto intro: tag_step)
  qed
  then show ?thesis by (simp add: len_bytes_def)
qed

lemma unknown_loop_eq:
  "p + length (concat us) \<le> length (es_mem e) \<Longrightarrow> unknown_loop e p us = write_at e p (concat us)"
proof (induction us arbitrary: e p)
  case Nil
  then show ?case by (simp add: write_at_def)
next
  case (Cons u us)
  have "write_at (write_at e p u) (p + length u) (concat us) = write_at e p (u @ concat us)"
    using Cons.prems by (simp add: write_at_def ac_simps)
  moreover have "unknown_loop (write_at e p u) (p + length u) us =
      write_at (write_at e p u) (p + length u) (concat us)"
    using Cons.prems by (intro Cons.IH) (simp add: write_at_def)
  ultimately show ?case by simp
qed

lemma encode_unknown_ok:
  assumes p: "ptr \<le> length (es_mem e)"
  shows "refines alloc (es_depth e) e ptr (Inr (wire_unknown (es_options e) msg)) (encode_unknown alloc ptr e msg)"
proof -
  define us where "us = (case msg_aux msg of None \<Rightarrow> [] | Some aux \<Rightarrow> unknown_bytes aux)"
  have us': "(case msg_aux msg of None \<Rightarrow> [] | Some aux \<Rightarrow> unknowns_from aux 0) = us"
    by (simp add: us_def unknowns_from_eq split: option.split)
  show ?thesis
  proof (cases "es_options e AND 2 = 0 \<and> concat us \<noteq> []")
    case False
    then consider "es_options e AND 2 \<noteq> 0" | "concat us = []" by blast
    then have "encode_unknown alloc ptr e msg = Inr (e, ptr) \<and> wire_unknown (es_options e) msg = []"
    proof cases
      case 1
      then show ?thesis by (simp add: encode_unknown_def wire_unknown_def)
    next
      case 2
      then have "sum_list (map length us) = 0" using length_concat [of us] by simp
      then have "encode_unknown alloc ptr e msg = Inr (e, ptr)"
        by (simp only: encode_unknown_def us' Let_def) simp
      moreover have "wire_unknown (es_options e) msg = []"
        using 2 by (simp only: wire_unknown_def us_def [symmetric]) simp
      ultimately show ?thesis ..
    qed
    then show ?thesis using refines_Inr [OF p, of alloc] by simp
  next
    case True
    then have "sum_list (map length us) \<noteq> 0" by (simp flip: length_concat)
    moreover have "unknown_loop e' p' us = write_at e' p' (concat us) \<and>
        wrote e ptr (concat us) (write_at e' p' (concat us)) p' \<and> es_depth e' = es_depth e"
      if "reserved e ptr (length (concat us)) e' p'" for e' p'
      using that write_at_reserved [OF that] by (auto simp: reserved_def intro!: unknown_loop_eq)
    ultimately show ?thesis
      using True encode_reserve_ok [OF p, of alloc "length (concat us)"]
      by (auto simp: encode_unknown_def wire_unknown_def us' us_def [symmetric] refines_def length_concat Let_def)
  qed
qed

section \<open>Fields, given the encoder of submessages\<close>

text \<open>
  The contract between a field and the encoder of its submessages: it writes the submessage's
  bytes for the depth and options of the state, and returns their number.
\<close>

locale submessage_encoder =
  fixes alloc :: "nat \<Rightarrow> bool" and em :: msg_encoder and sem :: msg_bytes
  assumes em: "ptr \<le> length (es_mem e) \<Longrightarrow>
      (em ptr e msg r = Inl kUpb_EncodeStatus_OutOfMemory \<and> (\<exists>n. \<not> alloc n)) \<or>
      (case sem (es_options e) (es_depth e) msg r of
         Inl s \<Rightarrow> em ptr e msg r = Inl s
       | Inr data \<Rightarrow> \<exists>e' ptr'. em ptr e msg r = Inr (e', ptr', length data) \<and> wrote e ptr data e' ptr' \<and>
           es_depth e' = es_depth e)"
begin

text \<open>A submessage, then more in front of it that may depend on its size.\<close>

lemma em_seq:
  assumes "ptr \<le> length (es_mem e)"
    and "\<And>data e' ptr'. wrote e ptr data e' ptr' \<Longrightarrow> es_depth e' = es_depth e \<Longrightarrow>
      refines alloc d e' ptr' (Inr (front data)) (f (e', ptr', length data))"
  shows "refines alloc d e ptr (bindE (sem (es_options e) (es_depth e) msg r) (\<lambda>b. Inr (front b @ b)))
    (bindE (em ptr e msg r) f)"
proof -
  let ?s = "sem (es_options e) (es_depth e) msg r"
  consider "em ptr e msg r = Inl kUpb_EncodeStatus_OutOfMemory" "\<exists>n. \<not> alloc n"
    | st where "?s = Inl st" "em ptr e msg r = Inl st"
    | data e' p' where "?s = Inr data" "em ptr e msg r = Inr (e', p', length data)"
        "wrote e ptr data e' p'" "es_depth e' = es_depth e"
    using em [OF assms(1), of msg r] by (auto split: sum.splits)
  then show ?thesis
  proof cases
    case 3
    then show ?thesis using assms(2) [OF 3(3,4)] by (auto simp: refines_def intro: wrote_trans)
  qed (auto simp: refines_def)
qed

lemma group_item:
  assumes "ptr \<le> length (es_mem e)"
    and "\<And>e' ptr'. ptr' \<le> length (es_mem e') \<Longrightarrow> es_depth e' = es_depth e \<Longrightarrow>
      refines alloc d e' ptr' (Inr front) (f (e', ptr'))"
  shows "refines alloc d e ptr
    (bindE (sem (es_options e) (es_depth e) msg (if is_empty then MT_Empty else subm)) (\<lambda>b.
       Inr (front @ b @ tag_bytes n 4)))
    (bindE (encode_tag alloc ptr e n 4) (\<lambda>(e, ptr).
     bindE (encode_TaggedMessagePtr em ptr e is_empty msg subm) (\<lambda>(e, ptr, sz). f (e, ptr))))"
proof -
  let ?r = "if is_empty then MT_Empty else subm"
  let ?s = "sem (es_options e) (es_depth e) msg ?r"
  have "refines alloc d e ptr
    (bindE (Inr (tag_bytes n 4)) (\<lambda>a. bindE (bindE ?s (\<lambda>b. Inr (front @ b))) (\<lambda>b. Inr (b @ a))))
    (bindE (encode_tag alloc ptr e n 4) (\<lambda>(e, ptr).
     bindE (encode_TaggedMessagePtr em ptr e is_empty msg subm) (\<lambda>(e, ptr, sz). f (e, ptr))))"
  proof (rule refines_bind [OF encode_tag_ok [OF assms(1)]])
    fix data e' ptr' assume w: "wrote e ptr data e' ptr'" "es_depth e' = es_depth e"
    have "refines alloc d e' ptr' (bindE (sem (es_options e') (es_depth e') msg ?r) (\<lambda>b. Inr (front @ b)))
      (bindE (em ptr' e' msg ?r) (\<lambda>(e, ptr, sz). f (e, ptr)))"
      using assms(2) w by (intro em_seq) (auto dest: wrote_bound)
    with w show "refines alloc d e' ptr' (bindE ?s (\<lambda>b. Inr (front @ b)))
      (case (e', ptr') of (e, ptr) \<Rightarrow>
        bindE (encode_TaggedMessagePtr em ptr e is_empty msg subm) (\<lambda>(e, ptr, sz). f (e, ptr)))"
      by (simp add: encode_TaggedMessagePtr_def Let_def wrote_options)
  qed
  then show ?thesis by (simp add: bindE_assoc)
qed

lemma message_item:
  assumes "ptr \<le> length (es_mem e)"
    and "\<And>e' ptr'. ptr' \<le> length (es_mem e') \<Longrightarrow> es_depth e' = es_depth e \<Longrightarrow>
      refines alloc d e' ptr' (Inr front) (f (e', ptr'))"
  shows "refines alloc d e ptr
    (bindE (sem (es_options e) (es_depth e) msg (if is_empty then MT_Empty else subm)) (\<lambda>b.
       Inr (front @ len_bytes b)))
    (bindE (encode_TaggedMessagePtr em ptr e is_empty msg subm) (\<lambda>(e, ptr, sz).
     bindE (encode_varint alloc ptr e (of_nat sz)) f))"
proof -
  let ?r = "if is_empty then MT_Empty else subm"
  have "refines alloc d e ptr
    (bindE (sem (es_options e) (es_depth e) msg ?r) (\<lambda>b. Inr ((front @ varint_bytes (of_nat (length b))) @ b)))
    (bindE (em ptr e msg ?r) (\<lambda>(e, ptr, sz). bindE (encode_varint alloc ptr e (of_nat sz)) f))"
  proof (rule em_seq [OF assms(1)])
    fix data e' ptr' assume w: "wrote e ptr data e' ptr'" "es_depth e' = es_depth e"
    show "refines alloc d e' ptr' (Inr (front @ varint_bytes (of_nat (length data))))
      (case (e', ptr', length data) of (e, ptr, sz) \<Rightarrow> bindE (encode_varint alloc ptr e (of_nat sz)) f)"
      unfolding prod.case
    proof (rule refines_seq [OF encode_varint_ok [OF wrote_bound [OF w(1)]]])
      fix e'' ptr'' assume "wrote e' ptr' (varint_bytes (of_nat (length data))) e'' ptr''" "es_depth e'' = es_depth e'"
      then show "refines alloc d e'' ptr'' (Inr front) (f (e'', ptr''))"
        using assms(2) w(2) by (auto dest: wrote_bound)
    qed
  qed
  then show ?thesis by (simp add: encode_TaggedMessagePtr_def Let_def len_bytes_def)
qed

lemma scalar_ok:
  assumes p: "ptr \<le> length (es_mem e)"
  shows "refines alloc (es_depth e) e ptr (wire_scalar sem (es_options e) (es_depth e) mem subs f)
    (encode_scalar alloc em ptr e mem subs f)"
proof -
  let ?n = "mtf_number f" and ?t = "mtf_descriptortype f" and ?d = "es_depth e"
  let ?e1 = "e\<lparr>es_depth := es_depth e - 1\<rparr>"
  have p1: "ptr \<le> length (es_mem ?e1)" using p by simp
  have fixed: "refines alloc ?d e ptr (Inr (tag_bytes ?n wt @ b)) (bindE r (\<lambda>(e, ptr). encode_tag alloc ptr e ?n wt))"
    if "refines alloc ?d e ptr (Inr b) r" for b r wt
    by (rule refines_seq [OF that]) (auto intro: tag_step)
  consider (f64) "?t = kUpb_FieldType_Double \<or> ?t = kUpb_FieldType_SFixed64 \<or> ?t = kUpb_FieldType_Fixed64"
    | (f32) "?t = kUpb_FieldType_Float \<or> ?t = kUpb_FieldType_SFixed32 \<or> ?t = kUpb_FieldType_Fixed32"
    | (str) "?t = kUpb_FieldType_String \<or> ?t = kUpb_FieldType_Bytes"
    | (group) "?t = kUpb_FieldType_Group" | (msg) "?t = kUpb_FieldType_Message"
    | (varint) "?t \<in> {kUpb_FieldType_Int64, kUpb_FieldType_UInt64, kUpb_FieldType_UInt32, kUpb_FieldType_Int32,
        kUpb_FieldType_Enum, kUpb_FieldType_Bool, kUpb_FieldType_SInt32, kUpb_FieldType_SInt64}"
    by (cases ?t) auto
  then show ?thesis
  proof cases
    case f64
    then show ?thesis using fixed [OF encode_fixed_ok(1) [OF p], of 1]
      by (auto simp: wire_scalar_def encode_scalar_def encode_double_def Let_def)
  next
    case f32
    then show ?thesis using fixed [OF encode_fixed_ok(2) [OF p], of 5]
      by (auto simp: wire_scalar_def encode_scalar_def encode_float_def Let_def)
  next
    case str
    then show ?thesis using encode_delimited_ok [OF p, of alloc ?n "cell_str mem"]
      by (auto simp: wire_scalar_def encode_scalar_def Let_def)
  next
    case varint
    then show ?thesis using fixed [OF encode_varint_ok [OF p], of 0]
      by (auto simp: wire_scalar_def encode_scalar_def Let_def)
  next
    case group
    show ?thesis
    proof (cases "(\<exists>emp m. mem = CSub emp m) \<and> es_depth e - 1 \<noteq> 0")
      case False
      with group p show ?thesis
        by (auto simp: wire_scalar_def encode_scalar_def Let_def refines_Inr refines_Inl split: cell.split)
    next
      case True
      then obtain emp m where m: "mem = CSub emp m" "es_depth e - 1 \<noteq> 0" by blast
      have "refines alloc ?d ?e1 ptr
        (bindE (sem (es_options ?e1) (es_depth ?e1) m
            (if emp then MT_Empty else upb_Encoder_GetSubMiniTable subs f)) (\<lambda>b.
           Inr (tag_bytes ?n 3 @ b @ tag_bytes ?n 4)))
        (bindE (encode_tag alloc ptr ?e1 ?n 4) (\<lambda>(e, ptr).
         bindE (encode_TaggedMessagePtr em ptr e emp m (upb_Encoder_GetSubMiniTable subs f)) (\<lambda>(e, ptr, sz).
         (\<lambda>(e, ptr). (\<lambda>(e, ptr). encode_tag alloc ptr e ?n 3) (e\<lparr>es_depth := es_depth e + 1\<rparr>, ptr)) (e, ptr))))"
        by (rule group_item [OF p1]) (simp add: tag_restore)
      then show ?thesis using group m by (simp add: wire_scalar_def encode_scalar_def Let_def)
    qed
  next
    case msg
    show ?thesis
    proof (cases "(\<exists>emp m. mem = CSub emp m) \<and> es_depth e - 1 \<noteq> 0")
      case False
      with msg p show ?thesis
        by (auto simp: wire_scalar_def encode_scalar_def Let_def refines_Inr refines_Inl split: cell.split)
    next
      case True
      then obtain emp m where m: "mem = CSub emp m" "es_depth e - 1 \<noteq> 0" by blast
      have "refines alloc ?d ?e1 ptr
        (bindE (sem (es_options ?e1) (es_depth ?e1) m
            (if emp then MT_Empty else upb_Encoder_GetSubMiniTable subs f)) (\<lambda>b.
           Inr (tag_bytes ?n 2 @ len_bytes b)))
        (bindE (encode_TaggedMessagePtr em ptr ?e1 emp m (upb_Encoder_GetSubMiniTable subs f)) (\<lambda>(e, ptr, sz).
         bindE (encode_varint alloc ptr e (of_nat sz)) (\<lambda>(e, ptr).
         (\<lambda>(e, ptr). encode_tag alloc ptr e ?n 2) (e\<lparr>es_depth := es_depth e + 1\<rparr>, ptr))))"
        by (rule message_item [OF p1]) (simp add: tag_restore)
      then show ?thesis using msg m by (simp add: wire_scalar_def encode_scalar_def Let_def)
    qed
  qed
qed

lemma depth_restore:
  assumes "refines alloc d1 e ptr spec r"
  shows "refines alloc (d1 + 1) e ptr spec (bindE r (\<lambda>(e, ptr). Inr (e\<lparr>es_depth := es_depth e + 1\<rparr>, ptr)))"
  using assms by (cases spec) (auto simp: refines_def)

lemma group_array_loop_ok:
  assumes p: "p \<le> length (es_mem e)"
  shows "refines alloc (es_depth e) e p
    (wire_list (wire_submessage sem (es_options e) (es_depth e) subm (\<lambda>b. tag_bytes n 3 @ b @ tag_bytes n 4)) (rev cs))
    (group_array_loop alloc em p e n subm cs)"
proof (rule loop_ok [where L = "\<lambda>e p cs. group_array_loop alloc em p e n subm cs" and opts = "es_options e" and
      step = "\<lambda>e p c. case c of
        CSub is_empty msg \<Rightarrow>
          bindE (encode_tag alloc p e n 4) (\<lambda>(e, ptr).
          bindE (encode_TaggedMessagePtr em ptr e is_empty msg subm) (\<lambda>(e, ptr, sz).
          (\<lambda>(e, ptr). encode_tag alloc ptr e n 3) (e, ptr)))
      | _ \<Rightarrow> Inr (e, p)"])
  fix e' :: upb_encstate and p' c
  assume p': "p' \<le> length (es_mem e')" and o: "es_options e' = es_options e" and d: "es_depth e' = es_depth e"
  show "refines alloc (es_depth e) e' p'
    (wire_submessage sem (es_options e) (es_depth e) subm (\<lambda>b. tag_bytes n 3 @ b @ tag_bytes n 4) c)
    (case c of
        CSub is_empty msg \<Rightarrow>
          bindE (encode_tag alloc p' e' n 4) (\<lambda>(e, ptr).
          bindE (encode_TaggedMessagePtr em ptr e is_empty msg subm) (\<lambda>(e, ptr, sz).
          (\<lambda>(e, ptr). encode_tag alloc ptr e n 3) (e, ptr)))
      | _ \<Rightarrow> Inr (e', p'))"
  proof (cases c)
    case (CSub emp m)
    show ?thesis
      unfolding CSub wire_submessage_def cell.case d [symmetric] o [symmetric]
      by (rule group_item [OF p']) (metis encode_tag_ok prod.case)
  qed (use refines_Inr [OF p', of alloc] in \<open>simp_all add: wire_submessage_def d\<close>)
qed (simp_all add: p bindE_assoc case_prod_unfold split: cell.split)

lemma message_array_loop_ok:
  assumes p: "p \<le> length (es_mem e)"
  shows "refines alloc (es_depth e) e p
    (wire_list (wire_submessage sem (es_options e) (es_depth e) subm (\<lambda>b. tag_bytes n 2 @ len_bytes b)) (rev cs))
    (message_array_loop alloc em p e n subm cs)"
proof (rule loop_ok [where L = "\<lambda>e p cs. message_array_loop alloc em p e n subm cs" and opts = "es_options e" and
      step = "\<lambda>e p c. case c of
        CSub is_empty msg \<Rightarrow>
          bindE (encode_TaggedMessagePtr em p e is_empty msg subm) (\<lambda>(e, ptr, sz).
          bindE (encode_varint alloc ptr e (of_nat sz)) (\<lambda>(e, ptr). encode_tag alloc ptr e n 2))
      | _ \<Rightarrow> Inr (e, p)"])
  fix e' :: upb_encstate and p' c
  assume p': "p' \<le> length (es_mem e')" and o: "es_options e' = es_options e" and d: "es_depth e' = es_depth e"
  show "refines alloc (es_depth e) e' p'
    (wire_submessage sem (es_options e) (es_depth e) subm (\<lambda>b. tag_bytes n 2 @ len_bytes b) c)
    (case c of
        CSub is_empty msg \<Rightarrow>
          bindE (encode_TaggedMessagePtr em p' e' is_empty msg subm) (\<lambda>(e, ptr, sz).
          bindE (encode_varint alloc ptr e (of_nat sz)) (\<lambda>(e, ptr). encode_tag alloc ptr e n 2))
      | _ \<Rightarrow> Inr (e', p'))"
  proof (cases c)
    case (CSub emp m)
    show ?thesis
      unfolding CSub wire_submessage_def cell.case d [symmetric] o [symmetric]
      by (rule message_item [OF p']) (metis encode_tag_ok prod.case)
  qed (use refines_Inr [OF p', of alloc] in \<open>simp_all add: wire_submessage_def d\<close>)
qed (simp_all add: p bindE_assoc case_prod_unfold split: cell.split)

lemma array_ok:
  assumes p: "ptr \<le> length (es_mem e)"
  shows "refines alloc (es_depth e) e ptr (wire_array sem (es_options e) (es_depth e) mem subs f)
    (encode_array alloc em ptr e mem subs f)"
proof (cases "upb_Array_Elems mem = []")
  case True
  with p show ?thesis by (simp add: wire_array_def encode_array_def Let_def refines_Inr)
next
  case False
  let ?arr = "upb_Array_Elems mem" and ?n = "mtf_number f" and ?t = "mtf_descriptortype f" and ?d = "es_depth e"
  let ?e1 = "e\<lparr>es_depth := es_depth e - 1\<rparr>" and ?packed = "upb_MiniTableField_IsPacked f"
  let ?subm = "upb_Encoder_GetSubMiniTable subs f"
  let ?finish = "\<lambda>(e', ptr'). if ?packed then
      bindE (encode_varint alloc ptr' e' (of_nat (length (es_mem e') - ptr' - (length (es_mem e) - ptr))))
        (\<lambda>(e, ptr). encode_tag alloc ptr e ?n 2) else Inr (e', ptr')"
  have p1: "ptr \<le> length (es_mem ?e1)" using p by simp
  have bind_Inr: "bindE r Inr = r" for r :: "(upb_encstate \<times> nat) encres"
    by (cases r) auto
  have finish: "refines alloc ?d e ptr
      (if ?packed then Inr (tag_bytes ?n 2 @ len_bytes (concat (map (\<lambda>c. el (cell_u64 c)) ?arr)))
       else let tag = push_bit 3 ?n OR ucast (wt :: byte) in
         Inr (concat (map (\<lambda>c. (if tag \<noteq> 0 then varint_bytes (ucast tag) else []) @ el (cell_u64 c)) ?arr)))
      (bindE (r (if ?packed then 0 else push_bit 3 ?n OR ucast wt)) ?finish)"
    if r: "\<And>tag. refines alloc ?d e ptr (Inr (concat (map (\<lambda>c. (if tag \<noteq> 0 then varint_bytes (ucast tag) else []) @
        el (cell_u64 c)) ?arr))) (r tag)" for el wt and r :: "u32 \<Rightarrow> (upb_encstate \<times> nat) encres"
  proof (cases ?packed)
    case True
    with packed_ok [OF p, of alloc _ "r 0" ?n] r [of 0] show ?thesis by simp
  next
    case False
    with r [of "push_bit 3 ?n OR ucast wt"] show ?thesis by (simp add: bind_Inr Let_def split del: if_split)
  qed
  have fixed: "refines alloc ?d e ptr (Inr (concat (map (\<lambda>c. (if tag \<noteq> 0 then varint_bytes (ucast tag) else []) @
      le_bytes k (cell_u64 c)) ?arr))) (encode_fixedarray alloc ptr e ?arr k tag)" for k tag
    using fixedarray_loop_ok [OF p, of alloc tag k "rev ?arr"] encode_bytes_ok [OF p, of alloc]
    by (cases "tag = 0") (simp_all add: encode_fixedarray_def)
  have varints: "refines alloc ?d e ptr (Inr (concat (map (\<lambda>c. (if tag \<noteq> 0 then varint_bytes (ucast tag) else []) @
      varint_bytes (the (varint_of ?t (cell_u64 c)))) ?arr))) (varint_array_loop alloc ptr e ?t tag (rev ?arr))" for tag
    using varint_array_loop_ok [OF p, of alloc tag ?t "rev ?arr"] by simp
  consider (f64) "?t = kUpb_FieldType_Double \<or> ?t = kUpb_FieldType_SFixed64 \<or> ?t = kUpb_FieldType_Fixed64"
    | (f32) "?t = kUpb_FieldType_Float \<or> ?t = kUpb_FieldType_SFixed32 \<or> ?t = kUpb_FieldType_Fixed32"
    | (str) "?t = kUpb_FieldType_String \<or> ?t = kUpb_FieldType_Bytes"
    | (group) "?t = kUpb_FieldType_Group" | (msg) "?t = kUpb_FieldType_Message"
    | (varint) "?t \<in> {kUpb_FieldType_Int64, kUpb_FieldType_UInt64, kUpb_FieldType_UInt32, kUpb_FieldType_Int32,
        kUpb_FieldType_Enum, kUpb_FieldType_Bool, kUpb_FieldType_SInt32, kUpb_FieldType_SInt64}"
    by (cases ?t) auto
  then show ?thesis
  proof cases
    case f64
    with False finish [OF fixed [of _ 8], of 1] show ?thesis
      by (auto simp: wire_array_def encode_array_def Let_def)
  next
    case f32
    with False finish [OF fixed [of _ 4], of 5] show ?thesis
      by (auto simp: wire_array_def encode_array_def Let_def)
  next
    case str
    with False string_array_loop_ok [OF p, of alloc ?n "rev ?arr"] show ?thesis
      by (auto simp: wire_array_def encode_array_def Let_def)
  next
    case varint
    then have ne: "?t \<noteq> kUpb_FieldType_Double" "?t \<noteq> kUpb_FieldType_SFixed64" "?t \<noteq> kUpb_FieldType_Fixed64"
      "?t \<noteq> kUpb_FieldType_Float" "?t \<noteq> kUpb_FieldType_SFixed32" "?t \<noteq> kUpb_FieldType_Fixed32"
      "?t \<noteq> kUpb_FieldType_String" "?t \<noteq> kUpb_FieldType_Bytes" "?t \<noteq> kUpb_FieldType_Group"
      "?t \<noteq> kUpb_FieldType_Message" by auto
    from finish [OF varints, of 0] False show ?thesis
      unfolding wire_array_def encode_array_def Let_def by (simp only: ne if_False simp_thms)
  next
    case group
    show ?thesis
    proof (cases "es_depth e - 1 = 0")
      case True
      with group False show ?thesis by (simp add: wire_array_def encode_array_def Let_def refines_Inl)
    next
      case d: False
      from depth_restore [OF group_array_loop_ok [OF p1, of ?subm ?n "rev ?arr"]] group False d
      show ?thesis by (simp add: wire_array_def encode_array_def Let_def)
    qed
  next
    case msg
    show ?thesis
    proof (cases "es_depth e - 1 = 0")
      case True
      with msg False show ?thesis by (simp add: wire_array_def encode_array_def Let_def refines_Inl)
    next
      case d: False
      from depth_restore [OF message_array_loop_ok [OF p1, of ?subm ?n "rev ?arr"]] msg False d
      show ?thesis by (simp add: wire_array_def encode_array_def Let_def)
    qed
  qed
qed

lemma mapentry_ok:
  assumes p: "ptr \<le> length (es_mem e)"
  shows "refines alloc (es_depth e) e ptr (wire_mapentry sem (es_options e) (es_depth e) n layout ent)
    (encode_mapentry alloc em ptr e n layout ent)"
proof -
  let ?v = "wire_scalar sem (es_options e) (es_depth e) (snd ent) (mt_subs layout) (mt_fields layout ! 1)"
  let ?k = "wire_scalar sem (es_options e) (es_depth e) (fst ent) (mt_subs layout) (mt_fields layout ! 0)"
  have "refines alloc (es_depth e) e ptr
    (bindE ?v (\<lambda>v. bindE (bindE ?k (\<lambda>k. Inr ((tag_bytes n 2 @ varint_bytes (of_nat (length (k @ v)))) @ k)))
        (\<lambda>b. Inr (b @ v))))
    (bindE (encode_scalar alloc em ptr e (snd ent) (mt_subs layout) (mt_fields layout ! 1)) (\<lambda>(e', ptr').
     bindE (encode_scalar alloc em ptr' e' (fst ent) (mt_subs layout) (mt_fields layout ! 0)) (\<lambda>(e', ptr').
     bindE (encode_varint alloc ptr' e' (of_nat (length (es_mem e') - ptr' - (length (es_mem e) - ptr)))) (\<lambda>(e, ptr).
     encode_tag alloc ptr e n 2))))"
  proof (rule refines_bind [OF scalar_ok [OF p]])
    fix v e1 p1 assume w1: "wrote e ptr v e1 p1" "es_depth e1 = es_depth e"
    have k: "refines alloc (es_depth e) e1 p1 ?k
        (encode_scalar alloc em p1 e1 (fst ent) (mt_subs layout) (mt_fields layout ! 0))"
      using scalar_ok [OF wrote_bound [OF w1(1)]] w1 by (metis wrote_options)
    have "refines alloc (es_depth e) e1 p1
      (bindE ?k (\<lambda>k. bindE (Inr (tag_bytes n 2 @ varint_bytes (of_nat (length (k @ v))))) (\<lambda>b. Inr (b @ k))))
      (bindE (encode_scalar alloc em p1 e1 (fst ent) (mt_subs layout) (mt_fields layout ! 0)) (\<lambda>(e', ptr').
       bindE (encode_varint alloc ptr' e' (of_nat (length (es_mem e') - ptr' - (length (es_mem e) - ptr)))) (\<lambda>(e, ptr).
       encode_tag alloc ptr e n 2)))"
    proof (rule refines_bind [OF k])
      fix kb e2 p2 assume w2: "wrote e1 p1 kb e2 p2" "es_depth e2 = es_depth e"
      show "refines alloc (es_depth e) e2 p2 (Inr (tag_bytes n 2 @ varint_bytes (of_nat (length (kb @ v)))))
        (case (e2, p2) of (e', ptr') \<Rightarrow>
         bindE (encode_varint alloc ptr' e' (of_nat (length (es_mem e') - ptr' - (length (es_mem e) - ptr)))) (\<lambda>(e, ptr).
         encode_tag alloc ptr e n 2))"
        unfolding prod.case wrote_length [OF wrote_trans [OF w1(1) w2(1)] p]
        by (rule refines_seq [OF varint_step [OF w2]]) (auto intro: tag_step)
    qed
    then show "refines alloc (es_depth e) e1 p1
      (bindE ?k (\<lambda>k. Inr ((tag_bytes n 2 @ varint_bytes (of_nat (length (k @ v)))) @ k)))
      (case (e1, p1) of (e', ptr') \<Rightarrow>
       bindE (encode_scalar alloc em ptr' e' (fst ent) (mt_subs layout) (mt_fields layout ! 0)) (\<lambda>(e', ptr').
       bindE (encode_varint alloc ptr' e' (of_nat (length (es_mem e') - ptr' - (length (es_mem e) - ptr)))) (\<lambda>(e, ptr).
       encode_tag alloc ptr e n 2)))" by simp
  qed
  then show ?thesis
    by (simp add: wire_mapentry_def encode_mapentry_def Let_def bindE_assoc len_bytes_def)
qed

lemma mapentry_loop_ok:
  assumes p: "p \<le> length (es_mem e)"
  shows "refines alloc (es_depth e) e p
    (wire_list (wire_mapentry sem (es_options e) (es_depth e) n layout) (rev ents))
    (mapentry_loop alloc em p e n layout ents)"
proof (rule loop_ok [where L = "\<lambda>e p ents. mapentry_loop alloc em p e n layout ents" and opts = "es_options e" and
      step = "\<lambda>e p ent. encode_mapentry alloc em p e n layout ent"])
  fix e' :: upb_encstate and p' ent
  assume p': "p' \<le> length (es_mem e')" and o: "es_options e' = es_options e" and d: "es_depth e' = es_depth e"
  show "refines alloc (es_depth e) e' p' (wire_mapentry sem (es_options e) (es_depth e) n layout ent)
      (encode_mapentry alloc em p' e' n layout ent)"
    unfolding d [symmetric] o [symmetric] by (rule mapentry_ok [OF p'])
qed (simp_all add: p)

lemma mapentry_loop_append:
  "bindE (mapentry_loop alloc em p e n layout xs) (\<lambda>(e, p). mapentry_loop alloc em p e n layout ys) =
     mapentry_loop alloc em p e n layout (xs @ ys)"
  by (induction xs arbitrary: e p) (simp_all add: bindE_assoc case_prod_unfold)

lemma mapentry_loop_options:
  "p \<le> length (es_mem e) \<Longrightarrow> mapentry_loop alloc em p e n layout ents = Inr (e', p') \<Longrightarrow> es_options e' = es_options e"
  using mapentry_loop_ok [of p e n layout ents]
  by (auto simp: refines_def wrote_options split: sum.splits)

lemma map_ok:
  assumes p: "ptr \<le> length (es_mem e)"
  shows "refines alloc (es_depth e) e ptr (wire_map tabs sem (es_options e) (es_depth e) mem subs f)
    (encode_map alloc tabs em ptr e mem subs f)"
proof (cases "\<exists>s arr tab. mem = CMap s arr tab \<and> upb_Map_Size mem \<noteq> 0")
  case False
  with p show ?thesis
    by (cases mem) (auto simp: wire_map_def encode_map_def Let_def upb_Map_Size_def refines_Inr)
next
  case True
  then obtain s arr tab where m: "mem = CMap s arr tab" "upb_Map_Size mem \<noteq> 0" by blast
  let ?layout = "tabs (upb_Encoder_GetSubMiniTable subs f)"
  have "encode_map alloc tabs em ptr e mem subs f = mapentry_loop alloc em ptr e (mtf_number f) ?layout
      (map_order (es_options e) (mtf_descriptortype (mt_fields ?layout ! 0)) mem)"
    using m by (simp add: encode_map_def map_order_def Let_def mapentry_loop_append)
  then show ?thesis using mapentry_loop_ok [OF p] m by (simp add: wire_map_def Let_def)
qed

lemma field_ok:
  assumes p: "ptr \<le> length (es_mem e)"
  shows "refines alloc (es_depth e) e ptr (wire_field tabs sem (es_options e) (es_depth e) mem subs f)
    (encode_field alloc tabs em ptr e mem subs f)"
  using scalar_ok [OF p] array_ok [OF p] map_ok [OF p]
  by (auto simp: wire_field_def encode_field_def split: option.split upb_FieldMode.split)

lemma ext_ok:
  assumes p: "ptr \<le> length (es_mem e)"
  shows "refines alloc (es_depth e) e ptr (wire_ext tabs sem (es_options e) (es_depth e) is_set ext)
    (encode_ext alloc tabs em ptr e ext is_set)"
proof (cases "is_set \<and> (\<exists>emp m. ext_data ext = CSub emp m)")
  case False
  with p field_ok [OF p] show ?thesis
    by (auto simp: wire_ext_def encode_ext_def refines_Inr split: cell.split)
next
  case True
  then obtain emp m where m: "is_set" "ext_data ext = CSub emp m" by blast
  let ?r = "the (upb_MiniTableExtension_GetSubMessage (ext_ext ext))"
  let ?num = "ucast (upb_MiniTableExtension_Number (ext_ext ext)) :: u64"
  let ?s = "sem (es_options e) (es_depth e) m ?r"
  let ?front = "\<lambda>k. tag_bytes 1 3 @ tag_bytes 2 0 @ varint_bytes ?num @ tag_bytes 3 2 @ varint_bytes (of_nat k)"
  let ?tail = "\<lambda>(e, ptr, sz). bindE (encode_varint alloc ptr e (of_nat sz)) (\<lambda>(e, ptr).
     bindE (encode_tag alloc ptr e 3 2) (\<lambda>(e, ptr).
     bindE (encode_varint alloc ptr e ?num) (\<lambda>(e, ptr).
     bindE (encode_tag alloc ptr e 2 0) (\<lambda>(e, ptr).
     encode_tag alloc ptr e 1 3))))"
  have front: "refines alloc (es_depth e) e1 p1 (Inr (?front k)) (?tail (e1, p1, k))"
    if "wrote e' p' b e1 p1" "es_depth e1 = es_depth e" for e' p' b e1 p1 k
  proof -
    have "refines alloc (es_depth e) e1 p1
      (Inr ((((tag_bytes 1 3 @ tag_bytes 2 0) @ varint_bytes ?num) @ tag_bytes 3 2) @ varint_bytes (of_nat k)))
      (?tail (e1, p1, k))"
      unfolding prod.case
      by (rule refines_seq [OF varint_step [OF that]], unfold prod.case, rule refines_seq [OF tag_step], assumption+,
          unfold prod.case, rule refines_seq [OF varint_step], assumption+, unfold prod.case,
          rule refines_seq [OF tag_step], assumption+, unfold prod.case, rule tag_step)
    then show ?thesis by simp
  qed
  have "refines alloc (es_depth e) e ptr
    (bindE (Inr (tag_bytes 1 4)) (\<lambda>a. bindE (bindE ?s (\<lambda>b. Inr (?front (length b) @ b))) (\<lambda>b. Inr (b @ a))))
    (bindE (encode_tag alloc ptr e 1 4) (\<lambda>(e, ptr). bindE (em ptr e m ?r) ?tail))"
  proof (rule refines_bind [OF encode_tag_ok [OF p]])
    fix data e' ptr' assume w: "wrote e ptr data e' ptr'" "es_depth e' = es_depth e"
    have "refines alloc (es_depth e) e' ptr'
      (bindE (sem (es_options e') (es_depth e') m ?r) (\<lambda>b. Inr (?front (length b) @ b))) (bindE (em ptr' e' m ?r) ?tail)"
      using w front by (intro em_seq) (auto dest: wrote_bound)
    with w show "refines alloc (es_depth e) e' ptr' (bindE ?s (\<lambda>b. Inr (?front (length b) @ b)))
      (case (e', ptr') of (e, ptr) \<Rightarrow> bindE (em ptr e m ?r) ?tail)"
      by (simp add: wrote_options)
  qed
  then show ?thesis using m
    by (simp add: wire_ext_def encode_ext_def encode_msgset_item_def bindE_assoc len_bytes_def)
qed

lemma ext_loop_ok:
  assumes p: "p \<le> length (es_mem e)"
  shows "refines alloc (es_depth e) e p
    (wire_list (wire_ext tabs sem (es_options e) (es_depth e) is_set) (rev exts))
    (ext_loop alloc tabs em p e is_set exts)"
proof (rule loop_ok [where L = "\<lambda>e p exts. ext_loop alloc tabs em p e is_set exts" and opts = "es_options e" and
      step = "\<lambda>e p ext. encode_ext alloc tabs em p e ext is_set"])
  fix e' :: upb_encstate and p' ext
  assume p': "p' \<le> length (es_mem e')" and o: "es_options e' = es_options e" and d: "es_depth e' = es_depth e"
  show "refines alloc (es_depth e) e' p' (wire_ext tabs sem (es_options e) (es_depth e) is_set ext)
      (encode_ext alloc tabs em p' e' ext is_set)"
    unfolding d [symmetric] o [symmetric] by (rule ext_ok [OF p'])
qed (simp_all add: p)

lemma exts_ok:
  assumes p: "p \<le> length (es_mem e)"
  shows "refines alloc (es_depth e) e p
    (wire_list (wire_ext tabs sem (es_options e) (es_depth e) (mt_ext m = kUpb_ExtMode_IsMessageSet))
      (rev (ext_order (es_options e) m msg)))
    (encode_exts alloc tabs em p e m msg)"
proof -
  have "encode_exts alloc tabs em p e m msg =
      ext_loop alloc tabs em p e (mt_ext m = kUpb_ExtMode_IsMessageSet) (ext_order (es_options e) m msg)"
    by (auto simp: encode_exts_def ext_order_def split: option.split)
  then show ?thesis using ext_loop_ok [OF p] by simp
qed

lemma field_loop_ok:
  assumes p: "p \<le> length (es_mem e)"
  shows "refines alloc (es_depth e) e p
    (wire_list (\<lambda>f. wire_field tabs sem (es_options e) (es_depth e) (msg_cell msg (unat (mtf_offset f))) subs f)
      (rev (filter (encode_shouldencode msg) fs)))
    (field_loop alloc tabs em p e msg subs fs)"
proof -
  have filt: "field_loop alloc tabs em p e msg subs fs =
      field_loop alloc tabs em p e msg subs (filter (encode_shouldencode msg) fs)" for e p
    by (induction fs arbitrary: e p) (simp_all add: case_prod_unfold)
  show ?thesis
    unfolding filt
  proof (rule loop_ok [where L = "\<lambda>e p fs. field_loop alloc tabs em p e msg subs (filter (encode_shouldencode msg) fs)"
        and opts = "es_options e" and
        step = "\<lambda>e p f. if encode_shouldencode msg f
          then encode_field alloc tabs em p e (msg_cell msg (unat (mtf_offset f))) subs f else Inr (e, p)" and
        xs = "filter (encode_shouldencode msg) fs", unfolded filter_filter conj_absorb])
    fix e' :: upb_encstate and p' f
    assume f: "f \<in> set (filter (encode_shouldencode msg) fs)" and p': "p' \<le> length (es_mem e')"
      and o: "es_options e' = es_options e" and d: "es_depth e' = es_depth e"
    show "refines alloc (es_depth e) e' p'
        (wire_field tabs sem (es_options e) (es_depth e) (msg_cell msg (unat (mtf_offset f))) subs f)
        (if encode_shouldencode msg f
          then encode_field alloc tabs em p' e' (msg_cell msg (unat (mtf_offset f))) subs f else Inr (e', p'))"
      unfolding d [symmetric] o [symmetric] using f field_ok [OF p'] by simp
  qed (simp_all add: p)
qed

end
section \<open>Whole messages\<close>

lemma refines_size:
  assumes "refines alloc (es_depth e) e p S R" and p: "p \<le> length (es_mem e)"
  shows "(bindE R (\<lambda>(e', ptr). Inr (e', ptr, (length (es_mem e') - ptr) - (length (es_mem e) - p))) =
        Inl kUpb_EncodeStatus_OutOfMemory \<and> (\<exists>n. \<not> alloc n)) \<or>
      (case S of
         Inl s \<Rightarrow> bindE R (\<lambda>(e', ptr). Inr (e', ptr, (length (es_mem e') - ptr) - (length (es_mem e) - p))) = Inl s
       | Inr data \<Rightarrow> \<exists>e' ptr'.
           bindE R (\<lambda>(e', ptr). Inr (e', ptr, (length (es_mem e') - ptr) - (length (es_mem e) - p))) =
             Inr (e', ptr', length data) \<and> wrote e p data e' ptr' \<and> es_depth e' = es_depth e)"
proof (cases S)
  case (Inl s)
  then show ?thesis using assms(1) by (auto simp: refines_def)
next
  case (Inr data)
  then show ?thesis using assms(1) wrote_length [OF _ p] by (auto simp: refines_def)
qed

text \<open>One level of \<open>encode_message\<close>, given that the level below meets its contract.\<close>

lemma encode_message_step:
  assumes "submessage_encoder alloc (encode_message alloc tabs fuel) (wire_message tabs fuel)"
  shows "submessage_encoder alloc (encode_message alloc tabs (Suc fuel)) (wire_message tabs (Suc fuel))"
proof
  fix p and e :: upb_encstate and msg r
  assume p: "p \<le> length (es_mem e)"
  let ?m = "tabs r" and ?sem = "wire_message tabs fuel" and ?em = "encode_message alloc tabs fuel"
  let ?o = "es_options e" and ?d = "es_depth e"
  let ?exts = "wire_list (wire_ext tabs ?sem ?o ?d (mt_ext ?m = kUpb_ExtMode_IsMessageSet)) (rev (ext_order ?o ?m msg))"
  let ?fields = "wire_list (\<lambda>f. wire_field tabs ?sem ?o ?d (msg_cell msg (unat (mtf_offset f))) (mt_subs ?m) f)
      (filter (encode_shouldencode msg) (mt_fields ?m))"
  let ?prog = "bindE (encode_unknown alloc p e msg) (\<lambda>(e, ptr).
      bindE (encode_exts alloc tabs ?em ptr e ?m msg) (\<lambda>(e, ptr).
      field_loop alloc tabs ?em ptr e msg (mt_subs ?m) (rev (mt_fields ?m))))"
  let ?req = "?o AND 4 \<noteq> 0 \<and> mt_required_count ?m \<noteq> 0 \<and> \<not> upb_Message_IsInitializedShallow msg ?m"
  have fields: "refines alloc ?d e' p' ?fields (field_loop alloc tabs ?em p' e' msg (mt_subs ?m) (rev (mt_fields ?m)))"
    if "p' \<le> length (es_mem e')" "es_options e' = ?o" "es_depth e' = ?d" for e' p'
    using submessage_encoder.field_loop_ok [OF assms that(1), of tabs msg "mt_subs ?m" "rev (mt_fields ?m)"] that(2,3)
    by (simp add: rev_filter)
  have exts: "refines alloc ?d e' p' (bindE ?exts (\<lambda>a. bindE ?fields (\<lambda>b. Inr (b @ a))))
      (bindE (encode_exts alloc tabs ?em p' e' ?m msg) (\<lambda>(e, ptr).
       field_loop alloc tabs ?em ptr e msg (mt_subs ?m) (rev (mt_fields ?m))))"
    if w: "p' \<le> length (es_mem e')" "es_options e' = ?o" "es_depth e' = ?d" for e' p'
  proof (rule refines_bind)
    show "refines alloc ?d e' p' ?exts (encode_exts alloc tabs ?em p' e' ?m msg)"
      using submessage_encoder.exts_ok [OF assms w(1), of tabs ?m msg] w(2,3) by simp
  next
    fix data e2 p2 assume w2: "wrote e' p' data e2 p2" "es_depth e2 = ?d"
    then show "refines alloc ?d e2 p2 ?fields (case (e2, p2) of (e, ptr) \<Rightarrow>
        field_loop alloc tabs ?em ptr e msg (mt_subs ?m) (rev (mt_fields ?m)))"
      using fields [of p2 e2] w(2) wrote_bound [OF w2(1)] wrote_options [OF w2(1)] by simp
  qed
  have "refines alloc ?d e p
      (bindE (Inr (wire_unknown ?o msg)) (\<lambda>u. bindE (bindE ?exts (\<lambda>a. bindE ?fields (\<lambda>b. Inr (b @ a)))) (\<lambda>b. Inr (b @ u))))
      ?prog"
  proof (rule refines_bind [OF encode_unknown_ok [OF p]])
    fix data e2 p2 assume w2: "wrote e p data e2 p2" "es_depth e2 = ?d"
    then show "refines alloc ?d e2 p2 (bindE ?exts (\<lambda>a. bindE ?fields (\<lambda>b. Inr (b @ a))))
      (case (e2, p2) of (e, ptr) \<Rightarrow> bindE (encode_exts alloc tabs ?em ptr e ?m msg) (\<lambda>(e, ptr).
       field_loop alloc tabs ?em ptr e msg (mt_subs ?m) (rev (mt_fields ?m))))"
      using exts [of p2 e2] wrote_bound [OF w2(1)] wrote_options [OF w2(1)] by simp
  qed
  then have prog: "refines alloc ?d e p (wire_message tabs (Suc fuel) ?o ?d msg r) ?prog" if "\<not> ?req"
    unfolding wire_message.simps Let_def if_not_P [OF that] by (simp add: bindE_assoc)
  have em: "encode_message alloc tabs (Suc fuel) p e msg r =
      bindE ?prog (\<lambda>(e', ptr). Inr (e', ptr, (length (es_mem e') - ptr) - (length (es_mem e) - p)))" if "\<not> ?req"
    unfolding encode_message.simps Let_def if_not_P [OF that] by (simp add: bindE_assoc case_prod_unfold)
  show "(encode_message alloc tabs (Suc fuel) p e msg r = Inl kUpb_EncodeStatus_OutOfMemory \<and> (\<exists>n. \<not> alloc n)) \<or>
      (case wire_message tabs (Suc fuel) ?o ?d msg r of
         Inl s \<Rightarrow> encode_message alloc tabs (Suc fuel) p e msg r = Inl s
       | Inr data \<Rightarrow> \<exists>e' ptr'. encode_message alloc tabs (Suc fuel) p e msg r = Inr (e', ptr', length data) \<and>
           wrote e p data e' ptr' \<and> es_depth e' = ?d)"
  proof (cases ?req)
    case True
    then show ?thesis by (simp add: Let_def)
  next
    case False
    show ?thesis
      using refines_size [OF prog [OF False] p] unfolding em [OF False] .
  qed
qed

lemma encode_message_submessage:
  "submessage_encoder alloc (encode_message alloc tabs fuel) (wire_message tabs fuel)"
proof (induction fuel)
  case 0
  show ?case by unfold_locales simp
qed (rule encode_message_step)

interpretation encoder: submessage_encoder alloc "encode_message alloc tabs fuel" "wire_message tabs fuel"
  for alloc tabs fuel
  by (rule encode_message_submessage)

section \<open>The recursion bound\<close>

text \<open>Every submessage is smaller than its message, so the size of the message is enough fuel.\<close>

lemma size_msg_cell: "size (msg_cell msg off) < size msg"
proof (cases "map_of (msg_cells msg) off")
  case None
  then show ?thesis by (cases msg) (simp add: msg_cell_def)
next
  case (Some c)
  then have "(off, c) \<in> set (msg_cells msg)" by (rule map_of_SomeD)
  then have "size c \<le> size_list (size_prod (\<lambda>_. 0) size) (msg_cells msg)"
    by (intro size_list_estimation' [of "(off, c)"]) auto
  with Some show ?thesis by (cases msg) (simp add: msg_cell_def)
qed

lemma size_array_elem: "c \<in> set (upb_Array_Elems mem) \<Longrightarrow> size c < size mem"
  by (cases mem) (auto simp: upb_Array_Elems_def less_Suc_eq_le intro: size_list_estimation')

lemma size_map_entry:
  assumes "ent \<in> set (map_order opts t mem)"
  shows "size (fst ent) < size mem" "size (snd ent) < size mem"
proof -
  from assms obtain s arr tab where m: "mem = CMap s arr tab" "ent \<in> set arr \<union> set tab"
    by (cases mem) (auto simp: map_order_def upb_mapsorter_pushmap_def Let_def set_qsort split: if_splits)
  have le: "size (fst ent) + size (snd ent) + 1 \<le> size_list (size_prod size size) xs" if "ent \<in> set xs"
    for xs :: "(cell \<times> cell) list"
    using that by (intro size_list_estimation' [of ent]) (auto simp: size_prod_simp)
  from m(2) have "size (fst ent) + size (snd ent) + 1 \<le>
      size_list (size_prod size size) arr + size_list (size_prod size size) tab"
    using le [of arr] le [of tab] by auto
  with m show "size (fst ent) < size mem" "size (snd ent) < size mem" by auto
qed

lemma extensions_reverse_from_set: "ext \<in> set (extensions_reverse_from aux i) \<Longrightarrow> AuxExtension ext \<in> set aux"
proof (induction aux i rule: extensions_reverse_from.induct)
  case (1 aux i)
  have "AuxExtension e \<in> set aux" if "next_extension_reverse aux i = (Some e, j)" for e j i
    using that
  proof (induction aux i rule: next_extension_reverse.induct)
    case (1 aux i)
    from 1(4) have "(if i < length aux then
        (case aux ! (length aux - 1 - i) of
           AuxExtension ext \<Rightarrow>
             if upb_Extension_IsEmpty ext then next_extension_reverse aux (i + 1) else (Some ext, i + 1)
         | _ \<Rightarrow> next_extension_reverse aux (i + 1))
      else (None, i)) = (Some e, j)" by (simp only: next_extension_reverse.simps [of aux i])
    with 1(1-3) show ?case
      by (auto split: if_splits aux_ptr.splits dest!: sym [of "aux ! _"])
  qed
  with 1 show ?case
    by (subst (asm) (2) extensions_reverse_from.simps)
      (auto split: prod.splits option.splits dest!: sym [of "(Some _, _)"])
qed

lemma size_ext_order:
  assumes "ext \<in> set (ext_order opts m msg)"
  shows "size (ext_data ext) < size msg"
proof -
  have push: "AuxExtension ext \<in> set aux" if "ext \<in> set (upb_mapsorter_pushexts aux)" for aux
    using that by (induction aux)
      (auto simp: upb_mapsorter_pushexts_def set_qsort map_filter_simps split: aux_ptr.splits option.splits if_splits)
  from assms obtain aux where "msg_aux msg = Some aux"
    "ext \<in> set (upb_mapsorter_pushexts aux) \<or> ext \<in> set (extensions_reverse_from aux 0)"
    unfolding ext_order_def by (cases "msg_aux msg") (auto split: if_splits)
  then have aux: "msg_aux msg = Some aux" "AuxExtension ext \<in> set aux"
    using push extensions_reverse_from_set by blast+
  then have "size ext \<le> size_list (size_aux_ptr size) aux"
    by (intro size_list_estimation' [of "AuxExtension ext"]) auto
  with aux(1) show ?thesis by (cases msg; cases ext) simp
qed

lemma wire_list_Inl: "wire_list g xs = Inl s \<Longrightarrow> \<exists>x\<in>set xs. g x = Inl s"
  by (induction xs) (auto simp: bindE_Inl_conv)

definition fueled :: "nat \<Rightarrow> msg_bytes \<Rightarrow> bool" where
  "fueled n sem \<longleftrightarrow> (\<forall>opts depth msg r. size msg < n \<longrightarrow> sem opts depth msg r \<noteq> Inl EncodeOutOfFuel)"

lemma fueled_scalar:
  "fueled n sem \<Longrightarrow> size mem \<le> n \<Longrightarrow> wire_scalar sem opts depth mem subs f \<noteq> Inl EncodeOutOfFuel"
  by (cases mem) (auto simp: wire_scalar_def fueled_def Let_def bindE_Inl_conv)

lemma fueled_array:
  assumes "fueled n sem" and "size mem \<le> n"
  shows "wire_array sem opts depth mem subs f \<noteq> Inl EncodeOutOfFuel"
proof -
  have "wire_submessage sem opts d subm wrap c \<noteq> Inl EncodeOutOfFuel" if "c \<in> set (upb_Array_Elems mem)" for c d subm wrap
    using assms size_array_elem [OF that] by (cases c) (auto simp: wire_submessage_def fueled_def bindE_Inl_conv)
  then have "wire_list (wire_submessage sem opts d subm wrap) (upb_Array_Elems mem) \<noteq> Inl EncodeOutOfFuel" for d subm wrap
    by (blast dest: wire_list_Inl)
  then show ?thesis by (simp add: wire_array_def Let_def)
qed

lemma fueled_map:
  assumes "fueled n sem" and "size mem \<le> n"
  shows "wire_map tabs sem opts depth mem subs f \<noteq> Inl EncodeOutOfFuel"
proof -
  have "wire_mapentry sem opts depth k layout ent \<noteq> Inl EncodeOutOfFuel" if "ent \<in> set (map_order opts t mem)" for t k layout ent
    using assms size_map_entry [OF that] by (auto simp: wire_mapentry_def bindE_Inl_conv fueled_scalar)
  then have "wire_list (wire_mapentry sem opts depth k layout) (rev (map_order opts t mem)) \<noteq> Inl EncodeOutOfFuel" for t k layout
    by (auto dest!: wire_list_Inl)
  then show ?thesis by (simp add: wire_map_def Let_def)
qed

lemma fueled_field:
  "fueled n sem \<Longrightarrow> size mem \<le> n \<Longrightarrow> wire_field tabs sem opts depth mem subs f \<noteq> Inl EncodeOutOfFuel"
  by (auto simp: wire_field_def fueled_scalar fueled_array fueled_map split: option.split upb_FieldMode.split)

lemma fueled_ext:
  "fueled n sem \<Longrightarrow> size (ext_data ext) \<le> n \<Longrightarrow> wire_ext tabs sem opts depth is_set ext \<noteq> Inl EncodeOutOfFuel"
  by (cases "ext_data ext") (auto simp: wire_ext_def fueled_field fueled_def bindE_Inl_conv)

lemma wire_message_fueled: "fueled n (wire_message tabs n)"
proof (induction n)
  case 0
  show ?case by (simp add: fueled_def)
next
  case (Suc n)
  show ?case
    unfolding fueled_def
  proof (intro allI impI)
    fix opts depth r and msg :: upb_Message assume sz: "size msg < Suc n"
    let ?m = "tabs r"
    have "wire_list (wire_ext tabs (wire_message tabs n) opts depth s) (rev (ext_order opts ?m msg)) \<noteq> Inl EncodeOutOfFuel" for s
    proof
      assume "wire_list (wire_ext tabs (wire_message tabs n) opts depth s) (rev (ext_order opts ?m msg)) = Inl EncodeOutOfFuel"
      from wire_list_Inl [OF this] obtain ext where "ext \<in> set (ext_order opts ?m msg)"
        "wire_ext tabs (wire_message tabs n) opts depth s ext = Inl EncodeOutOfFuel" by auto
      moreover from size_ext_order [OF this(1)] sz have "size (ext_data ext) \<le> n" by simp
      ultimately show False using fueled_ext [OF Suc.IH] by blast
    qed
    moreover have "wire_list (\<lambda>f. wire_field tabs (wire_message tabs n) opts depth
        (msg_cell msg (unat (mtf_offset f))) (mt_subs ?m) f) fs \<noteq> Inl EncodeOutOfFuel" for fs
    proof
      assume "wire_list (\<lambda>f. wire_field tabs (wire_message tabs n) opts depth
        (msg_cell msg (unat (mtf_offset f))) (mt_subs ?m) f) fs = Inl EncodeOutOfFuel"
      from wire_list_Inl [OF this] obtain f where
        "wire_field tabs (wire_message tabs n) opts depth (msg_cell msg (unat (mtf_offset f))) (mt_subs ?m) f =
          Inl EncodeOutOfFuel" by blast
      moreover have "size (msg_cell msg (unat (mtf_offset f))) \<le> n" using size_msg_cell [of msg] sz
        by (metis less_Suc_eq_le order_less_le_trans less_imp_le)
      ultimately show False using fueled_field [OF Suc.IH] by blast
    qed
    ultimately show "wire_message tabs (Suc n) opts depth msg r \<noteq> Inl EncodeOutOfFuel"
      by (auto simp: Let_def bindE_Inl_conv)
  qed
qed

lemma wire_message_total: "wire_message tabs (Suc (size msg)) opts depth msg r \<noteq> Inl EncodeOutOfFuel"
  using wire_message_fueled [of "Suc (size msg)" tabs] by (simp add: fueled_def)

section \<open>\<open>upb_Encode\<close>\<close>

definition encoded :: "(mt_ref \<Rightarrow> upb_MiniTable) \<Rightarrow> upb_Message \<Rightarrow> mt_ref \<Rightarrow> u32 \<Rightarrow> byte list encres" where
  "encoded tabs msg l options =
     wire_message tabs (Suc (size msg)) options (uint (upb_EncodeOptions_GetEffectiveMaxDepth options)) msg l"

text \<open>The result of \<open>upb_Encode\<close> for a given specification of the bytes.\<close>

definition encode_result ::
  "(nat \<Rightarrow> bool) \<Rightarrow> byte list encres \<Rightarrow> upb_EncodeStatus \<times> byte list option \<Rightarrow> bool" where
  "encode_result alloc spec res \<longleftrightarrow>
     res = (kUpb_EncodeStatus_OutOfMemory, None) \<and> (\<exists>n. \<not> alloc n) \<or>
     (case spec of Inl s \<Rightarrow> res = (s, None) | Inr bs \<Rightarrow> res = (kUpb_EncodeStatus_Ok, Some bs))"

lemma encode_result_Encode:
  "encode_result alloc (encoded tabs msg l options) (upb_Encode alloc tabs (Suc (size msg)) msg l options)"
proof -
  let ?e = "\<lparr>es_mem = [], es_options = options, es_depth = uint (upb_EncodeOptions_GetEffectiveMaxDepth options)\<rparr>"
  from encoder.em [of 0 ?e alloc tabs "Suc (size msg)" msg l] show ?thesis
    by (auto simp: upb_Encode_def upb_Encode_internal_def upb_Encoder_Encode_def encode_result_def encoded_def
        wrote_def split: sum.splits simp del: encode_message.simps wire_message.simps)
qed

lemma encode_result_EncodeLengthPrefixed:
  "encode_result alloc (bindE (encoded tabs msg l options) (\<lambda>bs. Inr (len_bytes bs)))
    (upb_EncodeLengthPrefixed alloc tabs (Suc (size msg)) msg l options)"
proof -
  let ?e = "\<lparr>es_mem = [], es_options = options, es_depth = uint (upb_EncodeOptions_GetEffectiveMaxDepth options)\<rparr>"
  let ?tail = "\<lambda>(e, ptr, n). encode_varint alloc ptr e (of_nat n)"
  have "refines alloc (es_depth ?e) ?e 0
    (bindE (wire_message tabs (Suc (size msg)) (es_options ?e) (es_depth ?e) msg l)
      (\<lambda>b. Inr (varint_bytes (of_nat (length b)) @ b)))
    (bindE (encode_message alloc tabs (Suc (size msg)) 0 ?e msg l) ?tail)"
    by (rule encoder.em_seq) (auto intro: varint_step)
  then show ?thesis
    by (auto simp: upb_EncodeLengthPrefixed_def upb_Encode_internal_def upb_Encoder_Encode_def encode_result_def
        encoded_def len_bytes_def refines_def wrote_def split: sum.splits
        simp del: encode_message.simps wire_message.simps)
qed

section \<open>Properties\<close>

text \<open>C1: the encoder refines its specification. \<open>upb_Encode\<close>, which writes backwards into a buffer it
  grows and reverses as it goes, returns exactly the bytes \<open>encoded\<close> gives in reading order, with status
  Ok, or the status of the same error (a message nested too deeply, a missing required field); the only
  other result is OutOfMemory, when the allocator refuses some size.\<close>

theorem upb_Encode_refines:
  "let res = upb_Encode alloc tabs (Suc (size msg)) msg l options in
   (res = (kUpb_EncodeStatus_OutOfMemory, None) \<and> (\<exists>n. \<not> alloc n)) \<or>
   (case encoded tabs msg l options of
      Inl s \<Rightarrow> res = (s, None)
    | Inr bs \<Rightarrow> res = (kUpb_EncodeStatus_Ok, Some bs))"
  using encode_result_Encode [of alloc tabs msg l options] unfolding encode_result_def Let_def .

text \<open>C3: \<open>upb_EncodeLengthPrefixed\<close> writes the varint of the number of bytes \<open>upb_Encode\<close> writes, then
  those bytes, with the same errors.\<close>

theorem upb_EncodeLengthPrefixed_refines:
  "let res = upb_EncodeLengthPrefixed alloc tabs (Suc (size msg)) msg l options in
   (res = (kUpb_EncodeStatus_OutOfMemory, None) \<and> (\<exists>n. \<not> alloc n)) \<or>
   (case encoded tabs msg l options of
      Inl s \<Rightarrow> res = (s, None)
    | Inr bs \<Rightarrow> res = (kUpb_EncodeStatus_Ok, Some (longvarint_loop (of_nat (length bs)) @ bs)))"
  using encode_result_EncodeLengthPrefixed [of alloc tabs msg l options]
  by (cases "encoded tabs msg l options") (simp_all add: encode_result_def len_bytes_def varint_bytes_def)


text \<open>C11: deterministic encoding does not depend on the order in which the hash table of a map holds its
  entries: two maps with the same entries, whose keys are distinct and of the declared key type, are
  encoded to the same bytes.\<close>

theorem encode_map_deterministic:
  assumes "es_options e AND kUpb_EncodeOption_Deterministic \<noteq> 0"
    and "fst ` set tab \<subseteq> key_cells (mtf_descriptortype
           (mt_fields (tabs (upb_Encoder_GetSubMiniTable subs f)) ! 0)) is_strtable"
    and "distinct (map fst tab)" and "distinct (map fst tab')" and "set tab' = set tab"
  shows "encode_map alloc tabs em ptr e (CMap is_strtable arr tab') subs f =
    encode_map alloc tabs em ptr e (CMap is_strtable arr tab) subs f"
proof -
  have "length tab' = length tab"
    using assms(3-5) by (metis distinct_card distinct_map)
  then show ?thesis
    using assms(1) pushmap_permute [OF assms(2-5)] by (simp add: encode_map_def Let_def upb_Map_Size_def)
qed

theorem encode_map_deterministic_witness:
  "\<exists>tabs em e f.
    encode_map (\<lambda>_. True) tabs em 0 e (CMap False [] [(CScalar 2, CScalar 7), (CScalar 1, CScalar 8)]) [] f =
    encode_map (\<lambda>_. True) tabs em 0 e (CMap False [] [(CScalar 1, CScalar 8), (CScalar 2, CScalar 7)]) [] f"
proof -
  let ?e = "\<lparr>es_mem = [], es_options = 1, es_depth = 100\<rparr>"
  have det: "es_options ?e AND kUpb_EncodeOption_Deterministic \<noteq> 0" by simp
  have "encode_map (\<lambda>_. True) tabs em 0 ?e (CMap False [] [(CScalar 2, CScalar 7), (CScalar 1, CScalar 8)]) [] f =
    encode_map (\<lambda>_. True) tabs em 0 ?e (CMap False [] [(CScalar 1, CScalar 8), (CScalar 2, CScalar 7)]) [] f" for tabs f
    by (rule encode_map_deterministic [OF det]) (auto simp: key_cells_def)
  then show ?thesis by blast
qed

end
