(* ===== verification/Eps_Copy_Stream.thy ===== *)
theory Eps_Copy_Stream
  imports Upb_Prelude
begin

text \<open>
  \<open>upb/wire/eps_copy_input_stream.h\<close>: the input stream of the decoder. It hands out raw
  pointers into the caller's buffer as long as 16 more bytes can be read there, and into its
  own 32-byte patch buffer, zero padded, for the tail. The theory models the pointers as
  addresses, so the code's pointer arithmetic is kept, and shows that the stream behaves as a
  position in the input followed by zeros, with a stack of limits.
\<close>

section \<open>The stream\<close>

text \<open>C's conversion to \<open>int\<close>.\<close>

definition c_int :: "int \<Rightarrow> int" where
  "c_int x = signed_take_bit 31 x"

text \<open>
  \<open>upb_EpsCopyInputStream\<close>. The last two fields are not fields of the struct: they are what
  its pointers refer to, the caller's bytes at \<open>eps_buffer_start\<close> and the address of the
  struct's own \<open>patch\<close> array.
\<close>

record eps_stream =
  eps_end :: int
  eps_limit_ptr :: int
  eps_input_delta :: int
  eps_buffer_start :: int
  eps_limit :: int
  eps_error :: bool
  eps_aliasing :: bool
  eps_patch :: "byte list"
  eps_input :: "byte list"
  eps_patch_addr :: int

definition SlopBytes :: int where
  "SlopBytes = 16"

text \<open>What the parsing pointer sees: the patch buffer or the caller's buffer.\<close>

definition eps_mem :: "eps_stream \<Rightarrow> memory" where
  "eps_mem e a =
     (if eps_patch_addr e \<le> a \<and> a < eps_patch_addr e + int (length (eps_patch e))
      then eps_patch e ! nat (a - eps_patch_addr e)
      else if eps_buffer_start e \<le> a \<and> a < eps_buffer_start e + int (length (eps_input e))
      then eps_input e ! nat (a - eps_buffer_start e)
      else 0)"

definition upb_EpsCopyInputStream_IsError :: "eps_stream \<Rightarrow> bool" where
  "upb_EpsCopyInputStream_IsError e = eps_error e"

text \<open>\<open>memcpy\<close> of a whole array over the front of another.\<close>

definition overwrite_front :: "'a list \<Rightarrow> 'a list \<Rightarrow> 'a list" where
  "overwrite_front dst src = src @ drop (length src) dst"

definition upb_EpsCopyInputStream_Init ::
  "byte list \<Rightarrow> int \<Rightarrow> int \<Rightarrow> byte list \<Rightarrow> bool \<Rightarrow> eps_stream \<times> int" where
  "upb_EpsCopyInputStream_Init input buf patch_addr patch enable_aliasing =
     (let sz = int (length input);
          e = \<lparr>eps_end = 0, eps_limit_ptr = 0, eps_input_delta = 0, eps_buffer_start = buf,
               eps_limit = 0, eps_error = False, eps_aliasing = enable_aliasing,
               eps_patch = patch, eps_input = input, eps_patch_addr = patch_addr\<rparr>;
          (e, ptr) =
            (if sz \<le> SlopBytes then
               (e\<lparr>eps_patch := overwrite_front (replicate 32 0) input,
                  eps_input_delta := buf - patch_addr,
                  eps_end := patch_addr + sz, eps_limit := 0\<rparr>, patch_addr)
             else
               (e\<lparr>eps_end := buf + sz - SlopBytes, eps_limit := SlopBytes,
                  eps_input_delta := 0\<rparr>, buf))
      in (e\<lparr>eps_limit_ptr := eps_end e\<rparr>, ptr))"

datatype upb_IsDoneStatus =
  kUpb_IsDoneStatus_Done | kUpb_IsDoneStatus_NotDone | kUpb_IsDoneStatus_NeedFallback

definition upb_EpsCopyInputStream_IsDoneStatus ::
  "eps_stream \<Rightarrow> int \<Rightarrow> upb_IsDoneStatus \<times> int" where
  "upb_EpsCopyInputStream_IsDoneStatus e ptr =
     (let overrun = c_int (ptr - eps_end e) in
      if ptr < eps_limit_ptr e then (kUpb_IsDoneStatus_NotDone, overrun)
      else if overrun = eps_limit e then (kUpb_IsDoneStatus_Done, overrun)
      else (kUpb_IsDoneStatus_NeedFallback, overrun))"

text \<open>
  The fallback, with the no-op callback: the new pointer, or NULL with the error flag set.
  (The decoder's callback leaves with an error instead of returning NULL.)
\<close>

definition IsDoneFallbackInline :: "eps_stream \<Rightarrow> int \<Rightarrow> int \<Rightarrow> eps_stream \<times> int option" where
  "IsDoneFallbackInline e ptr overrun =
     (if overrun < eps_limit e then
        let old_end = ptr;
            new_start = eps_patch_addr e + overrun;
            patch = bytes_at (eps_mem e) (eps_end e) 16 @ replicate 16 0;
            e' = e\<lparr>eps_patch := patch,
                   eps_end := eps_patch_addr e + SlopBytes,
                   eps_limit := eps_limit e - SlopBytes,
                   eps_limit_ptr := eps_patch_addr e + SlopBytes + (eps_limit e - SlopBytes),
                   eps_input_delta := old_end - new_start\<rparr>
        in (e', Some new_start)
      else (e\<lparr>eps_error := True\<rparr>, None))"

text \<open>\<open>IsDone\<close>: the answer, the stream and the updated pointer (\<open>None\<close> is NULL).\<close>

definition upb_EpsCopyInputStream_IsDone ::
  "eps_stream \<Rightarrow> int \<Rightarrow> bool \<times> eps_stream \<times> int option" where
  "upb_EpsCopyInputStream_IsDone e ptr =
     (case upb_EpsCopyInputStream_IsDoneStatus e ptr of
        (kUpb_IsDoneStatus_Done, overrun) \<Rightarrow> (True, e, Some ptr)
      | (kUpb_IsDoneStatus_NotDone, overrun) \<Rightarrow> (False, e, Some ptr)
      | (kUpb_IsDoneStatus_NeedFallback, overrun) \<Rightarrow>
          (case IsDoneFallbackInline e ptr overrun of
             (e', ptr') \<Rightarrow> (ptr' = None, e', ptr')))"

definition upb_EpsCopyInputStream_BytesAvailable :: "eps_stream \<Rightarrow> int \<Rightarrow> int" where
  "upb_EpsCopyInputStream_BytesAvailable e ptr = (eps_end e - ptr) + SlopBytes"

definition upb_EpsCopyInputStream_CheckSize :: "eps_stream \<Rightarrow> int \<Rightarrow> int \<Rightarrow> bool" where
  "upb_EpsCopyInputStream_CheckSize e ptr sz \<longleftrightarrow> sz \<le> eps_limit e - (ptr - eps_end e)"

text \<open>The addition is on \<open>uintptr_t\<close>: it wraps, which is how a negative size is refused.\<close>

definition CheckSizeAvailable :: "eps_stream \<Rightarrow> int \<Rightarrow> int \<Rightarrow> bool \<Rightarrow> bool" where
  "CheckSizeAvailable e ptr sz submessage =
     (let uptr = (word_of_int ptr :: u64);
          uend = (word_of_int (eps_limit_ptr e) :: u64);
          res = uptr + word_of_int sz;
          uend = (if \<not> submessage then uend + word_of_int SlopBytes else uend)
      in res \<ge> uptr \<and> res \<le> uend)"

definition upb_EpsCopyInputStream_CheckDataSizeAvailable :: "eps_stream \<Rightarrow> int \<Rightarrow> int \<Rightarrow> bool" where
  "upb_EpsCopyInputStream_CheckDataSizeAvailable e ptr sz = CheckSizeAvailable e ptr sz False"

definition upb_EpsCopyInputStream_CheckSubMessageSizeAvailable ::
  "eps_stream \<Rightarrow> int \<Rightarrow> int \<Rightarrow> bool" where
  "upb_EpsCopyInputStream_CheckSubMessageSizeAvailable e ptr sz = CheckSizeAvailable e ptr sz True"

definition upb_EpsCopyInputStream_AliasingAvailable :: "eps_stream \<Rightarrow> int \<Rightarrow> int \<Rightarrow> bool" where
  "upb_EpsCopyInputStream_AliasingAvailable e ptr sz \<longleftrightarrow>
     eps_aliasing e \<and> upb_EpsCopyInputStream_CheckDataSizeAvailable e ptr sz"

definition upb_EpsCopyInputStream_GetInputPtr :: "eps_stream \<Rightarrow> int \<Rightarrow> int" where
  "upb_EpsCopyInputStream_GetInputPtr e ptr =
     (let position = ptr + eps_input_delta e - eps_buffer_start e
      in eps_buffer_start e + position)"

definition upb_EpsCopyInputStream_Skip :: "eps_stream \<Rightarrow> int \<Rightarrow> int \<Rightarrow> int option" where
  "upb_EpsCopyInputStream_Skip e ptr sz =
     (if upb_EpsCopyInputStream_CheckDataSizeAvailable e ptr sz then Some (ptr + sz) else None)"

text \<open>\<open>Copy\<close> returns the bytes it puts in \<open>to\<close> with the new pointer.\<close>

definition upb_EpsCopyInputStream_Copy ::
  "eps_stream \<Rightarrow> int \<Rightarrow> int \<Rightarrow> (byte list \<times> int) option" where
  "upb_EpsCopyInputStream_Copy e ptr sz =
     (if upb_EpsCopyInputStream_CheckDataSizeAvailable e ptr sz
      then Some (bytes_at (eps_mem e) ptr (nat sz), ptr + sz) else None)"

text \<open>
  \<open>ReadString\<close>: the string's bytes, aliased in the caller's buffer or copied to \<open>malloc sz\<close>
  bytes (\<open>malloc\<close> says whether the arena can give them), and the pointer past them.
\<close>

definition upb_EpsCopyInputStream_ReadString ::
  "(int \<Rightarrow> bool) \<Rightarrow> eps_stream \<Rightarrow> int \<Rightarrow> int \<Rightarrow> (byte list \<times> int) option" where
  "upb_EpsCopyInputStream_ReadString malloc e ptr sz =
     (if upb_EpsCopyInputStream_AliasingAvailable e ptr sz
      then Some (bytes_at (\<lambda>a. eps_input e ! nat (a - eps_buffer_start e))
                   (upb_EpsCopyInputStream_GetInputPtr e ptr) (nat sz), ptr + sz)
      else if \<not> upb_EpsCopyInputStream_CheckDataSizeAvailable e ptr sz then None
      else if \<not> malloc sz then None
      else upb_EpsCopyInputStream_Copy e ptr sz)"

definition upb_EpsCopyInputStream_PushLimit ::
  "eps_stream \<Rightarrow> int \<Rightarrow> int \<Rightarrow> int \<times> eps_stream" where
  "upb_EpsCopyInputStream_PushLimit e ptr sz =
     (let limit = sz + c_int (ptr - eps_end e);
          delta = eps_limit e - limit
      in (delta, e\<lparr>eps_limit := limit, eps_limit_ptr := eps_end e + min 0 limit\<rparr>))"

definition upb_EpsCopyInputStream_PopLimit :: "eps_stream \<Rightarrow> int \<Rightarrow> eps_stream" where
  "upb_EpsCopyInputStream_PopLimit e saved_delta =
     (let limit = eps_limit e + saved_delta
      in e\<lparr>eps_limit := limit, eps_limit_ptr := eps_end e + min 0 limit\<rparr>)"

section \<open>The stream as a position in the zero-padded input\<close>

definition padded :: "byte list \<Rightarrow> int \<Rightarrow> byte" where
  "padded inp i = (if 0 \<le> i \<and> i < int (length inp) then inp ! nat i else 0)"

definition eps_len :: "eps_stream \<Rightarrow> int" where
  "eps_len e = int (length (eps_input e))"

definition eps_pos :: "eps_stream \<Rightarrow> int \<Rightarrow> int" where
  "eps_pos e ptr = ptr + eps_input_delta e - eps_buffer_start e"

definition eps_lim :: "eps_stream \<Rightarrow> int" where
  "eps_lim e = eps_pos e (eps_end e + eps_limit e)"

text \<open>
  The environment: the input is shorter than \<open>2 ^ 31\<close>, the addresses are far from wrapping, and
  the caller's buffer does not overlap the patch buffer.
\<close>

definition eps_env :: "eps_stream \<Rightarrow> bool" where
  "eps_env e \<longleftrightarrow>
     eps_len e < 2 ^ 31 \<and> length (eps_patch e) = 32 \<and>
     0 \<le> eps_buffer_start e \<and> eps_buffer_start e < 2 ^ 62 \<and>
     0 \<le> eps_patch_addr e \<and> eps_patch_addr e < 2 ^ 62 \<and>
     (eps_patch_addr e + 32 \<le> eps_buffer_start e \<or>
      eps_buffer_start e + eps_len e \<le> eps_patch_addr e)"

text \<open>Parsing straight out of the caller's buffer, or out of the patch buffer.\<close>

definition eps_direct :: "eps_stream \<Rightarrow> bool" where
  "eps_direct e \<longleftrightarrow>
     16 < eps_len e \<and> eps_input_delta e = 0 \<and> eps_end e = eps_buffer_start e + eps_len e - 16"

definition eps_patched :: "eps_stream \<Rightarrow> bool" where
  "eps_patched e \<longleftrightarrow>
     eps_pos e (eps_end e) = eps_len e \<and>
     eps_patch_addr e \<le> eps_end e \<and> eps_end e \<le> eps_patch_addr e + 16 \<and>
     (\<forall>j\<in>{0..<32}. eps_patch e ! j = padded (eps_input e) (eps_pos e (eps_patch_addr e + int j)))"

definition eps_inv :: "eps_stream \<Rightarrow> bool" where
  "eps_inv e \<longleftrightarrow>
     eps_env e \<and> eps_limit_ptr e = eps_end e + min 0 (eps_limit e) \<and>
     0 \<le> eps_lim e \<and> eps_lim e \<le> eps_len e \<and> (eps_direct e \<or> eps_patched e)"

text \<open>A pointer the decoder may hold: inside the current buffer, at most 16 bytes past \<open>end\<close>.\<close>

definition eps_ptr :: "eps_stream \<Rightarrow> int \<Rightarrow> bool" where
  "eps_ptr e ptr \<longleftrightarrow>
     ptr \<le> eps_end e + 16 \<and>
     (if eps_direct e then eps_buffer_start e \<le> ptr else eps_patch_addr e \<le> ptr)"

lemmas eps_defs = eps_inv_def eps_env_def eps_direct_def eps_patched_def eps_ptr_def
  eps_len_def eps_pos_def eps_lim_def

lemma c_int_id: "- (2 ^ 31) \<le> x \<Longrightarrow> x < 2 ^ 31 \<Longrightarrow> c_int x = x"
  by (simp add: c_int_def signed_take_bit_int_eq_self)

lemma eps_ptr_c_int:
  assumes "eps_inv e" and "eps_ptr e ptr"
  shows "c_int (ptr - eps_end e) = ptr - eps_end e"
  using assms by (intro c_int_id) (auto simp: eps_defs split: if_splits)

text \<open>What the pointer sees is the padded input at its position.\<close>

lemma eps_mem_view:
  assumes "eps_inv e" and "eps_ptr e ptr" and "0 \<le> k" and "ptr + k < eps_end e + 16"
  shows "eps_mem e (ptr + k) = padded (eps_input e) (eps_pos e ptr + k)"
proof (cases "eps_direct e")
  case True
  then have "\<not> (eps_patch_addr e \<le> ptr + k \<and> ptr + k < eps_patch_addr e + 32)"
    using assms by (auto simp: eps_defs)
  with True show ?thesis
    using assms by (auto simp: eps_defs eps_mem_def padded_def algebra_simps)
next
  case False
  with assms have "eps_patched e" by (simp add: eps_inv_def)
  moreover define j where "j = nat (ptr + k - eps_patch_addr e)"
  moreover have "j \<in> {0..<32}" and "ptr + k = eps_patch_addr e + int j"
    using assms False \<open>eps_patched e\<close> by (auto simp: eps_defs j_def)
  moreover have "length (eps_patch e) = 32" using assms by (simp add: eps_defs)
  ultimately show ?thesis
    unfolding eps_mem_def by (auto simp: eps_patched_def eps_pos_def algebra_simps)
qed

lemma bytes_at_view:
  assumes "eps_inv e" and "eps_ptr e ptr" and "ptr + int n \<le> eps_end e + 16"
  shows "bytes_at (eps_mem e) ptr n = bytes_at (padded (eps_input e)) (eps_pos e ptr) n"
  using assms by (intro nth_equalityI) (auto simp: eps_mem_view)

subsection \<open>Initialisation\<close>

definition init_args :: "byte list \<Rightarrow> int \<Rightarrow> int \<Rightarrow> byte list \<Rightarrow> bool" where
  "init_args input buf patch_addr patch \<longleftrightarrow>
     int (length input) < 2 ^ 31 \<and> length patch = 32 \<and>
     0 \<le> buf \<and> buf < 2 ^ 62 \<and> 0 \<le> patch_addr \<and> patch_addr < 2 ^ 62 \<and>
     (patch_addr + 32 \<le> buf \<or> buf + int (length input) \<le> patch_addr)"

lemma Init_spec:
  assumes "init_args input buf pa patch"
    and "upb_EpsCopyInputStream_Init input buf pa patch al = (e, ptr)"
  shows "eps_inv e" "eps_ptr e ptr" "eps_pos e ptr = 0" "eps_lim e = int (length input)"
    "eps_input e = input" "eps_buffer_start e = buf" "eps_aliasing e = al" "\<not> eps_error e"
proof -
  have small: "overwrite_front (replicate 32 0) input ! j = padded input (int j)"
    if "j < 32" "length input \<le> 16" for j
    using that by (auto simp: overwrite_front_def padded_def nth_append)
  have "eps_inv e \<and> eps_ptr e ptr \<and> eps_pos e ptr = 0 \<and> eps_lim e = int (length input) \<and>
    eps_input e = input \<and> eps_buffer_start e = buf \<and> eps_aliasing e = al \<and> \<not> eps_error e"
  proof (cases "length input \<le> 16")
    case True
    with assms(2) have ptr: "ptr = pa" and e: "e = \<lparr>eps_end = pa + int (length input),
        eps_limit_ptr = pa + int (length input), eps_input_delta = buf - pa, eps_buffer_start = buf,
        eps_limit = 0, eps_error = False, eps_aliasing = al,
        eps_patch = overwrite_front (replicate 32 0) input, eps_input = input, eps_patch_addr = pa\<rparr>"
      by (auto simp: upb_EpsCopyInputStream_Init_def Let_def SlopBytes_def)
    have "eps_patched e" using True small by (auto simp: e eps_patched_def eps_pos_def eps_len_def)
    moreover have "\<not> eps_direct e" using True by (simp add: e eps_direct_def eps_len_def)
    moreover have "eps_env e"
      using assms(1) True by (simp add: e eps_env_def eps_len_def init_args_def overwrite_front_def)
    ultimately show ?thesis
      by (simp add: eps_inv_def eps_ptr_def) (simp add: e ptr eps_lim_def eps_pos_def eps_len_def)
  next
    case False
    with assms(2) have ptr: "ptr = buf" and e: "e = \<lparr>eps_end = buf + int (length input) - 16,
        eps_limit_ptr = buf + int (length input) - 16, eps_input_delta = 0, eps_buffer_start = buf,
        eps_limit = 16, eps_error = False, eps_aliasing = al,
        eps_patch = patch, eps_input = input, eps_patch_addr = pa\<rparr>"
      by (auto simp: upb_EpsCopyInputStream_Init_def Let_def SlopBytes_def)
    have "eps_direct e" using False by (auto simp: e eps_direct_def eps_len_def)
    moreover have "eps_env e"
      using assms(1) by (simp add: e eps_env_def eps_len_def init_args_def)
    ultimately show ?thesis
      by (simp add: eps_inv_def eps_ptr_def) (simp add: e ptr eps_lim_def eps_pos_def eps_len_def)
  qed
  then show "eps_inv e" "eps_ptr e ptr" "eps_pos e ptr = 0" "eps_lim e = int (length input)"
    "eps_input e = input" "eps_buffer_start e = buf" "eps_aliasing e = al" "\<not> eps_error e"
    by blast+
qed

subsection \<open>IsDone\<close>

text \<open>The flip into the patch buffer keeps the position, the limit and the view.\<close>

lemma flip_spec:
  assumes inv: "eps_inv e" and ptr: "eps_ptr e ptr"
    and "eps_limit_ptr e \<le> ptr" and "ptr - eps_end e < eps_limit e"
    and flip: "IsDoneFallbackInline e ptr (ptr - eps_end e) = (e', Some ptr')"
  shows "eps_inv e'" "eps_ptr e' ptr'" "ptr' < eps_limit_ptr e'" "eps_pos e' ptr' = eps_pos e ptr"
    "eps_lim e' = eps_lim e" "eps_limit_ptr e' \<le> eps_end e'"
proof -
  have direct: "eps_direct e" "0 < eps_limit e"
    using assms by (auto simp: eps_defs)
  then have mem: "bytes_at (eps_mem e) (eps_end e) 16 =
      bytes_at (padded (eps_input e)) (eps_len e - 16) 16"
    using bytes_at_view [OF inv, of "eps_end e" 16] by (simp add: eps_defs)
  have pat: "(bytes_at (padded (eps_input e)) (eps_len e - 16) 16 @ replicate 16 0) ! j =
      padded (eps_input e) (eps_len e - 16 + int j)" if "j < 32" for j
    using that by (auto simp: nth_append padded_def eps_len_def)
  from flip assms(4) have e': "e' = e\<lparr>eps_patch := bytes_at (padded (eps_input e)) (eps_len e - 16) 16 @ replicate 16 0,
      eps_end := eps_patch_addr e + 16, eps_limit := eps_limit e - 16,
      eps_limit_ptr := eps_patch_addr e + 16 + (eps_limit e - 16),
      eps_input_delta := ptr - (eps_patch_addr e + (ptr - eps_end e))\<rparr>"
    and ptr': "ptr' = eps_patch_addr e + (ptr - eps_end e)"
    by (auto simp: IsDoneFallbackInline_def Let_def SlopBytes_def mem)
  have lim: "eps_lim e' = eps_lim e" and pos: "eps_pos e' ptr' = eps_pos e ptr"
    using direct by (auto simp: e' ptr' eps_lim_def eps_pos_def eps_direct_def)
  have le: "eps_limit e \<le> 16" using inv direct by (auto simp: eps_defs)
  have "eps_patched e'"
  proof -
    have "eps_pos e' (eps_patch_addr e' + int j) = eps_len e - 16 + int j" for j
      using direct by (auto simp: e' eps_pos_def eps_direct_def)
    moreover have "eps_pos e' (eps_end e') = eps_len e'"
      using direct by (auto simp: e' eps_pos_def eps_direct_def eps_len_def)
    ultimately show ?thesis
      unfolding eps_patched_def using pat by (auto simp: e')
  qed
  moreover have "eps_env e'" using inv by (auto simp: e' eps_inv_def eps_env_def eps_len_def)
  ultimately show "eps_inv e'"
    using lim inv le by (auto simp: eps_inv_def e' eps_len_def)
  have "\<not> eps_direct e'" using \<open>eps_patched e'\<close> by (auto simp: eps_patched_def eps_direct_def eps_pos_def)
  then show "eps_ptr e' ptr'"
    using assms(3) inv direct le assms(4) by (auto simp: eps_ptr_def e' ptr' eps_inv_def)
  show "ptr' < eps_limit_ptr e'" using assms(4) by (simp add: e' ptr')
  show "eps_limit_ptr e' \<le> eps_end e'" using le by (simp add: e')
  show "eps_lim e' = eps_lim e" "eps_pos e' ptr' = eps_pos e ptr" by fact+
qed

text \<open>Fields of the stream that parsing never changes.\<close>

definition eps_same :: "eps_stream \<Rightarrow> eps_stream \<Rightarrow> bool" where
  "eps_same e e' \<longleftrightarrow> eps_input e' = eps_input e \<and> eps_buffer_start e' = eps_buffer_start e \<and>
     eps_aliasing e' = eps_aliasing e \<and> eps_patch_addr e' = eps_patch_addr e"

lemma eps_same_refl [simp]: "eps_same e e"
  by (simp add: eps_same_def)

lemma eps_same_trans [trans]: "eps_same a b \<Longrightarrow> eps_same b c \<Longrightarrow> eps_same a c"
  by (simp add: eps_same_def)

lemma eps_same_input: "eps_same e e' \<Longrightarrow> eps_input e' = eps_input e"
  by (simp add: eps_same_def)

lemma pos_lim_iff: "eps_pos e ptr < eps_lim e \<longleftrightarrow> ptr - eps_end e < eps_limit e"
  "eps_pos e ptr = eps_lim e \<longleftrightarrow> ptr - eps_end e = eps_limit e"
  by (auto simp: eps_pos_def eps_lim_def)

lemma IsDone_at_limit:
  assumes "eps_inv e" and "eps_ptr e ptr" and "eps_pos e ptr = eps_lim e"
  shows "upb_EpsCopyInputStream_IsDone e ptr = (True, e, Some ptr)"
  using assms eps_ptr_c_int [OF assms(1,2)] pos_lim_iff [of e ptr]
  by (auto simp: upb_EpsCopyInputStream_IsDone_def upb_EpsCopyInputStream_IsDoneStatus_def eps_inv_def Let_def)

lemma IsDone_past_limit:
  assumes "eps_inv e" and "eps_ptr e ptr" and "eps_lim e < eps_pos e ptr"
  shows "upb_EpsCopyInputStream_IsDone e ptr = (True, e\<lparr>eps_error := True\<rparr>, None)"
  using assms eps_ptr_c_int [OF assms(1,2)] pos_lim_iff [of e ptr]
  by (auto simp: upb_EpsCopyInputStream_IsDone_def upb_EpsCopyInputStream_IsDoneStatus_def
      IsDoneFallbackInline_def eps_inv_def Let_def)

lemma IsDone_before_limit:
  assumes inv: "eps_inv e" and ptr: "eps_ptr e ptr" and "eps_pos e ptr < eps_lim e"
  obtains e' ptr' where "upb_EpsCopyInputStream_IsDone e ptr = (False, e', Some ptr')"
    "eps_inv e'" "eps_ptr e' ptr'" "ptr' < eps_end e'" "eps_pos e' ptr' = eps_pos e ptr"
    "eps_lim e' = eps_lim e" "eps_same e e'" "eps_error e' = eps_error e"
proof (cases "ptr < eps_limit_ptr e")
  case True
  with inv have "ptr < eps_end e" by (auto simp: eps_inv_def)
  with True that [of e ptr] inv ptr show ?thesis
    by (simp add: upb_EpsCopyInputStream_IsDone_def upb_EpsCopyInputStream_IsDoneStatus_def Let_def)
next
  case False
  have lt: "ptr - eps_end e < eps_limit e" using assms(3) by (simp add: pos_lim_iff)
  obtain e' ptr' where flip: "IsDoneFallbackInline e ptr (ptr - eps_end e) = (e', Some ptr')"
    and same: "eps_same e e'" "eps_error e' = eps_error e"
    using lt by (auto simp: IsDoneFallbackInline_def Let_def eps_same_def)
  have "upb_EpsCopyInputStream_IsDone e ptr = (False, e', Some ptr')"
    using False lt flip eps_ptr_c_int [OF inv ptr]
    by (auto simp: upb_EpsCopyInputStream_IsDone_def upb_EpsCopyInputStream_IsDoneStatus_def Let_def)
  with flip_spec [OF inv ptr _ lt flip] False same that show ?thesis by auto
qed

subsection \<open>Limits\<close>

text \<open>\<open>CheckSize\<close> holds exactly when the field ends at or before the current limit.\<close>

lemma CheckSize_iff:
  "upb_EpsCopyInputStream_CheckSize e ptr sz \<longleftrightarrow> eps_pos e ptr + sz \<le> eps_lim e"
  by (auto simp: upb_EpsCopyInputStream_CheckSize_def eps_pos_def eps_lim_def)

lemma PushLimit_spec:
  assumes "eps_inv e" and "eps_ptr e ptr" and "0 \<le> sz" and "upb_EpsCopyInputStream_CheckSize e ptr sz"
    and "0 \<le> eps_pos e ptr"
    and "upb_EpsCopyInputStream_PushLimit e ptr sz = (delta, e')"
  shows "eps_inv e'" "eps_ptr e' ptr" "eps_pos e' p = eps_pos e p" "eps_lim e' = eps_pos e ptr + sz"
    "delta = eps_lim e - eps_lim e'" "0 \<le> delta" "eps_same e e'" "eps_error e' = eps_error e"
proof -
  from assms(6) eps_ptr_c_int [OF assms(1,2)]
  have e': "e' = e\<lparr>eps_limit := sz + (ptr - eps_end e),
      eps_limit_ptr := eps_end e + min 0 (sz + (ptr - eps_end e))\<rparr>"
    and d: "delta = eps_limit e - (sz + (ptr - eps_end e))"
    by (auto simp: upb_EpsCopyInputStream_PushLimit_def Let_def)
  show lim: "eps_lim e' = eps_pos e ptr + sz" and "eps_pos e' p = eps_pos e p"
    and "eps_same e e'" and "eps_error e' = eps_error e"
    by (simp_all add: e' eps_lim_def eps_pos_def eps_same_def)
  show "eps_ptr e' ptr" using assms(2) by (simp add: e' eps_ptr_def eps_direct_def eps_len_def)
  show dl: "delta = eps_lim e - eps_lim e'" by (simp add: d e' eps_lim_def eps_pos_def)
  have le: "eps_lim e' \<le> eps_lim e" using assms(4) by (simp add: CheckSize_iff lim)
  then show "0 \<le> delta" by (simp add: dl)
  have "eps_direct e' = eps_direct e" "eps_patched e' = eps_patched e" "eps_env e' = eps_env e"
    "eps_len e' = eps_len e"
    by (simp_all add: e' eps_direct_def eps_patched_def eps_env_def eps_len_def eps_pos_def)
  with assms le lim show "eps_inv e'" by (auto simp: eps_inv_def) (simp_all add: e')
qed

lemma PopLimit_spec:
  assumes "eps_inv e" and "eps_ptr e ptr" and "0 \<le> delta" and "eps_lim e + delta \<le> eps_len e"
  shows "eps_inv (upb_EpsCopyInputStream_PopLimit e delta)"
    "eps_ptr (upb_EpsCopyInputStream_PopLimit e delta) ptr"
    "eps_pos (upb_EpsCopyInputStream_PopLimit e delta) p = eps_pos e p"
    "eps_lim (upb_EpsCopyInputStream_PopLimit e delta) = eps_lim e + delta"
    "eps_same e (upb_EpsCopyInputStream_PopLimit e delta)"
proof -
  let ?e = "upb_EpsCopyInputStream_PopLimit e delta"
  have e': "?e = e\<lparr>eps_limit := eps_limit e + delta,
      eps_limit_ptr := eps_end e + min 0 (eps_limit e + delta)\<rparr>"
    by (simp add: upb_EpsCopyInputStream_PopLimit_def Let_def)
  show lim: "eps_lim ?e = eps_lim e + delta" and "eps_pos ?e p = eps_pos e p" and "eps_same e ?e"
    by (simp_all add: e' eps_lim_def eps_pos_def eps_same_def)
  show "eps_ptr ?e ptr" using assms(2) by (simp add: e' eps_ptr_def eps_direct_def eps_len_def)
  have "eps_direct ?e = eps_direct e" "eps_patched ?e = eps_patched e" "eps_env ?e = eps_env e"
    "eps_len ?e = eps_len e"
    by (simp_all add: e' eps_direct_def eps_patched_def eps_env_def eps_len_def eps_pos_def)
  with assms lim show "eps_inv ?e" by (auto simp: eps_inv_def) (simp_all add: e')
qed

subsection \<open>Size checks and reads\<close>

lemma uint_word_of_int_nonneg:
  "0 \<le> x \<Longrightarrow> x < 2 ^ 63 \<Longrightarrow> uint (word_of_int x :: u64) = x"
  by (simp add: uint_word_of_int)

lemma uint_word_of_int_neg:
  assumes "x < 0" and "- (2 ^ 31) \<le> x"
  shows "2 ^ 63 \<le> uint (word_of_int x :: u64)"
proof -
  have "x mod 2 ^ 64 = (x + 2 ^ 64) mod 2 ^ 64" by simp
  also have "\<dots> = x + 2 ^ 64" using assms by (intro mod_pos_pos_trivial) auto
  finally show ?thesis using assms by (simp add: uint_word_of_int)
qed

lemma CheckSizeAvailable_iff:
  assumes "0 \<le> ptr" "ptr < 2 ^ 62 + 2 ^ 32" "0 \<le> eps_limit_ptr e" "eps_limit_ptr e < 2 ^ 62 + 2 ^ 32"
    and "- (2 ^ 31) \<le> sz" "sz < 2 ^ 31"
  shows "CheckSizeAvailable e ptr sz sub \<longleftrightarrow>
    0 \<le> sz \<and> ptr + sz \<le> eps_limit_ptr e + (if sub then 0 else 16)"
proof -
  let ?stop = "eps_limit_ptr e + (if sub then 0 else 16)"
  have wi: "CheckSizeAvailable e ptr sz sub \<longleftrightarrow>
      (word_of_int ptr :: u64) \<le> word_of_int (ptr + sz) \<and>
      (word_of_int (ptr + sz) :: u64) \<le> word_of_int ?stop"
    unfolding CheckSizeAvailable_def Let_def SlopBytes_def
    by (cases sub) (simp_all only: wi_hom_add if_True if_False not_True_eq_False not_False_eq_True add_0_right)
  have u1: "uint (word_of_int ptr :: u64) = ptr"
    by (rule uint_word_of_int_nonneg) (use assms in simp_all)
  have u2: "uint (word_of_int ?stop :: u64) = ?stop"
    by (rule uint_word_of_int_nonneg) (use assms in \<open>simp_all split: if_split\<close>)
  note u = u1 u2
  show ?thesis
  proof (cases "0 \<le> ptr + sz")
    case True
    have "uint (word_of_int (ptr + sz) :: u64) = ptr + sz"
      using assms True by (intro uint_word_of_int_nonneg) auto
    then show ?thesis unfolding wi word_le_def u by auto
  next
    case False
    have "2 ^ 63 \<le> uint (word_of_int (ptr + sz) :: u64)"
      using assms False by (intro uint_word_of_int_neg) auto
    then show ?thesis unfolding wi word_le_def u using assms False by (cases sub) simp_all
  qed
qed

text \<open>A field that passes \<open>CheckSize\<close> can be read in the current buffer; a negative size cannot.\<close>

lemma eps_limit_ptr_bounds:
  assumes "eps_inv e" and "eps_ptr e ptr" and "eps_pos e ptr \<le> eps_lim e"
  shows "0 \<le> ptr" "ptr < 2 ^ 62 + 2 ^ 32" "0 \<le> eps_limit_ptr e" "eps_limit_ptr e < 2 ^ 62 + 2 ^ 32"
    "ptr \<le> eps_limit_ptr e + 16"
  using assms by (auto simp: eps_defs split: if_splits)

lemma CheckDataSizeAvailable_of_CheckSize:
  assumes "eps_inv e" and "eps_ptr e ptr" and "0 \<le> sz" and "sz < 2 ^ 31"
    and "upb_EpsCopyInputStream_CheckSize e ptr sz"
  shows "upb_EpsCopyInputStream_CheckDataSizeAvailable e ptr sz"
proof -
  have le: "eps_pos e ptr \<le> eps_lim e" using assms(3,5) by (simp add: CheckSize_iff)
  have "ptr + sz \<le> eps_limit_ptr e + 16"
    using assms by (auto simp: eps_defs upb_EpsCopyInputStream_CheckSize_def split: if_splits)
  with eps_limit_ptr_bounds [OF assms(1,2) le] assms(3,4) show ?thesis
    by (simp add: upb_EpsCopyInputStream_CheckDataSizeAvailable_def CheckSizeAvailable_iff)
qed

lemma CheckDataSizeAvailable_negative:
  assumes "eps_inv e" and "eps_ptr e ptr" and "eps_pos e ptr \<le> eps_lim e"
    and "sz < 0" and "- (2 ^ 31) \<le> sz"
  shows "\<not> upb_EpsCopyInputStream_CheckDataSizeAvailable e ptr sz"
  using eps_limit_ptr_bounds [OF assms(1-3)] assms(4,5)
  by (simp add: upb_EpsCopyInputStream_CheckDataSizeAvailable_def CheckSizeAvailable_iff)

lemma ReadString_spec:
  assumes "eps_inv e" and "eps_ptr e ptr" and "0 \<le> eps_pos e ptr" and "0 \<le> sz" and "sz < 2 ^ 31"
    and "upb_EpsCopyInputStream_CheckSize e ptr sz" and "eps_aliasing e \<or> malloc sz"
  shows "upb_EpsCopyInputStream_ReadString malloc e ptr sz =
    Some (take (nat sz) (drop (nat (eps_pos e ptr)) (eps_input e)), ptr + sz)"
proof -
  have avail: "upb_EpsCopyInputStream_CheckDataSizeAvailable e ptr sz"
    by (rule CheckDataSizeAvailable_of_CheckSize [OF assms(1,2,4,5,6)])
  have le: "eps_pos e ptr + sz \<le> eps_len e"
    using assms(1,6) by (simp add: CheckSize_iff eps_inv_def)
  have sl: "bytes_at (padded (eps_input e)) (eps_pos e ptr) (nat sz) =
      take (nat sz) (drop (nat (eps_pos e ptr)) (eps_input e))"
    using assms(3,4) le
    by (intro nth_equalityI) (auto simp: padded_def eps_len_def nat_add_distrib le_nat_iff)
  have "ptr + int (nat sz) \<le> eps_end e + 16"
    using assms(1,2,4,6) by (auto simp: eps_defs upb_EpsCopyInputStream_CheckSize_def split: if_splits)
  from bytes_at_view [OF assms(1,2) this] sl
  have copied: "bytes_at (eps_mem e) ptr (nat sz) =
      take (nat sz) (drop (nat (eps_pos e ptr)) (eps_input e))" by simp
  have aliased: "bytes_at (\<lambda>a. eps_input e ! nat (a - eps_buffer_start e))
      (upb_EpsCopyInputStream_GetInputPtr e ptr) (nat sz) =
      take (nat sz) (drop (nat (eps_pos e ptr)) (eps_input e))"
    using assms(3,4) le
    by (intro nth_equalityI)
      (auto simp: upb_EpsCopyInputStream_GetInputPtr_def eps_pos_def [symmetric] eps_len_def
        nat_add_distrib le_nat_iff)
  show ?thesis
    using avail assms(7) copied aliased
    by (auto simp: upb_EpsCopyInputStream_ReadString_def upb_EpsCopyInputStream_Copy_def
        upb_EpsCopyInputStream_AliasingAvailable_def)
qed

section \<open>Properties\<close>

text \<open>C14: the end-of-input test of the stream is exact, wherever the pointer is: before the current
  limit it says not done, moves the pointer to the patch buffer if it must, and leaves the position, the
  limit and the error flag alone, with at least 16 readable bytes after the pointer that agree with the
  zero-padded input; at the limit it says done; past it, it flags an error and gives NULL.\<close>

theorem IsDone_exact:
  assumes "eps_inv e" and "eps_ptr e ptr"
  shows "case upb_EpsCopyInputStream_IsDone e ptr of (done, e', r) \<Rightarrow>
    (done \<longleftrightarrow> eps_lim e \<le> eps_pos e ptr) \<and>
    (r = None \<longleftrightarrow> eps_lim e < eps_pos e ptr) \<and>
    (eps_error e' \<longleftrightarrow> eps_error e \<or> eps_lim e < eps_pos e ptr) \<and>
    (\<forall>ptr'. r = Some ptr' \<longrightarrow>
       eps_inv e' \<and> eps_ptr e' ptr' \<and> eps_pos e' ptr' = eps_pos e ptr \<and> eps_lim e' = eps_lim e \<and>
       eps_input e' = eps_input e) \<and>
    (\<not> done \<longrightarrow> (\<forall>n\<le>16. bytes_at (eps_mem e') (the r) n = bytes_at (padded (eps_input e)) (eps_pos e ptr) n))"
proof -
  consider "eps_pos e ptr < eps_lim e" | "eps_pos e ptr = eps_lim e" | "eps_lim e < eps_pos e ptr" by linarith
  then show ?thesis
  proof cases
    case 1
    from IsDone_before_limit [OF assms this] obtain e' ptr' where
      r: "upb_EpsCopyInputStream_IsDone e ptr = (False, e', Some ptr')" "eps_inv e'" "eps_ptr e' ptr'"
      "ptr' < eps_end e'" "eps_pos e' ptr' = eps_pos e ptr" "eps_lim e' = eps_lim e" "eps_same e e'"
      "eps_error e' = eps_error e" by blast
    have "bytes_at (eps_mem e') ptr' n = bytes_at (padded (eps_input e)) (eps_pos e ptr) n" if "n \<le> 16" for n
      using bytes_at_view [OF r(2,3), of n] r(4,5,7) that by (simp add: eps_same_input)
    with 1 r show ?thesis by (auto simp: eps_same_input)
  next
    case 2
    with IsDone_at_limit [OF assms] assms show ?thesis by auto
  next
    case 3
    with IsDone_past_limit [OF assms] show ?thesis by auto
  qed
qed

theorem IsDone_exact_witness:
  "case upb_EpsCopyInputStream_Init [8, 1] 1000 0 (replicate 32 0) False of (e, ptr) \<Rightarrow>
     \<not> fst (upb_EpsCopyInputStream_IsDone e ptr) \<and> fst (upb_EpsCopyInputStream_IsDone e (ptr + 2)) \<and>
     snd (snd (upb_EpsCopyInputStream_IsDone e (ptr + 3))) = None"
proof -
  have args: "init_args [8, 1] 1000 0 (replicate 32 0)" by (simp add: init_args_def)
  obtain e ptr where i: "upb_EpsCopyInputStream_Init [8, 1] 1000 0 (replicate 32 0) False = (e, ptr)"
    by (cases "upb_EpsCopyInputStream_Init [8, 1] 1000 0 (replicate 32 0) False")
  note s = Init_spec [OF args i]
  have p: "eps_ptr e (ptr + 2)" "eps_ptr e (ptr + 3)"
    using i by (auto simp: upb_EpsCopyInputStream_Init_def eps_ptr_def eps_direct_def eps_len_def SlopBytes_def)
  have pos: "eps_pos e (ptr + k) = k" for k using s(3) by (simp add: eps_pos_def)
  from IsDone_exact [OF s(1,2)] IsDone_exact [OF s(1) p(1)] IsDone_exact [OF s(1) p(2)] s(3,4) pos
  show ?thesis unfolding i by (auto split: prod.splits)
qed

text \<open>C15: limits nest. Pushing a limit for \<open>sz\<close> more bytes that fit in the current one and popping it
  later, at a pointer further on, restores the outer limit; between the two the position of every pointer
  is unchanged and the inner limit is \<open>sz\<close> bytes on. \<open>CheckSize\<close> says exactly whether \<open>sz\<close> fits.\<close>

theorem limits_nest:
  assumes "eps_inv e" and "eps_ptr e ptr" and "0 \<le> sz" and "0 \<le> eps_pos e ptr"
    and "upb_EpsCopyInputStream_CheckSize e ptr sz"
    and "upb_EpsCopyInputStream_PushLimit e ptr sz = (delta, e1)"
  shows "eps_pos e ptr + sz \<le> eps_lim e \<and> eps_inv e1 \<and> eps_lim e1 = eps_pos e ptr + sz \<and>
    eps_inv (upb_EpsCopyInputStream_PopLimit e1 delta) \<and>
    eps_lim (upb_EpsCopyInputStream_PopLimit e1 delta) = eps_lim e \<and>
    (\<forall>p. eps_pos e1 p = eps_pos e p \<and> eps_pos (upb_EpsCopyInputStream_PopLimit e1 delta) p = eps_pos e p)"
proof -
  note push = PushLimit_spec [OF assms(1-3,5,4,6)]
  have "eps_lim e \<le> eps_len e" using assms(1) by (simp add: eps_inv_def)
  then have "eps_lim e1 + delta \<le> eps_len e1"
    using push(5,7) by (simp add: eps_len_def eps_same_input)
  note pop = PopLimit_spec [OF push(1,2,6) this]
  have pos: "eps_pos e1 p = eps_pos e p" for p
    using assms(6) by (auto simp: upb_EpsCopyInputStream_PushLimit_def eps_pos_def Let_def)
  have "eps_pos (upb_EpsCopyInputStream_PopLimit e1 delta) p = eps_pos e1 p" for p
    by (simp add: upb_EpsCopyInputStream_PopLimit_def eps_pos_def Let_def)
  with push(1,4,5) pop(1,4) pos assms(5) show ?thesis by (simp add: CheckSize_iff)
qed

theorem limits_nest_witness:
  "case upb_EpsCopyInputStream_Init [10, 2, 8, 1] 1000 0 (replicate 32 0) False of (e, ptr) \<Rightarrow>
     case upb_EpsCopyInputStream_PushLimit e (ptr + 2) 1 of (delta, e1) \<Rightarrow>
       eps_lim e1 = 3 \<and> eps_lim (upb_EpsCopyInputStream_PopLimit e1 delta) = 4"
proof -
  have args: "init_args [10, 2, 8, 1] 1000 0 (replicate 32 0)" by (simp add: init_args_def)
  obtain e ptr where i: "upb_EpsCopyInputStream_Init [10, 2, 8, 1] 1000 0 (replicate 32 0) False = (e, ptr)"
    by (cases "upb_EpsCopyInputStream_Init [10, 2, 8, 1] 1000 0 (replicate 32 0) False")
  note s = Init_spec [OF args i]
  have p: "eps_ptr e (ptr + 2)"
    using i by (auto simp: upb_EpsCopyInputStream_Init_def eps_ptr_def eps_direct_def eps_len_def SlopBytes_def)
  have pos: "eps_pos e (ptr + 2) = 2" using s(3) by (simp add: eps_pos_def)
  obtain delta e1 where push: "upb_EpsCopyInputStream_PushLimit e (ptr + 2) 1 = (delta, e1)"
    by (cases "upb_EpsCopyInputStream_PushLimit e (ptr + 2) 1")
  from limits_nest [OF s(1) p _ _ _ push] pos s(4) show ?thesis
    unfolding i by (simp add: push CheckSize_iff)
qed

text \<open>C16: reading a string gives exactly the next \<open>sz\<close> bytes of the input and the pointer past them,
  whether the bytes are aliased in the caller's buffer or copied out of the patch buffer. A negative size
  is refused by the wrapping address comparison.\<close>

theorem ReadString_exact:
  assumes "eps_inv e" and "eps_ptr e ptr" and "0 \<le> eps_pos e ptr" and "- (2 ^ 31) \<le> sz" and "sz < 2 ^ 31"
    and "eps_pos e ptr \<le> eps_lim e" and "0 \<le> sz \<longrightarrow> upb_EpsCopyInputStream_CheckSize e ptr sz"
    and "eps_aliasing e \<or> malloc sz"
  shows "upb_EpsCopyInputStream_ReadString malloc e ptr sz =
    (if 0 \<le> sz then Some (take (nat sz) (drop (nat (eps_pos e ptr)) (eps_input e)), ptr + sz) else None)"
proof (cases "0 \<le> sz")
  case True
  with ReadString_spec [OF assms(1-3)] assms(5,7,8) show ?thesis by simp
next
  case False
  with CheckDataSizeAvailable_negative [OF assms(1,2,6) _ assms(4)]
  have "\<not> upb_EpsCopyInputStream_CheckDataSizeAvailable e ptr sz" by simp
  with False show ?thesis
    by (simp add: upb_EpsCopyInputStream_ReadString_def upb_EpsCopyInputStream_AliasingAvailable_def)
qed

theorem ReadString_exact_witness:
  "case upb_EpsCopyInputStream_Init [10, 2, 104, 105] 1000 0 (replicate 32 0) False of (e, ptr) \<Rightarrow>
     upb_EpsCopyInputStream_ReadString (\<lambda>_. True) e (ptr + 2) 2 = Some ([104, 105], ptr + 4) \<and>
     upb_EpsCopyInputStream_ReadString (\<lambda>_. True) e (ptr + 2) (- 1) = None"
proof -
  have args: "init_args [10, 2, 104, 105] 1000 0 (replicate 32 0)" by (simp add: init_args_def)
  obtain e ptr where i: "upb_EpsCopyInputStream_Init [10, 2, 104, 105] 1000 0 (replicate 32 0) False = (e, ptr)"
    by (cases "upb_EpsCopyInputStream_Init [10, 2, 104, 105] 1000 0 (replicate 32 0) False")
  note s = Init_spec [OF args i]
  have p: "eps_ptr e (ptr + 2)"
    using i by (auto simp: upb_EpsCopyInputStream_Init_def eps_ptr_def eps_direct_def eps_len_def SlopBytes_def)
  have pos: "eps_pos e (ptr + 2) = 2" using s(3) by (simp add: eps_pos_def)
  from ReadString_exact [OF s(1) p, of 2 "\<lambda>_. True"] ReadString_exact [OF s(1) p, of "- 1" "\<lambda>_. True"] pos s(4,5)
  show ?thesis unfolding i by (simp add: CheckSize_iff)
qed

end
