(* ===== verification/Wire_Reader.thy ===== *)
theory Wire_Reader
  imports Wire_Varint Eps_Copy_Stream
begin

text \<open>
  \<open>upb/wire/reader.h\<close> and \<open>upb/wire/reader.c\<close> over the input stream: skipping one value and
  skipping a group. The interface the readers use of the stream is the locale \<open>input_stream\<close>;
  the zero-copy stream of \<open>Eps_Copy_Stream\<close> is its interpretation.
\<close>

section \<open>The stream interface\<close>

locale input_stream =
  fixes inv :: "'s \<Rightarrow> bool"
    and ok :: "'s \<Rightarrow> int \<Rightarrow> bool"
    and pos :: "'s \<Rightarrow> int \<Rightarrow> int"
    and lim :: "'s \<Rightarrow> int"
    and inp :: "'s \<Rightarrow> byte list"
    and view :: "'s \<Rightarrow> memory"
    and is_done :: "'s \<Rightarrow> int \<Rightarrow> bool \<times> 's \<times> int option"
  assumes at_limit: "inv e \<Longrightarrow> ok e p \<Longrightarrow> pos e p = lim e \<Longrightarrow> is_done e p = (True, e, Some p)"
    and past_limit: "inv e \<Longrightarrow> ok e p \<Longrightarrow> lim e < pos e p \<Longrightarrow> \<exists>e'. is_done e p = (True, e', None)"
    and before_limit: "inv e \<Longrightarrow> ok e p \<Longrightarrow> pos e p < lim e \<Longrightarrow>
      \<exists>e' p'. is_done e p = (False, e', Some p') \<and> inv e' \<and> (\<forall>k\<in>{0..16}. ok e' (p' + k)) \<and>
        pos e' p' = pos e p \<and> lim e' = lim e \<and> inp e' = inp e \<and>
        (\<forall>k\<in>{0..<16}. view e' (p' + k) = padded (inp e) (pos e p + k))"
    and pos_add: "pos e (p + k) = pos e p + k"
    and lim_len: "inv e \<Longrightarrow> lim e \<le> int (length (inp e))"
    and within: "inv e \<Longrightarrow> ok e p \<Longrightarrow> 0 \<le> k \<Longrightarrow> pos e p + k \<le> lim e \<Longrightarrow> ok e (p + k)"
begin

text \<open>
  After \<open>is_done\<close> answered no, up to 16 bytes of the input can be read at the new pointer: a
  varint that lies there is read as such.
\<close>

lemma bytes_of_view:
  assumes "\<forall>k\<in>{0..<16}. view e' (p' + k) = padded (inp e) (q + k)"
    and "n \<le> 16" and "0 \<le> q" and "nat q + n \<le> length (inp e)"
  shows "bytes_at (view e') p' n = take n (drop (nat q) (inp e))"
  using assms by (intro nth_equalityI) (auto simp: padded_def nat_add_distrib)

lemma read_varint:
  assumes "inv e" and "ok e p" and "pos e p < lim e" and "0 \<le> pos e p"
    and "drop (nat (pos e p)) (inp e) = bs @ rest" and "is_varint bs" and "length bs \<le> 10"
  obtains e' p' where "is_done e p = (False, e', Some p')" "inv e'" "ok e' (p' + int (length bs))"
    "pos e' p' = pos e p" "lim e' = lim e" "inp e' = inp e"
    "varint_at (view e') p' (length bs) (varint_val bs)"
proof -
  from before_limit [OF assms(1-3)] obtain e' p' where e': "is_done e p = (False, e', Some p')"
    "inv e'" "\<forall>k\<in>{0..16}. ok e' (p' + k)" "pos e' p' = pos e p" "lim e' = lim e" "inp e' = inp e"
    "\<forall>k\<in>{0..<16}. view e' (p' + k) = padded (inp e) (pos e p + k)" by blast
  have "nat (pos e p) + length bs \<le> length (inp e)"
    using arg_cong [OF assms(5), of length] is_varint_nonempty [OF assms(6)]
    by (cases "nat (pos e p) \<le> length (inp e)") auto
  then have "bytes_at (view e') p' (length bs) = bs"
    using bytes_of_view [OF e'(7) _ assms(4), of "length bs"] assms(5,7) by simp
  with assms(6,7) have "varint_at (view e') p' (length bs) (varint_val bs)"
    by (simp add: varint_at_def)
  with e' assms(7) that show ?thesis by auto
qed

end

interpretation eps: input_stream eps_inv eps_ptr eps_pos eps_lim eps_input eps_mem
  upb_EpsCopyInputStream_IsDone
proof
  fix e p
  assume "eps_inv e" "eps_ptr e p" "eps_pos e p < eps_lim e"
  then obtain e' p' where e': "upb_EpsCopyInputStream_IsDone e p = (False, e', Some p')"
    "eps_inv e'" "eps_ptr e' p'" "p' < eps_end e'" "eps_pos e' p' = eps_pos e p"
    "eps_lim e' = eps_lim e" "eps_same e e'"
    by (rule IsDone_before_limit)
  then have "eps_mem e' (p' + k) = padded (eps_input e) (eps_pos e p + k)" if "0 \<le> k" "k < 16" for k
    using that eps_mem_view [of e' p' k] by (simp add: eps_same_input)
  moreover have "eps_ptr e' (p' + k)" if "0 \<le> k" "k \<le> 16" for k
    using that e' by (auto simp: eps_ptr_def)
  ultimately show "\<exists>e' p'. upb_EpsCopyInputStream_IsDone e p = (False, e', Some p') \<and> eps_inv e' \<and>
      (\<forall>k\<in>{0..16}. eps_ptr e' (p' + k)) \<and> eps_pos e' p' = eps_pos e p \<and> eps_lim e' = eps_lim e \<and>
      eps_input e' = eps_input e \<and>
      (\<forall>k\<in>{0..<16}. eps_mem e' (p' + k) = padded (eps_input e) (eps_pos e p + k))"
    using e' by (auto simp: eps_same_input)
next
  fix e p k
  assume "eps_inv e" "eps_ptr e p" "0 \<le> k" "eps_pos e p + k \<le> eps_lim e"
  then show "eps_ptr e (p + k)" by (auto simp: eps_defs split: if_splits)
qed (auto simp: IsDone_at_limit IsDone_past_limit eps_pos_def eps_inv_def eps_len_def)

section \<open>Skipping\<close>

definition wr_SkipValue ::
  "(int \<Rightarrow> u32 \<Rightarrow> int \<Rightarrow> eps_stream \<Rightarrow> (eps_stream \<times> int option) option) \<Rightarrow>
   int \<Rightarrow> u32 \<Rightarrow> int \<Rightarrow> eps_stream \<Rightarrow> (eps_stream \<times> int option) option" where
  "wr_SkipValue skip_group ptr tag depth_limit e =
     (let wt = upb_WireReader_GetWireType tag in
      if wt = 0 then Some (e, upb_WireReader_SkipVarint (eps_mem e) ptr)
      else if wt = 5 then Some (e, Some (ptr + 4))
      else if wt = 1 then Some (e, Some (ptr + 8))
      else if wt = 2 then
        (case upb_WireReader_ReadSize (eps_mem e) ptr of
           None \<Rightarrow> Some (e, None)
         | Some (ptr, sz) \<Rightarrow>
             if \<not> upb_EpsCopyInputStream_CheckSize e ptr sz then Some (e, None)
             else Some (e, Some (ptr + sz)))
      else if wt = 3 then skip_group ptr tag depth_limit e
      else Some (e, None))"

text \<open>
  \<open>_upb_WireReader_SkipGroup\<close>: its loop runs on fuel; the outer \<open>None\<close> is fuel exhausted, the
  inner one is NULL. \<open>SkipGroup_enough_fuel\<close> below shows that the number of bytes left is enough.
\<close>

definition wr_SkipGroup ::
  "(int \<Rightarrow> u32 \<Rightarrow> int \<Rightarrow> eps_stream \<Rightarrow> (eps_stream \<times> int option) option) \<Rightarrow>
   int \<Rightarrow> u32 \<Rightarrow> int \<Rightarrow> eps_stream \<Rightarrow> (eps_stream \<times> int option) option" where
  "wr_SkipGroup loop ptr tag depth_limit e =
     (let depth_limit = depth_limit - 1 in
      if depth_limit = 0 then Some (e, None)
      else loop ptr ((tag AND NOT 7) OR 4) depth_limit e)"

fun SkipGroup_loop ::
  "nat \<Rightarrow> int \<Rightarrow> u32 \<Rightarrow> int \<Rightarrow> eps_stream \<Rightarrow> (eps_stream \<times> int option) option" where
  "SkipGroup_loop 0 ptr end_group_tag depth_limit e = None"
| "SkipGroup_loop (Suc fuel) ptr end_group_tag depth_limit e =
     (case upb_EpsCopyInputStream_IsDone e ptr of
        (True, e, p) \<Rightarrow> Some (e, p)
      | (False, e, None) \<Rightarrow> Some (e, None)
      | (False, e, Some ptr) \<Rightarrow>
          (case upb_WireReader_ReadTag (eps_mem e) ptr of
             None \<Rightarrow> Some (e, None)
           | Some (ptr, tag) \<Rightarrow>
               if tag = end_group_tag then Some (e, Some ptr)
               else
                 (case wr_SkipValue (wr_SkipGroup (SkipGroup_loop fuel)) ptr tag depth_limit e of
                    None \<Rightarrow> None
                  | Some (e, None) \<Rightarrow> Some (e, None)
                  | Some (e, Some ptr) \<Rightarrow> SkipGroup_loop fuel ptr end_group_tag depth_limit e)))"

definition upb_WireReader_SkipGroup ::
  "nat \<Rightarrow> int \<Rightarrow> u32 \<Rightarrow> eps_stream \<Rightarrow> (eps_stream \<times> int option) option" where
  "upb_WireReader_SkipGroup fuel ptr tag e = wr_SkipGroup (SkipGroup_loop fuel) ptr tag 100 e"

definition upb_WireReader_SkipValue ::
  "nat \<Rightarrow> int \<Rightarrow> u32 \<Rightarrow> eps_stream \<Rightarrow> (eps_stream \<times> int option) option" where
  "upb_WireReader_SkipValue fuel ptr tag e =
     wr_SkipValue (wr_SkipGroup (SkipGroup_loop fuel)) ptr tag 100 e"

subsection \<open>Skipping terminates: the bytes left are enough fuel\<close>

definition skip_post :: "eps_stream \<Rightarrow> int \<Rightarrow> eps_stream \<Rightarrow> int option \<Rightarrow> bool" where
  "skip_post e ptr e' r \<longleftrightarrow>
     (case r of None \<Rightarrow> True
      | Some p' \<Rightarrow> eps_inv e' \<and> eps_ptr e' p' \<and> eps_pos e ptr \<le> eps_pos e' p' \<and>
          eps_lim e' = eps_lim e \<and> eps_input e' = eps_input e)"

text \<open>The pointer just after \<open>is_done\<close>: 16 bytes can be read there.\<close>

definition eps_fresh :: "eps_stream \<Rightarrow> int \<Rightarrow> bool" where
  "eps_fresh e p \<longleftrightarrow> eps_inv e \<and> (\<forall>k\<in>{0..16}. eps_ptr e (p + k)) \<and>
     (\<forall>k\<in>{0..<16}. eps_mem e (p + k) = padded (eps_input e) (eps_pos e p + k))"

lemma eps_pos_add: "eps_pos e (p + k) = eps_pos e p + k"
  by (simp add: eps_pos_def)

lemma SkipVarint_iff:
  "upb_WireReader_SkipVarint mem ptr = Some p \<longleftrightarrow> (\<exists>n v. varint_at mem ptr n v \<and> p = ptr + int n)"
  by (auto simp: upb_WireReader_SkipVarint_def upb_WireReader_ReadVarint_iff)

lemma wr_SkipValue_total:
  assumes fresh: "eps_fresh e p0" and n: "n \<le> 5" "ptr = p0 + int n"
    and sg: "\<exists>e' r. skip_group ptr tag d e = Some (e', r) \<and> skip_post e ptr e' r"
  shows "\<exists>e' r. wr_SkipValue skip_group ptr tag d e = Some (e', r) \<and> skip_post e ptr e' r"
proof -
  have inv: "eps_inv e" and near: "\<And>k. 0 \<le> k \<Longrightarrow> k \<le> 11 \<Longrightarrow> eps_ptr e (ptr + k)"
    using fresh n by (auto simp: eps_fresh_def add.assoc)
  have adv: "skip_post e ptr e (Some (ptr + k))" if "0 \<le> k" "k \<le> 11" for k
    using inv near that by (simp add: skip_post_def eps_pos_add)
  have varint: "skip_post e ptr e (upb_WireReader_SkipVarint (eps_mem e) ptr)"
  proof (cases "upb_WireReader_SkipVarint (eps_mem e) ptr")
    case (Some p)
    then obtain n where "p = ptr + int n" "n \<le> 10" by (auto simp: SkipVarint_iff varint_at_def)
    with Some adv [of "int n"] show ?thesis by simp
  qed (simp add: skip_post_def)
  have delim: "skip_post e ptr e (Some (p + k))"
    if "upb_WireReader_ReadSize (eps_mem e) ptr = Some (p, k)"
      "upb_EpsCopyInputStream_CheckSize e p k" for p k
  proof -
    from that(1) obtain m where m: "p = ptr + int m" "m \<le> 10" and k: "0 \<le> k"
      by (auto simp: upb_WireReader_ReadSize_iff varint_at_def)
    have "eps_ptr e p" using near [of "int m"] m by simp
    with that(2) k inv have "eps_ptr e (p + k)"
      by (intro eps.within) (simp_all add: CheckSize_iff)
    with inv m k show ?thesis by (simp add: skip_post_def eps_pos_add)
  qed
  have none: "skip_post e ptr e None" by (simp add: skip_post_def)
  show ?thesis
    using varint delim none adv [of 4] adv [of 8] sg
    by (auto simp: wr_SkipValue_def Let_def split: option.split)
qed

lemma SkipGroup_loop_total:
  assumes "eps_inv e" and "eps_ptr e ptr" and "nat (eps_lim e - eps_pos e ptr) < fuel"
  shows "\<exists>e' r. SkipGroup_loop fuel ptr g d e = Some (e', r) \<and> skip_post e ptr e' r"
  using assms
proof (induction fuel arbitrary: ptr g d e)
  case (Suc fuel)
  consider "eps_pos e ptr = eps_lim e" | "eps_lim e < eps_pos e ptr" | "eps_pos e ptr < eps_lim e"
    by linarith
  then show ?case
  proof cases
    case 1
    with Suc.prems show ?thesis by (simp add: eps.at_limit skip_post_def)
  next
    case 2
    with Suc.prems eps.past_limit [of e ptr] show ?thesis by (auto simp: skip_post_def)
  next
    case 3
    from eps.before_limit [OF Suc.prems(1,2) 3] obtain e1 p0 where
      e1: "upb_EpsCopyInputStream_IsDone e ptr = (False, e1, Some p0)" "eps_fresh e1 p0"
      "eps_pos e1 p0 = eps_pos e ptr" "eps_lim e1 = eps_lim e" "eps_input e1 = eps_input e"
      by (auto simp: eps_fresh_def)
    show ?thesis
    proof (cases "upb_WireReader_ReadTag (eps_mem e1) p0")
      case None
      with e1 show ?thesis by (simp add: skip_post_def)
    next
      case (Some pt)
      then obtain tag n v where pt: "pt = (p0 + int n, tag)" and n: "n \<le> 5"
        and v: "varint_at (eps_mem e1) p0 n v"
        by (cases pt) (auto simp: upb_WireReader_ReadTag_iff)
      from v have n0: "0 < n" by (rule varint_at_pos)
      have inv1: "eps_inv e1" and ok1: "eps_ptr e1 (p0 + int n)"
        using e1(2) n by (auto simp: eps_fresh_def)
      have rem: "nat (eps_lim e1 - eps_pos e1 (p0 + int n)) < fuel"
        using Suc.prems(3) 3 n0 e1 by (simp add: eps_pos_add)
      show ?thesis
      proof (cases "tag = g")
        case True
        with Some pt e1 inv1 ok1 show ?thesis by (simp add: skip_post_def eps_pos_add)
      next
        case False
        have sg: "\<exists>e' r. wr_SkipGroup (SkipGroup_loop fuel) (p0 + int n) tag d e1 = Some (e', r) \<and>
            skip_post e1 (p0 + int n) e' r"
          using Suc.IH [OF inv1 ok1 rem]
          by (auto simp: wr_SkipGroup_def Let_def skip_post_def)
        from wr_SkipValue_total [of e1 p0 n "p0 + int n" "wr_SkipGroup (SkipGroup_loop fuel)" tag d, OF e1(2) n refl sg] obtain e2 r where
          e2: "wr_SkipValue (wr_SkipGroup (SkipGroup_loop fuel)) (p0 + int n) tag d e1 = Some (e2, r)"
          "skip_post e1 (p0 + int n) e2 r" by blast
        show ?thesis
        proof (cases r)
          case None
          with Some pt e1 e2 False show ?thesis by (simp add: skip_post_def)
        next
          case r: (Some p2)
          with e2(2) have p2: "eps_inv e2" "eps_ptr e2 p2" "eps_pos e1 (p0 + int n) \<le> eps_pos e2 p2"
            "eps_lim e2 = eps_lim e1" "eps_input e2 = eps_input e1" by (auto simp: skip_post_def)
          with rem have "nat (eps_lim e2 - eps_pos e2 p2) < fuel" by simp
          from Suc.IH [OF p2(1,2) this, of g d] obtain e3 r3 where
            "SkipGroup_loop fuel p2 g d e2 = Some (e3, r3)" "skip_post e2 p2 e3 r3" by blast
          with Some pt e1 e2 r False p2 show ?thesis
            by (auto simp: skip_post_def eps_pos_add split: option.splits)
        qed
      qed
    qed
  qed
qed simp

subsection \<open>Skipping a well-formed value\<close>

text \<open>
  The wire grammar, with the tags as they are written (any varint of at most five bytes whose
  value is the tag). \<open>d\<close> bounds the nesting of groups.
\<close>

definition is_tag :: "byte list \<Rightarrow> u32 \<Rightarrow> bool" where
  "is_tag tb t \<longleftrightarrow> is_varint tb \<and> length tb \<le> 5 \<and> varint_val tb \<le> 0xFFFFFFFF \<and>
     t = ucast (varint_val tb)"

definition end_group_tag :: "u32 \<Rightarrow> u32" where
  "end_group_tag tag = (tag AND NOT 7) OR 4"

inductive wire_value :: "nat \<Rightarrow> u32 \<Rightarrow> byte list \<Rightarrow> bool"
  and wire_fields :: "nat \<Rightarrow> byte list \<Rightarrow> bool" where
  varint: "upb_WireReader_GetWireType t = 0 \<Longrightarrow> is_varint vb \<Longrightarrow> length vb \<le> 10 \<Longrightarrow> wire_value d t vb"
| fixed32: "upb_WireReader_GetWireType t = 5 \<Longrightarrow> length vb = 4 \<Longrightarrow> wire_value d t vb"
| fixed64: "upb_WireReader_GetWireType t = 1 \<Longrightarrow> length vb = 8 \<Longrightarrow> wire_value d t vb"
| delimited: "upb_WireReader_GetWireType t = 2 \<Longrightarrow> is_varint sb \<Longrightarrow> length sb \<le> 10 \<Longrightarrow>
    uint (varint_val sb) < 0x7FFFFFFF \<Longrightarrow> uint (varint_val sb) = int (length pb) \<Longrightarrow>
    wire_value d t (sb @ pb)"
| group: "upb_WireReader_GetWireType t = 3 \<Longrightarrow> wire_fields d body \<Longrightarrow> is_tag eb (end_group_tag t) \<Longrightarrow>
    wire_value (Suc d) t (body @ eb)"
| fields_nil: "wire_fields d []"
| fields_cons: "is_tag tb t \<Longrightarrow> upb_WireReader_GetWireType t \<noteq> 4 \<Longrightarrow> wire_value d t vb \<Longrightarrow>
    wire_fields d rest \<Longrightarrow> wire_fields d (tb @ vb @ rest)"

lemma GetWireType_end_group: "upb_WireReader_GetWireType (end_group_tag t) = 4"
proof -
  have "((t AND NOT 7) OR 4) AND 7 = (4 :: u32)"
    by (simp add: bit.conj_disj_distrib2 and.assoc)
  then show ?thesis
    by (simp add: upb_WireReader_GetWireType_def end_group_tag_def)
qed

lemma read_tag:
  assumes "eps_inv e" and "eps_ptr e p" and "eps_pos e p < eps_lim e" and "0 \<le> eps_pos e p"
    and "drop (nat (eps_pos e p)) (eps_input e) = tb @ rest" and "is_tag tb t"
  obtains e' p' where "upb_EpsCopyInputStream_IsDone e p = (False, e', Some p')" "eps_fresh e' p'"
    "eps_pos e' p' = eps_pos e p" "eps_lim e' = eps_lim e" "eps_input e' = eps_input e"
    "upb_WireReader_ReadTag (eps_mem e') p' = Some (p' + int (length tb), t)"
proof -
  have tb: "is_varint tb" "length tb \<le> 10" using assms(6) by (auto simp: is_tag_def)
  from eps.before_limit [OF assms(1-3)]
  obtain e' p' where e': "upb_EpsCopyInputStream_IsDone e p = (False, e', Some p')" "eps_fresh e' p'"
    "eps_pos e' p' = eps_pos e p" "eps_lim e' = eps_lim e" "eps_input e' = eps_input e"
    by (auto simp: eps_fresh_def)
  from eps.read_varint [OF assms(1-5) tb]
  have "varint_at (eps_mem e') p' (length tb) (varint_val tb)"
    by (metis e'(1) option.inject prod.inject)
  note e' = e' this
  with assms(6) have "upb_WireReader_ReadTag (eps_mem e') p' = Some (p' + int (length tb), t)"
    unfolding upb_WireReader_ReadTag_iff is_tag_def by blast
  with e' that show ?thesis by blast
qed

lemma fresh_bytes:
  assumes "eps_fresh e p0" and "n + k \<le> 16" and "0 \<le> eps_pos e p0"
    and "drop (nat (eps_pos e (p0 + int n))) (eps_input e) = vb @ rest" and "k = length vb" and "vb \<noteq> []"
  shows "bytes_at (eps_mem e) (p0 + int n) k = vb"
proof -
  have "\<forall>j\<in>{0..<16}. eps_mem e (p0 + j) = padded (eps_input e) (eps_pos e p0 + j)"
    using assms(1) by (simp add: eps_fresh_def)
  moreover have le: "nat (eps_pos e p0) + (n + k) \<le> length (eps_input e)"
  proof -
    have "length (eps_input e) - nat (eps_pos e p0 + int n) = length vb + length rest"
      using arg_cong [OF assms(4), of length] by (simp add: eps_pos_add)
    moreover have "0 < length vb" using assms(6) by simp
    ultimately show ?thesis using assms(3,5)
      by (simp add: nat_add_distrib del: length_greater_0_conv)
  qed
  ultimately have "bytes_at (eps_mem e) p0 (n + k) = take (n + k) (drop (nat (eps_pos e p0)) (eps_input e))"
    using assms(2,3) by (intro eps.bytes_of_view) auto
  then have "drop n (bytes_at (eps_mem e) p0 (n + k)) =
      take k (drop (nat (eps_pos e (p0 + int n))) (eps_input e))"
    using assms(3) by (simp add: drop_take eps_pos_add nat_add_distrib add.commute)
  then show ?thesis using assms(4,5) by (simp add: bytes_at_add)
qed

text \<open>Where the parse stands after a skip: \<open>n\<close> bytes further, nothing else changed.\<close>

definition advanced :: "eps_stream \<Rightarrow> int \<Rightarrow> int \<Rightarrow> eps_stream \<Rightarrow> int \<Rightarrow> bool" where
  "advanced e ptr n e' p' \<longleftrightarrow> eps_inv e' \<and> eps_ptr e' p' \<and> eps_pos e' p' = eps_pos e ptr + n \<and>
     eps_lim e' = eps_lim e \<and> eps_input e' = eps_input e"

lemma advanced_trans:
  "advanced e p m e1 p1 \<Longrightarrow> advanced e1 p1 n e2 p2 \<Longrightarrow> advanced e p (m + n) e2 p2"
  by (simp add: advanced_def)

lemma advanced_fresh:
  "eps_fresh e p \<Longrightarrow> 0 \<le> k \<Longrightarrow> k \<le> 16 \<Longrightarrow> advanced e p k e (p + k)"
  by (simp add: eps_fresh_def advanced_def eps_pos_add)

lemma advanced_drop:
  assumes "advanced e p (int (length xs)) e' p'" and "0 \<le> eps_pos e p"
    and "drop (nat (eps_pos e p)) (eps_input e) = xs @ ys"
  shows "drop (nat (eps_pos e' p')) (eps_input e') = ys"
proof -
  have "drop (nat (eps_pos e p) + length xs) (eps_input e) = ys"
    using assms(3) by (metis add.commute append_eq_conv_conj drop_drop)
  with assms(1,2) show ?thesis by (simp add: advanced_def nat_add_distrib)
qed

text \<open>The state in which a value is skipped: a tag of \<open>n \<le> 5\<close> bytes was just read at \<open>p0\<close>.\<close>

definition after_tag :: "eps_stream \<Rightarrow> int \<Rightarrow> bool" where
  "after_tag e ptr \<longleftrightarrow> 0 \<le> eps_pos e ptr \<and> (\<exists>p0 n. n \<le> 5 \<and> ptr = p0 + int n \<and> eps_fresh e p0 \<and> 0 \<le> eps_pos e p0)"

lemma after_tag_bytes:
  assumes "after_tag e ptr" and "drop (nat (eps_pos e ptr)) (eps_input e) = vb @ rest"
    and "length vb \<le> 10" and "vb \<noteq> []"
  shows "bytes_at (eps_mem e) ptr (length vb) = vb"
    "advanced e ptr (int (length vb)) e (ptr + int (length vb))"
proof -
  from assms(1) obtain p0 n where n: "n \<le> 5" "ptr = p0 + int n" "eps_fresh e p0" "0 \<le> eps_pos e p0"
    by (auto simp: after_tag_def)
  from fresh_bytes [OF n(3) _ n(4) _ refl assms(4), of n rest] n(1,2) assms(2,3)
  show "bytes_at (eps_mem e) ptr (length vb) = vb" by simp
  have "int n + int (length vb) \<in> {0..16}" using n(1) assms(3) by simp
  with n(3) have "eps_ptr e (p0 + (int n + int (length vb)))" unfolding eps_fresh_def by blast
  with n show "advanced e ptr (int (length vb)) e (ptr + int (length vb))"
    by (simp add: advanced_def eps_fresh_def eps_pos_add add.assoc)
qed

lemma after_tag_varint:
  assumes "after_tag e ptr" and "drop (nat (eps_pos e ptr)) (eps_input e) = vb @ rest"
    and "is_varint vb" and "length vb \<le> 10"
  shows "varint_at (eps_mem e) ptr (length vb) (varint_val vb)"
  using after_tag_bytes(1) [OF assms(1,2,4) is_varint_nonempty [OF assms(3)]] assms(3,4)
  by (simp add: varint_at_def)

lemma skip_delimited:
  assumes e: "after_tag e ptr" "drop (nat (eps_pos e ptr)) (eps_input e) = (sb @ pb) @ rest"
    and sb: "is_varint sb" "length sb \<le> 10" "uint (varint_val sb) < 0x7FFFFFFF"
      "uint (varint_val sb) = int (length pb)"
    and lim: "eps_pos e ptr + int (length (sb @ pb)) \<le> eps_lim e" and t: "upb_WireReader_GetWireType t = 2"
  shows "\<exists>p'. wr_SkipValue sg ptr t D e = Some (e, Some p') \<and> advanced e ptr (int (length (sb @ pb))) e p'"
proof -
  have e2: "drop (nat (eps_pos e ptr)) (eps_input e) = sb @ (pb @ rest)" using e(2) by simp
  have read: "upb_WireReader_ReadSize (eps_mem e) ptr = Some (ptr + int (length sb), int (length pb))"
    unfolding upb_WireReader_ReadSize_iff
    using after_tag_varint [OF e(1) e2 sb(1,2)] sb(3,4) by metis
  have adv: "advanced e ptr (int (length sb)) e (ptr + int (length sb))"
    by (rule after_tag_bytes(2) [OF e(1) e2 sb(2) is_varint_nonempty [OF sb(1)]])
  then have "eps_ptr e (ptr + int (length sb) + int (length pb))"
    using lim by (intro eps.within [of e "ptr + int (length sb)" "int (length pb)"]) (auto simp: advanced_def)
  with adv have "advanced e ptr (int (length (sb @ pb))) e (ptr + int (length sb) + int (length pb))"
    by (simp add: advanced_def eps_pos_add)
  moreover have "upb_EpsCopyInputStream_CheckSize e (ptr + int (length sb)) (int (length pb))"
    using lim by (simp add: CheckSize_iff eps_pos_add)
  ultimately show ?thesis using read t by (simp add: wr_SkipValue_def Let_def)
qed

lemma skip_well_formed:
  "wire_value d t vb \<Longrightarrow>
    (\<forall>e ptr D fuel rest. after_tag e ptr \<longrightarrow> drop (nat (eps_pos e ptr)) (eps_input e) = vb @ rest \<longrightarrow>
       eps_pos e ptr + int (length vb) \<le> eps_lim e \<longrightarrow> int d < D \<longrightarrow> length vb \<le> fuel \<longrightarrow>
       (\<exists>e' p'. wr_SkipValue (wr_SkipGroup (SkipGroup_loop fuel)) ptr t D e = Some (e', Some p') \<and>
          advanced e ptr (int (length vb)) e' p'))"
  "wire_fields d bs \<Longrightarrow>
    (\<forall>e ptr D fuel eb g rest. eps_inv e \<longrightarrow> eps_ptr e ptr \<longrightarrow> 0 \<le> eps_pos e ptr \<longrightarrow>
       drop (nat (eps_pos e ptr)) (eps_input e) = bs @ eb @ rest \<longrightarrow>
       eps_pos e ptr + int (length (bs @ eb)) \<le> eps_lim e \<longrightarrow>
       is_tag eb g \<longrightarrow> upb_WireReader_GetWireType g = 4 \<longrightarrow> int d < D \<longrightarrow> length bs < fuel \<longrightarrow>
       (\<exists>e' p'. SkipGroup_loop fuel ptr g D e = Some (e', Some p') \<and>
          advanced e ptr (int (length (bs @ eb))) e' p'))"
proof (induction rule: wire_value_wire_fields.inducts)
  case (varint t vb d)
  have "upb_WireReader_SkipVarint (eps_mem e) ptr = Some (ptr + int (length vb))"
    "advanced e ptr (int (length vb)) e (ptr + int (length vb))"
    if "after_tag e ptr" "drop (nat (eps_pos e ptr)) (eps_input e) = vb @ rest" for e ptr rest
    using after_tag_varint [OF that varint(2,3)] after_tag_bytes(2) [OF that varint(3)]
      is_varint_nonempty [OF varint(2)] by (auto simp: SkipVarint_iff)
  with varint(1) show ?case by (simp add: wr_SkipValue_def Let_def)
next
  case (fixed32 t vb d)
  then have "advanced e ptr 4 e (ptr + 4)"
    if "after_tag e ptr" "drop (nat (eps_pos e ptr)) (eps_input e) = vb @ rest" for e ptr rest
    using after_tag_bytes(2) [OF that] by force
  with fixed32 show ?case by (simp add: wr_SkipValue_def Let_def)
next
  case (fixed64 t vb d)
  then have "advanced e ptr 8 e (ptr + 8)"
    if "after_tag e ptr" "drop (nat (eps_pos e ptr)) (eps_input e) = vb @ rest" for e ptr rest
    using after_tag_bytes(2) [OF that] by force
  with fixed64 show ?case by (simp add: wr_SkipValue_def Let_def)
next
  case (delimited t sb pb d)
  then show ?case using skip_delimited by meson
next
  case (group t d body eb)
  show ?case
  proof (intro allI impI)
    fix e ptr D fuel rest
    assume a: "after_tag e ptr" "drop (nat (eps_pos e ptr)) (eps_input e) = (body @ eb) @ rest"
      "eps_pos e ptr + int (length (body @ eb)) \<le> eps_lim e" "int (Suc d) < D" "length (body @ eb) \<le> fuel"
    have "eb \<noteq> []" using group by (auto simp: is_tag_def)
    with a(5) have "length body < fuel" by (cases eb) auto
    moreover have "eps_inv e \<and> eps_ptr e ptr \<and> 0 \<le> eps_pos e ptr"
      using a(1) unfolding after_tag_def eps_fresh_def by force
    ultimately have "\<exists>e' p'. SkipGroup_loop fuel ptr (end_group_tag t) (D - 1) e = Some (e', Some p') \<and>
        advanced e ptr (int (length (body @ eb))) e' p'"
      using group(3,4) a by (intro group.IH [rule_format]) (auto simp: GetWireType_end_group Suc_le_eq)
    then show "\<exists>e' p'. wr_SkipValue (wr_SkipGroup (SkipGroup_loop fuel)) ptr t D e = Some (e', Some p') \<and>
        advanced e ptr (int (length (body @ eb))) e' p'"
      using group(1) a(4) by (auto simp: wr_SkipValue_def wr_SkipGroup_def Let_def end_group_tag_def)
  qed
next
  case (fields_nil d)
  show ?case
  proof (intro allI impI)
    fix e ptr D fuel eb g rest
    assume a: "eps_inv e" "eps_ptr e ptr" "0 \<le> eps_pos e ptr"
      "drop (nat (eps_pos e ptr)) (eps_input e) = [] @ eb @ rest"
      "eps_pos e ptr + int (length ([] @ eb)) \<le> eps_lim e" "is_tag eb g" "length ([] :: byte list) < fuel"
    have "eb \<noteq> []" using a(6) by (auto simp: is_tag_def)
    with a(5) have "eps_pos e ptr < eps_lim e" by (cases eb) auto
    from read_tag [OF a(1,2) this a(3) _ a(6), of rest] a(4) obtain e' p' where e':
      "upb_EpsCopyInputStream_IsDone e ptr = (False, e', Some p')" "eps_fresh e' p'"
      "eps_pos e' p' = eps_pos e ptr" "eps_lim e' = eps_lim e" "eps_input e' = eps_input e"
      "upb_WireReader_ReadTag (eps_mem e') p' = Some (p' + int (length eb), g)" by auto
    have "advanced e ptr (int (length eb)) e' (p' + int (length eb))"
      using advanced_fresh [OF e'(2), of "int (length eb)"] e'(3-5) a(6) by (simp add: advanced_def is_tag_def)
    with e' a(7) show "\<exists>e' p'. SkipGroup_loop fuel ptr g D e = Some (e', Some p') \<and>
        advanced e ptr (int (length ([] @ eb))) e' p'" by (cases fuel) auto
  qed
next
  case (fields_cons tb t d vb bs)
  show ?case
  proof (intro allI impI)
    fix e ptr D fuel eb g rest
    assume a: "eps_inv e" "eps_ptr e ptr" "0 \<le> eps_pos e ptr"
      "drop (nat (eps_pos e ptr)) (eps_input e) = (tb @ vb @ bs) @ eb @ rest"
      "eps_pos e ptr + int (length ((tb @ vb @ bs) @ eb)) \<le> eps_lim e" "is_tag eb g"
      "upb_WireReader_GetWireType g = 4" "int d < D" "length (tb @ vb @ bs) < fuel"
    obtain f where f: "fuel = Suc f" using a(9) by (cases fuel) auto
    have tb: "tb \<noteq> []" "length tb \<le> 5" using fields_cons(1) by (auto simp: is_tag_def)
    with a(5) have "eps_pos e ptr < eps_lim e" by (cases tb) auto
    from read_tag [OF a(1,2) this a(3) _ fields_cons(1), of "vb @ bs @ eb @ rest"] a(4) obtain e1 p1 where e1:
      "upb_EpsCopyInputStream_IsDone e ptr = (False, e1, Some p1)" "eps_fresh e1 p1"
      "eps_pos e1 p1 = eps_pos e ptr" "eps_lim e1 = eps_lim e" "eps_input e1 = eps_input e"
      "upb_WireReader_ReadTag (eps_mem e1) p1 = Some (p1 + int (length tb), t)" by auto
    have adv1: "advanced e ptr (int (length tb)) e1 (p1 + int (length tb))"
      using advanced_fresh [OF e1(2), of "int (length tb)"] e1(3-5) tb(2) by (simp add: advanced_def)
    have drop1: "drop (nat (eps_pos e1 (p1 + int (length tb)))) (eps_input e1) = vb @ bs @ eb @ rest"
      using advanced_drop [OF adv1 a(3)] a(4) by simp
    have at: "after_tag e1 (p1 + int (length tb))"
      using e1(2,3) a(3) tb(2) unfolding after_tag_def eps_pos_add by force
    have lim1: "eps_pos e1 (p1 + int (length tb)) + int (length vb) \<le> eps_lim e1"
      using a(5) e1(3,4) by (simp add: eps_pos_add)
    have "length vb \<le> f" using a(9) f tb(1) by (cases tb) auto
    with fields_cons.IH(1) [rule_format, OF at drop1 lim1 a(8)] obtain e2 p2 where
      e2: "wr_SkipValue (wr_SkipGroup (SkipGroup_loop f)) (p1 + int (length tb)) t D e1 = Some (e2, Some p2)"
      "advanced e1 (p1 + int (length tb)) (int (length vb)) e2 p2" by blast
    have pos1: "0 \<le> eps_pos e1 (p1 + int (length tb))" using at by (simp add: after_tag_def)
    have drop2: "drop (nat (eps_pos e2 p2)) (eps_input e2) = bs @ eb @ rest"
      by (rule advanced_drop [OF e2(2) pos1 drop1])
    have adv2: "advanced e ptr (int (length tb) + int (length vb)) e2 p2"
      by (rule advanced_trans [OF adv1 e2(2)])
    have "length bs < f" using a(9) f tb(1) by (cases tb) auto
    moreover have "eps_pos e2 p2 + int (length (bs @ eb)) \<le> eps_lim e2" "0 \<le> eps_pos e2 p2"
      using a(3,5) adv2 by (simp_all add: advanced_def)
    ultimately obtain e3 p3 where e3: "SkipGroup_loop f p2 g D e2 = Some (e3, Some p3)"
      "advanced e2 p2 (int (length (bs @ eb))) e3 p3"
      using fields_cons.IH(2) [rule_format, of e2 p2 eb rest g D f] adv2 drop2 a(6-8)
      by (auto simp: advanced_def)
    have "advanced e ptr (int (length ((tb @ vb @ bs) @ eb))) e3 p3"
      using advanced_trans [OF adv2 e3(2)] by (simp add: add.assoc)
    moreover have "t \<noteq> g" using fields_cons(2) a(7) by auto
    ultimately show "\<exists>e' p'. SkipGroup_loop fuel ptr g D e = Some (e', Some p') \<and>
        advanced e ptr (int (length ((tb @ vb @ bs) @ eb))) e' p'"
      using f e1(1,6) e2(1) e3(1) by auto
  qed
qed

section \<open>Properties\<close>

text \<open>C13: skipping a group terminates on every input. From any pointer of the stream, as much fuel as there
  are bytes left, plus one, is enough for the loop and all its recursive calls; the result is NULL or a
  pointer of the same stream, not before the start, with the limit unchanged.\<close>

theorem SkipGroup_terminates:
  assumes "eps_inv e" and "eps_ptr e ptr" and "nat (eps_lim e - eps_pos e ptr) < fuel"
  shows "case upb_WireReader_SkipGroup fuel ptr tag e of
      None \<Rightarrow> False
    | Some (e', None) \<Rightarrow> True
    | Some (e', Some p') \<Rightarrow> eps_inv e' \<and> eps_ptr e' p' \<and> eps_pos e ptr \<le> eps_pos e' p' \<and> eps_lim e' = eps_lim e"
proof -
  obtain e' r where "SkipGroup_loop fuel ptr ((tag AND NOT 7) OR 4) 99 e = Some (e', r)" "skip_post e ptr e' r"
    using SkipGroup_loop_total [OF assms] by blast
  then show ?thesis
    by (cases r) (simp_all add: upb_WireReader_SkipGroup_def wr_SkipGroup_def skip_post_def)
qed

theorem SkipGroup_terminates_witness:
  "case upb_EpsCopyInputStream_Init [8, 1, 12] 1000 0 (replicate 32 0) False of (e, ptr) \<Rightarrow>
     upb_WireReader_SkipGroup 4 ptr 11 e \<noteq> None"
proof -
  have args: "init_args [8, 1, 12] 1000 0 (replicate 32 0)" by (simp add: init_args_def)
  obtain e ptr where i: "upb_EpsCopyInputStream_Init [8, 1, 12] 1000 0 (replicate 32 0) False = (e, ptr)"
    by (cases "upb_EpsCopyInputStream_Init [8, 1, 12] 1000 0 (replicate 32 0) False")
  note s = Init_spec [OF args i]
  from SkipGroup_terminates [OF s(1,2), of 4 11] s(3,4) show ?thesis
    unfolding i by (auto split: option.splits)
qed

text \<open>C12: the skipper accepts the wire format. When the input holds well-formed fields, nested fewer than
  99 groups deep, and the end-group tag that closes the group, \<open>SkipGroup\<close> stops just past that tag.\<close>

theorem SkipGroup_skips_well_formed:
  assumes "init_args (bs @ eb @ rest) buf pa patch"
    and "upb_EpsCopyInputStream_Init (bs @ eb @ rest) buf pa patch al = (e, ptr)"
    and "wire_fields d bs" and "is_tag eb (end_group_tag tag)" and "d < 99" and "length bs < fuel"
  shows "\<exists>e' p'. upb_WireReader_SkipGroup fuel ptr tag e = Some (e', Some p') \<and>
    eps_inv e' \<and> eps_ptr e' p' \<and> eps_pos e' p' = int (length (bs @ eb)) \<and> eps_input e' = bs @ eb @ rest"
proof -
  note s = Init_spec [OF assms(1,2)]
  have "upb_WireReader_GetWireType (end_group_tag tag) = 4" by (rule GetWireType_end_group)
  moreover have "int d < 99" using assms(5) by simp
  ultimately obtain e' p' where
    "SkipGroup_loop fuel ptr (end_group_tag tag) 99 e = Some (e', Some p')"
    "advanced e ptr (int (length (bs @ eb))) e' p'"
    using skip_well_formed(2) [OF assms(3), rule_format, OF s(1,2), of eb rest "end_group_tag tag" 99 fuel]
      s(3-5) assms(4,6) by auto
  then show ?thesis using s(3,5)
    by (auto simp: upb_WireReader_SkipGroup_def wr_SkipGroup_def end_group_tag_def advanced_def)
qed

theorem SkipGroup_skips_well_formed_witness:
  "case upb_EpsCopyInputStream_Init [8, 1, 12, 5] 1000 0 (replicate 32 0) False of (e, ptr) \<Rightarrow>
     \<exists>e' p'. upb_WireReader_SkipGroup 3 ptr 11 e = Some (e', Some p') \<and> eps_pos e' p' = 3"
proof -
  have args: "init_args ([8, 1] @ [12] @ [5]) 1000 0 (replicate 32 0)" by (simp add: init_args_def)
  obtain e ptr where i: "upb_EpsCopyInputStream_Init ([8, 1] @ [12] @ [5]) 1000 0 (replicate 32 0) False = (e, ptr)"
    by (cases "upb_EpsCopyInputStream_Init ([8, 1] @ [12] @ [5]) 1000 0 (replicate 32 0) False")
  have tags: "is_tag [8] 8" "is_tag [12] (end_group_tag 11)" by code_simp+
  have "is_varint [1]" "upb_WireReader_GetWireType 8 = 0" by code_simp+
  then have "wire_value 0 8 [1]" by (intro wire_value_wire_fields.varint) simp_all
  moreover have "upb_WireReader_GetWireType 8 \<noteq> 4" by code_simp
  ultimately have "wire_fields 0 ([8] @ [1] @ [])" using tags(1) fields_nil by (intro fields_cons)
  then have "wire_fields 0 [8, 1]" by simp
  from SkipGroup_skips_well_formed [OF args i this tags(2), of 3] show ?thesis
    using i by auto
qed



end
