(* ===== verification/Base92.thy ===== *)
theory Base92
  imports Upb_Prelude
begin

text \<open>
  The base-92 characters of mini descriptors: \<open>upb/mini_descriptor/internal/base92.{h,c}\<close>,
  \<open>upb/base/internal/log2.h\<close>, and the varint writer of
  \<open>upb/mini_descriptor/internal/encode.c\<close>. A pointer being written is the list of the bytes
  written so far (\<open>None\<close> is NULL, \<open>cap\<close> bytes fit); a pointer being read is the list of the
  bytes up to \<open>end\<close>. \<open>char\<close> is signed.
\<close>

section \<open>Constants of the format\<close>

text \<open>\<open>upb/mini_descriptor/internal/wire_constants.h\<close>, as characters.\<close>

abbreviation (input) "kUpb_EncodedValue_MinField \<equiv> 32 :: byte"
abbreviation (input) "kUpb_EncodedValue_MaxField \<equiv> 73 :: byte"
abbreviation (input) "kUpb_EncodedValue_MinModifier \<equiv> 76 :: byte"
abbreviation (input) "kUpb_EncodedValue_MaxModifier \<equiv> 91 :: byte"
abbreviation (input) "kUpb_EncodedValue_End \<equiv> 94 :: byte"
abbreviation (input) "kUpb_EncodedValue_MinSkip \<equiv> 95 :: byte"
abbreviation (input) "kUpb_EncodedValue_MaxSkip \<equiv> 126 :: byte"
abbreviation (input) "kUpb_EncodedValue_OneofSeparator \<equiv> 126 :: byte"
abbreviation (input) "kUpb_EncodedValue_FieldSeparator \<equiv> 124 :: byte"
abbreviation (input) "kUpb_EncodedValue_MinOneofField \<equiv> 32 :: byte"
abbreviation (input) "kUpb_EncodedValue_MaxOneofField \<equiv> 98 :: byte"
abbreviation (input) "kUpb_EncodedValue_MaxEnumMask \<equiv> 65 :: byte"
abbreviation (input) "kUpb_EncodedVersion_EnumV1 \<equiv> 33 :: byte"
abbreviation (input) "kUpb_EncodedVersion_ExtensionV1 \<equiv> 35 :: byte"
abbreviation (input) "kUpb_EncodedVersion_MapV1 \<equiv> 37 :: byte"
abbreviation (input) "kUpb_EncodedVersion_MessageV1 \<equiv> 36 :: byte"
abbreviation (input) "kUpb_EncodedVersion_MessageSetV1 \<equiv> 38 :: byte"

section \<open>Logarithms\<close>

text \<open>The portable branch, \<open>while ((1 << lg2) < x) lg2++\<close>.\<close>

function Log2Ceiling_loop :: "int \<Rightarrow> nat \<Rightarrow> nat" where
  "Log2Ceiling_loop x lg2 = (if 2 ^ lg2 < x then Log2Ceiling_loop x (lg2 + 1) else lg2)"
  by pat_completeness auto
termination
  by (relation "measure (\<lambda>(x, lg2). nat (x - 2 ^ lg2))") auto

declare Log2Ceiling_loop.simps [simp del]

definition upb_Log2Ceiling :: "int \<Rightarrow> nat" where
  "upb_Log2Ceiling x = (if x \<le> 1 then 0 else Log2Ceiling_loop x 0)"

definition upb_RoundUpToPowerOfTwo :: "int \<Rightarrow> int" where
  "upb_RoundUpToPowerOfTwo x = 2 ^ upb_Log2Ceiling x"

lemma Log2Ceiling_loop_bounds:
  assumes "0 < lg2 \<longrightarrow> 2 ^ (lg2 - 1) < x"
  shows "x \<le> 2 ^ Log2Ceiling_loop x lg2 \<and>
    (0 < Log2Ceiling_loop x lg2 \<longrightarrow> 2 ^ (Log2Ceiling_loop x lg2 - 1) < x)"
  using assms
proof (induction x lg2 rule: Log2Ceiling_loop.induct)
  case (1 x lg2)
  then show ?case by (subst (1 2 3) Log2Ceiling_loop.simps) auto
qed

lemma upb_Log2Ceiling_bounds:
  assumes "1 < x"
  shows "x \<le> 2 ^ upb_Log2Ceiling x" "2 ^ (upb_Log2Ceiling x - 1) < x" "0 < upb_Log2Ceiling x"
proof -
  have l: "upb_Log2Ceiling x = Log2Ceiling_loop x 0" using assms by (simp add: upb_Log2Ceiling_def)
  show le: "x \<le> 2 ^ upb_Log2Ceiling x" unfolding l using Log2Ceiling_loop_bounds [of 0 x] by simp
  with assms show pos: "0 < upb_Log2Ceiling x" by (cases "upb_Log2Ceiling x") auto
  then show "2 ^ (upb_Log2Ceiling x - 1) < x"
    unfolding l using Log2Ceiling_loop_bounds [of 0 x] by simp
qed

lemma Log2Ceiling_unique:
  assumes "1 < x" and "x \<le> 2 ^ n" and "2 ^ (n - 1) < x"
  shows "upb_Log2Ceiling x = n"
proof -
  note b = upb_Log2Ceiling_bounds [OF assms(1)]
  have "a \<le> b" if "(2 :: int) ^ (a - 1) < x" "x \<le> 2 ^ b" for a b
  proof -
    have "(2 :: int) ^ (a - 1) < 2 ^ b" using that by linarith
    then have "a - 1 < b" by (simp only: power_strict_increasing_iff one_less_numeral_iff semiring_norm)
    then show ?thesis by simp
  qed
  from this [of n "upb_Log2Ceiling x"] this [of "upb_Log2Ceiling x" n] b assms show ?thesis by simp
qed

section \<open>Characters\<close>

definition kUpb_ToBase92 :: "byte list" where
  "kUpb_ToBase92 =
    [32, 33, 35, 36, 37, 38, 40, 41, 42, 43, 44, 45, 46, 47,
     48, 49, 50, 51, 52, 53, 54, 55, 56, 57, 58, 59, 60, 61,
     62, 63, 64, 65, 66, 67, 68, 69, 70, 71, 72, 73, 74, 75,
     76, 77, 78, 79, 80, 81, 82, 83, 84, 85, 86, 87, 88, 89,
     90, 91, 93, 94, 95, 96, 97, 98, 99, 100, 101, 102, 103, 104,
     105, 106, 107, 108, 109, 110, 111, 112, 113, 114, 115, 116, 117, 118,
     119, 120, 121, 122, 123, 124, 125, 126]"

definition kUpb_FromBase92 :: "int list" where
  "kUpb_FromBase92 =
    [0, 1, -1, 2, 3, 4, 5, -1, 6, 7, 8, 9, 10, 11, 12, 13, 14, 15, 16,
     17, 18, 19, 20, 21, 22, 23, 24, 25, 26, 27, 28, 29, 30, 31, 32, 33, 34, 35,
     36, 37, 38, 39, 40, 41, 42, 43, 44, 45, 46, 47, 48, 49, 50, 51, 52, 53, 54,
     55, 56, 57, -1, 58, 59, 60, 61, 62, 63, 64, 65, 66, 67, 68, 69, 70, 71, 72,
     73, 74, 75, 76, 77, 78, 79, 80, 81, 82, 83, 84, 85, 86, 87, 88, 89, 90, 91]"

definition upb_ToBase92 :: "int \<Rightarrow> byte" where
  "upb_ToBase92 ch = kUpb_ToBase92 ! nat ch"

definition upb_FromBase92 :: "byte \<Rightarrow> int" where
  "upb_FromBase92 ch =
     (if 32 > uint ch \<or> uint ch > 126 then -1 else kUpb_FromBase92 ! nat (uint ch - 32))"

text \<open>Every one of the 92 digits is read back from its character.\<close>

lemma base92_table:
  "list_all (\<lambda>d. upb_FromBase92 (upb_ToBase92 d) = d) [0..91]"
  by code_simp

lemma upb_FromBase92_ToBase92: "0 \<le> d \<Longrightarrow> d < 92 \<Longrightarrow> upb_FromBase92 (upb_ToBase92 d) = d"
  using base92_table by (simp add: list_all_iff)

section \<open>Varints\<close>

text \<open>The digits of a mini descriptor varint, from \<open>min\<close> to \<open>max\<close>.\<close>

fun Base92_DecodeVarint_loop ::
  "nat \<Rightarrow> byte \<Rightarrow> byte \<Rightarrow> byte list \<Rightarrow> byte \<Rightarrow> u32 \<Rightarrow> nat \<Rightarrow> (byte list \<times> u32) option" where
  "Base92_DecodeVarint_loop bits_per_char mn mx [] ch val shift =
     (let bits = word_of_int (upb_FromBase92 ch - upb_FromBase92 mn);
          val = val OR push_bit shift bits
      in Some ([], val))"
| "Base92_DecodeVarint_loop bits_per_char mn mx (c # ptr) ch val shift =
     (let bits = word_of_int (upb_FromBase92 ch - upb_FromBase92 mn);
          val = val OR push_bit shift bits
      in if sint c < uint mn \<or> uint mx < sint c then Some (c # ptr, val)
         else let ch = c; shift = shift + bits_per_char in
           if shift \<ge> 32 then None
           else Base92_DecodeVarint_loop bits_per_char mn mx ptr ch val shift)"

definition upb_Base92_DecodeVarint ::
  "byte list \<Rightarrow> byte \<Rightarrow> byte \<Rightarrow> byte \<Rightarrow> (byte list \<times> u32) option" where
  "upb_Base92_DecodeVarint ptr first_ch mn mx =
     (let bits_per_char = upb_Log2Ceiling (upb_FromBase92 mx - upb_FromBase92 mn)
      in Base92_DecodeVarint_loop bits_per_char mn mx ptr first_ch 0 0)"

text \<open>Writing: one character if it fits.\<close>

definition upb_MtDataEncoder_PutRaw :: "nat \<Rightarrow> byte list \<Rightarrow> byte \<Rightarrow> byte list option" where
  "upb_MtDataEncoder_PutRaw cap ptr ch = (if length ptr = cap then None else Some (ptr @ [ch]))"

definition upb_MtDataEncoder_Put :: "nat \<Rightarrow> byte list \<Rightarrow> int \<Rightarrow> byte list option" where
  "upb_MtDataEncoder_Put cap ptr ch = upb_MtDataEncoder_PutRaw cap ptr (upb_ToBase92 ch)"

text \<open>
  The \<open>do\<close> loop. The test that \<open>shift\<close> is positive makes the recursion total; every caller
  has a shift of at least 4.
\<close>

function PutBase92Varint_loop :: "nat \<Rightarrow> byte list \<Rightarrow> u32 \<Rightarrow> nat \<Rightarrow> byte \<Rightarrow> byte list option" where
  "PutBase92Varint_loop cap ptr val shift mn =
     (let mask = push_bit shift 1 - 1;
          bits = val AND mask
      in case upb_MtDataEncoder_Put cap ptr (uint bits + upb_FromBase92 mn) of
           None \<Rightarrow> None
         | Some ptr \<Rightarrow>
             let val = drop_bit shift val in
             if val \<noteq> 0 \<and> 0 < shift then PutBase92Varint_loop cap ptr val shift mn else Some ptr)"
  by pat_completeness auto
termination
proof (relation "measure (\<lambda>(cap, ptr, val, shift, mn). unat val)", goal_cases)
  case (2 cap ptr val shift mn)
  then show ?case by (auto intro!: unat_drop_bit_less)
qed simp

declare PutBase92Varint_loop.simps [simp del]

definition upb_MtDataEncoder_PutBase92Varint ::
  "nat \<Rightarrow> byte list \<Rightarrow> u32 \<Rightarrow> byte \<Rightarrow> byte \<Rightarrow> byte list option" where
  "upb_MtDataEncoder_PutBase92Varint cap ptr val mn mx =
     (let shift = upb_Log2Ceiling (upb_FromBase92 mx - upb_FromBase92 mn + 1)
      in PutBase92Varint_loop cap ptr val shift mn)"

section \<open>Writing and reading agree\<close>

text \<open>The characters of a varint, least significant digit first.\<close>

function b92_digits :: "nat \<Rightarrow> byte \<Rightarrow> u32 \<Rightarrow> byte list" where
  "b92_digits sh mn v =
     upb_ToBase92 (uint (take_bit sh v) + upb_FromBase92 mn) #
       (if drop_bit sh v \<noteq> 0 \<and> 0 < sh then b92_digits sh mn (drop_bit sh v) else [])"
  by pat_completeness auto
termination
proof (relation "measure (\<lambda>(sh, mn, v). unat v)", goal_cases)
  case (2 sh mn v)
  then show ?case by (auto intro!: unat_drop_bit_less)
qed simp

declare b92_digits.simps [simp del]

lemma b92_digits_nonempty: "b92_digits sh mn v \<noteq> []"
  by (subst b92_digits.simps) simp

lemma b92_digits_length:
  assumes "0 < sh" and "unat v < 2 ^ (sh * n)" and "0 < n"
  shows "length (b92_digits sh mn v) \<le> n"
  using assms(2,3)
proof (induction n arbitrary: v)
  case (Suc n)
  show ?case
  proof (cases "drop_bit sh v = 0")
    case True
    then show ?thesis by (subst b92_digits.simps) simp
  next
    case False
    have "unat v < 2 ^ (sh * n) * 2 ^ sh"
      using Suc.prems by (simp add: power_add [symmetric] add.commute)
    then have lt: "unat (drop_bit sh v) < 2 ^ (sh * n)"
      by (simp add: unat_drop_bit less_mult_imp_div_less)
    have "unat (drop_bit sh v) \<noteq> 0" using False by (simp add: unat_eq_zero)
    then have "0 < n" using lt by (cases n) auto
    with Suc.IH [OF lt] False show ?thesis by (subst b92_digits.simps) simp
  qed
qed simp

lemma PutBase92Varint_loop_eq:
  "length ptr \<le> cap \<Longrightarrow> PutBase92Varint_loop cap ptr v sh mn =
     (if length ptr + length (b92_digits sh mn v) \<le> cap then Some (ptr @ b92_digits sh mn v) else None)"
proof (induction cap ptr v sh mn rule: PutBase92Varint_loop.induct)
  case (1 cap ptr v sh mn)
  have mask: "v AND (2 ^ sh - 1) = take_bit sh v"
    by (simp add: take_bit_eq_mask mask_eq_exp_minus_1)
  have put: "upb_MtDataEncoder_Put cap ptr ch =
      (if length ptr = cap then None else Some (ptr @ [upb_ToBase92 ch]))" for ch
    by (simp add: upb_MtDataEncoder_Put_def upb_MtDataEncoder_PutRaw_def)
  show ?case
  proof (cases "length ptr = cap")
    case True
    then show ?thesis
      using b92_digits_nonempty [of sh mn v]
      by (subst PutBase92Varint_loop.simps) (simp add: put Let_def)
  next
    case False
    with 1 have "length ptr < cap" by simp
    note IH = 1(1) [OF refl refl, of "ptr @ [upb_ToBase92 (uint (take_bit sh v) + upb_FromBase92 mn)]"
        "drop_bit sh v"]
    show ?thesis
      using IH False \<open>length ptr < cap\<close>
      by (subst PutBase92Varint_loop.simps, subst (1 2) b92_digits.simps)
        (auto simp: put mask Let_def)
  qed
qed

text \<open>
  A range of characters: the writer and the reader use the same number of bits, and every digit
  of that many bits is a character of the range that reads back as the digit.
\<close>

locale base92_range =
  fixes mn mx :: byte and sh :: nat
  assumes sh: "0 < sh"
    and write_bits: "upb_Log2Ceiling (upb_FromBase92 mx - upb_FromBase92 mn + 1) = sh"
    and read_bits: "upb_Log2Ceiling (upb_FromBase92 mx - upb_FromBase92 mn) = sh"
    and digit: "0 \<le> d \<Longrightarrow> d < 2 ^ sh \<Longrightarrow>
      (let c = upb_ToBase92 (d + upb_FromBase92 mn) in
        uint mn \<le> sint c \<and> sint c \<le> uint mx \<and> upb_FromBase92 c = d + upb_FromBase92 mn)"
begin

abbreviation "digits \<equiv> b92_digits sh mn"

definition ends_varint :: "byte list \<Rightarrow> bool" where
  "ends_varint rest \<longleftrightarrow> rest = [] \<or> sint (hd rest) < uint mn \<or> uint mx < sint (hd rest)"

lemma low_digit: "0 \<le> uint (take_bit sh (v :: u32))" "uint (take_bit sh v) < 2 ^ sh"
  by (simp_all add: unsigned_take_bit_eq)

lemma hd_digits:
  "upb_FromBase92 (hd (digits v)) - upb_FromBase92 mn = uint (take_bit sh v)"
  "uint mn \<le> sint (hd (digits v))" "sint (hd (digits v)) \<le> uint mx"
  using digit [OF low_digit [of v]] by (simp_all add: b92_digits.simps [of sh mn v] Let_def)

lemma read_loop:
  assumes "unat v * 2 ^ s < 2 ^ 32" and "s < 32" and "ends_varint rest"
  shows "Base92_DecodeVarint_loop sh mn mx (tl (digits v) @ rest) (hd (digits v)) acc s =
    Some (rest, acc OR push_bit s v)"
  using assms
proof (induction "unat v" arbitrary: v s acc rule: less_induct)
  case less
  have hd: "word_of_int (upb_FromBase92 (hd (digits v)) - upb_FromBase92 mn) = take_bit sh v"
    by (simp add: hd_digits(1))
  show ?case
  proof (cases "drop_bit sh v = 0")
    case True
    then have v: "take_bit sh v = v" using bits_ident [of sh v] by simp
    from True have tl: "tl (digits v) = []" by (simp add: b92_digits.simps [of sh mn v])
    show ?thesis
    proof (cases rest)
      case Nil
      with hd v tl show ?thesis by (simp add: Let_def)
    next
      case (Cons c cs)
      with less.prems(3) hd v tl show ?thesis by (simp add: Let_def ends_varint_def)
    qed
  next
    case False
    define w where "w = drop_bit sh v"
    have tl: "tl (digits v) = digits w" using False sh by (simp add: b92_digits.simps [of sh mn v] w_def)
    obtain c cs where c: "digits w = c # cs" using b92_digits_nonempty by (cases "digits w") auto
    have w: "unat w < unat v" using False sh by (auto simp: w_def intro!: unat_drop_bit_less)
    have "unat w * 2 ^ sh \<le> unat v" by (simp add: w_def unat_drop_bit)
    then have "unat w * 2 ^ sh * 2 ^ s \<le> unat v * 2 ^ s" by (rule mult_le_mono1)
    then have lt: "unat w * 2 ^ (s + sh) < 2 ^ 32"
      using less.prems(1) by (simp only: power_add mult.assoc mult.commute [of "2 ^ s"])
    have "0 < unat w" using False by (simp add: w_def unat_gt_0)
    then have "(2 :: nat) ^ (s + sh) \<le> unat w * 2 ^ (s + sh)" by simp
    with lt have "(2 :: nat) ^ (s + sh) < 2 ^ 32" by linarith
    then have s: "s + sh < 32" by (simp only: power_strict_increasing_iff one_less_numeral_iff semiring_norm)
    have range: "\<not> (sint c < uint mn \<or> uint mx < sint c)" using hd_digits(2,3) [of w] c by simp
    have bits: "(acc OR push_bit s (take_bit sh v)) OR push_bit (s + sh) w = acc OR push_bit s v"
    proof (rule bit_eqI)
      fix n :: nat
      have "n - s < sh \<or> sh + (n - (s + sh)) = n - s" by linarith
      then show "bit ((acc OR push_bit s (take_bit sh v)) OR push_bit (s + sh) w) n \<longleftrightarrow>
          bit (acc OR push_bit s v) n"
        unfolding w_def
        by (auto simp: bit_or_iff bit_push_bit_iff bit_take_bit_iff bit_drop_bit_eq comp_def
            dest: bit_imp_le_length)
    qed
    have "Base92_DecodeVarint_loop sh mn mx (cs @ rest) c (acc OR push_bit s (take_bit sh v)) (s + sh) =
        Some (rest, (acc OR push_bit s (take_bit sh v)) OR push_bit (s + sh) w)"
      using less.hyps [OF w lt s less.prems(3)] c by simp
    then show ?thesis using hd s range by (simp add: tl c Let_def bits)
  qed
qed

lemma read_written:
  assumes "ends_varint rest"
  shows "upb_Base92_DecodeVarint (tl (digits v) @ rest) (hd (digits v)) mn mx = Some (rest, v)"
  using read_loop [of v 0 rest 0] assms unsigned_less [where ?'a = nat and w = v]
  by (simp add: upb_Base92_DecodeVarint_def read_bits)

lemma written:
  "length ptr \<le> cap \<Longrightarrow> upb_MtDataEncoder_PutBase92Varint cap ptr v mn mx =
     (if length ptr + length (digits v) \<le> cap then Some (ptr @ digits v) else None)"
  by (simp add: upb_MtDataEncoder_PutBase92Varint_def write_bits PutBase92Varint_loop_eq)

end

text \<open>The three ranges of the format: skips, modifiers and oneof field numbers.\<close>

lemma base92_digit_check:
  assumes "list_all (\<lambda>d. let c = upb_ToBase92 (d + upb_FromBase92 mn) in
        uint mn \<le> sint c \<and> sint c \<le> uint mx \<and> upb_FromBase92 c = d + upb_FromBase92 mn) [0..2 ^ sh - 1]"
    and "0 \<le> d" and "d < 2 ^ sh"
  shows "let c = upb_ToBase92 (d + upb_FromBase92 mn) in
    uint mn \<le> sint c \<and> sint c \<le> uint mx \<and> upb_FromBase92 c = d + upb_FromBase92 mn"
  using assms by (auto simp: list_all_iff)

interpretation skip_range: base92_range 95 126 5
proof unfold_locales
  show "upb_Log2Ceiling (upb_FromBase92 126 - upb_FromBase92 95 + 1) = 5"
    "upb_Log2Ceiling (upb_FromBase92 126 - upb_FromBase92 95) = 5" by code_simp+
qed (simp, rule base92_digit_check [where sh = 5], code_simp, simp_all)

interpretation modifier_range: base92_range 76 91 4
proof unfold_locales
  show "upb_Log2Ceiling (upb_FromBase92 91 - upb_FromBase92 76 + 1) = 4"
    "upb_Log2Ceiling (upb_FromBase92 91 - upb_FromBase92 76) = 4" by code_simp+
qed (simp, rule base92_digit_check [where sh = 4], code_simp, simp_all)

interpretation oneof_range: base92_range 32 98 6
proof unfold_locales
  show "upb_Log2Ceiling (upb_FromBase92 98 - upb_FromBase92 32 + 1) = 6"
    "upb_Log2Ceiling (upb_FromBase92 98 - upb_FromBase92 32) = 6" by code_simp+
qed (simp, rule base92_digit_check [where sh = 6], code_simp, simp_all)

section \<open>Properties\<close>

text \<open>Round trip of the base-92 varints. In each of the three ranges the descriptor format uses, what
  \<open>PutBase92Varint\<close> appends for a number, when the buffer has room, is read back by \<open>DecodeVarint\<close> as
  that number with the rest of the input untouched, whatever does not start inside the range follows.\<close>

theorem base92_roundtrip:
  assumes "(mn, mx) \<in> {(95, 126), (76, 91), (32, 98)}"
    and "rest = [] \<or> sint (hd rest) < uint mn \<or> uint mx < sint (hd rest)"
    and "upb_MtDataEncoder_PutBase92Varint cap [] v mn mx = Some (c # cs)"
  shows "upb_Base92_DecodeVarint (cs @ rest) c mn mx = Some (rest, v)"
proof -
  consider "mn = 95" "mx = 126" | "mn = 76" "mx = 91" | "mn = 32" "mx = 98" using assms(1) by auto
  then show ?thesis
  proof cases
    case 1
    then show ?thesis using skip_range.read_written [of rest v] skip_range.written [of "[]" cap v] assms(2,3)
      by (auto simp: skip_range.ends_varint_def split: if_splits)
  next
    case 2
    then show ?thesis using modifier_range.read_written [of rest v] modifier_range.written [of "[]" cap v] assms(2,3)
      by (auto simp: modifier_range.ends_varint_def split: if_splits)
  next
    case 3
    then show ?thesis using oneof_range.read_written [of rest v] oneof_range.written [of "[]" cap v] assms(2,3)
      by (auto simp: oneof_range.ends_varint_def split: if_splits)
  qed
qed

theorem base92_roundtrip_witness:
  "upb_MtDataEncoder_PutBase92Varint 16 [] 100 95 126 = Some [99, 98] \<and>
   upb_Base92_DecodeVarint [98, 33] 99 95 126 = Some ([33], 100)"
proof -
  have w: "upb_MtDataEncoder_PutBase92Varint 16 [] 100 95 126 = Some [99, 98]" by code_simp
  have s: "sint (33 :: byte) = 33" by code_simp
  from base92_roundtrip [OF _ _ w, of "[33]"] w s show ?thesis by simp
qed

end
