(* ===== verification/Arena.thy ===== *)
theory Arena
  imports Upb_Prelude
begin

text \<open>
  The interface of \<open>upb/mem/arena.h\<close> that the other components call: requests for memory, which the
  allocator may refuse.
\<close>

text \<open>
  The allocator is an argument: what it answers to its \<open>k\<close>-th request, an address or NULL for a
  block of \<open>n\<close> bytes, and whether it extends the block at an address from one size to another.
\<close>

record upb_Arena =
  arena_malloc :: "nat \<Rightarrow> nat \<Rightarrow> int option"
  arena_extend :: "nat \<Rightarrow> int \<Rightarrow> int \<Rightarrow> int \<Rightarrow> bool"
  arena_requests :: nat

definition upb_Arena_Malloc :: "upb_Arena \<Rightarrow> nat \<Rightarrow> int option \<times> upb_Arena" where
  "upb_Arena_Malloc a n = (arena_malloc a (arena_requests a) n, a\<lparr>arena_requests := arena_requests a + 1\<rparr>)"

definition upb_Arena_TryExtend :: "upb_Arena \<Rightarrow> int \<Rightarrow> int \<Rightarrow> int \<Rightarrow> bool \<times> upb_Arena" where
  "upb_Arena_TryExtend a p old_size new_size =
     (arena_extend a (arena_requests a) p old_size new_size, a\<lparr>arena_requests := arena_requests a + 1\<rparr>)"

definition arena_refuses :: "upb_Arena \<Rightarrow> bool" where
  "arena_refuses a \<longleftrightarrow> (\<exists>k n. arena_malloc a k n = None)"

lemma arena_refuses_requests [simp]: "arena_refuses (a\<lparr>arena_requests := k\<rparr>) \<longleftrightarrow> arena_refuses a"
  by (simp add: arena_refuses_def)

lemma arena_refuses_Malloc: "upb_Arena_Malloc a n = (None, a') \<Longrightarrow> arena_refuses a"
  by (auto simp: upb_Arena_Malloc_def arena_refuses_def)

lemma arena_Malloc_same: "upb_Arena_Malloc a n = (r, a') \<Longrightarrow> arena_refuses a' \<longleftrightarrow> arena_refuses a"
  by (auto simp: upb_Arena_Malloc_def)

lemma arena_TryExtend_same: "upb_Arena_TryExtend a p m n = (r, a') \<Longrightarrow> arena_refuses a' \<longleftrightarrow> arena_refuses a"
  by (auto simp: upb_Arena_TryExtend_def)

text \<open>An allocator that grants every request.\<close>

definition arena_unlimited :: upb_Arena where
  "arena_unlimited = \<lparr>arena_malloc = \<lambda>k n. Some 4096, arena_extend = \<lambda>k p old new. False, arena_requests = 0\<rparr>"

lemma arena_unlimited_grants [simp]: "\<not> arena_refuses arena_unlimited"
  by (simp add: arena_refuses_def arena_unlimited_def)

end
