(* ===== verification/Message_Store.thy ===== *)
theory Message_Store
  imports Message_Model Base92 Arena "HOL-Library.AList"
begin

text \<open>
  The operations that change a message: \<open>upb/message/internal/message.{h,c}\<close>, \<open>message.c\<close>,
  \<open>internal/extension.c\<close> and the presence setters of \<open>internal/accessors.h\<close>. The list of
  unknown fields and extensions refines a byte string (the unknown fields one after the other)
  and a list of extensions.
\<close>

section \<open>Unknown fields\<close>

definition sizeof_upb_StringView :: nat where
  "sizeof_upb_StringView = 16"

definition upb_Message_SizeOfInternal :: "nat \<Rightarrow> nat" where
  "upb_Message_SizeOfInternal count = 8 + 8 * count"

text \<open>\<open>None\<close> is false. \<open>upb_Arena_Realloc\<close> is a request for the new size.\<close>

definition upb_Message_ReserveSlot ::
  "'x upb_Message_Internal option \<Rightarrow> upb_Arena \<Rightarrow> ('x upb_Message_Internal \<times> upb_Arena) option" where
  "upb_Message_ReserveSlot msg a =
     (case msg of
        None \<Rightarrow>
          (case upb_Arena_Malloc a (upb_Message_SizeOfInternal 4) of
             (None, _) \<Rightarrow> None
           | (Some _, a) \<Rightarrow> Some (\<lparr>in_capacity = 4, in_aux = []\<rparr>, a))
      | Some i \<Rightarrow>
          if in_capacity i = length (in_aux i) then
            let new_capacity = nat (upb_RoundUpToPowerOfTwo (int (length (in_aux i)) + 1)) in
            case upb_Arena_Malloc a (upb_Message_SizeOfInternal new_capacity) of
              (None, _) \<Rightarrow> None
            | (Some _, a) \<Rightarrow> Some (i\<lparr>in_capacity := new_capacity\<rparr>, a)
          else Some (i, a))"

text \<open>The \<open>existing\<close> data at the end of the list, if there is one: the last entry is unknown data.\<close>

definition last_unknown :: "'x upb_Message_Internal option \<Rightarrow> 'x aux_ptr option" where
  "last_unknown msg =
     (case msg of None \<Rightarrow> None
      | Some i \<Rightarrow>
          if in_aux i = [] then None
          else if upb_TaggedAuxPtr_IsUnknown (last (in_aux i)) then Some (last (in_aux i)) else None)"

text \<open>\<open>existing->size += len\<close>, where the new bytes follow the existing ones in memory.\<close>

definition grow_last :: "'x upb_Message_Internal option \<Rightarrow> byte list \<Rightarrow> 'x upb_Message_Internal" where
  "grow_last msg bytes =
     (the msg)\<lparr>in_aux := butlast (in_aux (the msg)) @
       [case last (in_aux (the msg)) of
          AuxUnknown al view data bs \<Rightarrow> AuxUnknown al view data (bs @ bytes)
        | p \<Rightarrow> p]\<rparr>"

definition push_aux :: "'x upb_Message_Internal \<Rightarrow> 'x aux_ptr \<Rightarrow> 'x upb_Message_Internal" where
  "push_aux i p = i\<lparr>in_aux := in_aux i @ [p]\<rparr>"

text \<open>
  The attempt, in the slow path and in \<open>AddUnknownV\<close>, to extend the block of the last entry: it
  applies to data that is not aliased, whose view and bytes are one block that ends where the
  bytes end.
\<close>

definition try_extend_last ::
  "'x upb_Message_Internal option \<Rightarrow> upb_Arena \<Rightarrow> byte list \<Rightarrow> bool \<times> upb_Arena" where
  "try_extend_last msg a bytes =
     (case last_unknown msg of
        Some (AuxUnknown al view data bs) \<Rightarrow>
          if \<not> al then
            let prev_alloc_size = data + int (length bs) - view in
            if 2 ^ 64 - 1 - prev_alloc_size \<ge> int (length bytes) then
              upb_Arena_TryExtend a view prev_alloc_size (prev_alloc_size + int (length bytes))
            else (False, a)
          else (False, a)
      | _ \<Rightarrow> (False, a))"

definition upb_Message_AddUnknownSlowPath ::
  "'x upb_Message_Internal option \<Rightarrow> int \<Rightarrow> byte list \<Rightarrow> upb_Arena \<Rightarrow> bool \<Rightarrow>
     ('x upb_Message_Internal \<times> upb_Arena) option" where
  "upb_Message_AddUnknownSlowPath msg data bytes a alias =
     (case (if \<not> alias then try_extend_last msg a bytes else (False, a)) of
        (True, a) \<Rightarrow> Some (grow_last msg bytes, a)
      | (False, a) \<Rightarrow>
          (case upb_Message_ReserveSlot msg a of
             None \<Rightarrow> None
           | Some (i, a) \<Rightarrow>
               if alias then
                 (case upb_Arena_Malloc a sizeof_upb_StringView of
                    (None, _) \<Rightarrow> None
                  | (Some view, a) \<Rightarrow> Some (push_aux i (AuxUnknown True view data bytes), a))
               else
                 (case upb_Arena_Malloc a (sizeof_upb_StringView + length bytes) of
                    (None, _) \<Rightarrow> None
                  | (Some view, a) \<Rightarrow>
                      Some (push_aux i (AuxUnknown False view (view + int sizeof_upb_StringView) bytes), a))))"

text \<open>\<open>AddUnknown\<close>: \<open>bytes\<close> are the bytes at \<open>data\<close>; \<open>alias_base\<close> is \<open>None\<close> for NULL.\<close>

definition upb_Message_AddUnknown ::
  "'x upb_Message_Internal option \<Rightarrow> int \<Rightarrow> byte list \<Rightarrow> upb_Arena \<Rightarrow> int option \<Rightarrow>
     ('x upb_Message_Internal \<times> upb_Arena) option" where
  "upb_Message_AddUnknown msg data bytes a alias_base =
     (case alias_base of
        Some base \<Rightarrow>
          (case last_unknown msg of
             Some (AuxUnknown al view edata bs) \<Rightarrow>
               if data \<noteq> base \<and> edata + int (length bs) = data then Some (grow_last msg bytes, a)
               else upb_Message_AddUnknownSlowPath msg data bytes a True
           | _ \<Rightarrow> upb_Message_AddUnknownSlowPath msg data bytes a True)
      | None \<Rightarrow> upb_Message_AddUnknownSlowPath msg data bytes a False)"

text \<open>\<open>AddUnknownV\<close> adds the bytes of several views as one entry.\<close>

fun add_sizes :: "int \<Rightarrow> byte list list \<Rightarrow> int option" where
  "add_sizes t [] = Some t"
| "add_sizes t (d # ds) =
     (if 2 ^ 64 - 1 - t < int (length d) then None else add_sizes (t + int (length d)) ds)"

definition upb_Message_AddUnknownV ::
  "'x upb_Message_Internal option \<Rightarrow> upb_Arena \<Rightarrow> byte list list \<Rightarrow>
     ('x upb_Message_Internal \<times> upb_Arena) option" where
  "upb_Message_AddUnknownV msg a data =
     (case add_sizes 0 data of
        None \<Rightarrow> None
      | Some total_len \<Rightarrow>
          (case try_extend_last msg a (concat data) of
             (True, a) \<Rightarrow> Some (grow_last msg (concat data), a)
           | (False, a) \<Rightarrow>
               if 2 ^ 64 - 1 - int sizeof_upb_StringView < total_len then None
               else
                 (case upb_Message_ReserveSlot msg a of
                    None \<Rightarrow> None
                  | Some (i, a) \<Rightarrow>
                      (case upb_Arena_Malloc a (sizeof_upb_StringView + nat total_len) of
                         (None, _) \<Rightarrow> None
                       | (Some view, a) \<Rightarrow>
                           Some (push_aux i (AuxUnknown False view (view + int sizeof_upb_StringView)
                                   (concat data)), a)))))"

definition upb_Message_DiscardUnknown_shallow ::
  "'x upb_Message_Internal option \<Rightarrow> 'x upb_Message_Internal option" where
  "upb_Message_DiscardUnknown_shallow msg =
     map_option (\<lambda>i. i\<lparr>in_aux := filter upb_TaggedAuxPtr_IsExtension (in_aux i)\<rparr>) msg"

datatype upb_Message_DeleteUnknownStatus =
  kUpb_DeleteUnknown_DeletedLast | kUpb_DeleteUnknown_IterUpdated | kUpb_DeleteUnknown_AllocFail

text \<open>
  \<open>DeleteUnknown\<close> at the entry before \<open>iter\<close>: \<open>data\<close> and \<open>sz\<close> are the view to delete. It gives
  the status, the message, the arena, the view now at the iterator, and the iterator.
\<close>

definition delete_unknown_next ::
  "'x upb_Message_Internal \<Rightarrow> upb_Arena \<Rightarrow> nat \<Rightarrow>
     upb_Message_DeleteUnknownStatus \<times> 'x upb_Message_Internal \<times> upb_Arena \<times> 'x aux_ptr option \<times> nat" where
  "delete_unknown_next i a iter =
     (case upb_Message_NextUnknown (Some i) iter of
        (Some p, iter) \<Rightarrow> (kUpb_DeleteUnknown_IterUpdated, i, a, Some p, iter)
      | (None, iter) \<Rightarrow> (kUpb_DeleteUnknown_DeletedLast, i, a, None, iter))"

definition upb_Message_DeleteUnknown ::
  "'x upb_Message_Internal \<Rightarrow> int \<Rightarrow> nat \<Rightarrow> nat \<Rightarrow> upb_Arena \<Rightarrow>
     upb_Message_DeleteUnknownStatus \<times> 'x upb_Message_Internal \<times> upb_Arena \<times> 'x aux_ptr option \<times> nat" where
  "upb_Message_DeleteUnknown i data sz iter a =
     (case in_aux i ! (iter - 1) of
        AuxUnknown al view udata bs \<Rightarrow>
          if udata = data \<and> length bs = sz then
            delete_unknown_next (i\<lparr>in_aux := (in_aux i)[iter - 1 := AuxNull]\<rparr>) a iter
          else if udata = data then
            let p = AuxUnknown al view (udata + int sz) (drop sz bs) in
            (kUpb_DeleteUnknown_IterUpdated, i\<lparr>in_aux := (in_aux i)[iter - 1 := p]\<rparr>, a, Some p, iter)
          else if udata + int (length bs) = data + int sz then
            delete_unknown_next
              (i\<lparr>in_aux := (in_aux i)[iter - 1 := AuxUnknown True view udata (take (length bs - sz) bs)]\<rparr>) a iter
          else
            (case upb_Arena_Malloc a sizeof_upb_StringView of
               (None, a) \<Rightarrow> (kUpb_DeleteUnknown_AllocFail, i, a, None, iter)
             | (Some sview, a) \<Rightarrow>
                 (case upb_Message_ReserveSlot (Some i) a of
                    None \<Rightarrow> (kUpb_DeleteUnknown_AllocFail, i, a, None, iter)
                  | Some (i, a) \<Rightarrow>
                      let k = nat (data - udata);
                          suffix = AuxUnknown True sview (data + int sz) (drop (k + sz) bs);
                          prefix = AuxUnknown True view udata (take k bs)
                      in delete_unknown_next
                           (i\<lparr>in_aux := take (iter - 1) (in_aux i) @ prefix # suffix # drop iter (in_aux i)\<rparr>) a iter))
      | _ \<Rightarrow> (kUpb_DeleteUnknown_AllocFail, i, a, None, iter))"

section \<open>Extensions\<close>

definition sizeof_upb_Extension :: nat where
  "sizeof_upb_Extension = 24"

text \<open>Extension tables are compared by address in C; the model compares the tables.\<close>

fun Getext_loop :: "upb_Extension aux_ptr list \<Rightarrow> upb_MiniTableExtension \<Rightarrow> upb_Extension option" where
  "Getext_loop [] e = None"
| "Getext_loop (p # ps) e =
     (case p of
        AuxExtension ext \<Rightarrow> if ext_ext ext = e then Some ext else Getext_loop ps e
      | _ \<Rightarrow> Getext_loop ps e)"

definition upb_Message_Getext ::
  "upb_Extension upb_Message_Internal option \<Rightarrow> upb_MiniTableExtension \<Rightarrow> upb_Extension option" where
  "upb_Message_Getext msg e = (case msg of None \<Rightarrow> None | Some i \<Rightarrow> Getext_loop (in_aux i) e)"

text \<open>The extension found or created, and the message it is now in.\<close>

definition upb_Message_GetOrCreateExtension ::
  "upb_Extension upb_Message_Internal option \<Rightarrow> upb_MiniTableExtension \<Rightarrow> upb_Arena \<Rightarrow>
     (upb_Extension \<times> upb_Extension upb_Message_Internal \<times> upb_Arena) option" where
  "upb_Message_GetOrCreateExtension msg e a =
     (case upb_Message_Getext msg e of
        Some ext \<Rightarrow> Some (ext, the msg, a)
      | None \<Rightarrow>
          (case upb_Message_ReserveSlot msg a of
             None \<Rightarrow> None
           | Some (i, a) \<Rightarrow>
               (case upb_Arena_Malloc a sizeof_upb_Extension of
                  (None, _) \<Rightarrow> None
                | (Some _, a) \<Rightarrow> Some (Extension e CZero, push_aux i (AuxExtension (Extension e CZero)), a))))"

text \<open>\<open>upb_Message_ExtensionCount\<close>: its loop over \<open>NextExtension\<close>.\<close>

function count_extensions :: "upb_Extension aux_ptr list \<Rightarrow> nat \<Rightarrow> nat \<Rightarrow> nat" where
  "count_extensions aux i count =
     (case next_extension aux i of
        (None, _) \<Rightarrow> count
      | (Some e, j) \<Rightarrow> count_extensions aux j (count + 1))"
  by pat_completeness auto
termination
proof (relation "measure (\<lambda>(aux, i, c). length aux - i)", goal_cases)
  case (2 aux i c r j e)
  from next_extension_Some [OF 2(1) [symmetric, unfolded 2(2)]] show ?case by auto
qed simp

declare count_extensions.simps [simp del]

definition upb_Message_ExtensionCount :: "upb_Message \<Rightarrow> nat" where
  "upb_Message_ExtensionCount msg = (case msg_aux msg of None \<Rightarrow> 0 | Some aux \<Rightarrow> count_extensions aux 0 0)"

section \<open>Presence\<close>

definition set_hasbits :: "upb_Message \<Rightarrow> nat \<Rightarrow> byte \<Rightarrow> upb_Message" where
  "set_hasbits msg off b =
     Message (msg_cells msg) ((msg_hasbits msg)(off := b)) (msg_cases msg) (msg_aux msg) (msg_aux_capacity msg)"

definition set_case :: "upb_Message \<Rightarrow> nat \<Rightarrow> u32 \<Rightarrow> upb_Message" where
  "set_case msg off n =
     Message (msg_cells msg) (msg_hasbits msg) ((msg_cases msg)(off := n)) (msg_aux msg) (msg_aux_capacity msg)"

definition set_cell :: "upb_Message \<Rightarrow> nat \<Rightarrow> cell \<Rightarrow> upb_Message" where
  "set_cell msg off c =
     Message (AList.update off c (msg_cells msg)) (msg_hasbits msg) (msg_cases msg) (msg_aux msg)
       (msg_aux_capacity msg)"

text \<open>\<open>_upb_Message_GetInternal\<close> and \<open>_upb_Message_SetInternal\<close>.\<close>

definition upb_Message_GetInternal :: "upb_Message \<Rightarrow> upb_Extension upb_Message_Internal option" where
  "upb_Message_GetInternal msg =
     map_option (\<lambda>aux. \<lparr>in_capacity = msg_aux_capacity msg, in_aux = aux\<rparr>) (msg_aux msg)"

definition upb_Message_SetInternal :: "upb_Message \<Rightarrow> upb_Extension upb_Message_Internal \<Rightarrow> upb_Message" where
  "upb_Message_SetInternal msg i =
     Message (msg_cells msg) (msg_hasbits msg) (msg_cases msg) (Some (in_aux i)) (in_capacity i)"

definition upb_Message_SetHasbit :: "upb_Message \<Rightarrow> upb_MiniTableField \<Rightarrow> upb_Message" where
  "upb_Message_SetHasbit msg f =
     (let off = upb_MiniTableField_HasbitOffset f
      in set_hasbits msg off (msg_hasbits msg off OR upb_MiniTableField_HasbitMask f))"

definition upb_Message_ClearHasbit :: "upb_Message \<Rightarrow> upb_MiniTableField \<Rightarrow> upb_Message" where
  "upb_Message_ClearHasbit msg f =
     (let off = upb_MiniTableField_HasbitOffset f
      in set_hasbits msg off (msg_hasbits msg off AND NOT (upb_MiniTableField_HasbitMask f)))"

definition upb_Message_SetOneofCase :: "upb_Message \<Rightarrow> upb_MiniTableField \<Rightarrow> upb_Message" where
  "upb_Message_SetOneofCase msg f = set_case msg (upb_MiniTableField_OneofOffset f) (mtf_number f)"

definition upb_Message_ClearOneofCase :: "upb_Message \<Rightarrow> upb_MiniTableField \<Rightarrow> bool \<times> upb_Message" where
  "upb_Message_ClearOneofCase msg f =
     (let off = upb_MiniTableField_OneofOffset f in
      if msg_cases msg off \<noteq> mtf_number f then (False, msg) else (True, set_case msg off 0))"

lemma set_cell_cells [simp]:
  "msg_cell (set_cell msg off c) off' = (if off' = off then c else msg_cell msg off')"
  by (simp add: set_cell_def msg_cell_def update_conv')

section \<open>The list as a byte string and a list of extensions\<close>

definition content :: "'x upb_Message_Internal option \<Rightarrow> byte list" where
  "content msg = (case msg of None \<Rightarrow> [] | Some i \<Rightarrow> concat (unknown_bytes (in_aux i)))"

definition extensions :: "'x upb_Message_Internal option \<Rightarrow> 'x aux_ptr list" where
  "extensions msg = (case msg of None \<Rightarrow> [] | Some i \<Rightarrow> filter upb_TaggedAuxPtr_IsExtension (in_aux i))"

definition aux_inv :: "'x upb_Message_Internal option \<Rightarrow> bool" where
  "aux_inv msg \<longleftrightarrow> (case msg of None \<Rightarrow> True | Some i \<Rightarrow> length (in_aux i) \<le> in_capacity i)"

lemma tags_simps [simp]:
  "upb_TaggedAuxPtr_IsUnknown (AuxUnknown al v d bs)" "\<not> upb_TaggedAuxPtr_IsUnknown (AuxExtension x)"
  "\<not> upb_TaggedAuxPtr_IsUnknown AuxNull" "\<not> upb_TaggedAuxPtr_IsExtension (AuxUnknown al v d bs)"
  "upb_TaggedAuxPtr_IsExtension (AuxExtension x)" "\<not> upb_TaggedAuxPtr_IsExtension AuxNull"
  by (simp_all add: upb_TaggedAuxPtr_IsUnknown_def upb_TaggedAuxPtr_IsExtension_def)

lemma unknown_bytes_simps [simp]:
  "unknown_bytes [] = []" "unknown_bytes (AuxUnknown al v d bs # ps) = bs # unknown_bytes ps"
  "unknown_bytes (AuxExtension x # ps) = unknown_bytes ps" "unknown_bytes (AuxNull # ps) = unknown_bytes ps"
  "unknown_bytes (ps @ qs) = unknown_bytes ps @ unknown_bytes qs"
  by (simp_all add: unknown_bytes_def)

lemma RoundUpToPowerOfTwo_ge: "x \<le> upb_RoundUpToPowerOfTwo x"
proof (cases "1 < x")
  case True
  then show ?thesis using upb_Log2Ceiling_bounds(1) [OF True] by (simp add: upb_RoundUpToPowerOfTwo_def)
next
  case False
  then show ?thesis by (simp add: upb_RoundUpToPowerOfTwo_def upb_Log2Ceiling_def)
qed

text \<open>A slot is free after \<open>ReserveSlot\<close>, and the list is the same.\<close>

lemma ReserveSlot_ok:
  assumes "aux_inv msg"
  shows "case upb_Message_ReserveSlot msg a of
      None \<Rightarrow> arena_refuses a
    | Some (i, a') \<Rightarrow> in_aux i = (case msg of None \<Rightarrow> [] | Some j \<Rightarrow> in_aux j) \<and>
        length (in_aux i) < in_capacity i \<and> (arena_refuses a' \<longleftrightarrow> arena_refuses a)"
proof (cases msg)
  case None
  then show ?thesis
    by (auto simp: upb_Message_ReserveSlot_def dest: arena_refuses_Malloc arena_Malloc_same
        split: option.splits prod.splits)
next
  case (Some i)
  have "length (in_aux i) < nat (upb_RoundUpToPowerOfTwo (int (length (in_aux i)) + 1))"
    using RoundUpToPowerOfTwo_ge [of "int (length (in_aux i)) + 1"] by linarith
  with Some assms show ?thesis
    by (auto simp: upb_Message_ReserveSlot_def aux_inv_def Let_def dest: arena_refuses_Malloc arena_Malloc_same
        split: option.splits prod.splits)
qed

text \<open>What adding the bytes \<open>bs\<close> to the unknown fields has to do.\<close>

definition added :: "'x upb_Message_Internal option \<Rightarrow> upb_Arena \<Rightarrow> byte list \<Rightarrow>
    'x upb_Message_Internal \<Rightarrow> upb_Arena \<Rightarrow> bool" where
  "added msg a bs i a' \<longleftrightarrow> content (Some i) = content msg @ bs \<and> extensions (Some i) = extensions msg \<and>
     aux_inv (Some i) \<and> (arena_refuses a' \<longleftrightarrow> arena_refuses a)"

lemma last_unknown_Some:
  assumes "last_unknown msg = Some p"
  obtains i ps al view data bs where "msg = Some i" "in_aux i = ps @ [p]" "p = AuxUnknown al view data bs"
proof -
  from assms obtain i where i: "msg = Some i" "in_aux i \<noteq> []" "p = last (in_aux i)"
    "upb_TaggedAuxPtr_IsUnknown p"
    by (auto simp: last_unknown_def split: option.splits if_splits)
  then have "in_aux i = butlast (in_aux i) @ [p]" by simp
  moreover from i(4) obtain al view data bs where "p = AuxUnknown al view data bs"
    by (cases p) simp_all
  ultimately show thesis using that i(1) by blast
qed

lemma grow_last_added:
  assumes "aux_inv msg" and "last_unknown msg \<noteq> None" and "arena_refuses a' \<longleftrightarrow> arena_refuses a"
  shows "added msg a bytes (grow_last msg bytes) a'"
proof -
  from assms(2) obtain p where "last_unknown msg = Some p" by blast
  then obtain i ps al view data bs where "msg = Some i" "in_aux i = ps @ [AuxUnknown al view data bs]"
    by (metis last_unknown_Some)
  with assms show ?thesis
    by (simp add: added_def grow_last_def content_def extensions_def aux_inv_def)
qed

lemma push_added:
  assumes "in_aux i = (case msg of None \<Rightarrow> [] | Some j \<Rightarrow> in_aux j)" "length (in_aux i) < in_capacity i"
    "arena_refuses a' \<longleftrightarrow> arena_refuses a"
  shows "added msg a bytes (push_aux i (AuxUnknown al view data bytes)) a'"
  using assms by (cases msg) (simp_all add: added_def push_aux_def content_def extensions_def aux_inv_def)

lemma try_extend_last_ok:
  "try_extend_last msg a bytes = (r, a') \<Longrightarrow>
     (arena_refuses a' \<longleftrightarrow> arena_refuses a) \<and> (r \<longrightarrow> last_unknown msg \<noteq> None)"
  by (auto simp: try_extend_last_def Let_def dest: arena_TryExtend_same
      split: option.splits aux_ptr.splits if_splits)

lemma AddUnknownSlowPath_ok:
  assumes "aux_inv msg"
  shows "case upb_Message_AddUnknownSlowPath msg data bytes a alias of
      None \<Rightarrow> arena_refuses a | Some (i, a') \<Rightarrow> added msg a bytes i a'"
proof -
  obtain r a1 where e: "(if \<not> alias then try_extend_last msg a bytes else (False, a)) = (r, a1)"
    by (cases "if \<not> alias then try_extend_last msg a bytes else (False, a)")
  then have a1: "arena_refuses a1 \<longleftrightarrow> arena_refuses a" "r \<longrightarrow> last_unknown msg \<noteq> None"
    by (auto dest: try_extend_last_ok split: if_splits)
  show ?thesis
  proof (cases r)
    case True
    with e a1 grow_last_added [OF assms] show ?thesis by (simp add: upb_Message_AddUnknownSlowPath_def)
  next
    case False
    from ReserveSlot_ok [OF assms, of a1] False e a1(1) show ?thesis
      by (auto simp: upb_Message_AddUnknownSlowPath_def intro!: push_added
          dest: arena_refuses_Malloc arena_Malloc_same split: option.splits prod.splits)
  qed
qed

lemma AddUnknown_cases:
  "upb_Message_AddUnknown msg data bytes a base =
     (if base \<noteq> None \<and> data \<noteq> the base \<and>
         (case last_unknown msg of Some (AuxUnknown al view edata bs) \<Rightarrow> edata + int (length bs) = data | _ \<Rightarrow> False)
      then Some (grow_last msg bytes, a)
      else upb_Message_AddUnknownSlowPath msg data bytes a (base \<noteq> None))"
  by (simp add: upb_Message_AddUnknown_def split: option.split aux_ptr.split)

lemma AddUnknown_ok:
  assumes "aux_inv msg"
  shows "case upb_Message_AddUnknown msg data bytes a base of
      None \<Rightarrow> arena_refuses a | Some (i, a') \<Rightarrow> added msg a bytes i a'"
proof (cases "base \<noteq> None \<and> data \<noteq> the base \<and>
         (case last_unknown msg of Some (AuxUnknown al view edata bs) \<Rightarrow> edata + int (length bs) = data | _ \<Rightarrow> False)")
  case True
  then have "last_unknown msg \<noteq> None" by (auto split: option.splits)
  from grow_last_added [OF assms this] show ?thesis unfolding AddUnknown_cases if_P [OF True] by simp
next
  case False
  show ?thesis unfolding AddUnknown_cases if_not_P [OF False] by (rule AddUnknownSlowPath_ok [OF assms])
qed

lemma add_sizes_eq:
  "0 \<le> t \<Longrightarrow> add_sizes t data = Some u \<Longrightarrow> u = t + int (length (concat data))"
  "0 \<le> t \<Longrightarrow> add_sizes t data = None \<Longrightarrow> 2 ^ 64 - 1 < t + int (length (concat data))"
proof (induction t data rule: add_sizes.induct)
  case (2 t d ds)
  { case 1 with 2 show ?case by (auto split: if_splits) }
  { case 2 with "2.IH"(2) show ?case by (auto split: if_splits) }
qed auto

lemma AddUnknownV_ok:
  assumes "aux_inv msg" and "int (length (concat data)) < 2 ^ 64 - 16"
  shows "case upb_Message_AddUnknownV msg a data of
      None \<Rightarrow> arena_refuses a | Some (i, a') \<Rightarrow> added msg a (concat data) i a'"
proof -
  have sz: "add_sizes 0 data = Some (int (length (concat data)))"
    using add_sizes_eq [of 0 data] assms(2) by (cases "add_sizes 0 data") auto
  obtain r a1 where e: "try_extend_last msg a (concat data) = (r, a1)"
    by (cases "try_extend_last msg a (concat data)")
  note a1 = try_extend_last_ok [OF e]
  show ?thesis
  proof (cases r)
    case True
    with e a1 grow_last_added [OF assms(1)] show ?thesis by (simp add: upb_Message_AddUnknownV_def sz)
  next
    case False
    from ReserveSlot_ok [OF assms(1), of a1] False e a1 assms(2) show ?thesis
      by (auto simp: upb_Message_AddUnknownV_def sz sizeof_upb_StringView_def simp del: length_concat
          intro!: push_added dest: arena_refuses_Malloc arena_Malloc_same split: option.splits prod.splits)
  qed
qed

section \<open>Properties\<close>

text \<open>C24: adding unknown fields appends their bytes. Whether the last entry is extended in place, grown
  because the bytes are adjacent in the aliased input, or a new entry is pushed, the unknown fields of the
  message are the old ones followed by the new bytes, the extensions are untouched and the list still fits
  its capacity; the call fails only when the arena refuses.\<close>

theorem AddUnknown_appends:
  assumes "aux_inv msg" and "int (length (concat data)) < 2 ^ 64 - 16"
  shows "(case upb_Message_AddUnknown msg addr bytes a base of
      None \<Rightarrow> arena_refuses a
    | Some (i, _) \<Rightarrow> content (Some i) = content msg @ bytes \<and> extensions (Some i) = extensions msg \<and>
        aux_inv (Some i)) \<and>
    (case upb_Message_AddUnknownV msg a data of
      None \<Rightarrow> arena_refuses a
    | Some (i, _) \<Rightarrow> content (Some i) = content msg @ concat data \<and> extensions (Some i) = extensions msg \<and>
        aux_inv (Some i))"
  using AddUnknown_ok [OF assms(1), where data = addr and bytes = bytes and a = a and base = base]
    AddUnknownV_ok [OF assms, where a = a]
  unfolding added_def by (auto split: option.splits)

theorem AddUnknown_appends_witness:
  "\<exists>a. case upb_Message_AddUnknown (Some \<lparr>in_capacity = 4, in_aux = [AuxUnknown True 100 500 [8, 1]]\<rparr>)
      502 [16, 2] a (Some 500) of
    None \<Rightarrow> False | Some (i, _) \<Rightarrow> content (Some i :: nat upb_Message_Internal option) = [8, 1, 16, 2]"
proof -
  let ?msg = "Some \<lparr>in_capacity = 4, in_aux = [AuxUnknown True 100 500 [8, 1]]\<rparr> :: nat upb_Message_Internal option"
  define a where "a = \<lparr>arena_malloc = (\<lambda>k n. Some 4096), arena_extend = (\<lambda>k p m n. False), arena_requests = 0\<rparr>"
  have "\<not> arena_refuses a" by (simp add: a_def arena_refuses_def)
  moreover have "aux_inv ?msg" "content ?msg = [8, 1]" by (simp_all add: aux_inv_def content_def)
  ultimately show ?thesis
    using AddUnknown_appends [where msg = ?msg and data = "[]" and addr = 502 and bytes = "[16, 2]"
        and a = a and base = "Some 500"]
    by (intro exI [of _ a]) (auto split: option.splits)
qed

lemma content_update:
  assumes "k < length (in_aux i)" and "in_aux i ! k = AuxUnknown al view u bs"
  shows "content (Some (i\<lparr>in_aux := (in_aux i)[k := p]\<rparr>)) =
      concat (unknown_bytes (take k (in_aux i))) @ concat (unknown_bytes [p]) @
      concat (unknown_bytes (drop (Suc k) (in_aux i)))"
  using assms(1) by (simp add: content_def upd_conv_take_nth_drop unknown_bytes_def)

lemma content_split:
  assumes "k < length (in_aux i)" and "in_aux i ! k = AuxUnknown al view u bs"
  shows "content (Some i) = concat (unknown_bytes (take k (in_aux i))) @ bs @
      concat (unknown_bytes (drop (Suc k) (in_aux i)))"
proof -
  have "in_aux i = take k (in_aux i) @ AuxUnknown al view u bs # drop (Suc k) (in_aux i)"
    using id_take_nth_drop [OF assms(1)] assms(2) by simp
  then have "content (Some i) = concat (unknown_bytes (take k (in_aux i) @ AuxUnknown al view u bs # drop (Suc k) (in_aux i)))"
    by (simp add: content_def)
  then show ?thesis by simp
qed

lemma extensions_update:
  assumes "k < length (in_aux i)" and "in_aux i ! k = AuxUnknown al view u bs"
    and "\<not> upb_TaggedAuxPtr_IsExtension p"
  shows "extensions (Some (i\<lparr>in_aux := (in_aux i)[k := p]\<rparr>)) = extensions (Some i)"
proof -
  have "in_aux i = take k (in_aux i) @ AuxUnknown al view u bs # drop (Suc k) (in_aux i)"
    using id_take_nth_drop [OF assms(1)] assms(2) by simp
  then have "filter upb_TaggedAuxPtr_IsExtension (in_aux i) = filter upb_TaggedAuxPtr_IsExtension
      (take k (in_aux i) @ AuxUnknown al view u bs # drop (Suc k) (in_aux i))" by simp
  with assms show ?thesis by (simp add: extensions_def upd_conv_take_nth_drop)
qed

lemma delete_unknown_next_same:
  "delete_unknown_next i a iter = (s, i', a', p, iter') \<Longrightarrow>
     i' = i \<and> a' = a \<and> s \<noteq> kUpb_DeleteUnknown_AllocFail"
  by (auto simp: delete_unknown_next_def split: prod.splits option.splits)

lemma DeleteUnknown_middle:
  assumes "0 < iter" and "iter \<le> length (in_aux i)" and "in_aux i ! (iter - 1) = AuxUnknown al view u bs"
    and "data = u + int k" and "k + sz \<le> length bs" and "aux_inv (Some i)"
    and "upb_Message_DeleteUnknown i data sz iter a = (s, i', a', p, iter')"
    and mid: "0 < k" "k + sz < length bs"
  shows "extensions (Some i') = extensions (Some i) \<and> aux_inv (Some i') \<and>
    (if s = kUpb_DeleteUnknown_AllocFail then content (Some i') = content (Some i) \<and> arena_refuses a
     else content (Some i') = concat (unknown_bytes (take (iter - 1) (in_aux i))) @ take k bs @
       drop (k + sz) bs @ concat (unknown_bytes (drop iter (in_aux i))))"
proof -
  let ?k = "iter - 1"
  let ?pre = "concat (unknown_bytes (take ?k (in_aux i)))" and ?post = "concat (unknown_bytes (drop iter (in_aux i)))"
  have k: "?k < length (in_aux i)" "Suc ?k = iter" using assms(1,2) by simp_all
  obtain sv a1 where m: "upb_Arena_Malloc a sizeof_upb_StringView = (sv, a1)"
    by (cases "upb_Arena_Malloc a sizeof_upb_StringView")
  have eq: "upb_Message_DeleteUnknown i data sz iter a =
    (case (sv, a1) of
       (None, a) \<Rightarrow> (kUpb_DeleteUnknown_AllocFail, i, a, None, iter)
     | (Some sview, a) \<Rightarrow>
         (case upb_Message_ReserveSlot (Some i) a of
            None \<Rightarrow> (kUpb_DeleteUnknown_AllocFail, i, a, None, iter)
          | Some (i, a) \<Rightarrow> delete_unknown_next
              (i\<lparr>in_aux := take ?k (in_aux i) @ AuxUnknown True view u (take k bs) #
                 AuxUnknown True sview (data + int sz) (drop (k + sz) bs) # drop iter (in_aux i)\<rparr>) a iter))"
    using assms(3,4) mid by (auto simp: upb_Message_DeleteUnknown_def m Let_def split: option.split)
  show ?thesis
  proof (cases sv)
    case None
    with eq assms(6,7) arena_refuses_Malloc [of a sizeof_upb_StringView a1] m show ?thesis by auto
  next
    case (Some sview)
    note res = ReserveSlot_ok [OF assms(6), of a1] and same = arena_Malloc_same [OF m]
    show ?thesis
    proof (cases "upb_Message_ReserveSlot (Some i) a1")
      case None
      with res same eq Some assms(6,7) show ?thesis by auto
    next
      case (Some ia)
      then obtain j a2 where j: "upb_Message_ReserveSlot (Some i) a1 = Some (j, a2)" by (cases ia) auto
      from res j have jl: "in_aux j = in_aux i" "length (in_aux i) < in_capacity j" by auto
      let ?i' = "j\<lparr>in_aux := take ?k (in_aux i) @ AuxUnknown True view u (take k bs) #
                 AuxUnknown True sview (data + int sz) (drop (k + sz) bs) # drop iter (in_aux i)\<rparr>"
      from eq j \<open>sv = Some sview\<close> assms(7) jl(1) have "delete_unknown_next ?i' a2 iter = (s, i', a', p, iter')" by simp
      from delete_unknown_next_same [OF this] have s: "i' = ?i'" "s \<noteq> kUpb_DeleteUnknown_AllocFail" by auto
      have ext: "extensions (Some i') = extensions (Some i)"
        using extensions_update [OF k(1) assms(3), of AuxNull] k
        by (simp add: s(1) extensions_def upd_conv_take_nth_drop)
      have "content (Some i') = ?pre @ take k bs @ drop (k + sz) bs @ ?post"
        by (simp add: s(1) content_def)
      with s ext jl(2) assms(1,2) show ?thesis by (auto simp: aux_inv_def k(2))
    qed
  qed
qed

text \<open>C25: deleting a range of the unknown field at the iterator removes exactly the bytes of that range: the
  whole entry, a prefix, a suffix, or a middle part, for which the entry is split in two with the order of
  all entries kept. The extensions stay, and so does everything when the arena refuses the split.\<close>

theorem DeleteUnknown_removes_range:
  assumes "0 < iter" and "iter \<le> length (in_aux i)" and "in_aux i ! (iter - 1) = AuxUnknown al view u bs"
    and "data = u + int k" and "k + sz \<le> length bs" and "aux_inv (Some i)"
    and "upb_Message_DeleteUnknown i data sz iter a = (s, i', a', p, iter')"
  shows "extensions (Some i') = extensions (Some i) \<and> aux_inv (Some i') \<and>
    (if s = kUpb_DeleteUnknown_AllocFail then content (Some i') = content (Some i) \<and> arena_refuses a
     else \<exists>before after. content (Some i) = before @ bs @ after \<and>
        content (Some i') = before @ take k bs @ drop (k + sz) bs @ after)"
proof -
  let ?k = "iter - 1"
  let ?pre = "concat (unknown_bytes (take ?k (in_aux i)))" and ?post = "concat (unknown_bytes (drop iter (in_aux i)))"
  have k: "?k < length (in_aux i)" "Suc ?k = iter" using assms(1,2) by simp_all
  note split = content_split [OF k(1) assms(3)]
  note upd = content_update [OF k(1) assms(3)] extensions_update [OF k(1) assms(3)]
  consider "k = 0 \<and> length bs = sz" | "k = 0 \<and> length bs \<noteq> sz" | "0 < k \<and> length bs = k + sz"
    | "0 < k \<and> k + sz < length bs" using assms(5) by linarith
  then show ?thesis
  proof cases
    case 1
    with assms(3,4,7) have r: "delete_unknown_next (i\<lparr>in_aux := (in_aux i)[?k := AuxNull]\<rparr>) a iter = (s, i', a', p, iter')"
      by (simp add: upb_Message_DeleteUnknown_def)
    from delete_unknown_next_same [OF this] 1 assms(6) show ?thesis
      using split upd [of AuxNull] by (auto simp: aux_inv_def k(2))
  next
    case 2
    with assms(3,4,7) show ?thesis
      using split upd [of "AuxUnknown al view (u + int sz) (drop sz bs)"] assms(6)
      by (auto simp: upb_Message_DeleteUnknown_def Let_def aux_inv_def k(2))
  next
    case 3
    then have "length bs - sz = k" by simp
    with 3 assms(3,4,7) have r: "delete_unknown_next
        (i\<lparr>in_aux := (in_aux i)[?k := AuxUnknown True view u (take k bs)]\<rparr>) a iter = (s, i', a', p, iter')"
      by (simp add: upb_Message_DeleteUnknown_def)
    from delete_unknown_next_same [OF this] 3 assms(6) show ?thesis
      using split upd [of "AuxUnknown True view u (take k bs)"] by (auto simp: aux_inv_def k(2))
  next
    case 4
    with DeleteUnknown_middle [OF assms] split show ?thesis unfolding k(2) by (auto split: if_splits)
  qed
qed

theorem DeleteUnknown_removes_range_witness:
  "\<exists>a s i' a' p iter'. upb_Message_DeleteUnknown
      (\<lparr>in_capacity = 4, in_aux = [AuxUnknown True 100 500 [8, 1, 16, 2, 24, 3]]\<rparr> :: nat upb_Message_Internal)
      502 2 1 a = (s, i', a', p, iter') \<and> content (Some i') = [8, 1, 24, 3]"
proof -
  let ?i = "\<lparr>in_capacity = 4, in_aux = [AuxUnknown True 100 500 [8, 1, 16, 2, 24, 3]]\<rparr> :: nat upb_Message_Internal"
  define a where "a = \<lparr>arena_malloc = (\<lambda>k n. Some 4096), arena_extend = (\<lambda>k p m n. False), arena_requests = 0\<rparr>"
  have nr: "\<not> arena_refuses a" by (simp add: a_def arena_refuses_def)
  obtain s i' a' p iter' where r: "upb_Message_DeleteUnknown ?i 502 2 1 a = (s, i', a', p, iter')"
    by (cases "upb_Message_DeleteUnknown ?i 502 2 1 a")
  have c: "content (Some ?i) = [8, 1, 16, 2, 24, 3]" by (simp add: content_def)
  have "s \<noteq> kUpb_DeleteUnknown_AllocFail \<and> (\<exists>before after. content (Some ?i) = before @ [8, 1, 16, 2, 24, 3] @ after \<and>
      content (Some i') = before @ take 2 [8, 1, 16, 2, 24, 3] @ drop (2 + 2) [8, 1, 16, 2, 24, 3] @ after)"
    using DeleteUnknown_removes_range [of 1 ?i True 100 500 "[8, 1, 16, 2, 24, 3]" 502 2 2 a s i' a' p iter'] r nr
    by (auto simp: aux_inv_def split: if_splits)
  then obtain before after where ba: "[8, 1, 16, 2, 24, 3] = before @ [8, 1, 16, 2, 24, 3] @ after"
    "content (Some i') = before @ [8, 1, 24, 3] @ after" by (auto simp: c)
  from arg_cong [OF ba(1), where f = length] have "before = [] \<and> after = []" by simp
  with ba(2) have "content (Some i') = [8, 1, 24, 3]" by simp
  with r show ?thesis by blast
qed

lemma Getext_loop_append:
  "Getext_loop (ps @ qs) e = (case Getext_loop ps e of None \<Rightarrow> Getext_loop qs e | Some x \<Rightarrow> Some x)"
  by (induction ps) (auto split: aux_ptr.split option.split)

lemma Getext_loop_ext: "Getext_loop ps e = Some x \<Longrightarrow> ext_ext x = e"
  by (induction ps) (auto split: aux_ptr.splits if_splits)

text \<open>C26: getting or creating an extension of a message gives the one the message already has for that
  extension table, or adds an empty one at the end. Afterwards the message has it, all its other
  extensions and unknown fields are as before, and the call fails only when the arena refuses.\<close>

theorem GetOrCreateExtension_finds:
  assumes "aux_inv msg"
  shows "case upb_Message_GetOrCreateExtension msg e a of
      None \<Rightarrow> arena_refuses a
    | Some (ext, i, _) \<Rightarrow>
        ext = (case upb_Message_Getext msg e of None \<Rightarrow> Extension e CZero | Some x \<Rightarrow> x) \<and>
        upb_Message_Getext (Some i) e = Some ext \<and> ext_ext ext = e \<and>
        (\<forall>e'. e' \<noteq> e \<longrightarrow> upb_Message_Getext (Some i) e' = upb_Message_Getext msg e') \<and>
        content (Some i) = content msg \<and> aux_inv (Some i)"
proof (cases "upb_Message_Getext msg e")
  case None
  show ?thesis
  proof (cases "upb_Message_ReserveSlot msg a")
    case None
    with ReserveSlot_ok [OF assms, of a] \<open>upb_Message_Getext msg e = None\<close> show ?thesis
      by (simp add: upb_Message_GetOrCreateExtension_def)
  next
    case (Some r)
    then obtain i a1 where r: "upb_Message_ReserveSlot msg a = Some (i, a1)" by (cases r) auto
    with ReserveSlot_ok [OF assms, of a] have i: "in_aux i = (case msg of None \<Rightarrow> [] | Some j \<Rightarrow> in_aux j)"
      "length (in_aux i) < in_capacity i" "arena_refuses a1 \<longleftrightarrow> arena_refuses a" by auto
    have "Getext_loop (in_aux i) e' = upb_Message_Getext msg e'" for e'
      using i(1) by (cases msg) (simp_all add: upb_Message_Getext_def)
    moreover have "content (Some i) = content msg"
      using i(1) by (cases msg) (simp_all add: content_def)
    ultimately show ?thesis
      using None r i(2,3)
      by (auto simp: upb_Message_GetOrCreateExtension_def upb_Message_Getext_def Getext_loop_append
          push_aux_def content_def aux_inv_def dest: arena_refuses_Malloc split: prod.splits option.splits)
  qed
next
  case (Some x)
  then obtain i where i: "msg = Some i" "Getext_loop (in_aux i) e = Some x"
    by (auto simp: upb_Message_Getext_def split: option.splits)
  with assms Some Getext_loop_ext [OF i(2)] show ?thesis
    by (simp add: upb_Message_GetOrCreateExtension_def)
qed

theorem GetOrCreateExtension_finds_witness:
  "\<forall>e. \<exists>a ext i a'. upb_Message_GetOrCreateExtension None e a = Some (ext, i, a') \<and>
     upb_Message_Getext (Some i) e = Some ext"
proof
  fix e
  define a where "a = \<lparr>arena_malloc = (\<lambda>k n. Some 4096), arena_extend = (\<lambda>k p m n. False), arena_requests = 0\<rparr>"
  have "\<not> arena_refuses a" by (simp add: a_def arena_refuses_def)
  moreover have "aux_inv (None :: upb_Extension upb_Message_Internal option)" by (simp add: aux_inv_def)
  ultimately show "\<exists>a ext i a'. upb_Message_GetOrCreateExtension None e a = Some (ext, i, a') \<and>
     upb_Message_Getext (Some i) e = Some ext"
    using GetOrCreateExtension_finds [where msg = None and e = e and a = a]
    by (intro exI [of _ a]) (auto split: option.splits)
qed

lemma bit_le_u64:
  "bit (le_u64 bs) k \<longleftrightarrow> k < 64 \<and> k div 8 < length bs \<and> bit (bs ! (k div 8)) (k mod 8)"
proof (induction bs arbitrary: k)
  case Nil
  then show ?case by (simp add: le_u64_def)
next
  case (Cons b bs)
  have eq: "le_u64 (b # bs) = ucast b OR push_bit 8 (le_u64 bs)" by (simp add: le_u64_def)
  show ?case
  proof (cases "k < 8")
    case True
    then show ?thesis by (simp add: eq bit_or_iff bit_push_bit_iff bit_ucast_iff)
  next
    case False
    then obtain j where "k = j + 8" by (metis add.commute le_add_diff_inverse not_less)
    then show ?thesis
      using Cons.IH [of j]
      by (auto simp: eq bit_or_iff bit_push_bit_iff bit_ucast_iff div_add_self2 dest: bit_imp_le_length)
  qed
qed



lemma and_push_bit_byte: "(b AND push_bit n 1 \<noteq> 0) \<longleftrightarrow> bit (b :: byte) n"
  by (rule and_push_bit_1)

lemma GetHasbit_bit:
  "upb_Message_GetHasbit msg f \<longleftrightarrow>
     bit (msg_hasbits msg (nat (mtf_presence f) div 8)) (nat (mtf_presence f) mod 8)"
  unfolding upb_Message_GetHasbit_def upb_MiniTableField_HasbitMask_def upb_MiniTableField_HasbitOffset_def
  by (rule and_push_bit_byte)

text \<open>C28: setting a field's hasbit makes \<open>GetHasbit\<close> true for it, clearing it makes it false, and neither
  changes the answer for a field with another hasbit; setting the case of a oneof member makes it the
  current one, and clearing it reports that it was and leaves no member current.\<close>

theorem presence_set_clear:
  assumes "0 < mtf_presence f" and "0 < mtf_presence g" and "mtf_presence f \<noteq> mtf_presence g"
  shows "upb_Message_GetHasbit (upb_Message_SetHasbit msg f) f \<and>
    \<not> upb_Message_GetHasbit (upb_Message_ClearHasbit msg f) f \<and>
    upb_Message_GetHasbit (upb_Message_SetHasbit msg f) g = upb_Message_GetHasbit msg g \<and>
    upb_Message_GetHasbit (upb_Message_ClearHasbit msg f) g = upb_Message_GetHasbit msg g \<and>
    upb_Message_GetOneofCase (upb_Message_SetOneofCase msg h) h = mtf_number h \<and>
    (case upb_Message_ClearOneofCase (upb_Message_SetOneofCase msg h) h of
       (was, msg') \<Rightarrow> was \<and> upb_Message_GetOneofCase msg' h = 0)"
proof -
  let ?f = "nat (mtf_presence f)" and ?g = "nat (mtf_presence g)"
  have ne: "?f \<noteq> ?g" using assms by simp
  then have "?f div 8 = ?g div 8 \<Longrightarrow> ?f mod 8 \<noteq> ?g mod 8" by (metis div_mult_mod_eq)
  then show ?thesis
    by (auto simp: GetHasbit_bit upb_Message_SetHasbit_def upb_Message_ClearHasbit_def set_hasbits_def Let_def
        upb_MiniTableField_HasbitMask_def upb_MiniTableField_HasbitOffset_def
        bit_or_iff bit_and_iff bit_not_iff bit_push_bit_iff bit_1_iff
        upb_Message_GetOneofCase_def upb_Message_SetOneofCase_def upb_Message_ClearOneofCase_def set_case_def
        simp del: push_bit_of_1)
qed

theorem presence_set_clear_witness:
  "\<exists>msg f g. mtf_presence f = 64 \<and> mtf_presence g = 65 \<and>
     upb_Message_GetHasbit (upb_Message_SetHasbit msg f) f \<and> \<not> upb_Message_GetHasbit (upb_Message_SetHasbit msg f) g"
proof -
  define f where "f = \<lparr>mtf_number = 1, mtf_offset = 16, mtf_presence = 64, mtf_submsg_index = 0,
       mtf_descriptortype = kUpb_FieldType_Int32, mtf_mode = 2\<rparr>"
  let ?g = "f\<lparr>mtf_presence := 65\<rparr>" and ?msg = "Message [] (\<lambda>_. 0) (\<lambda>_. 0) None 0"
  show ?thesis
    using presence_set_clear [of f ?g ?msg f]
    by (intro exI [of _ ?msg] exI [of _ f] exI [of _ ?g]) (simp add: f_def GetHasbit_bit)
qed

end
