(* ===== verification/Wire_Decode.thy ===== *)
theory Wire_Decode
  imports Wire_Reader Wire_Encode Message_Store
begin

text \<open>
  \<open>upb/wire/decode.c\<close> and \<open>wire/internal/decoder.{h,c}\<close>: the table-driven decoder, built without
  the fast tables. It parses out of the input stream into a message, field by field; a
  \<open>longjmp\<close> to the error handler is \<open>Inl\<close> of the status.
\<close>

section \<open>The decoder\<close>

text \<open>
  Two statuses are not in the C enum: \<open>DecodeOutOfFuel\<close> marks the end of the recursion bound of
  the model, and \<open>DecodeWildRead\<close> a step that C leaves undefined: reading the input buffer outside
  its bounds, or following a NULL or mistyped pointer.
\<close>

datatype upb_DecodeStatus =
  kUpb_DecodeStatus_Ok
| kUpb_DecodeStatus_Malformed
| kUpb_DecodeStatus_OutOfMemory
| kUpb_DecodeStatus_BadUtf8
| kUpb_DecodeStatus_MaxDepthExceeded
| kUpb_DecodeStatus_MissingRequired
| kUpb_DecodeStatus_UnlinkedSubMessage
| DecodeOutOfFuel
| DecodeWildRead

type_synonym 'a decres = "upb_DecodeStatus + 'a"

abbreviation "kUpb_DecodeOption_AliasString \<equiv> 1 :: u32"
abbreviation "kUpb_DecodeOption_CheckRequired \<equiv> 2 :: u32"
abbreviation "kUpb_DecodeOption_ExperimentalAllowUnlinked \<equiv> 4 :: u32"
abbreviation "kUpb_DecodeOption_AlwaysValidateUtf8 \<equiv> 8 :: u32"

definition DECODE_NOGROUP :: u32 where
  "DECODE_NOGROUP = - 1"

record upb_Decoder =
  d_input :: eps_stream
  d_arena :: upb_Arena
  d_depth :: int
  d_end_group :: u32
  d_options :: u32
  d_missing_required :: bool
  d_message_is_done :: bool

text \<open>
  What the decoder calls in other parts: the mini tables behind references, the extension
  registry (\<open>None\<close> is NULL), the UTF-8 validator, the map's creation and insertion, and the
  address and old contents of the patch buffer on the stack when a given buffer is decoded.
\<close>

record decode_env =
  env_tabs :: "mt_ref \<Rightarrow> upb_MiniTable"
  env_extreg :: "(mt_ref \<Rightarrow> u32 \<Rightarrow> upb_MiniTableExtension option) option"
  env_utf8 :: "byte list \<Rightarrow> bool"
  env_map_new :: "bool \<Rightarrow> upb_Arena \<Rightarrow> (cell \<times> upb_Arena) option"
  env_map_insert :: "cell \<Rightarrow> cell \<Rightarrow> cell \<Rightarrow> upb_Arena \<Rightarrow> (cell \<times> upb_Arena) option"
  env_frame :: "int \<Rightarrow> nat \<Rightarrow> int \<times> byte list"

text \<open>The recursive calls: on a submessage or group, and of \<open>upb_Decode\<close> on other bytes.\<close>

type_synonym decode_message =
  "upb_Decoder \<Rightarrow> int \<Rightarrow> upb_Message option \<Rightarrow> mt_ref option \<Rightarrow> (upb_Decoder \<times> int \<times> upb_Message option) decres"

type_synonym decode_bytes =
  "int \<Rightarrow> byte list \<Rightarrow> upb_Message \<Rightarrow> mt_ref \<Rightarrow> u32 \<Rightarrow> upb_Arena \<Rightarrow> upb_DecodeStatus \<times> upb_Message \<times> upb_Arena"

text \<open>\<open>upb_Arena_Malloc\<close> with the jump to OutOfMemory that follows its NULL.\<close>

definition decoder_malloc :: "upb_Decoder \<Rightarrow> nat \<Rightarrow> (upb_Decoder \<times> int) decres" where
  "decoder_malloc d n =
     (case upb_Arena_Malloc (d_arena d) n of
        (None, _) \<Rightarrow> Inl kUpb_DecodeStatus_OutOfMemory
      | (Some p, a) \<Rightarrow> Inr (d\<lparr>d_arena := a\<rparr>, p))"

text \<open>\<open>_upb_Decoder_IsDone\<close>: the fallback's callback jumps where the reader's returns NULL.\<close>

definition upb_Decoder_IsDone :: "upb_Decoder \<Rightarrow> int \<Rightarrow> (bool \<times> upb_Decoder \<times> int) decres" where
  "upb_Decoder_IsDone d ptr =
     (case upb_EpsCopyInputStream_IsDone (d_input d) ptr of
        (done, e, Some ptr) \<Rightarrow> Inr (done, d\<lparr>d_input := e\<rparr>, ptr)
      | (done, e, None) \<Rightarrow> Inl kUpb_DecodeStatus_Malformed)"

section \<open>Varints, tags and sizes\<close>

function DecodeLongVarint_loop :: "memory \<Rightarrow> int \<Rightarrow> u64 \<Rightarrow> nat \<Rightarrow> (int \<times> u64) decres" where
  "DecodeLongVarint_loop mem ptr val i =
     (if i < 10 then
        let byte = (ucast (mem (ptr + int i)) :: u64);
            val = val + push_bit (i * 7) (byte - 1)
        in if byte AND 0x80 = 0 then Inr (ptr + int i + 1, val)
           else DecodeLongVarint_loop mem ptr val (i + 1)
      else Inl kUpb_DecodeStatus_Malformed)"
  by pat_completeness auto
termination
  by (relation "measure (\<lambda>(mem, ptr, val, i). 10 - i)") auto

declare DecodeLongVarint_loop.simps [simp del]

definition upb_Decoder_DecodeLongVarint :: "memory \<Rightarrow> int \<Rightarrow> u64 \<Rightarrow> (int \<times> u64) decres" where
  "upb_Decoder_DecodeLongVarint mem ptr val = DecodeLongVarint_loop mem ptr val 1"

function DecodeLongTag_loop :: "memory \<Rightarrow> int \<Rightarrow> u64 \<Rightarrow> nat \<Rightarrow> (int \<times> u64) decres" where
  "DecodeLongTag_loop mem ptr val i =
     (if i < 5 then
        let byte = (ucast (mem (ptr + int i)) :: u64);
            val = val + push_bit (i * 7) (byte - 1)
        in if byte AND 0x80 = 0 then
             if val > 0xFFFFFFFF then Inl kUpb_DecodeStatus_Malformed
             else Inr (ptr + int i + 1, val)
           else DecodeLongTag_loop mem ptr val (i + 1)
      else Inl kUpb_DecodeStatus_Malformed)"
  by pat_completeness auto
termination
  by (relation "measure (\<lambda>(mem, ptr, val, i). 5 - i)") auto

declare DecodeLongTag_loop.simps [simp del]

definition upb_Decoder_DecodeLongTag :: "memory \<Rightarrow> int \<Rightarrow> u64 \<Rightarrow> (int \<times> u64) decres" where
  "upb_Decoder_DecodeLongTag mem ptr val = DecodeLongTag_loop mem ptr val 1"

definition upb_Decoder_DecodeVarint :: "upb_Decoder \<Rightarrow> int \<Rightarrow> (int \<times> u64) decres" where
  "upb_Decoder_DecodeVarint d ptr =
     (let mem = eps_mem (d_input d); byte = (ucast (mem ptr) :: u64) in
      if byte AND 0x80 = 0 then Inr (ptr + 1, byte)
      else upb_Decoder_DecodeLongVarint mem ptr byte)"

definition upb_Decoder_DecodeTag :: "upb_Decoder \<Rightarrow> int \<Rightarrow> (int \<times> u32) decres" where
  "upb_Decoder_DecodeTag d ptr =
     (let mem = eps_mem (d_input d); byte = (ucast (mem ptr) :: u64) in
      if byte AND 0x80 = 0 then Inr (ptr + 1, ucast byte)
      else bindE (upb_Decoder_DecodeLongTag mem ptr byte) (\<lambda>(ptr, val). Inr (ptr, ucast val)))"

definition upb_Decoder_DecodeSize :: "upb_Decoder \<Rightarrow> int \<Rightarrow> (int \<times> u32) decres" where
  "upb_Decoder_DecodeSize d ptr =
     bindE (upb_Decoder_DecodeVarint d ptr) (\<lambda>(ptr, size64).
       if size64 \<ge> 0x7FFFFFFF \<or> \<not> upb_EpsCopyInputStream_CheckSize (d_input d) ptr (uint size64)
       then Inl kUpb_DecodeStatus_Malformed
       else Inr (ptr, ucast size64))"

text \<open>\<open>wireval\<close> is a union: its 64 bits, of which \<open>bool_val\<close> is the low byte and \<open>uint32_val\<close> and
  \<open>size\<close> the low word (little endian).\<close>

type_synonym wireval = u64

definition wireval_set_bool :: "wireval \<Rightarrow> bool \<Rightarrow> wireval" where
  "wireval_set_bool val b = (val AND NOT 0xFF) OR (if b then 1 else 0)"

definition wireval_set_uint32 :: "wireval \<Rightarrow> u32 \<Rightarrow> wireval" where
  "wireval_set_uint32 val w = (val AND NOT 0xFFFFFFFF) OR ucast w"

definition upb_Decoder_Munge :: "upb_FieldType \<Rightarrow> wireval \<Rightarrow> wireval" where
  "upb_Decoder_Munge type val =
     (case type of
        kUpb_FieldType_Bool \<Rightarrow> wireval_set_bool val (val \<noteq> 0)
      | kUpb_FieldType_SInt32 \<Rightarrow> wireval_set_uint32 val (munge_SInt32 (ucast val))
      | kUpb_FieldType_SInt64 \<Rightarrow> munge_SInt64 val
      | _ \<Rightarrow> val)"

text \<open>\<open>memcpy(mem, val, n)\<close> of a number into a field or an array element.\<close>

definition scalar_cell :: "nat \<Rightarrow> wireval \<Rightarrow> cell" where
  "scalar_cell n val = CScalar (take_bit (8 * n) val)"

section \<open>Submessages and strings\<close>

definition upb_MiniTableSubs_MessageByField :: "upb_MiniTableSub list \<Rightarrow> upb_MiniTableField \<Rightarrow> mt_ref" where
  "upb_MiniTableSubs_MessageByField subs f =
     (case subs ! unat (mtf_submsg_index f) of SubMsg m \<Rightarrow> m | SubEnum _ \<Rightarrow> MT_Empty)"

definition upb_MiniTableSubs_EnumByField ::
  "upb_MiniTableSub list \<Rightarrow> upb_MiniTableField \<Rightarrow> upb_MiniTableEnum" where
  "upb_MiniTableSubs_EnumByField subs f =
     (case subs ! unat (mtf_submsg_index f) of
        SubEnum e \<Rightarrow> e | SubMsg _ \<Rightarrow> \<lparr>mte_mask_limit = 0, mte_value_count = 0, mte_data = []\<rparr>)"

definition new_message :: upb_Message where
  "new_message = Message [] (\<lambda>_. 0) (\<lambda>_. 0) None 0"

definition upb_Message_New :: "decode_env \<Rightarrow> mt_ref \<Rightarrow> upb_Decoder \<Rightarrow> (upb_Decoder \<times> upb_Message) decres" where
  "upb_Message_New env m d =
     bindE (decoder_malloc d (unat (mt_size (env_tabs env m)))) (\<lambda>(d, _). Inr (d, new_message))"

text \<open>The new message and the empty bit of its tagged pointer.\<close>

definition upb_Decoder_NewSubMessage2 ::
  "decode_env \<Rightarrow> upb_Decoder \<Rightarrow> mt_ref \<Rightarrow> (upb_Decoder \<times> bool \<times> upb_Message) decres" where
  "upb_Decoder_NewSubMessage2 env d subl =
     bindE (upb_Message_New env subl d) (\<lambda>(d, msg).
       let is_empty = upb_MiniTable_IsEmpty subl in
       if is_empty \<and> d_options d AND kUpb_DecodeOption_ExperimentalAllowUnlinked = 0
       then Inl kUpb_DecodeStatus_UnlinkedSubMessage
       else Inr (d, is_empty, msg))"

definition upb_Decoder_NewSubMessage ::
  "decode_env \<Rightarrow> upb_Decoder \<Rightarrow> upb_MiniTableSub list \<Rightarrow> upb_MiniTableField \<Rightarrow>
     (upb_Decoder \<times> bool \<times> upb_Message) decres" where
  "upb_Decoder_NewSubMessage env d subs f =
     upb_Decoder_NewSubMessage2 env d (upb_MiniTableSubs_MessageByField subs f)"

text \<open>The loop that parses the unknown fields of a message into its promoted version.\<close>

fun promote_loop ::
  "decode_bytes \<Rightarrow> upb_Decoder \<Rightarrow> mt_ref \<Rightarrow> upb_Message \<Rightarrow> upb_Extension aux_ptr list \<Rightarrow>
     (upb_Decoder \<times> upb_Message) decres" where
  "promote_loop dec d subl promoted [] = Inr (d, promoted)"
| "promote_loop dec d subl promoted (p # ps) =
     (case p of
        AuxUnknown _ _ data bs \<Rightarrow>
          (case dec data bs promoted subl (d_options d) (d_arena d) of
             (status, promoted, a) \<Rightarrow>
               if status \<noteq> kUpb_DecodeStatus_Ok then Inl status
               else promote_loop dec (d\<lparr>d_arena := a\<rparr>) subl promoted ps)
      | _ \<Rightarrow> promote_loop dec d subl promoted ps)"

definition upb_Decoder_ReuseSubMessage ::
  "decode_env \<Rightarrow> decode_bytes \<Rightarrow> upb_Decoder \<Rightarrow> upb_MiniTableSub list \<Rightarrow> upb_MiniTableField \<Rightarrow>
     bool \<Rightarrow> upb_Message \<Rightarrow> (upb_Decoder \<times> bool \<times> upb_Message) decres" where
  "upb_Decoder_ReuseSubMessage env dec d subs f tagged_empty existing =
     (let subl = upb_MiniTableSubs_MessageByField subs f in
      if \<not> tagged_empty \<or> upb_MiniTable_IsEmpty subl then Inr (d, tagged_empty, existing)
      else
        bindE (upb_Decoder_NewSubMessage env d subs f) (\<lambda>(d, is_empty, promoted).
        bindE (promote_loop dec d subl promoted (case msg_aux existing of None \<Rightarrow> [] | Some aux \<Rightarrow> aux))
          (\<lambda>(d, promoted). Inr (d, is_empty, promoted))))"

text \<open>A string that is not aliased takes its bytes from the arena.\<close>

definition upb_Decoder_ReadString :: "upb_Decoder \<Rightarrow> int \<Rightarrow> int \<Rightarrow> (upb_Decoder \<times> byte list \<times> int) decres" where
  "upb_Decoder_ReadString d ptr sz =
     (let e = d_input d;
          copies = \<not> upb_EpsCopyInputStream_AliasingAvailable e ptr sz \<and>
            upb_EpsCopyInputStream_CheckDataSizeAvailable e ptr sz;
          (p, a) = (if copies then upb_Arena_Malloc (d_arena d) (nat sz) else (None, d_arena d)) in
      case upb_EpsCopyInputStream_ReadString (\<lambda>_. p \<noteq> None) e ptr sz of
        None \<Rightarrow> Inl kUpb_DecodeStatus_OutOfMemory
      | Some (bytes, ptr) \<Rightarrow> Inr (d\<lparr>d_arena := a\<rparr>, bytes, ptr))"

definition upb_Decoder_VerifyUtf8 :: "decode_env \<Rightarrow> upb_Decoder \<Rightarrow> int \<Rightarrow> u32 \<Rightarrow> unit decres" where
  "upb_Decoder_VerifyUtf8 env d buf len =
     (if \<not> env_utf8 env (bytes_at (eps_mem (d_input d)) buf (unat len)) then Inl kUpb_DecodeStatus_BadUtf8
      else Inr ())"

definition upb_Decoder_RecurseSubMessage ::
  "decode_message \<Rightarrow> upb_Decoder \<Rightarrow> int \<Rightarrow> upb_Message option \<Rightarrow> mt_ref option \<Rightarrow> u32 \<Rightarrow>
     (upb_Decoder \<times> int \<times> upb_Message option) decres" where
  "upb_Decoder_RecurseSubMessage dm d ptr submsg subl expected_end_group =
     (let d = d\<lparr>d_depth := d_depth d - 1\<rparr> in
      if d_depth d < 0 then Inl kUpb_DecodeStatus_MaxDepthExceeded
      else
        bindE (dm d ptr submsg subl) (\<lambda>(d, ptr, submsg).
          let d = d\<lparr>d_depth := d_depth d + 1\<rparr> in
          if d_end_group d \<noteq> expected_end_group then Inl kUpb_DecodeStatus_Malformed
          else Inr (d, ptr, submsg)))"

definition upb_Decoder_DecodeSubMessage ::
  "decode_message \<Rightarrow> upb_Decoder \<Rightarrow> int \<Rightarrow> upb_Message \<Rightarrow> mt_ref \<Rightarrow> u32 \<Rightarrow>
     (upb_Decoder \<times> int \<times> upb_Message) decres" where
  "upb_Decoder_DecodeSubMessage dm d ptr submsg subl sz =
     (let (saved_delta, e) = upb_EpsCopyInputStream_PushLimit (d_input d) ptr (uint sz) in
      bindE (upb_Decoder_RecurseSubMessage dm (d\<lparr>d_input := e\<rparr>) ptr (Some submsg) (Some subl) DECODE_NOGROUP)
        (\<lambda>(d, ptr, submsg).
          Inr (d\<lparr>d_input := upb_EpsCopyInputStream_PopLimit (d_input d) saved_delta\<rparr>, ptr, the submsg)))"

definition upb_Decoder_DecodeGroup ::
  "decode_message \<Rightarrow> upb_Decoder \<Rightarrow> int \<Rightarrow> upb_Message option \<Rightarrow> mt_ref option \<Rightarrow> u32 \<Rightarrow>
     (upb_Decoder \<times> int \<times> upb_Message option) decres" where
  "upb_Decoder_DecodeGroup dm d ptr submsg subl number =
     bindE (upb_Decoder_IsDone d ptr) (\<lambda>(done, d, ptr).
       if done then Inl kUpb_DecodeStatus_Malformed
       else
         bindE (upb_Decoder_RecurseSubMessage dm d ptr submsg subl number) (\<lambda>(d, ptr, submsg).
           Inr (d\<lparr>d_end_group := DECODE_NOGROUP\<rparr>, ptr, submsg)))"

definition upb_Decoder_DecodeUnknownGroup ::
  "decode_message \<Rightarrow> upb_Decoder \<Rightarrow> int \<Rightarrow> u32 \<Rightarrow> (upb_Decoder \<times> int) decres" where
  "upb_Decoder_DecodeUnknownGroup dm d ptr number =
     bindE (upb_Decoder_DecodeGroup dm d ptr None None number) (\<lambda>(d, ptr, _). Inr (d, ptr))"

definition upb_Decoder_DecodeKnownGroup ::
  "decode_message \<Rightarrow> upb_Decoder \<Rightarrow> int \<Rightarrow> upb_Message \<Rightarrow> upb_MiniTableSub list \<Rightarrow> upb_MiniTableField \<Rightarrow>
     (upb_Decoder \<times> int \<times> upb_Message) decres" where
  "upb_Decoder_DecodeKnownGroup dm d ptr submsg subs f =
     bindE (upb_Decoder_DecodeGroup dm d ptr (Some submsg)
              (Some (upb_MiniTableSubs_MessageByField subs f)) (mtf_number f))
       (\<lambda>(d, ptr, submsg). Inr (d, ptr, the submsg))"

section \<open>Arrays\<close>

definition add_unknown ::
  "upb_Decoder \<Rightarrow> upb_Message \<Rightarrow> int \<Rightarrow> byte list \<Rightarrow> int option \<Rightarrow> (upb_Decoder \<times> upb_Message) decres" where
  "add_unknown d msg data bytes alias_base =
     (case upb_Message_AddUnknown (upb_Message_GetInternal msg) data bytes (d_arena d) alias_base of
        None \<Rightarrow> Inl kUpb_DecodeStatus_OutOfMemory
      | Some (i, a) \<Rightarrow> Inr (d\<lparr>d_arena := a\<rparr>, upb_Message_SetInternal msg i))"

definition add_unknown_v ::
  "upb_Decoder \<Rightarrow> upb_Message \<Rightarrow> byte list list \<Rightarrow> (upb_Decoder \<times> upb_Message) decres" where
  "add_unknown_v d msg data =
     (case upb_Message_AddUnknownV (upb_Message_GetInternal msg) (d_arena d) data of
        None \<Rightarrow> Inl kUpb_DecodeStatus_OutOfMemory
      | Some (i, a) \<Rightarrow> Inr (d\<lparr>d_arena := a\<rparr>, upb_Message_SetInternal msg i))"

text \<open>
  \<open>_upb_Decoder_CheckEnum\<close>. \<open>um\<close> is the message that gets the unknown fields: the message
  itself, or the extended message (\<open>original_msg\<close>) when the field is an extension.
\<close>

definition upb_Decoder_CheckEnum ::
  "upb_Decoder \<Rightarrow> upb_Message \<Rightarrow> upb_MiniTableEnum \<Rightarrow> upb_MiniTableField \<Rightarrow> wireval \<Rightarrow>
     (bool \<times> upb_Decoder \<times> upb_Message) decres" where
  "upb_Decoder_CheckEnum d um e f val =
     (let v = (ucast val :: u32) in
      if upb_MiniTableEnum_CheckValue e v then Inr (True, d, um)
      else
        let tag = push_bit 3 (mtf_number f) OR 0 in
        bindE (add_unknown d um 0 (upb_Decoder_EncodeVarint32 tag @ upb_Decoder_EncodeVarint32 v) None)
          (\<lambda>(d, um). Inr (False, d, um)))"

text \<open>
  An array is its capacity and elements. \<open>_upb_Array_Realloc\<close> doubles the capacity until the
  elements fit; \<open>_upb_Decoder_Reserve\<close> calls it when they do not.
\<close>

function grow_capacity :: "nat \<Rightarrow> nat \<Rightarrow> nat" where
  "grow_capacity new_capacity min_capacity =
     (if 0 < new_capacity \<and> new_capacity < min_capacity then grow_capacity (new_capacity * 2) min_capacity
      else new_capacity)"
  by pat_completeness auto
termination
  by (relation "measure (\<lambda>(c, m). m - c)") auto

declare grow_capacity.simps [simp del]

definition upb_Array_Realloc :: "nat \<Rightarrow> nat \<Rightarrow> nat \<Rightarrow> upb_Arena \<Rightarrow> (nat \<times> upb_Arena) option" where
  "upb_Array_Realloc capacity lg2 min_capacity a =
     (let new_capacity = grow_capacity (max capacity 4) min_capacity in
      case upb_Arena_Malloc a (push_bit lg2 new_capacity) of
        (None, _) \<Rightarrow> None | (Some _, a) \<Rightarrow> Some (new_capacity, a))"

definition upb_Decoder_Reserve ::
  "upb_Decoder \<Rightarrow> nat \<times> cell list \<Rightarrow> nat \<Rightarrow> nat \<Rightarrow> (upb_Decoder \<times> nat \<times> cell list) decres" where
  "upb_Decoder_Reserve d arr lg2 elem =
     (case arr of (capacity, elems) \<Rightarrow>
        if capacity - length elems < elem then
          (case upb_Array_Realloc capacity lg2 (length elems + elem) (d_arena d) of
             None \<Rightarrow> Inl kUpb_DecodeStatus_OutOfMemory
           | Some (capacity, a) \<Rightarrow> Inr (d\<lparr>d_arena := a\<rparr>, capacity, elems))
        else Inr (d, arr))"

definition append_elem :: "nat \<times> cell list \<Rightarrow> cell \<Rightarrow> nat \<times> cell list" where
  "append_elem arr c = (case arr of (capacity, elems) \<Rightarrow> (capacity, elems @ [c]))"

definition upb_Decoder_CreateArray ::
  "upb_Decoder \<Rightarrow> upb_MiniTableField \<Rightarrow> (upb_Decoder \<times> nat \<times> cell list) decres" where
  "upb_Decoder_CreateArray d f =
     (let lg2 = upb_FieldType_SizeLg2 (mtf_descriptortype f) in
      bindE (decoder_malloc d (24 + push_bit lg2 4)) (\<lambda>(d, _). Inr (d, 4, [])))"

definition upb_Decoder_DecodeEnumArray ::
  "upb_Decoder \<Rightarrow> int \<Rightarrow> upb_Message \<Rightarrow> nat \<times> cell list \<Rightarrow> upb_MiniTableSub list \<Rightarrow> upb_MiniTableField \<Rightarrow>
     wireval \<Rightarrow> (upb_Decoder \<times> int \<times> upb_Message \<times> nat \<times> cell list) decres" where
  "upb_Decoder_DecodeEnumArray d ptr um arr subs f val =
     bindE (upb_Decoder_CheckEnum d um (upb_MiniTableSubs_EnumByField subs f) f val) (\<lambda>(known, d, um).
       if \<not> known then Inr (d, ptr, um, arr)
       else Inr (d, ptr, um, append_elem arr (scalar_cell 4 val)))"

text \<open>The elements of a packed fixed-width field: its bytes in chunks of \<open>n\<close>.\<close>

function fixed_elems :: "nat \<Rightarrow> byte list \<Rightarrow> cell list" where
  "fixed_elems n bs =
     (if n = 0 \<or> bs = [] then [] else CScalar (le_u64 (take n bs)) # fixed_elems n (drop n bs))"
  by pat_completeness auto
termination
  by (relation "measure (\<lambda>(n, bs). length bs)") auto

declare fixed_elems.simps [simp del]

definition upb_Decoder_DecodeFixedPacked ::
  "upb_Decoder \<Rightarrow> int \<Rightarrow> nat \<times> cell list \<Rightarrow> wireval \<Rightarrow> upb_MiniTableField \<Rightarrow> nat \<Rightarrow>
     (upb_Decoder \<times> int \<times> nat \<times> cell list) decres" where
  "upb_Decoder_DecodeFixedPacked d ptr arr val f lg2 =
     (let sz = (ucast val :: u32);
          msk = push_bit lg2 1 - 1;
          count = drop_bit lg2 sz in
      if sz AND msk \<noteq> 0 then Inl kUpb_DecodeStatus_Malformed
      else
        bindE (upb_Decoder_Reserve d arr lg2 (unat count)) (\<lambda>(d, capacity, elems).
          case upb_EpsCopyInputStream_Copy (d_input d) ptr (uint sz) of
            None \<Rightarrow> Inl DecodeWildRead
          | Some (bytes, ptr) \<Rightarrow> Inr (d, ptr, capacity, elems @ fixed_elems (push_bit lg2 1) bytes)))"

fun varint_packed_loop ::
  "nat \<Rightarrow> upb_Decoder \<Rightarrow> int \<Rightarrow> nat \<times> cell list \<Rightarrow> upb_MiniTableField \<Rightarrow> nat \<Rightarrow>
     (upb_Decoder \<times> int \<times> nat \<times> cell list) decres" where
  "varint_packed_loop 0 d ptr arr f lg2 = Inl DecodeOutOfFuel"
| "varint_packed_loop (Suc fuel) d ptr arr f lg2 =
     bindE (upb_Decoder_IsDone d ptr) (\<lambda>(done, d, ptr).
       if done then Inr (d, ptr, arr)
       else
         bindE (upb_Decoder_DecodeVarint d ptr) (\<lambda>(ptr, elem).
         let elem = upb_Decoder_Munge (mtf_descriptortype f) elem in
         bindE (upb_Decoder_Reserve d arr lg2 1) (\<lambda>(d, arr).
         varint_packed_loop fuel d ptr (append_elem arr (scalar_cell (2 ^ lg2) elem)) f lg2)))"

definition upb_Decoder_DecodeVarintPacked ::
  "nat \<Rightarrow> upb_Decoder \<Rightarrow> int \<Rightarrow> nat \<times> cell list \<Rightarrow> wireval \<Rightarrow> upb_MiniTableField \<Rightarrow> nat \<Rightarrow>
     (upb_Decoder \<times> int \<times> nat \<times> cell list) decres" where
  "upb_Decoder_DecodeVarintPacked fuel d ptr arr val f lg2 =
     (let (saved_limit, e) = upb_EpsCopyInputStream_PushLimit (d_input d) ptr (uint (ucast val :: u32)) in
      bindE (varint_packed_loop fuel (d\<lparr>d_input := e\<rparr>) ptr arr f lg2) (\<lambda>(d, ptr, arr).
        Inr (d\<lparr>d_input := upb_EpsCopyInputStream_PopLimit (d_input d) saved_limit\<rparr>, ptr, arr)))"

fun enum_packed_loop ::
  "nat \<Rightarrow> upb_Decoder \<Rightarrow> int \<Rightarrow> upb_Message \<Rightarrow> nat \<times> cell list \<Rightarrow> upb_MiniTableEnum \<Rightarrow> upb_MiniTableField \<Rightarrow>
     (upb_Decoder \<times> int \<times> upb_Message \<times> nat \<times> cell list) decres" where
  "enum_packed_loop 0 d ptr um arr e f = Inl DecodeOutOfFuel"
| "enum_packed_loop (Suc fuel) d ptr um arr e f =
     bindE (upb_Decoder_IsDone d ptr) (\<lambda>(done, d, ptr).
       if done then Inr (d, ptr, um, arr)
       else
         bindE (upb_Decoder_DecodeVarint d ptr) (\<lambda>(ptr, elem).
         bindE (upb_Decoder_CheckEnum d um e f elem) (\<lambda>(known, d, um).
         if \<not> known then enum_packed_loop fuel d ptr um arr e f
         else
           bindE (upb_Decoder_Reserve d arr 2 1) (\<lambda>(d, arr).
           enum_packed_loop fuel d ptr um (append_elem arr (scalar_cell 4 elem)) e f))))"

definition upb_Decoder_DecodeEnumPacked ::
  "nat \<Rightarrow> upb_Decoder \<Rightarrow> int \<Rightarrow> upb_Message \<Rightarrow> nat \<times> cell list \<Rightarrow> upb_MiniTableSub list \<Rightarrow>
     upb_MiniTableField \<Rightarrow> wireval \<Rightarrow> (upb_Decoder \<times> int \<times> upb_Message \<times> nat \<times> cell list) decres" where
  "upb_Decoder_DecodeEnumPacked fuel d ptr um arr subs f val =
     (let en = upb_MiniTableSubs_EnumByField subs f;
          (saved_limit, e) = upb_EpsCopyInputStream_PushLimit (d_input d) ptr (uint (ucast val :: u32)) in
      bindE (enum_packed_loop fuel (d\<lparr>d_input := e\<rparr>) ptr um arr en f) (\<lambda>(d, ptr, um, arr).
        Inr (d\<lparr>d_input := upb_EpsCopyInputStream_PopLimit (d_input d) saved_limit\<rparr>, ptr, um, arr)))"

text \<open>
  \<open>_upb_Decoder_DecodeToArray\<close>: \<open>mem\<close> is the array field of the message, or the data of the
  extension.
\<close>

definition upb_Decoder_DecodeToArray ::
  "decode_env \<Rightarrow> decode_message \<Rightarrow> nat \<Rightarrow> upb_Decoder \<Rightarrow> int \<Rightarrow> upb_Message \<Rightarrow> cell \<Rightarrow>
     upb_MiniTableSub list \<Rightarrow> upb_MiniTableField \<Rightarrow> wireval \<Rightarrow> int \<Rightarrow>
     (upb_Decoder \<times> int \<times> upb_Message \<times> cell) decres" where
  "upb_Decoder_DecodeToArray env dm fuel d ptr um mem subs f val op =
     (let lg2 = upb_FieldType_SizeLg2 (mtf_descriptortype f);
          sz = (ucast val :: u32);
          array = (\<lambda>d ptr um arr. Inr (d, ptr, um, CArr (fst arr) (snd arr))) in
      bindE (case mem of
               CArr capacity elems \<Rightarrow> upb_Decoder_Reserve d (capacity, elems) lg2 1
             | CZero \<Rightarrow> upb_Decoder_CreateArray d f
             | _ \<Rightarrow> Inl DecodeWildRead) (\<lambda>(d, arr).
      if op = 0 \<or> op = 2 \<or> op = 3 then array d ptr um (append_elem arr (scalar_cell (2 ^ nat op) val))
      else if op = 4 \<or> op = 5 then
        bindE (if op = 4 then upb_Decoder_VerifyUtf8 env d ptr sz else Inr ()) (\<lambda>_.
        bindE (upb_Decoder_ReadString d ptr (uint sz)) (\<lambda>(d, bytes, ptr).
        array d ptr um (append_elem arr (CStr bytes))))
      else if op = 6 then
        bindE (upb_Decoder_NewSubMessage env d subs f) (\<lambda>(d, is_empty, submsg).
        bindE (if mtf_descriptortype f = kUpb_FieldType_Group
               then upb_Decoder_DecodeKnownGroup dm d ptr submsg subs f
               else upb_Decoder_DecodeSubMessage dm d ptr submsg
                      (upb_MiniTableSubs_MessageByField subs f) sz) (\<lambda>(d, ptr, submsg).
        array d ptr um (append_elem arr (CSub is_empty submsg))))
      else if op = 7 \<or> op = 8 then
        bindE (upb_Decoder_DecodeFixedPacked d ptr arr val f (nat (op - 5))) (\<lambda>(d, ptr, arr). array d ptr um arr)
      else if op = 9 \<or> op = 11 \<or> op = 12 then
        bindE (upb_Decoder_DecodeVarintPacked fuel d ptr arr val f (nat (op - 9))) (\<lambda>(d, ptr, arr). array d ptr um arr)
      else if op = 1 then
        bindE (upb_Decoder_DecodeEnumArray d ptr um arr subs f val) (\<lambda>(d, ptr, um, arr). array d ptr um arr)
      else if op = 13 then
        bindE (upb_Decoder_DecodeEnumPacked fuel d ptr um arr subs f val) (\<lambda>(d, ptr, um, arr). array d ptr um arr)
      else Inl DecodeWildRead))"

section \<open>Maps\<close>

text \<open>A map entry is parsed as a message whose fields are the key and the value.\<close>

definition map_key_is_string :: "upb_FieldType \<Rightarrow> bool" where
  "map_key_is_string t \<longleftrightarrow> t = kUpb_FieldType_String \<or> t = kUpb_FieldType_Bytes"

definition upb_Decoder_CreateMap ::
  "decode_env \<Rightarrow> upb_Decoder \<Rightarrow> upb_MiniTable \<Rightarrow> (upb_Decoder \<times> cell) decres" where
  "upb_Decoder_CreateMap env d entry =
     (case env_map_new env (map_key_is_string (mtf_descriptortype (mt_fields entry ! 0))) (d_arena d) of
        None \<Rightarrow> Inl kUpb_DecodeStatus_OutOfMemory
      | Some (m, a) \<Rightarrow> Inr (d\<lparr>d_arena := a\<rparr>, m))"

text \<open>The key in memory as the map reads it: zeroed memory is 0 or the empty string.\<close>

definition map_key :: "upb_FieldType \<Rightarrow> cell \<Rightarrow> cell" where
  "map_key t c = (if map_key_is_string t then CStr (cell_str c) else CScalar (cell_u64 c))"

definition upb_Decoder_AddMapEntryUnknown ::
  "decode_env \<Rightarrow> upb_Decoder \<Rightarrow> upb_Message \<Rightarrow> upb_MiniTableField \<Rightarrow> upb_Message \<Rightarrow> mt_ref \<Rightarrow>
     (upb_Decoder \<times> upb_Message) decres" where
  "upb_Decoder_AddMapEntryUnknown env d um f ent_msg entry =
     (case upb_Encode (\<lambda>n. arena_malloc (d_arena d) (arena_requests (d_arena d)) n \<noteq> None)
             (env_tabs env) (Suc (size ent_msg)) ent_msg entry 0 of
        (kUpb_EncodeStatus_Ok, Some buf) \<Rightarrow>
          let tag = push_bit 3 (mtf_number f) OR 2;
              delim = upb_Decoder_EncodeVarint32 tag @ upb_Decoder_EncodeVarint32 (of_nat (length buf))
          in add_unknown_v (d\<lparr>d_arena := (d_arena d)\<lparr>arena_requests := arena_requests (d_arena d) + 1\<rparr>\<rparr>)
               um [delim, buf]
      | _ \<Rightarrow> Inl kUpb_DecodeStatus_OutOfMemory)"

definition upb_Decoder_DecodeToMap ::
  "decode_env \<Rightarrow> decode_message \<Rightarrow> upb_Decoder \<Rightarrow> int \<Rightarrow> upb_Message \<Rightarrow> cell \<Rightarrow>
     upb_MiniTableSub list \<Rightarrow> upb_MiniTableField \<Rightarrow> wireval \<Rightarrow>
     (upb_Decoder \<times> int \<times> upb_Message \<times> cell) decres" where
  "upb_Decoder_DecodeToMap env dm d ptr um mem subs f val =
     (let entry = upb_MiniTableSubs_MessageByField subs f;
          m = env_tabs env entry;
          kf = mt_fields m ! 0; vf = mt_fields m ! 1 in
      bindE (case mem of
               CMap s arr tab \<Rightarrow> Inr (d, mem)
             | CZero \<Rightarrow> upb_Decoder_CreateMap env d m
             | _ \<Rightarrow> Inl DecodeWildRead) (\<lambda>(d, map).
      bindE (if mtf_descriptortype vf = kUpb_FieldType_Message \<or> mtf_descriptortype vf = kUpb_FieldType_Group
             then bindE (upb_Decoder_NewSubMessage env d (mt_subs m) vf) (\<lambda>(d, is_empty, sub).
                    Inr (d, set_cell new_message (unat (mtf_offset vf)) (CSub is_empty sub)))
             else Inr (d, new_message)) (\<lambda>(d, ent).
      bindE (upb_Decoder_DecodeSubMessage dm d ptr ent entry (ucast val)) (\<lambda>(d, ptr, ent).
      if upb_Message_HasUnknown (upb_Message_GetInternal ent) then
        bindE (upb_Decoder_AddMapEntryUnknown env d um f ent entry) (\<lambda>(d, um). Inr (d, ptr, um, map))
      else
        (case env_map_insert env map (map_key (mtf_descriptortype kf) (msg_cell ent (unat (mtf_offset kf))))
                (msg_cell ent (unat (mtf_offset vf))) (d_arena d) of
           None \<Rightarrow> Inl kUpb_DecodeStatus_OutOfMemory
         | Some (map, a) \<Rightarrow> Inr (d\<lparr>d_arena := a\<rparr>, ptr, um, map))))))"

section \<open>Scalar fields\<close>

text \<open>
  Presence, in \<open>_upb_Decoder_DecodeToSubMessage\<close>: the hasbit, or the oneof case, where a member
  that becomes current with a submessage starts from NULL. An extension has neither.
\<close>

definition set_presence ::
  "upb_Message \<Rightarrow> cell \<Rightarrow> upb_MiniTableField \<Rightarrow> int \<Rightarrow> upb_Message \<times> cell" where
  "set_presence um mem f op =
     (if upb_MiniTableField_HasHasbit f then (upb_Message_SetHasbit um f, mem)
      else if upb_MiniTableField_IsInOneof f then
        (upb_Message_SetOneofCase um f,
         if op = 6 \<and> upb_Message_GetOneofCase um f \<noteq> mtf_number f then CZero else mem)
      else (um, mem))"

definition upb_Decoder_DecodeToSubMessage ::
  "decode_env \<Rightarrow> decode_message \<Rightarrow> decode_bytes \<Rightarrow> upb_Decoder \<Rightarrow> int \<Rightarrow> upb_Message \<Rightarrow> cell \<Rightarrow>
     upb_MiniTableSub list \<Rightarrow> upb_MiniTableField \<Rightarrow> wireval \<Rightarrow> int \<Rightarrow>
     (upb_Decoder \<times> int \<times> upb_Message \<times> cell) decres" where
  "upb_Decoder_DecodeToSubMessage env dm dec d ptr um mem subs f val op =
     (let sz = (ucast val :: u32) in
      bindE (if op = 1 then upb_Decoder_CheckEnum d um (upb_MiniTableSubs_EnumByField subs f) f val
             else Inr (True, d, um)) (\<lambda>(known, d, um).
      if \<not> known then Inr (d, ptr, um, mem)
      else
        let (um, mem) = set_presence um mem f op in
        if op = 6 then
          bindE (case mem of
                   CSub is_empty sub \<Rightarrow> upb_Decoder_ReuseSubMessage env dec d subs f is_empty sub
                 | CZero \<Rightarrow> upb_Decoder_NewSubMessage env d subs f
                 | _ \<Rightarrow> Inl DecodeWildRead) (\<lambda>(d, is_empty, submsg).
          bindE (if mtf_descriptortype f = kUpb_FieldType_Group
                 then upb_Decoder_DecodeKnownGroup dm d ptr submsg subs f
                 else upb_Decoder_DecodeSubMessage dm d ptr submsg
                        (upb_MiniTableSubs_MessageByField subs f) sz) (\<lambda>(d, ptr, submsg).
          Inr (d, ptr, um, CSub is_empty submsg)))
        else if op = 4 \<or> op = 5 then
          bindE (if op = 4 then upb_Decoder_VerifyUtf8 env d ptr sz else Inr ()) (\<lambda>_.
          bindE (upb_Decoder_ReadString d ptr (uint sz)) (\<lambda>(d, bytes, ptr).
          Inr (d, ptr, um, CStr bytes)))
        else if op = 3 then Inr (d, ptr, um, scalar_cell 8 val)
        else if op = 1 \<or> op = 2 then Inr (d, ptr, um, scalar_cell 4 val)
        else if op = 0 then Inr (d, ptr, um, scalar_cell 1 val)
        else Inl DecodeWildRead))"

section \<open>Message sets\<close>

definition upb_Decoder_SkipField ::
  "decode_message \<Rightarrow> upb_Decoder \<Rightarrow> int \<Rightarrow> u32 \<Rightarrow> (upb_Decoder \<times> int) decres" where
  "upb_Decoder_SkipField dm d ptr tag =
     (let field_number = drop_bit 3 tag; wire_type = tag AND 7 in
      if wire_type = 0 then bindE (upb_Decoder_DecodeVarint d ptr) (\<lambda>(ptr, _). Inr (d, ptr))
      else if wire_type = 1 then Inr (d, ptr + 8)
      else if wire_type = 5 then Inr (d, ptr + 4)
      else if wire_type = 2 then
        bindE (upb_Decoder_DecodeSize d ptr) (\<lambda>(ptr, sz). Inr (d, ptr + uint sz))
      else if wire_type = 3 then upb_Decoder_DecodeUnknownGroup dm d ptr field_number
      else Inl kUpb_DecodeStatus_Malformed)"

text \<open>The \<open>n\<close> bytes of the caller's buffer at an address, if they are in it.\<close>

definition input_bytes :: "eps_stream \<Rightarrow> int \<Rightarrow> nat \<Rightarrow> byte list option" where
  "input_bytes e p n =
     (if n = 0 then Some []
      else if eps_buffer_start e \<le> p \<and> p + int n \<le> eps_buffer_start e + int (length (eps_input e))
      then Some (take n (drop (nat (p - eps_buffer_start e)) (eps_input e)))
      else None)"

text \<open>Writing an extension's data back into the message that holds it.\<close>

definition set_ext_data :: "upb_Message \<Rightarrow> upb_MiniTableExtension \<Rightarrow> cell \<Rightarrow> upb_Message" where
  "set_ext_data msg e c =
     (case upb_Message_GetInternal msg of
        None \<Rightarrow> msg
      | Some i \<Rightarrow>
          upb_Message_SetInternal msg (i\<lparr>in_aux := map (\<lambda>p. case p of
              AuxExtension x \<Rightarrow> if ext_ext x = e then AuxExtension (Extension e c) else p
            | _ \<Rightarrow> p) (in_aux i)\<rparr>))"

definition get_or_create_ext ::
  "upb_Decoder \<Rightarrow> upb_Message \<Rightarrow> upb_MiniTableExtension \<Rightarrow> (upb_Decoder \<times> upb_Message \<times> cell) decres" where
  "get_or_create_ext d msg e =
     (case upb_Message_GetOrCreateExtension (upb_Message_GetInternal msg) e (d_arena d) of
        None \<Rightarrow> Inl kUpb_DecodeStatus_OutOfMemory
      | Some (x, i, a) \<Rightarrow> Inr (d\<lparr>d_arena := a\<rparr>, upb_Message_SetInternal msg i, ext_data x))"

definition upb_Decoder_AddKnownMessageSetItem ::
  "decode_env \<Rightarrow> decode_bytes \<Rightarrow> upb_Decoder \<Rightarrow> upb_Message \<Rightarrow> upb_MiniTableExtension \<Rightarrow> int \<Rightarrow> nat \<Rightarrow>
     (upb_Decoder \<times> upb_Message) decres" where
  "upb_Decoder_AddKnownMessageSetItem env dec d msg item_mt data sz =
     bindE (get_or_create_ext d msg item_mt) (\<lambda>(d, msg, _).
     bindE (upb_Decoder_NewSubMessage2 env d
              (case mx_sub item_mt of SubMsg m \<Rightarrow> m | SubEnum _ \<Rightarrow> MT_Empty)) (\<lambda>(d, is_empty, submsg).
     let addr = upb_EpsCopyInputStream_GetInputPtr (d_input d) data in
     case input_bytes (d_input d) addr sz of
       None \<Rightarrow> Inl DecodeWildRead
     | Some bytes \<Rightarrow>
         (case dec addr bytes submsg (the (upb_MiniTableExtension_GetSubMessage item_mt)) (d_options d) (d_arena d) of
            (status, submsg, a) \<Rightarrow>
              if status \<noteq> kUpb_DecodeStatus_Ok then Inl status
              else Inr (d\<lparr>d_arena := a\<rparr>, set_ext_data msg item_mt (CSub is_empty submsg)))))"

text \<open>The tags of a message set item: 11, 12, 16 and 26.\<close>

definition kStartItemTag :: u32 where "kStartItemTag = push_bit 3 1 OR 3"
definition kEndItemTag :: u32 where "kEndItemTag = push_bit 3 1 OR 4"
definition kTypeIdTag :: u32 where "kTypeIdTag = push_bit 3 2 OR 0"
definition kMessageTag :: u32 where "kMessageTag = push_bit 3 3 OR 2"

definition upb_Decoder_AddUnknownMessageSetItem ::
  "upb_Decoder \<Rightarrow> upb_Message \<Rightarrow> u32 \<Rightarrow> byte list \<Rightarrow> (upb_Decoder \<times> upb_Message) decres" where
  "upb_Decoder_AddUnknownMessageSetItem d msg type_id message_data =
     add_unknown_v d msg
       [upb_Decoder_EncodeVarint32 kStartItemTag @ upb_Decoder_EncodeVarint32 kTypeIdTag @
          upb_Decoder_EncodeVarint32 type_id @ upb_Decoder_EncodeVarint32 kMessageTag @
          upb_Decoder_EncodeVarint32 (of_nat (length message_data)),
        message_data,
        upb_Decoder_EncodeVarint32 kEndItemTag]"

definition upb_Decoder_AddMessageSetItem ::
  "decode_env \<Rightarrow> decode_bytes \<Rightarrow> upb_Decoder \<Rightarrow> upb_Message \<Rightarrow> mt_ref \<Rightarrow> u32 \<Rightarrow> int \<Rightarrow> nat \<Rightarrow>
     (upb_Decoder \<times> upb_Message) decres" where
  "upb_Decoder_AddMessageSetItem env dec d msg t type_id data sz =
     (case (case env_extreg env of None \<Rightarrow> None | Some lookup \<Rightarrow> lookup t type_id) of
        Some item_mt \<Rightarrow> upb_Decoder_AddKnownMessageSetItem env dec d msg item_mt data sz
      | None \<Rightarrow> upb_Decoder_AddUnknownMessageSetItem d msg type_id (bytes_at (eps_mem (d_input d)) data sz))"

text \<open>
  The item loop. \<open>have_id\<close> and \<open>have_payload\<close> are the bits of \<open>state_mask\<close>; \<open>preserved\<close> is the
  payload seen before its id.
\<close>

fun message_set_item_loop ::
  "nat \<Rightarrow> decode_env \<Rightarrow> decode_message \<Rightarrow> decode_bytes \<Rightarrow> mt_ref \<Rightarrow> upb_Decoder \<Rightarrow> int \<Rightarrow> upb_Message \<Rightarrow>
     u32 \<Rightarrow> int \<times> nat \<Rightarrow> bool \<Rightarrow> bool \<Rightarrow> (upb_Decoder \<times> int \<times> upb_Message) decres" where
  "message_set_item_loop 0 env dm dec t d ptr msg type_id preserved have_id have_payload = Inl DecodeOutOfFuel"
| "message_set_item_loop (Suc fuel) env dm dec t d ptr msg type_id preserved have_id have_payload =
     bindE (upb_Decoder_IsDone d ptr) (\<lambda>(done, d, ptr).
       if done then Inl kUpb_DecodeStatus_Malformed
       else
         bindE (upb_Decoder_DecodeTag d ptr) (\<lambda>(ptr, tag).
         if tag = kEndItemTag then Inr (d, ptr, msg)
         else if tag = kTypeIdTag then
           bindE (upb_Decoder_DecodeVarint d ptr) (\<lambda>(ptr, tmp).
           if have_id then
             message_set_item_loop fuel env dm dec t d ptr msg type_id preserved have_id have_payload
           else
             let type_id = ucast tmp in
             bindE (if have_payload
                    then upb_Decoder_AddMessageSetItem env dec d msg t type_id (fst preserved) (snd preserved)
                    else Inr (d, msg)) (\<lambda>(d, msg).
             message_set_item_loop fuel env dm dec t d ptr msg type_id preserved True have_payload))
         else if tag = kMessageTag then
           bindE (upb_Decoder_DecodeSize d ptr) (\<lambda>(data, sz).
           let ptr = data + uint sz in
           if have_payload then
             message_set_item_loop fuel env dm dec t d ptr msg type_id preserved have_id have_payload
           else if have_id then
             bindE (upb_Decoder_AddMessageSetItem env dec d msg t type_id data (unat sz)) (\<lambda>(d, msg).
             message_set_item_loop fuel env dm dec t d ptr msg type_id preserved have_id True)
           else message_set_item_loop fuel env dm dec t d ptr msg type_id (data, unat sz) have_id True)
         else
           bindE (upb_Decoder_SkipField dm d ptr tag) (\<lambda>(d, ptr).
           message_set_item_loop fuel env dm dec t d ptr msg type_id preserved have_id have_payload)))"

definition upb_Decoder_DecodeMessageSetItem ::
  "nat \<Rightarrow> decode_env \<Rightarrow> decode_message \<Rightarrow> decode_bytes \<Rightarrow> upb_Decoder \<Rightarrow> int \<Rightarrow> upb_Message \<Rightarrow> mt_ref \<Rightarrow>
     (upb_Decoder \<times> int \<times> upb_Message) decres" where
  "upb_Decoder_DecodeMessageSetItem fuel env dm dec d ptr msg layout =
     message_set_item_loop fuel env dm dec layout d ptr msg 0 (0, 0) False False"

section \<open>Finding the field\<close>

text \<open>
  The fields a lookup can give: the two static fake fields, or a field of the message's table or
  of an extension, of which it is the first member.
\<close>

datatype found_field =
  FieldNotFound | FoundMessageSetItem | FoundField upb_MiniTableField "upb_MiniTableExtension option"

definition upb_Decoder_FindExtensionField ::
  "decode_env \<Rightarrow> mt_ref \<Rightarrow> u32 \<Rightarrow> upb_ExtMode \<Rightarrow> u32 \<Rightarrow> found_field" where
  "upb_Decoder_FindExtensionField env t field_number ext_mode wire_type =
     (if ext_mode = kUpb_ExtMode_Extendable \<or> (ext_mode = kUpb_ExtMode_IsMessageSet \<and> wire_type = 2) then
        (case the (env_extreg env) t field_number of
           Some ext \<Rightarrow> FoundField (mx_field ext) (Some ext)
         | None \<Rightarrow> FieldNotFound)
      else if ext_mode = kUpb_ExtMode_IsMessageSet then
        (if field_number = 1 then FoundMessageSetItem else FieldNotFound)
      else FieldNotFound)"

definition upb_Decoder_FindField :: "decode_env \<Rightarrow> mt_ref option \<Rightarrow> u32 \<Rightarrow> u32 \<Rightarrow> found_field" where
  "upb_Decoder_FindField env t field_number wire_type =
     (case t of
        None \<Rightarrow> FieldNotFound
      | Some r \<Rightarrow>
          let m = env_tabs env r in
          case upb_MiniTable_FindFieldByNumber m field_number of
            Some i \<Rightarrow> FoundField (mt_fields m ! i) None
          | None \<Rightarrow>
              if env_extreg env \<noteq> None \<and> mt_ext m \<noteq> kUpb_ExtMode_NonExtendable
              then upb_Decoder_FindExtensionField env r field_number (mt_ext m) wire_type
              else FieldNotFound)"

definition upb_Decoder_GetVarintOp :: "found_field \<Rightarrow> int" where
  "upb_Decoder_GetVarintOp ff =
     (case ff of
        FoundField f _ \<Rightarrow>
          (case mtf_descriptortype f of
             kUpb_FieldType_Int64 \<Rightarrow> 3 | kUpb_FieldType_UInt64 \<Rightarrow> 3
           | kUpb_FieldType_Int32 \<Rightarrow> 2 | kUpb_FieldType_Bool \<Rightarrow> 0
           | kUpb_FieldType_UInt32 \<Rightarrow> 2 | kUpb_FieldType_Enum \<Rightarrow> 1
           | kUpb_FieldType_SInt32 \<Rightarrow> 2 | kUpb_FieldType_SInt64 \<Rightarrow> 3
           | _ \<Rightarrow> - 1)
      | _ \<Rightarrow> - 1)"

definition upb_Decoder_CheckUnlinked ::
  "decode_env \<Rightarrow> upb_Decoder \<Rightarrow> mt_ref option \<Rightarrow> upb_MiniTableField \<Rightarrow> int \<Rightarrow> int" where
  "upb_Decoder_CheckUnlinked env d mt f op =
     (if upb_MiniTableField_IsExtension f then op
      else
        let mt_sub = upb_MiniTableSubs_MessageByField (mt_subs (env_tabs env (the mt))) f in
        if d_options d AND kUpb_DecodeOption_ExperimentalAllowUnlinked \<noteq> 0 \<or> \<not> upb_MiniTable_IsEmpty mt_sub
        then op else - 1)"

definition upb_Decoder_MaybeVerifyUtf8 :: "upb_Decoder \<Rightarrow> upb_MiniTableField \<Rightarrow> int \<Rightarrow> int" where
  "upb_Decoder_MaybeVerifyUtf8 d f op =
     (if upb_MiniTableField_IsAlternate f \<and> d_options d AND kUpb_DecodeOption_AlwaysValidateUtf8 \<noteq> 0
      then 4 else op)"

text \<open>The table \<open>kDelimitedOps\<close>; the fake message set item has the op of a submessage.\<close>

definition delimited_op :: "found_field \<Rightarrow> int" where
  "delimited_op ff =
     (case ff of
        FieldNotFound \<Rightarrow> - 1
      | FoundMessageSetItem \<Rightarrow> 6
      | FoundField f _ \<Rightarrow>
          if \<not> upb_MiniTableField_IsArray f then
            (case mtf_descriptortype f of
               kUpb_FieldType_String \<Rightarrow> 4 | kUpb_FieldType_Message \<Rightarrow> 6 | kUpb_FieldType_Bytes \<Rightarrow> 5 | _ \<Rightarrow> - 1)
          else
            (case mtf_descriptortype f of
               kUpb_FieldType_Double \<Rightarrow> 8 | kUpb_FieldType_Float \<Rightarrow> 7
             | kUpb_FieldType_Int64 \<Rightarrow> 12 | kUpb_FieldType_UInt64 \<Rightarrow> 12 | kUpb_FieldType_Int32 \<Rightarrow> 11
             | kUpb_FieldType_Fixed64 \<Rightarrow> 8 | kUpb_FieldType_Fixed32 \<Rightarrow> 7 | kUpb_FieldType_Bool \<Rightarrow> 9
             | kUpb_FieldType_String \<Rightarrow> 4 | kUpb_FieldType_Group \<Rightarrow> 6 | kUpb_FieldType_Message \<Rightarrow> 6
             | kUpb_FieldType_Bytes \<Rightarrow> 5 | kUpb_FieldType_UInt32 \<Rightarrow> 11 | kUpb_FieldType_Enum \<Rightarrow> 13
             | kUpb_FieldType_SFixed32 \<Rightarrow> 7 | kUpb_FieldType_SFixed64 \<Rightarrow> 8
             | kUpb_FieldType_SInt32 \<Rightarrow> 11 | kUpb_FieldType_SInt64 \<Rightarrow> 12))"

definition upb_Decoder_GetDelimitedOp ::
  "decode_env \<Rightarrow> upb_Decoder \<Rightarrow> mt_ref option \<Rightarrow> found_field \<Rightarrow> int" where
  "upb_Decoder_GetDelimitedOp env d mt ff =
     (let op = delimited_op ff in
      case ff of
        FoundField f _ \<Rightarrow>
          if op = 6 then upb_Decoder_CheckUnlinked env d mt f op
          else if op = 5 then upb_Decoder_MaybeVerifyUtf8 d f op
          else op
      | _ \<Rightarrow> op)"

definition fixed32_ok :: "found_field \<Rightarrow> bool" where
  "fixed32_ok ff = (case ff of FoundField f _ \<Rightarrow> mtf_descriptortype f \<in>
     {kUpb_FieldType_Float, kUpb_FieldType_Fixed32, kUpb_FieldType_SFixed32} | _ \<Rightarrow> False)"

definition fixed64_ok :: "found_field \<Rightarrow> bool" where
  "fixed64_ok ff = (case ff of FoundField f _ \<Rightarrow> mtf_descriptortype f \<in>
     {kUpb_FieldType_Double, kUpb_FieldType_Fixed64, kUpb_FieldType_SFixed64} | _ \<Rightarrow> False)"

definition munge_found :: "found_field \<Rightarrow> wireval \<Rightarrow> wireval" where
  "munge_found ff val = (case ff of FoundField f _ \<Rightarrow> upb_Decoder_Munge (mtf_descriptortype f) val | _ \<Rightarrow> val)"

text \<open>The pointer after the value, the value (before, it is uninitialised), and the op.\<close>

definition upb_Decoder_DecodeWireValue ::
  "decode_env \<Rightarrow> upb_Decoder \<Rightarrow> int \<Rightarrow> mt_ref option \<Rightarrow> found_field \<Rightarrow> u32 \<Rightarrow> wireval \<Rightarrow> (int \<times> wireval \<times> int) decres" where
  "upb_Decoder_DecodeWireValue env d ptr mt ff wire_type val =
     (if wire_type = 0 then
        bindE (upb_Decoder_DecodeVarint d ptr) (\<lambda>(ptr, v).
          Inr (ptr, munge_found ff v, upb_Decoder_GetVarintOp ff))
      else if wire_type = 5 then
        Inr (ptr + 4, wireval_set_uint32 val (ucast (le_u64 (bytes_at (eps_mem (d_input d)) ptr 4))),
             if fixed32_ok ff then 2 else - 1)
      else if wire_type = 1 then
        Inr (ptr + 8, le_u64 (bytes_at (eps_mem (d_input d)) ptr 8), if fixed64_ok ff then 3 else - 1)
      else if wire_type = 2 then
        bindE (upb_Decoder_DecodeSize d ptr) (\<lambda>(ptr, sz).
          Inr (ptr, wireval_set_uint32 val sz, upb_Decoder_GetDelimitedOp env d mt ff))
      else if wire_type = 3 then
        (case ff of
           FoundField f _ \<Rightarrow>
             Inr (ptr, wireval_set_uint32 val (mtf_number f),
                  if mtf_descriptortype f = kUpb_FieldType_Group
                  then upb_Decoder_CheckUnlinked env d mt f 6 else - 1)
         | FoundMessageSetItem \<Rightarrow> Inr (ptr, wireval_set_uint32 val 0, - 2)
         | FieldNotFound \<Rightarrow> Inr (ptr, wireval_set_uint32 val 0, - 1))
      else Inl kUpb_DecodeStatus_Malformed)"

section \<open>Known and unknown fields\<close>

definition upb_Decoder_DecodeKnownField ::
  "decode_env \<Rightarrow> decode_message \<Rightarrow> decode_bytes \<Rightarrow> nat \<Rightarrow> upb_Decoder \<Rightarrow> int \<Rightarrow> upb_Message \<Rightarrow> mt_ref \<Rightarrow>
     found_field \<Rightarrow> int \<Rightarrow> wireval \<Rightarrow> (upb_Decoder \<times> int \<times> upb_Message) decres" where
  "upb_Decoder_DecodeKnownField env dm dec fuel d ptr msg layout ff op val =
     (case ff of
        FoundField f ext \<Rightarrow>
          let run = (\<lambda>d msg mem subs.
            case upb_MiniTableField_Mode f of
              Some kUpb_FieldMode_Array \<Rightarrow> upb_Decoder_DecodeToArray env dm fuel d ptr msg mem subs f val op
            | Some kUpb_FieldMode_Map \<Rightarrow> upb_Decoder_DecodeToMap env dm d ptr msg mem subs f val
            | Some kUpb_FieldMode_Scalar \<Rightarrow> upb_Decoder_DecodeToSubMessage env dm dec d ptr msg mem subs f val op
            | None \<Rightarrow> Inl DecodeWildRead) in
          if upb_MiniTableField_IsExtension f then
            (case ext of
               None \<Rightarrow> Inl DecodeWildRead
             | Some e \<Rightarrow>
                 bindE (get_or_create_ext d msg e) (\<lambda>(d, msg, mem).
                 bindE (run d msg mem [mx_sub e]) (\<lambda>(d, ptr, msg, mem).
                 Inr (d, ptr, set_ext_data msg e mem))))
          else
            let off = unat (mtf_offset f) in
            bindE (run d msg (msg_cell msg off) (mt_subs (env_tabs env layout))) (\<lambda>(d, ptr, msg, mem).
              Inr (d, ptr, set_cell msg off mem))
      | _ \<Rightarrow> Inl DecodeWildRead)"

text \<open>
  Walking backwards from the value to the start of its tag. The loops have no bound in C; the
  bounds here are more than the longest varint.
\<close>

fun scan_varint_back :: "nat \<Rightarrow> memory \<Rightarrow> int \<Rightarrow> int option" where
  "scan_varint_back 0 mem start = None"
| "scan_varint_back (Suc n) mem start =
     (if mem (start - 1) AND 0x80 \<noteq> 0 then scan_varint_back n mem (start - 1) else Some start)"

fun scan_tag_back :: "nat \<Rightarrow> memory \<Rightarrow> int \<Rightarrow> u32 \<Rightarrow> u32 \<Rightarrow> int option" where
  "scan_tag_back 0 mem start seen tag = None"
| "scan_tag_back (Suc n) mem start seen tag =
     (let start = start - 1; seen = push_bit 7 seen OR ucast (mem start AND 0x7f)
      in if seen \<noteq> tag then scan_tag_back n mem start seen tag else Some start)"

definition unknown_field_start :: "memory \<Rightarrow> int \<Rightarrow> u32 \<Rightarrow> u32 \<Rightarrow> int option" where
  "unknown_field_start mem ptr field_number wire_type =
     (case (if wire_type = 0 \<or> wire_type = 2 then scan_varint_back 16 mem (ptr - 1)
            else if wire_type = 5 then Some (ptr - 4)
            else if wire_type = 1 then Some (ptr - 8)
            else Some ptr) of
        None \<Rightarrow> None
      | Some start \<Rightarrow> scan_tag_back 16 mem start 0 (push_bit 3 field_number OR wire_type))"

definition upb_Decoder_DecodeUnknownField ::
  "decode_message \<Rightarrow> upb_Decoder \<Rightarrow> int \<Rightarrow> upb_Message option \<Rightarrow> u32 \<Rightarrow> u32 \<Rightarrow> wireval \<Rightarrow>
     (upb_Decoder \<times> int \<times> upb_Message option) decres" where
  "upb_Decoder_DecodeUnknownField dm d ptr msg field_number wire_type val =
     (if field_number = 0 then Inl kUpb_DecodeStatus_Malformed
      else
        let after = (if wire_type = 2 then ptr + uint (ucast val :: u32) else ptr) in
        case msg of
          None \<Rightarrow>
            if wire_type = 3 then
              bindE (upb_Decoder_DecodeUnknownGroup dm d after field_number) (\<lambda>(d, ptr). Inr (d, ptr, None))
            else Inr (d, after, None)
        | Some m \<Rightarrow>
            (case unknown_field_start (eps_mem (d_input d)) ptr field_number wire_type of
               None \<Rightarrow> Inl DecodeOutOfFuel
             | Some start \<Rightarrow>
                 let input_start = upb_EpsCopyInputStream_GetInputPtr (d_input d) start in
                 bindE (if wire_type = 3 then upb_Decoder_DecodeUnknownGroup dm d after field_number
                        else Inr (d, after)) (\<lambda>(d, ptr).
                 bindE (upb_Decoder_IsDone d ptr) (\<lambda>(_, d, ptr).
                 let e = d_input d; input_ptr = upb_EpsCopyInputStream_GetInputPtr e ptr in
                 case input_bytes e input_start (nat (input_ptr - input_start)) of
                   None \<Rightarrow> Inl DecodeWildRead
                 | Some bytes \<Rightarrow>
                     bindE (add_unknown d m input_start bytes
                              (if eps_aliasing e then Some (eps_buffer_start e) else None)) (\<lambda>(d, m).
                     Inr (d, ptr, Some m))))))"

section \<open>Messages\<close>

definition upb_Decoder_DecodeFieldTag :: "upb_Decoder \<Rightarrow> int \<Rightarrow> (int \<times> u32 \<times> u32) decres" where
  "upb_Decoder_DecodeFieldTag d ptr =
     bindE (upb_Decoder_DecodeTag d ptr) (\<lambda>(ptr, tag). Inr (ptr, drop_bit 3 tag, tag AND 7))"

definition upb_Decoder_DecodeFieldData ::
  "decode_env \<Rightarrow> decode_message \<Rightarrow> decode_bytes \<Rightarrow> nat \<Rightarrow> upb_Decoder \<Rightarrow> int \<Rightarrow> upb_Message option \<Rightarrow>
     mt_ref option \<Rightarrow> u32 \<Rightarrow> u32 \<Rightarrow> (upb_Decoder \<times> int \<times> upb_Message option) decres" where
  "upb_Decoder_DecodeFieldData env dm dec fuel d ptr msg mt field_number wire_type =
     (let ff = upb_Decoder_FindField env mt field_number wire_type in
      bindE (upb_Decoder_DecodeWireValue env d ptr mt ff wire_type 0) (\<lambda>(ptr, val, op).
      if op \<ge> 0 then
        bindE (upb_Decoder_DecodeKnownField env dm dec fuel d ptr (the msg) (the mt) ff op val)
          (\<lambda>(d, ptr, msg). Inr (d, ptr, Some msg))
      else if op = - 1 then
        upb_Decoder_DecodeUnknownField dm d ptr msg field_number wire_type val
      else
        bindE (upb_Decoder_DecodeMessageSetItem fuel env dm dec d ptr (the msg) (the mt))
          (\<lambda>(d, ptr, msg). Inr (d, ptr, Some msg))))"

definition upb_Decoder_EndMessage ::
  "upb_Decoder \<Rightarrow> int \<Rightarrow> upb_Message option \<Rightarrow> (upb_Decoder \<times> int \<times> upb_Message option) decres" where
  "upb_Decoder_EndMessage d ptr msg = Inr (d\<lparr>d_message_is_done := True\<rparr>, ptr, msg)"

definition upb_Decoder_DecodeFieldNoFast ::
  "decode_env \<Rightarrow> decode_message \<Rightarrow> decode_bytes \<Rightarrow> nat \<Rightarrow> upb_Decoder \<Rightarrow> int \<Rightarrow> upb_Message option \<Rightarrow>
     mt_ref option \<Rightarrow> (upb_Decoder \<times> int \<times> upb_Message option) decres" where
  "upb_Decoder_DecodeFieldNoFast env dm dec fuel d ptr msg mt =
     bindE (upb_Decoder_DecodeFieldTag d ptr) (\<lambda>(ptr, field_number, wire_type).
       if wire_type = 4 then upb_Decoder_EndMessage (d\<lparr>d_end_group := field_number\<rparr>) ptr msg
       else upb_Decoder_DecodeFieldData env dm dec fuel d ptr msg mt field_number wire_type)"

definition upb_Decoder_DecodeField ::
  "decode_env \<Rightarrow> decode_message \<Rightarrow> decode_bytes \<Rightarrow> nat \<Rightarrow> upb_Decoder \<Rightarrow> int \<Rightarrow> upb_Message option \<Rightarrow>
     mt_ref option \<Rightarrow> (upb_Decoder \<times> int \<times> upb_Message option) decres" where
  "upb_Decoder_DecodeField env dm dec fuel d ptr msg mt =
     bindE (upb_Decoder_IsDone d ptr) (\<lambda>(done, d, ptr).
       if done then upb_Decoder_EndMessage d ptr msg
       else upb_Decoder_DecodeFieldNoFast env dm dec fuel d ptr msg mt)"

definition upb_Decoder_CheckRequired :: "decode_env \<Rightarrow> upb_Decoder \<Rightarrow> upb_Message \<Rightarrow> mt_ref \<Rightarrow> upb_Decoder" where
  "upb_Decoder_CheckRequired env d msg m =
     (if d_options d AND kUpb_DecodeOption_CheckRequired \<noteq> 0
      then d\<lparr>d_missing_required := \<not> upb_Message_IsInitializedShallow msg (env_tabs env m)\<rparr> else d)"

text \<open>\<open>_upb_Decoder_DecodeMessage\<close> around its loop.\<close>

definition upb_Decoder_DecodeMessage :: "decode_env \<Rightarrow> decode_message \<Rightarrow> decode_message" where
  "upb_Decoder_DecodeMessage env loop d ptr msg mt =
     bindE (loop d ptr msg mt) (\<lambda>(d, ptr, msg).
       let d = d\<lparr>d_message_is_done := False\<rparr> in
       case mt of
         Some m \<Rightarrow>
           if mt_required_count (env_tabs env m) \<noteq> 0
           then Inr (upb_Decoder_CheckRequired env d (the msg) m, ptr, msg)
           else Inr (d, ptr, msg)
       | None \<Rightarrow> Inr (d, ptr, msg))"

section \<open>\<open>upb_Decode\<close>\<close>

definition upb_DecodeOptions_GetMaxDepth :: "u32 \<Rightarrow> u16" where
  "upb_DecodeOptions_GetMaxDepth options = ucast (drop_bit 16 options)"

definition upb_DecodeOptions_GetEffectiveMaxDepth :: "u32 \<Rightarrow> u16" where
  "upb_DecodeOptions_GetEffectiveMaxDepth options =
     (let max_depth = upb_DecodeOptions_GetMaxDepth options in if max_depth \<noteq> 0 then max_depth else 100)"

definition upb_Decoder_Init ::
  "decode_env \<Rightarrow> int \<Rightarrow> byte list \<Rightarrow> u32 \<Rightarrow> upb_Arena \<Rightarrow> upb_Decoder \<times> int" where
  "upb_Decoder_Init env buf input options arena =
     (let (patch_addr, patch) = env_frame env buf (length input);
          (e, ptr) = upb_EpsCopyInputStream_Init input buf patch_addr patch
            (options AND kUpb_DecodeOption_AliasString \<noteq> 0) in
      (\<lparr>d_input = e, d_arena = arena,
        d_depth = uint (upb_DecodeOptions_GetEffectiveMaxDepth options),
        d_end_group = DECODE_NOGROUP, d_options = options AND 0xFFFF,
        d_missing_required = False, d_message_is_done = False\<rparr>, ptr))"

text \<open>The status, the message and the arena. After an error the C code leaves what was parsed so far in the
  message; the model gives the message as it was.\<close>

definition upb_Decoder_DecodeTop ::
  "decode_message \<Rightarrow> upb_Decoder \<Rightarrow> int \<Rightarrow> upb_Message \<Rightarrow> mt_ref \<Rightarrow>
     (upb_DecodeStatus \<times> upb_Decoder \<times> upb_Message) decres" where
  "upb_Decoder_DecodeTop dm d buf msg m =
     bindE (dm d buf (Some msg) (Some m)) (\<lambda>(d, _, msg).
       Inr (if d_end_group d \<noteq> DECODE_NOGROUP then kUpb_DecodeStatus_Malformed
            else if d_missing_required d then kUpb_DecodeStatus_MissingRequired
            else kUpb_DecodeStatus_Ok, d, the msg))"

definition upb_Decoder_Decode ::
  "decode_message \<Rightarrow> upb_Decoder \<Rightarrow> int \<Rightarrow> upb_Message \<Rightarrow> mt_ref \<Rightarrow> upb_Arena \<Rightarrow>
     upb_DecodeStatus \<times> upb_Message \<times> upb_Arena" where
  "upb_Decoder_Decode dm d buf msg m arena =
     (case upb_Decoder_DecodeTop dm d buf msg m of
        Inl status \<Rightarrow> (status, msg, arena)
      | Inr (status, d, msg) \<Rightarrow> (status, msg, d_arena d))"

definition decode_bytes_with :: "decode_env \<Rightarrow> decode_message \<Rightarrow> decode_bytes" where
  "decode_bytes_with env dm buf input msg mt options arena =
     (case upb_Decoder_Init env buf input options arena of
        (d, ptr) \<Rightarrow> upb_Decoder_Decode dm d ptr msg mt arena)"

text \<open>The loop of \<open>_upb_Decoder_DecodeMessage\<close>, which ties the recursive knot.\<close>

fun decode_message_loop :: "nat \<Rightarrow> decode_env \<Rightarrow> decode_message" where
  "decode_message_loop 0 env d ptr msg mt = Inl DecodeOutOfFuel"
| "decode_message_loop (Suc fuel) env d ptr msg mt =
     (let dm = upb_Decoder_DecodeMessage env (decode_message_loop fuel env) in
      bindE (upb_Decoder_DecodeField env dm (decode_bytes_with env dm) fuel d ptr msg mt)
        (\<lambda>(d, ptr, msg).
          if d_message_is_done d then Inr (d, ptr, msg)
          else decode_message_loop fuel env d ptr msg mt))"

definition upb_Decode ::
  "decode_env \<Rightarrow> nat \<Rightarrow> decode_bytes" where
  "upb_Decode env fuel = decode_bytes_with env (upb_Decoder_DecodeMessage env (decode_message_loop fuel env))"

text \<open>\<open>upb_DecodeLengthPrefixed\<close>: the length by hand, then the message; also the number of bytes read.\<close>

function length_prefix_loop :: "byte list \<Rightarrow> nat \<Rightarrow> u64 \<Rightarrow> (u64 \<times> nat \<times> u64) option" where
  "length_prefix_loop buf i msg_len =
     (if i \<ge> length buf \<or> i > 9 then None
      else
        let b = (ucast (buf ! i) :: u64);
            msg_len = msg_len + push_bit (i * 7) (b AND 0x7f) in
        if b AND 0x80 = 0 then Some (msg_len, i + 1, of_nat i + 1 + msg_len)
        else length_prefix_loop buf (i + 1) msg_len)"
  by pat_completeness auto
termination
  by (relation "measure (\<lambda>(buf, i, m). length buf - i)") auto

declare length_prefix_loop.simps [simp del]

definition upb_DecodeLengthPrefixed ::
  "decode_env \<Rightarrow> nat \<Rightarrow> int \<Rightarrow> byte list \<Rightarrow> upb_Message \<Rightarrow> mt_ref \<Rightarrow> u32 \<Rightarrow> upb_Arena \<Rightarrow>
     upb_DecodeStatus \<times> u64 \<times> upb_Message \<times> upb_Arena" where
  "upb_DecodeLengthPrefixed env fuel buf input msg mt options arena =
     (case length_prefix_loop input 0 0 of
        None \<Rightarrow> (kUpb_DecodeStatus_Malformed, 0, msg, arena)
      | Some (msg_len, i, num_bytes_read) \<Rightarrow>
          if num_bytes_read > of_nat (length input) then (kUpb_DecodeStatus_Malformed, num_bytes_read, msg, arena)
          else if msg_len > 0x7FFFFFFF then (kUpb_DecodeStatus_Malformed, num_bytes_read, msg, arena)
          else
            (case upb_Decode env fuel (buf + int i) (take (unat msg_len) (drop i input)) msg mt options arena of
               (status, msg, arena) \<Rightarrow> (status, num_bytes_read, msg, arena)))"

definition upb_DecodeStatus_String :: "upb_DecodeStatus \<Rightarrow> string" where
  "upb_DecodeStatus_String status =
     (case status of
        kUpb_DecodeStatus_Ok \<Rightarrow> ''Ok''
      | kUpb_DecodeStatus_Malformed \<Rightarrow> ''Wire format was corrupt''
      | kUpb_DecodeStatus_OutOfMemory \<Rightarrow> ''Arena alloc failed''
      | kUpb_DecodeStatus_BadUtf8 \<Rightarrow> ''String field had bad UTF-8''
      | kUpb_DecodeStatus_MaxDepthExceeded \<Rightarrow> ''Exceeded upb_DecodeOptions_MaxDepth''
      | kUpb_DecodeStatus_MissingRequired \<Rightarrow> ''Missing required field''
      | kUpb_DecodeStatus_UnlinkedSubMessage \<Rightarrow> ''Unlinked sub-message field was present''
      | _ \<Rightarrow> ''Unknown decode status'')"

end
