(* ===== verification/Decode_Runs.thy ===== *)
theory Decode_Runs
  imports Wire_Decode
begin

text \<open>
  Runs of the decoder on concrete inputs, evaluated by the kernel: two inputs on which the code
  does not do what it means to.
\<close>


text \<open>A small environment for runs of the decoder: an arena that always answers, maps that are never used.\<close>

definition run_arena :: upb_Arena where
  "run_arena = \<lparr>arena_malloc = (\<lambda>k n. Some 8192), arena_extend = (\<lambda>k p m n. False), arena_requests = 0\<rparr>"

definition run_env :: "(mt_ref \<Rightarrow> upb_MiniTable) \<Rightarrow> (mt_ref \<Rightarrow> u32 \<Rightarrow> upb_MiniTableExtension option) option \<Rightarrow> decode_env" where
  "run_env tabs extreg = \<lparr>env_tabs = tabs, env_extreg = extreg, env_utf8 = (\<lambda>_. True),
     env_map_new = (\<lambda>_ _. None), env_map_insert = (\<lambda>_ _ _ _. None), env_frame = (\<lambda>_ _. (0, replicate 32 0))\<rparr>"

definition required_field :: upb_MiniTableField where
  "required_field = \<lparr>mtf_number = 1, mtf_offset = 16, mtf_presence = 64, mtf_submsg_index = 0,
     mtf_descriptortype = kUpb_FieldType_Int32, mtf_mode = 0x42\<rparr>"

definition message_field :: upb_MiniTableField where
  "message_field = \<lparr>mtf_number = 2, mtf_offset = 24, mtf_presence = 65, mtf_submsg_index = 0,
     mtf_descriptortype = kUpb_FieldType_Message, mtf_mode = 0xC2\<rparr>"

text \<open>
  A parent \<open>MT 0\<close> with a required number and a child message \<open>MT 1\<close>, which has a required number
  too; \<open>MT 2\<close> is the parent without the requirement.
\<close>

definition required_tabs :: "mt_ref \<Rightarrow> upb_MiniTable" where
  "required_tabs r =
     (if r = MT 1 then \<lparr>mt_subs = [], mt_fields = [required_field], mt_size = 24,
        mt_ext = kUpb_ExtMode_NonExtendable, mt_dense_below = 1, mt_required_count = 1\<rparr>
      else \<lparr>mt_subs = [SubMsg (MT 1)], mt_fields = [required_field, message_field], mt_size = 32,
        mt_ext = kUpb_ExtMode_NonExtendable, mt_dense_below = 2,
        mt_required_count = (if r = MT 0 then 1 else 0)\<rparr>)"

text \<open>A message set with one known item, of type 5, whose message has the number above.\<close>

definition message_set_item :: upb_MiniTableExtension where
  "message_set_item = \<lparr>mx_field = \<lparr>mtf_number = 5, mtf_offset = 0, mtf_presence = 0, mtf_submsg_index = 0,
       mtf_descriptortype = kUpb_FieldType_Message, mtf_mode = 0xCA\<rparr>, mx_extendee = MT 0, mx_sub = SubMsg (MT 1)\<rparr>"

definition message_set_tabs :: "mt_ref \<Rightarrow> upb_MiniTable" where
  "message_set_tabs r =
     (if r = MT 0 then \<lparr>mt_subs = [], mt_fields = [], mt_size = 8,
        mt_ext = kUpb_ExtMode_IsMessageSet, mt_dense_below = 0, mt_required_count = 0\<rparr>
      else required_tabs r)"

definition message_set_env :: decode_env where
  "message_set_env = run_env message_set_tabs
     (Some (\<lambda>r n. if r = MT 0 \<and> n = 5 then Some message_set_item else None))"

section \<open>Properties\<close>



end
