(* ===== verification/Decode_Correct.thy ===== *)
theory Decode_Correct
  imports Wire_Decode
begin

text \<open>
  What the decoder does on the wire format: its varint readers agree with the wire reader's, its
  walk back from an unknown field's value finds the first byte of the tag, and decoding into a
  message type without fields keeps the input byte for byte.
\<close>

section \<open>The decoder's readers\<close>

definition option_decres :: "'a option \<Rightarrow> 'a decres" where
  "option_decres r = (case r of None \<Rightarrow> Inl kUpb_DecodeStatus_Malformed | Some x \<Rightarrow> Inr x)"

lemma option_decres_Inr [simp]: "option_decres r = Inr x \<longleftrightarrow> r = Some x"
  by (simp add: option_decres_def split: option.split)

lemma DecodeLongVarint_loop_eq:
  "DecodeLongVarint_loop mem ptr val i = option_decres (ReadLongVarint_loop mem ptr val i)"
proof (induction mem ptr val i rule: ReadLongVarint_loop.induct)
  case (1 mem ptr val i)
  then show ?case
    by (subst DecodeLongVarint_loop.simps, subst ReadLongVarint_loop.simps)
      (simp add: Let_def option_decres_def)
qed

lemma ReadLongVarint_loop_advances:
  "ReadLongVarint_loop mem ptr val i = Some (p, v) \<Longrightarrow> ptr + int i + 1 \<le> p"
proof (induction mem ptr val i rule: ReadLongVarint_loop.induct)
  case (1 mem ptr val i)
  from 1(2) 1(1) [OF _ refl refl] show ?case
    by (subst (asm) ReadLongVarint_loop.simps) (fastforce simp: Let_def split: if_splits)
qed

lemma DecodeLongTag_loop_iff:
  "DecodeLongTag_loop mem ptr val i = Inr (p, v) \<longleftrightarrow>
     ReadLongVarint_loop mem ptr val i = Some (p, v) \<and> p - ptr \<le> 5 \<and> v \<le> 0xFFFFFFFF"
proof (induction mem ptr val i rule: DecodeLongTag_loop.induct)
  case (1 mem ptr val i)
  show ?case
  proof (cases "i < 5")
    case True
    then show ?thesis using 1
      by (subst DecodeLongTag_loop.simps, subst ReadLongVarint_loop.simps) (auto simp: Let_def not_less)
  next
    case False
    then show ?thesis using ReadLongVarint_loop_advances [of mem ptr val i p v]
      by (subst DecodeLongTag_loop.simps) auto
  qed
qed

lemma DecodeVarint_eq:
  "upb_Decoder_DecodeVarint d ptr = option_decres (upb_WireReader_ReadVarint (eps_mem (d_input d)) ptr)"
proof (cases "bit (eps_mem (d_input d) ptr) 7")
  case True
  then have "\<not> (ucast (eps_mem (d_input d) ptr) :: u64) AND 0x80 = 0" by (simp add: and_0x80_iff)
  moreover have "\<not> 0xFFFFFFFFFFFFFFFF < (v :: u64)" for v
    using unsigned_less [where ?'a = nat and w = v] by (simp add: word_less_nat_alt)
  ultimately show ?thesis
    unfolding upb_Decoder_DecodeVarint_def upb_Decoder_DecodeLongVarint_def upb_WireReader_ReadVarint_def
      wr_ReadVarint_def upb_WireReader_ReadLongVarint_def DecodeLongVarint_loop_eq Let_def
    by (auto simp: option_decres_def split: option.split)
next
  case False
  then have b: "(ucast (eps_mem (d_input d) ptr) :: u64) AND 0x80 = 0" by (simp add: and_0x80_iff)
  have "(ucast (ucast (ucast (eps_mem (d_input d) ptr) :: u64) :: u32) :: u64) = ucast (eps_mem (d_input d) ptr)"
    by (rule bit_word_eqI) (auto simp: bit_simps dest: bit_imp_le_length)
  with b show ?thesis
    unfolding upb_Decoder_DecodeVarint_def upb_WireReader_ReadVarint_def wr_ReadVarint_def Let_def
    by (simp add: option_decres_def)
qed

lemma DecodeVarint_iff:
  "upb_Decoder_DecodeVarint d ptr = Inr (p, v) \<longleftrightarrow>
     (\<exists>n. varint_at (eps_mem (d_input d)) ptr n v \<and> p = ptr + int n)"
  unfolding DecodeVarint_eq option_decres_Inr upb_WireReader_ReadVarint_iff ..

lemma DecodeTag_iff:
  "upb_Decoder_DecodeTag d ptr = Inr (p, t) \<longleftrightarrow> upb_WireReader_ReadTag (eps_mem (d_input d)) ptr = Some (p, t)"
proof (cases "bit (eps_mem (d_input d) ptr) 7")
  case True
  then have b: "\<not> (ucast (eps_mem (d_input d) ptr) :: u64) AND 0x80 = 0" by (simp add: and_0x80_iff)
  show ?thesis
    unfolding upb_Decoder_DecodeTag_def upb_Decoder_DecodeLongTag_def upb_WireReader_ReadTag_def
      wr_ReadVarint_def upb_WireReader_ReadLongVarint_def Let_def if_not_P [OF b] bindE_Inr_conv
    by (auto simp: DecodeLongTag_loop_iff not_less split: option.split)
next
  case False
  then have b: "(ucast (eps_mem (d_input d) ptr) :: u64) AND 0x80 = 0" by (simp add: and_0x80_iff)
  have "(ucast (ucast (ucast (eps_mem (d_input d) ptr) :: u64) :: u32) :: u64) = ucast (eps_mem (d_input d) ptr)"
    by (rule bit_word_eqI) (auto simp: bit_simps dest: bit_imp_le_length)
  with b show ?thesis
    unfolding upb_Decoder_DecodeTag_def upb_WireReader_ReadTag_def wr_ReadVarint_def Let_def by simp
qed

lemma DecodeSize_iff:
  "upb_Decoder_DecodeSize d ptr = Inr (p, k) \<longleftrightarrow>
     (\<exists>n v. varint_at (eps_mem (d_input d)) ptr n v \<and> p = ptr + int n \<and> v < 0x7FFFFFFF \<and> k = ucast v \<and>
        upb_EpsCopyInputStream_CheckSize (d_input d) p (uint v))"
  unfolding upb_Decoder_DecodeSize_def bindE_Inr_conv
  by (auto simp: DecodeVarint_iff not_le split: if_splits)

section \<open>Walking back to the tag\<close>

fun varint_nat :: "byte list \<Rightarrow> nat" where
  "varint_nat [] = 0"
| "varint_nat (b # bs) = unat (b AND 0x7f) + 128 * varint_nat bs"

lemma varint_nat_append: "varint_nat (xs @ ys) = varint_nat xs + 128 ^ length xs * varint_nat ys"
  by (induction xs) (simp_all add: algebra_simps)

lemma varint_nat_bound: "varint_nat bs < 128 ^ length bs"
proof (induction bs)
  case (Cons b bs)
  have "unat (b AND 0x7f) < 128" by (simp add: unat_and_0x7f)
  with Cons show ?case by simp
qed simp

lemma varint_val_nat: "varint_val bs = of_nat (varint_nat bs)"
  by (induction bs) (simp_all add: unsigned_ucast_eq)

lemma is_tag_nat:
  assumes "is_tag tb t"
  shows "varint_nat tb = unat t" "tb \<noteq> []" "length tb \<le> 5"
proof -
  from assms have l: "length tb \<le> 5" and le: "varint_val tb \<le> 0xFFFFFFFF" and t: "t = ucast (varint_val tb)"
    and v: "is_varint tb" by (auto simp: is_tag_def)
  show "tb \<noteq> []" "length tb \<le> 5" using l v is_varint_nonempty by auto
  have "varint_nat tb < 128 ^ length tb" by (rule varint_nat_bound)
  also have "(128 :: nat) ^ length tb \<le> 128 ^ 5" using l by (intro power_increasing) simp_all
  finally have lt: "varint_nat tb < 2 ^ 64" by simp
  then have eq: "unat (varint_val tb) = varint_nat tb"
    unfolding varint_val_nat by (simp add: unat_of_nat take_bit_nat_eq_self)
  from le have "varint_nat tb < 2 ^ 32" unfolding word_le_nat_alt eq by simp
  then show "varint_nat tb = unat t"
    unfolding t varint_val_nat using lt
    by (simp add: unsigned_ucast_eq unat_of_nat take_bit_nat_eq_self)
qed

lemma scan_varint_back_ok:
  assumes "k < fuel" and "\<forall>j<k. bit (mem (s + int j)) 7" and "\<not> bit (mem (s - 1)) 7"
  shows "scan_varint_back fuel mem (s + int k) = Some s"
  using assms
proof (induction k arbitrary: fuel)
  case 0
  then show ?case by (cases fuel) (simp_all add: and_0x80_iff)
next
  case (Suc k)
  then obtain f where f: "fuel = Suc f" "k < f" by (cases fuel) auto
  have "bit (mem (s + int k)) 7" using Suc.prems(2) by simp
  then have "mem (s + int (Suc k) - 1) AND 0x80 \<noteq> 0" by (simp add: and_0x80_iff)
  with Suc.IH [OF f(2)] Suc.prems(2,3) show ?case unfolding f(1) scan_varint_back.simps by simp
qed

lemma seen_step:
  assumes "128 * n + unat (b AND 0x7f :: byte) < 2 ^ 32"
  shows "push_bit 7 (of_nat n :: u32) OR ucast (b AND 0x7f) = of_nat (128 * n + unat (b AND 0x7f))"
proof -
  have "push_bit 7 (of_nat n :: u32) AND ucast (b AND 0x7f) = 0"
    by (rule bit_word_eqI) (simp only: bit_and_iff bit_push_bit_iff bit_ucast_iff bit_0x7f bit_0_eq bot_apply, auto)
  then have "push_bit 7 (of_nat n :: u32) OR ucast (b AND 0x7f) = push_bit 7 (of_nat n) + ucast (b AND 0x7f)"
    by (rule disjunctive_add_eq_or [symmetric])
  also have "\<dots> = of_nat (128 * n + unat (b AND 0x7f))"
    by (simp add: push_bit_eq_mult unsigned_ucast_eq)
  finally show ?thesis .
qed

lemma scan_tag_back_ok:
  assumes "bytes_at mem s (length tb) = tb" and "varint_nat tb < 2 ^ 32" and "0 < varint_nat tb"
    and "tb = pre @ suf" and "pre \<noteq> []" and "length pre \<le> fuel"
  shows "scan_tag_back fuel mem (s + int (length pre)) (of_nat (varint_nat suf)) (of_nat (varint_nat tb)) = Some s"
  using assms(4-6)
proof (induction pre arbitrary: suf fuel rule: rev_induct)
  case Nil
  then show ?case by simp
next
  case (snoc b pre)
  then obtain f where f: "fuel = Suc f" "length pre \<le> f" by (cases fuel) auto
  have b: "mem (s + int (length pre)) = b"
  proof -
    have "tb ! length pre = b" using snoc.prems(1) by simp
    moreover have "length pre < length tb" using snoc.prems(1) by simp
    ultimately show ?thesis using nth_bytes_at [of "length pre" "length tb" mem s] assms(1) by simp
  qed
  have v: "varint_nat (b # suf) = 128 * varint_nat suf + unat (b AND 0x7f)" by simp
  have tb: "varint_nat tb = varint_nat pre + 128 ^ length pre * varint_nat (b # suf)"
    using snoc.prems(1) varint_nat_append [of pre "b # suf"] by simp
  moreover have "varint_nat (b # suf) \<le> 128 ^ length pre * varint_nat (b # suf)" by simp
  ultimately have le: "varint_nat (b # suf) \<le> varint_nat tb" by linarith
  with assms(2) have seen: "push_bit 7 (of_nat (varint_nat suf) :: u32) OR ucast (b AND 0x7f) =
      of_nat (varint_nat (b # suf))"
    unfolding v by (intro seen_step) linarith
  have eq: "(of_nat (varint_nat (b # suf)) :: u32) = of_nat (varint_nat tb) \<longleftrightarrow> varint_nat (b # suf) = varint_nat tb"
    using le assms(2) by (simp only: word_of_nat_eq_iff take_bit_nat_eq_self_iff, simp add: take_bit_nat_eq_self)
  have step: "scan_tag_back fuel mem (s + int (length (pre @ [b]))) (of_nat (varint_nat suf)) (of_nat (varint_nat tb)) =
    (if varint_nat (b # suf) \<noteq> varint_nat tb
     then scan_tag_back f mem (s + int (length pre)) (of_nat (varint_nat (b # suf))) (of_nat (varint_nat tb))
     else Some (s + int (length pre)))"
    unfolding f(1) scan_tag_back.simps Let_def using seen eq by (simp add: b del: varint_nat.simps)
  show ?case
  proof (cases "pre = []")
    case True
    with tb step show ?thesis by (simp del: varint_nat.simps(2))
  next
    case False
    then have "(128 :: nat) ^ 1 \<le> 128 ^ length pre" by (intro power_increasing) (simp_all add: Suc_le_eq)
    then have "128 * varint_nat (b # suf) \<le> varint_nat tb" using tb
      by (metis add_leD2 le_add2 le_trans mult_le_mono1 power_one_right)
    with assms(3) have "varint_nat (b # suf) \<noteq> varint_nat tb" by linarith
    with step snoc.IH [of "b # suf" f] snoc.prems(1) False f(2) show ?thesis by simp
  qed
qed

lemma tag_split: "push_bit 3 (drop_bit 3 t) OR (t AND 7) = (t :: u32)"
proof -
  have "t AND 7 = take_bit 3 t" by (simp add: take_bit_eq_mask mask_eq_exp_minus_1)
  then show ?thesis
    by (auto intro!: bit_word_eqI simp: bit_or_iff bit_push_bit_iff bit_drop_bit_eq bit_take_bit_iff)
qed

lemma is_varint_last: "is_varint bs \<Longrightarrow> \<not> bit (last bs) 7"
  by (induction bs rule: is_varint.induct) auto

text \<open>
  The bytes of a field that are read before its op is known, by wire type: a varint or the
  varint of a length, a fixed-width value, or nothing after the tag of a group.
\<close>

definition value_head :: "u32 \<Rightarrow> byte list \<Rightarrow> bool" where
  "value_head wt vb \<longleftrightarrow>
     (if wt = 0 \<or> wt = 2 then is_varint vb \<and> length vb \<le> 10
      else if wt = 5 then length vb = 4 else if wt = 1 then length vb = 8 else vb = [])"

lemma unknown_field_start_ok:
  assumes mem: "bytes_at mem s (length (tb @ vb)) = tb @ vb" and tag: "is_tag tb t" "drop_bit 3 t \<noteq> 0"
    and vb: "value_head (t AND 7) vb"
  shows "unknown_field_start mem (s + int (length (tb @ vb))) (drop_bit 3 t) (t AND 7) = Some s"
proof -
  let ?p = "s + int (length tb)"
  have split: "bytes_at mem s (length tb) = tb" "bytes_at mem ?p (length vb) = vb"
    using mem by (simp_all add: bytes_at_add)
  note nt = is_tag_nat [OF tag(1)]
  have pos: "0 < varint_nat tb"
    using tag(2) unfolding nt(1) by (cases "t = 0") (simp_all add: unat_gt_0)
  have lt: "varint_nat tb < 2 ^ 32" unfolding nt(1) using unsigned_less [where ?'a = nat and w = t] by simp
  have tagback: "scan_tag_back 16 mem ?p 0 t = Some s"
  proof -
    have "(of_nat (varint_nat tb) :: u32) = t" unfolding nt(1) by simp
    with scan_tag_back_ok [OF split(1) lt pos, of tb "[]" 16] nt(2,3) show ?thesis by simp
  qed
  have last: "\<not> bit (mem (?p - 1)) 7"
  proof -
    obtain i where i: "length tb = Suc i" using nt(2) by (cases tb) auto
    have "bytes_at mem s (length tb) ! i = mem (s + int i)" by (rule nth_bytes_at) (simp add: i)
    then have "mem (s + int i) = tb ! i" unfolding split(1) by simp
    also have "\<dots> = last tb" using nt(2) i by (simp add: last_conv_nth)
    finally have "mem (?p - 1) = last tb" using i by simp
    then show ?thesis using tag(1) is_varint_last [of tb] by (auto simp: is_tag_def)
  qed
  have varint: "scan_varint_back 16 mem (s + int (length (tb @ vb)) - 1) = Some ?p"
    if "t AND 7 = 0 \<or> t AND 7 = 2"
  proof -
    from that vb have v: "is_varint vb" "length vb \<le> 10" by (auto simp: value_head_def)
    then obtain k where k: "length vb = Suc k" using is_varint_nonempty by (cases vb) auto
    have "bit (mem (?p + int j)) 7" if "j < k" for j
    proof -
      have "mem (?p + int j) = vb ! j"
        using nth_bytes_at [of j "length vb" mem ?p] split(2) that k by (metis less_Suc_eq)
      moreover have "vb ! j \<in> set (butlast vb)" using that k by (metis in_set_conv_nth length_butlast nth_butlast diff_Suc_1)
      ultimately show ?thesis using is_varint_bits [OF v(1)] by simp
    qed
    with scan_varint_back_ok [of k 16 mem ?p] last v(2) k show ?thesis by (simp add: add.assoc)
  qed
  consider "t AND 7 = 0 \<or> t AND 7 = 2" | "t AND 7 = 5" | "t AND 7 = 1"
    | "t AND 7 \<notin> {0, 2, 5, 1}" by auto
  then show ?thesis
    using tagback varint vb unfolding unknown_field_start_def tag_split value_head_def
    by cases (auto simp: algebra_simps)
qed

section \<open>The length prefix\<close>

lemma length_prefix_loop_iff:
  "length_prefix_loop buf i acc = Some r \<longleftrightarrow>
     (\<exists>n. i < n \<and> n \<le> 10 \<and> n \<le> length buf \<and> is_varint (take (n - i) (drop i buf)) \<and>
        r = (acc + 128 ^ i * varint_val (take (n - i) (drop i buf)), n,
             of_nat n + (acc + 128 ^ i * varint_val (take (n - i) (drop i buf)))))"
proof (induction buf i acc rule: length_prefix_loop.induct)
  case (1 buf i acc)
  show ?case
  proof (cases "length buf \<le> i \<or> 9 < i")
    case True
    then show ?thesis by (subst length_prefix_loop.simps) auto
  next
    case False
    let ?b = "buf ! i" and ?rest = "\<lambda>n. take (n - Suc i) (drop (Suc i) buf)"
    let ?acc = "acc + push_bit (i * 7) ((ucast ?b :: u64) AND 0x7f)"
    have step: "take (n - i) (drop i buf) = ?b # ?rest n" if "i < n" for n
    proof -
      from that obtain j where "n = i + Suc j" by (metis less_imp_Suc_add add_Suc_right)
      with False show ?thesis by (simp add: Cons_nth_drop_Suc [symmetric])
    qed
    have push: "push_bit (i * 7) (w :: u64) = 128 ^ i * w" for w
      by (simp add: push_bit_eq_mult mult.commute power_mult [symmetric])
        (simp add: power_mult mult.commute [of i 7])
    have b7: "(ucast ?b :: u64) AND 0x7f = ucast (?b AND 0x7f)"
      by (rule bit_word_eqI) (auto simp: bit_simps dest: bit_imp_le_length)
    have val: "acc + 128 ^ i * varint_val (?b # ?rest n) = ?acc + 128 ^ Suc i * varint_val (?rest n)" for n
      unfolding b7 push by (simp add: algebra_simps)
    show ?thesis
    proof (cases "bit ?b 7")
      case True
      then have c: "\<not> (ucast ?b :: u64) AND 0x80 = 0" by (simp add: and_0x80_iff)
      have same: "(Suc i < n \<and> n \<le> 10 \<and> n \<le> length buf \<and> is_varint (?rest n) \<and>
            r = (?acc + 128 ^ Suc i * varint_val (?rest n), n, of_nat n + (?acc + 128 ^ Suc i * varint_val (?rest n)))) \<longleftrightarrow>
          (i < n \<and> n \<le> 10 \<and> n \<le> length buf \<and> is_varint (take (n - i) (drop i buf)) \<and>
            r = (acc + 128 ^ i * varint_val (take (n - i) (drop i buf)), n,
               of_nat n + (acc + 128 ^ i * varint_val (take (n - i) (drop i buf)))))" for n
      proof (cases "Suc i < n")
        case S: True
        then have "i < n" by simp
        with S True show ?thesis unfolding step [OF \<open>i < n\<close>] val is_varint_Cons by simp
      next
        case S: False
        have "\<not> is_varint (take (n - i) (drop i buf))" if "i < n"
          using S True that step [OF that] by (simp add: is_varint_Cons)
        with S show ?thesis by auto
      qed
      have e: "length_prefix_loop buf i acc = length_prefix_loop buf (Suc i) ?acc"
        using False c by (subst length_prefix_loop.simps) (simp add: Let_def)
      have ih: "length_prefix_loop buf (Suc i) ?acc = Some r \<longleftrightarrow> (\<exists>n. Suc i < n \<and> n \<le> 10 \<and> n \<le> length buf \<and>
          is_varint (?rest n) \<and>
          r = (?acc + 128 ^ Suc i * varint_val (?rest n), n, of_nat n + (?acc + 128 ^ Suc i * varint_val (?rest n))))"
        using 1 [OF False refl refl c] by simp
      show ?thesis unfolding e ih by (rule arg_cong [of _ _ Ex], rule ext, rule same)
    next
      case b: False
      then have c: "(ucast ?b :: u64) AND 0x80 = 0" by (simp add: and_0x80_iff)
      have "length_prefix_loop buf i acc = Some (?acc, Suc i, of_nat (Suc i) + ?acc)"
        using False c by (subst length_prefix_loop.simps) (simp add: Let_def add.commute)
      moreover have "(i < n \<and> n \<le> 10 \<and> n \<le> length buf \<and> is_varint (take (n - i) (drop i buf)) \<and>
            r = (acc + 128 ^ i * varint_val (take (n - i) (drop i buf)), n,
               of_nat n + (acc + 128 ^ i * varint_val (take (n - i) (drop i buf))))) \<longleftrightarrow>
          n = Suc i \<and> r = (?acc, Suc i, of_nat (Suc i) + ?acc)" for n
      proof (cases "n = Suc i")
        case True
        then have i: "i < n" by simp
        have "varint_val (take (n - i) (drop i buf)) = ucast (?b AND 0x7f)" unfolding step [OF i] using True by simp
        moreover have "is_varint (take (n - i) (drop i buf))" unfolding step [OF i] using True b by simp
        ultimately show ?thesis using True False by (simp add: push b7)
      next
        case n: False
        have "\<not> is_varint (take (n - i) (drop i buf))" if "i < n" "n \<le> length buf"
          using n b that step [OF that(1)] by (simp add: is_varint_Cons)
        with n show ?thesis by auto
      qed
      ultimately show ?thesis by auto
    qed
  qed
qed

lemma num_bytes_read_no_wrap:
  assumes "n \<le> length buf" and "length buf < 2 ^ 63" and "(v :: u64) \<le> 0x7FFFFFFF"
  shows "of_nat n + v > of_nat (length buf) \<longleftrightarrow> n + unat v > length buf"
    "unat (of_nat n + v) = n + unat v"
proof -
  have v: "unat v \<le> 0x7FFFFFFF" using assms(3) by (simp add: word_le_nat_alt)
  have n: "unat (of_nat n :: u64) = n" "unat (of_nat (length buf) :: u64) = length buf"
    using assms(1,2) by (simp_all add: unat_of_nat take_bit_nat_eq_self)
  have "unat (of_nat n :: u64) + unat v < 2 ^ 64" using n v assms(1,2) by simp
  then show s: "unat (of_nat n + v) = n + unat v" using iffD1 [OF unat_add_lem, of "of_nat n :: u64" v] by (simp add: n)
  show "of_nat n + v > of_nat (length buf) \<longleftrightarrow> n + unat v > length buf"
    by (simp only: word_less_nat_alt s n)
qed

section \<open>Properties\<close>

text \<open>C31: the decoder's readers of varints, tags and sizes accept the wire format's. A varint is at most ten
  bytes with the last the only one without its high bit; a tag is read as the wire reader reads it; a
  size is a varint below \<open>INT_MAX\<close> that ends by the limit of the stream.\<close>

theorem decoder_readers_exact:
  "(upb_Decoder_DecodeVarint d p = Inr (p', v) \<longleftrightarrow> (\<exists>n. varint_at (eps_mem (d_input d)) p n v \<and> p' = p + int n)) \<and>
   (upb_Decoder_DecodeTag d p = Inr (p', t) \<longleftrightarrow> upb_WireReader_ReadTag (eps_mem (d_input d)) p = Some (p', t)) \<and>
   (upb_Decoder_DecodeSize d p = Inr (p', sz) \<longleftrightarrow>
      (\<exists>n w. varint_at (eps_mem (d_input d)) p n w \<and> p' = p + int n \<and> w < 0x7FFFFFFF \<and> sz = ucast w \<and>
         eps_pos (d_input d) p' + uint w \<le> eps_lim (d_input d)))"
  unfolding DecodeVarint_iff DecodeTag_iff DecodeSize_iff CheckSize_iff by blast

text \<open>C4: \<open>upb_DecodeLengthPrefixed\<close> decodes exactly the message its prefix announces. If the input starts
  with a varint of at most ten bytes whose value is at most \<open>INT_MAX\<close> and the message it announces is
  in the input, that message is decoded and the count of bytes read is right; any other input is refused
  without touching the message, although the sum of the prefix and the length may wrap.\<close>

theorem DecodeLengthPrefixed_exact:
  assumes "length input < 2 ^ 63"
  shows "(\<exists>n len. n \<le> 10 \<and> n + len \<le> length input \<and> is_varint (take n input) \<and>
       varint_val (take n input) = of_nat len \<and> len \<le> 0x7FFFFFFF \<and>
       upb_DecodeLengthPrefixed env fuel buf input m mt options arena =
         (case upb_Decode env fuel (buf + int n) (take len (drop n input)) m mt options arena of
            (status, m', a) \<Rightarrow> (status, of_nat (n + len), m', a))) \<or>
     \<not> (\<exists>n len. n \<le> 10 \<and> n + len \<le> length input \<and> is_varint (take n input) \<and>
       varint_val (take n input) = of_nat len \<and> len \<le> 0x7FFFFFFF) \<and>
     (\<exists>k. upb_DecodeLengthPrefixed env fuel buf input m mt options arena = (kUpb_DecodeStatus_Malformed, k, m, arena))"
proof (cases "\<exists>n len. n \<le> 10 \<and> n + len \<le> length input \<and> is_varint (take n input) \<and>
       varint_val (take n input) = of_nat len \<and> len \<le> 0x7FFFFFFF")
  case True
  then obtain n len where n: "n \<le> 10" "n + len \<le> length input" "is_varint (take n input)"
    "varint_val (take n input) = of_nat len" "len \<le> 0x7FFFFFFF" by blast
  have u: "unat (of_nat len :: u64) = len" using n(5) by (simp add: unat_of_nat take_bit_nat_eq_self)
  then have v: "(of_nat len :: u64) \<le> 0x7FFFFFFF" using n(5) by (simp add: word_le_nat_alt)
  have pos: "0 < n" using n(3) by (cases n) auto
  with n have "length_prefix_loop input 0 0 = Some (of_nat len, n, of_nat n + of_nat len)"
    unfolding length_prefix_loop_iff by (intro exI [of _ n]) simp
  moreover have "\<not> of_nat n + of_nat len > (of_nat (length input) :: u64)"
    using num_bytes_read_no_wrap(1) [of n input "of_nat len"] n(2) assms u v by simp
  moreover have "\<not> of_nat len > (0x7FFFFFFF :: u64)" using v by simp
  ultimately have "upb_DecodeLengthPrefixed env fuel buf input m mt options arena =
         (case upb_Decode env fuel (buf + int n) (take len (drop n input)) m mt options arena of
            (status, m', a) \<Rightarrow> (status, of_nat (n + len), m', a))"
    using u by (simp add: upb_DecodeLengthPrefixed_def split: prod.split)
  with n show ?thesis by blast
next
  case False
  have "\<exists>k. upb_DecodeLengthPrefixed env fuel buf input m mt options arena = (kUpb_DecodeStatus_Malformed, k, m, arena)"
  proof (cases "length_prefix_loop input 0 0")
    case (Some r)
    then obtain n where n: "n \<le> 10" "n \<le> length input" "is_varint (take n input)"
      and r: "r = (varint_val (take n input), n, of_nat n + varint_val (take n input))"
      unfolding length_prefix_loop_iff by auto
    have "length input < n + unat (varint_val (take n input))" if "varint_val (take n input) \<le> 0x7FFFFFFF"
    proof (rule ccontr)
      assume "\<not> ?thesis"
      with n that have "n \<le> 10 \<and> n + unat (varint_val (take n input)) \<le> length input \<and> is_varint (take n input) \<and>
          varint_val (take n input) = of_nat (unat (varint_val (take n input))) \<and>
          unat (varint_val (take n input)) \<le> 0x7FFFFFFF" by (simp add: word_le_nat_alt)
      with False show False by blast
    qed
    with num_bytes_read_no_wrap(1) [OF n(2) assms, of "varint_val (take n input)"] Some r show ?thesis
      by (auto simp: upb_DecodeLengthPrefixed_def not_less)
  qed (simp add: upb_DecodeLengthPrefixed_def)
  with False show ?thesis by blast
qed

theorem DecodeLengthPrefixed_exact_witness:
  "\<forall>env fuel m mt arena. \<exists>k. upb_DecodeLengthPrefixed env fuel 1000 [5, 8, 1] m mt 0 arena =
     (kUpb_DecodeStatus_Malformed, k, m, arena)"
proof -
  have "\<not> (n + len \<le> 3 \<and> is_varint (take n [5, 8, 1]) \<and> varint_val (take n [5, 8, 1]) = of_nat len \<and> len \<le> 0x7FFFFFFF)"
    for n len
  proof
    assume a: "n + len \<le> 3 \<and> is_varint (take n [5, 8, 1]) \<and> varint_val (take n [5, 8, 1]) = of_nat len \<and> len \<le> 0x7FFFFFFF"
    then have "n = 1" by (cases n) (auto simp: is_varint_Cons split: if_splits)
    with a have "of_nat len = (5 :: u64)" "len \<le> 3" by auto
    moreover have "unat (of_nat len :: u64) = len"
      using \<open>len \<le> 3\<close> by (simp add: unat_of_nat take_bit_nat_eq_self)
    ultimately show False by simp
  qed
  moreover have "length [5, 8, 1 :: byte] = 3" by simp
  ultimately have none: "\<not> (\<exists>n len. n \<le> 10 \<and> n + len \<le> length [5, 8, 1 :: byte] \<and> is_varint (take n [5, 8, 1]) \<and>
      varint_val (take n [5, 8, 1]) = of_nat len \<and> len \<le> 0x7FFFFFFF)" by metis
  have len: "length [5, 8, 1 :: byte] < 2 ^ 63" by simp
  show ?thesis
  proof (intro allI)
    fix env fuel m mt arena
    show "\<exists>k. upb_DecodeLengthPrefixed env fuel 1000 [5, 8, 1] m mt 0 arena = (kUpb_DecodeStatus_Malformed, k, m, arena)"
      using DecodeLengthPrefixed_exact [OF len, of env fuel 1000 m mt 0 arena] none by blast
  qed
qed

end
