(* ===== verification/Decode_Unknown.thy ===== *)
theory Decode_Unknown
  imports Decode_Correct
begin

text \<open>
  The decoder on fields its tables do not know: well-formed fields are walked over inside a group,
  and their bytes, tags included, are kept as they are in the message.
\<close>

section \<open>The grammar of what the decoder walks over\<close>

text \<open>
  A field is its tag, the bytes read before its op is known, and the bytes after them: the payload
  of a delimited value, or the fields and the end tag of a group. Field number 0 is not a field.
\<close>

inductive field_body :: "nat \<Rightarrow> u32 \<Rightarrow> byte list \<Rightarrow> byte list \<Rightarrow> bool"
  and message_fields :: "nat \<Rightarrow> byte list \<Rightarrow> bool" where
  scalar: "t AND 7 \<in> {0, 1, 5} \<Longrightarrow> value_head (t AND 7) hb \<Longrightarrow> field_body k t hb []"
| delimited: "t AND 7 = 2 \<Longrightarrow> value_head 2 hb \<Longrightarrow> uint (varint_val hb) = int (length body) \<Longrightarrow>
    int (length body) < 0x7FFFFFFF \<Longrightarrow> field_body k t hb body"
| group: "t AND 7 = 3 \<Longrightarrow> message_fields k body \<Longrightarrow> is_tag eb e \<Longrightarrow> e AND 7 = 4 \<Longrightarrow>
    drop_bit 3 e = drop_bit 3 t \<Longrightarrow> field_body (Suc k) t [] (body @ eb)"
| none: "message_fields k []"
| field: "is_tag tb t \<Longrightarrow> drop_bit 3 t \<noteq> 0 \<Longrightarrow> field_body k t hb body \<Longrightarrow> message_fields k rest \<Longrightarrow>
    message_fields k (tb @ hb @ body @ rest)"

inductive_cases field_bodyE: "field_body k t hb body"

lemma field_body_head: "field_body k t hb body \<Longrightarrow> value_head (t AND 7) hb \<and> t AND 7 \<noteq> 4"
  by (erule field_bodyE) (auto simp: value_head_def)

section \<open>Where the decoder stands\<close>

definition standing :: "eps_stream \<Rightarrow> int \<Rightarrow> byte list \<Rightarrow> byte list \<Rightarrow> bool" where
  "standing e p bs rest \<longleftrightarrow> eps_inv e \<and> eps_ptr e p \<and> 0 \<le> eps_pos e p \<and>
     drop (nat (eps_pos e p)) (eps_input e) = bs @ rest \<and> eps_pos e p + int (length bs) \<le> eps_lim e"

definition moved :: "upb_Decoder \<Rightarrow> int \<Rightarrow> nat \<Rightarrow> upb_Decoder \<Rightarrow> int \<Rightarrow> bool" where
  "moved d p n d' p' \<longleftrightarrow> advanced (d_input d) p (int n) (d_input d') p' \<and>
     eps_same (d_input d) (d_input d') \<and> d' = d\<lparr>d_input := d_input d'\<rparr>"

lemma moved_trans: "moved d p m d1 p1 \<Longrightarrow> moved d1 p1 n d2 p2 \<Longrightarrow> moved d p (m + n) d2 p2"
  unfolding moved_def using advanced_trans [of "d_input d" p "int m" "d_input d1" p1 "int n"]
  by (auto intro: eps_same_trans) (metis upb_Decoder.update_convs(1) upb_Decoder.surjective)

lemma moved_standing:
  assumes "standing (d_input d) p (xs @ ys) rest" and "moved d p (length xs) d' p'"
  shows "standing (d_input d') p' ys rest"
  using assms advanced_drop [of "d_input d" p xs "d_input d'" p' "ys @ rest"]
  by (auto simp: standing_def moved_def advanced_def)

lemma moved_fields:
  "moved d p n d' p' \<Longrightarrow> d_arena d' = d_arena d" "moved d p n d' p' \<Longrightarrow> d_depth d' = d_depth d"
  "moved d p n d' p' \<Longrightarrow> d_end_group d' = d_end_group d"
  "moved d p n d' p' \<Longrightarrow> d_message_is_done d' = d_message_is_done d"
  unfolding moved_def by (metis upb_Decoder.select_convs(2-) upb_Decoder.update_convs(1) upb_Decoder.surjective)+

lemma IsDone_same:
  "upb_EpsCopyInputStream_IsDone e p = (done, e', Some p') \<Longrightarrow> eps_same e e'"
  by (auto simp: upb_EpsCopyInputStream_IsDone_def IsDoneFallbackInline_def eps_same_def Let_def
      split: upb_IsDoneStatus.splits prod.splits if_splits)

lemma decoder_IsDone:
  assumes "standing (d_input d) p bs rest" and "bs \<noteq> []"
  obtains d' p' where "upb_Decoder_IsDone d p = Inr (False, d', p')" "eps_fresh (d_input d') p'" "moved d p 0 d' p'"
proof -
  from assms have s: "eps_inv (d_input d)" "eps_ptr (d_input d) p" "eps_pos (d_input d) p < eps_lim (d_input d)"
    by (cases bs; auto simp: standing_def)+
  from eps.before_limit [OF this] obtain e' p' where e':
    "upb_EpsCopyInputStream_IsDone (d_input d) p = (False, e', Some p')" "eps_fresh e' p'"
    "eps_pos e' p' = eps_pos (d_input d) p" "eps_lim e' = eps_lim (d_input d)" "eps_input e' = eps_input (d_input d)"
    by (auto simp: eps_fresh_def)
  with advanced_fresh [of e' p' 0] IsDone_same [OF e'(1)] have "moved d p 0 (d\<lparr>d_input := e'\<rparr>) p'"
    by (simp add: moved_def advanced_def)
  with e' that [of "d\<lparr>d_input := e'\<rparr>" p'] show ?thesis by (simp add: upb_Decoder_IsDone_def)
qed

lemma decoder_at_end:
  assumes "standing (d_input d) p [] rest" and "eps_pos (d_input d) p = eps_lim (d_input d)"
  shows "upb_Decoder_IsDone d p = Inr (True, d, p)"
  using assms IsDone_at_limit [of "d_input d" p] by (simp add: standing_def upb_Decoder_IsDone_def)

section \<open>Tags and the heads of values\<close>

lemma is_tag_nonempty: "is_tag tb t \<Longrightarrow> tb \<noteq> []"
  using is_varint_nonempty by (auto simp: is_tag_def)

lemma decoder_field_tag:
  assumes "standing (d_input d) p (tb @ bs) rest" and "is_tag tb t"
  obtains d' p' where "upb_Decoder_IsDone d p = Inr (False, d', p')"
    "upb_Decoder_DecodeFieldTag d' p' = Inr (p' + int (length tb), drop_bit 3 t, t AND 7)"
    "moved d p (length tb) d' (p' + int (length tb))" "after_tag (d_input d') (p' + int (length tb))"
    "bytes_at (eps_mem (d_input d')) p' (length tb) = tb"
proof -
  have ne: "tb \<noteq> []" by (rule is_tag_nonempty [OF assms(2)])
  then have "tb @ bs \<noteq> []" by simp
  with assms(1) obtain d' p' where d': "upb_Decoder_IsDone d p = Inr (False, d', p')"
    "eps_fresh (d_input d') p'" "moved d p 0 d' p'" by (rule decoder_IsDone)
  have s: "standing (d_input d') p' (tb @ bs) rest"
    using moved_standing [of d p "[]" "tb @ bs" rest d' p'] assms(1) d'(3) by simp
  have l: "length tb \<le> 5" "is_varint tb" using assms(2) by (auto simp: is_tag_def)
  have bytes: "bytes_at (eps_mem (d_input d')) p' (length tb) = tb"
    using fresh_bytes [OF d'(2), of 0 "length tb" tb "bs @ rest"] s l(1) ne by (simp add: standing_def)
  have "upb_WireReader_ReadTag (eps_mem (d_input d')) p' = Some (p' + int (length tb), t)"
    unfolding upb_WireReader_ReadTag_iff using assms(2) l bytes
    by (auto simp: is_tag_def varint_at_def intro!: exI [of _ "length tb"])
  then have "upb_Decoder_DecodeTag d' p' = Inr (p' + int (length tb), t)" unfolding DecodeTag_iff .
  moreover have "moved d' p' (length tb) d' (p' + int (length tb))"
    using advanced_fresh [OF d'(2), of "int (length tb)"] l(1) by (simp add: moved_def)
  with d'(3) have "moved d p (0 + length tb) d' (p' + int (length tb))" by (rule moved_trans)
  moreover have "after_tag (d_input d') (p' + int (length tb))"
    using d'(2) l(1) s unfolding after_tag_def standing_def eps_pos_add by force
  ultimately show ?thesis using that d'(1) bytes by (simp add: upb_Decoder_DecodeFieldTag_def)
qed

lemma ucast_wireval_set_uint32 [simp]: "(ucast (wireval_set_uint32 val w) :: u32) = w"
proof -
  have eq: "(0xFFFFFFFF :: u64) = mask 32" by (simp add: mask_eq_exp_minus_1)
  show ?thesis unfolding wireval_set_uint32_def eq
    by (rule bit_word_eqI)
      (simp only: bit_ucast_iff bit_or_iff bit_and_iff bit_not_iff bit_mask_iff, auto simp: bit_simps)
qed

lemma delimited_op_unknown [simp]: "upb_Decoder_GetDelimitedOp env d mt FieldNotFound = - 1"
  by (simp add: upb_Decoder_GetDelimitedOp_def delimited_op_def)

lemma unknown_value_head:
  assumes at: "after_tag (d_input d) p" and s: "standing (d_input d) p (hb @ body) rest"
    and body: "field_body k t hb body"
  obtains v where "upb_Decoder_DecodeWireValue env d p mt FieldNotFound (t AND 7) 0 = Inr (p + int (length hb), v, - 1)"
    "t AND 7 = 2 \<longrightarrow> uint (ucast v :: u32) = int (length body)" "moved d p (length hb) d (p + int (length hb))"
    "hb \<noteq> [] \<longrightarrow> bytes_at (eps_mem (d_input d)) p (length hb) = hb"
proof -
  have drop: "drop (nat (eps_pos (d_input d) p)) (eps_input (d_input d)) = hb @ (body @ rest)"
    using s by (simp add: standing_def)
  have len: "length hb \<le> 10" using field_body_head [OF body] by (auto simp: value_head_def split: if_splits)
  note bytes = after_tag_bytes [OF at drop len]
  have mv: "moved d p (length hb) d (p + int (length hb))"
    using bytes(2) s by (cases "hb = []") (auto simp: moved_def standing_def advanced_def)
  have varint: "upb_Decoder_DecodeVarint d p = Inr (p + int (length hb), varint_val hb)" if "is_varint hb"
    using after_tag_varint [OF at drop that len] by (auto simp: DecodeVarint_iff)
  have size: "upb_Decoder_DecodeSize d p = Inr (p + int (length hb), ucast (varint_val hb))"
    and usize: "uint (ucast (varint_val hb) :: u32) = int (length body)"
    if "is_varint hb" "uint (varint_val hb) = int (length body)" "int (length body) < 0x7FFFFFFF"
  proof -
    from that have "varint_val hb < 0x7FFFFFFF" by (simp add: word_less_def)
    moreover have "upb_EpsCopyInputStream_CheckSize (d_input d) (p + int (length hb)) (uint (varint_val hb))"
      using s that(2) by (simp add: CheckSize_iff eps_pos_add standing_def)
    ultimately show "upb_Decoder_DecodeSize d p = Inr (p + int (length hb), ucast (varint_val hb))"
      using after_tag_varint [OF at drop that(1) len] by (auto simp: DecodeSize_iff)
    show "uint (ucast (varint_val hb) :: u32) = int (length body)"
      using that(2,3) by (simp add: unsigned_ucast_eq take_bit_int_eq_self)
  qed
  have "\<exists>v. upb_Decoder_DecodeWireValue env d p mt FieldNotFound (t AND 7) 0 = Inr (p + int (length hb), v, - 1) \<and>
      (t AND 7 = 2 \<longrightarrow> uint (ucast v :: u32) = int (length body))"
    using body
  proof (cases rule: field_body.cases)
    case scalar
    then show ?thesis using varint
      by (auto simp: upb_Decoder_DecodeWireValue_def value_head_def upb_Decoder_GetVarintOp_def munge_found_def
          fixed32_ok_def fixed64_ok_def)
  next
    case delimited
    then have "is_varint hb" by (simp add: value_head_def)
    with delimited size usize show ?thesis by (simp add: upb_Decoder_DecodeWireValue_def)
  qed (auto simp: upb_Decoder_DecodeWireValue_def)
  with that mv bytes(1) show ?thesis by blast
qed

section \<open>Walking over unknown groups\<close>

text \<open>The part of \<open>_upb_Decoder_DecodeUnknownField\<close> that moves the pointer past the field.\<close>

definition skip_body ::
  "decode_message \<Rightarrow> upb_Decoder \<Rightarrow> int \<Rightarrow> u32 \<Rightarrow> wireval \<Rightarrow> (upb_Decoder \<times> int) decres" where
  "skip_body dm d p t v =
     (let after = (if t AND 7 = 2 then p + uint (ucast v :: u32) else p) in
      if t AND 7 = 3 then upb_Decoder_DecodeUnknownGroup dm d after (drop_bit 3 t) else Inr (d, after))"

lemma DecodeUnknownField_group:
  "drop_bit 3 t \<noteq> 0 \<Longrightarrow> upb_Decoder_DecodeUnknownField dm d p None (drop_bit 3 t) (t AND 7) v =
     bindE (skip_body dm d p t v) (\<lambda>(d, p). Inr (d, p, None))"
  by (auto simp: upb_Decoder_DecodeUnknownField_def skip_body_def Let_def)

lemma FindField_None [simp]: "upb_Decoder_FindField env None n w = FieldNotFound"
  by (simp add: upb_Decoder_FindField_def)

abbreviation "dm_of env fuel \<equiv> upb_Decoder_DecodeMessage env (decode_message_loop fuel env)"

lemma loop_end_group:
  assumes "standing (d_input d) p (eb @ bs) rest" and "is_tag eb e" and "e AND 7 = 4"
  shows "\<exists>d' p'. decode_message_loop (Suc fuel) env d p msg mt =
      Inr (d'\<lparr>d_end_group := drop_bit 3 e, d_message_is_done := True\<rparr>, p', msg) \<and> moved d p (length eb) d' p'"
proof -
  from decoder_field_tag [OF assms(1,2)] obtain d' p' where
    "upb_Decoder_IsDone d p = Inr (False, d', p')"
    "upb_Decoder_DecodeFieldTag d' p' = Inr (p' + int (length eb), drop_bit 3 e, e AND 7)"
    "moved d p (length eb) d' (p' + int (length eb))" by metis
  then show ?thesis using assms(3)
    by (auto simp: Let_def upb_Decoder_DecodeField_def upb_Decoder_DecodeFieldNoFast_def upb_Decoder_EndMessage_def)
qed

lemma loop_unknown_field:
  assumes s: "standing (d_input d) p (tb @ hb @ body @ bs) rest" and tag: "is_tag tb t" "drop_bit 3 t \<noteq> 0"
    and body: "field_body k t hb body"
    and unknown: "upb_Decoder_FindField env mt (drop_bit 3 t) (t AND 7) = FieldNotFound"
  obtains d' p' v where "decode_message_loop (Suc fuel) env d p msg mt =
      bindE (upb_Decoder_DecodeUnknownField (dm_of env fuel) d' p' msg (drop_bit 3 t) (t AND 7) v)
        (\<lambda>(d, p, msg). if d_message_is_done d then Inr (d, p, msg) else decode_message_loop fuel env d p msg mt)"
    "moved d p (length tb + length hb) d' p'" "t AND 7 = 2 \<longrightarrow> uint (ucast v :: u32) = int (length body)"
    "standing (d_input d') p' (body @ bs) rest"
    "unknown_field_start (eps_mem (d_input d')) p' (drop_bit 3 t) (t AND 7) = Some (p' - int (length (tb @ hb)))"
proof -
  from decoder_field_tag [OF s tag(1)] obtain d' p0 where d':
    "upb_Decoder_IsDone d p = Inr (False, d', p0)"
    "upb_Decoder_DecodeFieldTag d' p0 = Inr (p0 + int (length tb), drop_bit 3 t, t AND 7)"
    "moved d p (length tb) d' (p0 + int (length tb))" "after_tag (d_input d') (p0 + int (length tb))"
    "bytes_at (eps_mem (d_input d')) p0 (length tb) = tb" by metis
  have s0: "standing (d_input d') (p0 + int (length tb)) (hb @ body @ bs) rest"
    by (rule moved_standing [OF s d'(3)])
  then have s1: "standing (d_input d') (p0 + int (length tb)) (hb @ body) (bs @ rest)"
    by (simp add: standing_def)
  let ?p1 = "p0 + int (length tb)" and ?p2 = "p0 + int (length tb) + int (length hb)"
  from unknown_value_head [OF d'(4) s1 body, of env mt] obtain v where v:
    "upb_Decoder_DecodeWireValue env d' ?p1 mt FieldNotFound (t AND 7) 0 = Inr (?p2, v, - 1)"
    "t AND 7 = 2 \<longrightarrow> uint (ucast v :: u32) = int (length body)" "moved d' ?p1 (length hb) d' ?p2"
    "hb \<noteq> [] \<longrightarrow> bytes_at (eps_mem (d_input d')) ?p1 (length hb) = hb" by metis
  note head = field_body_head [OF body]
  have "bytes_at (eps_mem (d_input d')) p0 (length (tb @ hb)) = tb @ hb"
    using d'(5) v(4) by (cases "hb = []") (simp_all add: bytes_at_add)
  from unknown_field_start_ok [OF this tag conjunct1 [OF head]]
  have start: "unknown_field_start (eps_mem (d_input d')) ?p2 (drop_bit 3 t) (t AND 7) = Some (?p2 - int (length (tb @ hb)))"
    by (simp add: add.assoc)
  have loop: "decode_message_loop (Suc fuel) env d p msg mt =
      bindE (upb_Decoder_DecodeUnknownField (dm_of env fuel) d' ?p2 msg (drop_bit 3 t) (t AND 7) v)
        (\<lambda>(d, p, msg). if d_message_is_done d then Inr (d, p, msg) else decode_message_loop fuel env d p msg mt)"
    using d'(1,2) v(1) head
    by (simp add: Let_def upb_Decoder_DecodeField_def upb_Decoder_DecodeFieldNoFast_def upb_Decoder_DecodeFieldData_def unknown)
  have s2: "standing (d_input d') ?p2 (body @ bs) rest"
    by (rule moved_standing [OF s0 v(3)])
  show ?thesis by (rule that [OF loop moved_trans [OF d'(3) v(3)] v(2) s2 start])
qed

text \<open>A group, once its contents and end tag are known to be walked over.\<close>

lemma DecodeUnknownGroup_ok:
  fixes d :: upb_Decoder
  assumes s: "standing (d_input d) p body rest" "body \<noteq> []" and d: "d_end_group d = DECODE_NOGROUP" "\<not> d_message_is_done d"
    "1 \<le> d_depth d"
    and loop: "\<And>d1 p1. standing (d_input d1) p1 body rest \<Longrightarrow> d_end_group d1 = DECODE_NOGROUP \<Longrightarrow>
      \<not> d_message_is_done d1 \<Longrightarrow> d_depth d1 = d_depth d - 1 \<Longrightarrow>
      \<exists>d' p'. decode_message_loop fuel env d1 p1 None None =
        Inr (d'\<lparr>d_end_group := n, d_message_is_done := True\<rparr>, p', None) \<and> moved d1 p1 (length body) d' p'"
  shows "\<exists>d' p'. upb_Decoder_DecodeUnknownGroup (dm_of env fuel) d p n = Inr (d', p') \<and> moved d p (length body) d' p'"
proof -
  from decoder_IsDone [OF s] obtain d1 p1 where d1: "upb_Decoder_IsDone d p = Inr (False, d1, p1)" "moved d p 0 d1 p1"
    by metis
  let ?d = "d1\<lparr>d_depth := d_depth d1 - 1\<rparr>"
  note f = moved_fields [OF d1(2)]
  have "standing (d_input d1) p1 body rest" using moved_standing [of d p "[]" body rest d1 p1] s(1) d1(2) by simp
  with loop [of ?d p1] d f obtain d2 p2 where d2:
    "decode_message_loop fuel env ?d p1 None None = Inr (d2\<lparr>d_end_group := n, d_message_is_done := True\<rparr>, p2, None)"
    "moved ?d p1 (length body) d2 p2" by auto
  let ?r = "d1\<lparr>d_input := d_input d2\<rparr>"
  have d2eq: "d2 = ?d\<lparr>d_input := d_input d2\<rparr>" using d2(2) unfolding moved_def by blast
  have "d2\<lparr>d_end_group := n, d_message_is_done := False, d_depth := d_depth d2 + 1, d_end_group := DECODE_NOGROUP\<rparr> = ?r"
    by (subst d2eq, subst (2) d2eq) (use d f in simp)
  with d1(1) d2 d f have "upb_Decoder_DecodeUnknownGroup (dm_of env fuel) d p n = Inr (?r, p2)"
    by (simp add: upb_Decoder_DecodeUnknownGroup_def upb_Decoder_DecodeGroup_def upb_Decoder_RecurseSubMessage_def
        upb_Decoder_DecodeMessage_def Let_def)
  moreover have "moved d1 p1 (length body) ?r p2" using d2(2) by (simp add: moved_def)
  with d1(2) have "moved d p (0 + length body) ?r p2" by (rule moved_trans)
  ultimately show ?thesis by auto
qed

lemma walk_unknown:
  "field_body k t hb body \<Longrightarrow>
    (\<forall>d p fuel v rest. standing (d_input d) p body rest \<longrightarrow> d_end_group d = DECODE_NOGROUP \<longrightarrow>
       \<not> d_message_is_done d \<longrightarrow> int k \<le> d_depth d \<longrightarrow> length body \<le> fuel \<longrightarrow>
       (t AND 7 = 2 \<longrightarrow> uint (ucast v :: u32) = int (length body)) \<longrightarrow>
       (\<exists>d' p'. skip_body (dm_of env fuel) d p t v = Inr (d', p') \<and> moved d p (length body) d' p'))"
  "message_fields k bs \<Longrightarrow>
    (\<forall>d p fuel eb e rest. standing (d_input d) p (bs @ eb) rest \<longrightarrow> d_end_group d = DECODE_NOGROUP \<longrightarrow>
       \<not> d_message_is_done d \<longrightarrow> int k \<le> d_depth d \<longrightarrow> length bs < fuel \<longrightarrow> is_tag eb e \<longrightarrow> e AND 7 = 4 \<longrightarrow>
       (\<exists>d' p'. decode_message_loop fuel env d p None None =
          Inr (d'\<lparr>d_end_group := drop_bit 3 e, d_message_is_done := True\<rparr>, p', None) \<and>
          moved d p (length (bs @ eb)) d' p'))"
proof (induction rule: field_body_message_fields.inducts)
  case (scalar t hb k)
  have "moved d p 0 d p" if "standing (d_input d) p [] rest" for d p rest
    using that by (simp add: moved_def advanced_def standing_def)
  with scalar show ?case by (auto simp: skip_body_def)
next
  case (delimited t hb body k)
  have "moved d p (length body) d (p + int (length body))" if "standing (d_input d) p body rest" for d p rest
    using that eps.within [of "d_input d" p "int (length body)"]
    by (simp add: moved_def advanced_def standing_def eps_pos_add)
  with delimited show ?case by (auto simp: skip_body_def)
next
  case (group t k body eb e)
  show ?case
  proof (intro allI impI)
    fix d :: upb_Decoder and p fuel v rest
    assume a: "standing (d_input d) p (body @ eb) rest" "d_end_group d = DECODE_NOGROUP"
      "\<not> d_message_is_done d" "int (Suc k) \<le> d_depth d" "length (body @ eb) \<le> fuel"
    have eb: "eb \<noteq> []" by (rule is_tag_nonempty [OF group(3)])
    with a(5) have "length body < fuel" by (cases eb) auto
    then have "\<exists>d' p'. decode_message_loop fuel env d1 p1 None None =
          Inr (d'\<lparr>d_end_group := drop_bit 3 t, d_message_is_done := True\<rparr>, p', None) \<and>
          moved d1 p1 (length (body @ eb)) d' p'"
      if "standing (d_input d1) p1 (body @ eb) rest" "d_end_group d1 = DECODE_NOGROUP" "\<not> d_message_is_done d1"
        "d_depth d1 = d_depth d - 1" for d1 :: upb_Decoder and p1
      using group.IH [rule_format, of d1 p1 eb rest fuel e] that a(4) group(3-5) by simp
    then have "\<exists>d' p'. upb_Decoder_DecodeUnknownGroup (dm_of env fuel) d p (drop_bit 3 t) =
        Inr (d', p') \<and> moved d p (length (body @ eb)) d' p'"
      using a(4) eb by (intro DecodeUnknownGroup_ok [OF a(1) _ a(2,3)]) auto
    with group(1) show "\<exists>d' p'. skip_body (dm_of env fuel) d p t v = Inr (d', p') \<and>
        moved d p (length (body @ eb)) d' p'" by (simp add: skip_body_def)
  qed
next
  case (none k)
  show ?case
  proof (intro allI impI)
    fix d :: upb_Decoder and p fuel eb e rest
    assume a: "standing (d_input d) p ([] @ eb) rest" "length ([] :: byte list) < fuel" "is_tag eb e" "e AND 7 = 4"
    then show "\<exists>d' p'. decode_message_loop fuel env d p None None =
          Inr (d'\<lparr>d_end_group := drop_bit 3 e, d_message_is_done := True\<rparr>, p', None) \<and>
          moved d p (length ([] @ eb)) d' p'"
      using loop_end_group [of d p eb "[]" rest e "fuel - 1" env None None] by simp
  qed
next
  case (field tb t k hb body bs)
  show ?case
  proof (intro allI impI)
    fix d :: upb_Decoder and p fuel eb e rest
    assume a: "standing (d_input d) p ((tb @ hb @ body @ bs) @ eb) rest" "d_end_group d = DECODE_NOGROUP"
      "\<not> d_message_is_done d" "int k \<le> d_depth d" "length (tb @ hb @ body @ bs) < fuel" "is_tag eb e" "e AND 7 = 4"
    obtain f where f: "fuel = Suc f" using a(5) by (cases fuel) auto
    have tb: "tb \<noteq> []" by (rule is_tag_nonempty [OF field(1)])
    from a(1) have "standing (d_input d) p (tb @ hb @ body @ bs @ eb) rest" by simp
    from loop_unknown_field [OF this field(1-3) FindField_None, where env = env and fuel = f and msg = None]
    obtain d1 p1 v where d1: "decode_message_loop (Suc f) env d p None None =
        bindE (upb_Decoder_DecodeUnknownField (dm_of env f) d1 p1 None (drop_bit 3 t) (t AND 7) v)
          (\<lambda>(d, p, msg). if d_message_is_done d then Inr (d, p, msg) else decode_message_loop f env d p msg None)"
      "moved d p (length tb + length hb) d1 p1" "t AND 7 = 2 \<longrightarrow> uint (ucast v :: u32) = int (length body)"
      "standing (d_input d1) p1 (body @ bs @ eb) rest" by blast
    note f1 = moved_fields [OF d1(2)]
    have s1: "standing (d_input d1) p1 body (bs @ eb @ rest)" using d1(4) by (simp add: standing_def)
    have "length body \<le> f" using a(5) f tb by (cases tb) auto
    with field.IH(1) [rule_format, of d1 p1 "bs @ eb @ rest" f v] s1 a(2-4) f1 d1(3) obtain d2 p2 where
      d2: "skip_body (dm_of env f) d1 p1 t v = Inr (d2, p2)" "moved d1 p1 (length body) d2 p2" by auto
    note f2 = moved_fields [OF d2(2)]
    have "standing (d_input d2) p2 (bs @ eb) rest" by (rule moved_standing [OF d1(4) d2(2)])
    moreover have "length bs < f" using a(5) f tb by (cases tb) auto
    ultimately obtain d3 p3 where d3: "decode_message_loop f env d2 p2 None None =
          Inr (d3\<lparr>d_end_group := drop_bit 3 e, d_message_is_done := True\<rparr>, p3, None)"
      "moved d2 p2 (length (bs @ eb)) d3 p3"
      using field.IH(2) [rule_format, of d2 p2 eb rest f e] a(2-4,6,7) f1 f2 by auto
    have "moved d p (length ((tb @ hb @ body @ bs) @ eb)) d3 p3"
      using moved_trans [OF moved_trans [OF d1(2) d2(2)] d3(2)] by (simp add: add.assoc)
    moreover have "decode_message_loop fuel env d p None None =
        Inr (d3\<lparr>d_end_group := drop_bit 3 e, d_message_is_done := True\<rparr>, p3, None)"
      using d1(1) d2(1) d3(1) a(3) f1 f2 f DecodeUnknownField_group [OF field(2)] by simp
    ultimately show "\<exists>d' p'. decode_message_loop fuel env d p None None =
          Inr (d'\<lparr>d_end_group := drop_bit 3 e, d_message_is_done := True\<rparr>, p', None) \<and>
          moved d p (length ((tb @ hb @ body @ bs) @ eb)) d' p'" by blast
  qed
qed

section \<open>Keeping unknown fields\<close>

text \<open>The message after the bytes are appended to its unknown fields.\<close>

definition kept :: "upb_Message \<Rightarrow> byte list \<Rightarrow> upb_Message \<Rightarrow> bool" where
  "kept m bs m' \<longleftrightarrow>
     content (upb_Message_GetInternal m') = content (upb_Message_GetInternal m) @ bs \<and>
     extensions (upb_Message_GetInternal m') = extensions (upb_Message_GetInternal m) \<and>
     aux_inv (upb_Message_GetInternal m') \<and> msg_cells m' = msg_cells m \<and>
     msg_hasbits m' = msg_hasbits m \<and> msg_cases m' = msg_cases m"

lemma kept_nil: "aux_inv (upb_Message_GetInternal m) \<Longrightarrow> kept m [] m"
  by (simp add: kept_def)

lemma kept_append: "kept m xs m1 \<Longrightarrow> kept m1 ys m2 \<Longrightarrow> kept m (xs @ ys) m2"
  by (simp add: kept_def)

lemma SetInternal_simps [simp]:
  "upb_Message_GetInternal (upb_Message_SetInternal m i) = Some i"
  "msg_cells (upb_Message_SetInternal m i) = msg_cells m" "msg_hasbits (upb_Message_SetInternal m i) = msg_hasbits m"
  "msg_cases (upb_Message_SetInternal m i) = msg_cases m"
  by (simp_all add: upb_Message_GetInternal_def upb_Message_SetInternal_def)

lemma add_unknown_keeps:
  assumes "aux_inv (upb_Message_GetInternal m)"
  shows "case add_unknown d m data bytes base of
      Inl st \<Rightarrow> st = kUpb_DecodeStatus_OutOfMemory \<and> arena_refuses (d_arena d)
    | Inr (d', m') \<Rightarrow> \<exists>a. d' = d\<lparr>d_arena := a\<rparr> \<and> arena_refuses a = arena_refuses (d_arena d) \<and> kept m bytes m'"
  using AddUnknown_ok [OF assms, where data = data and bytes = bytes and a = "d_arena d" and base = base]
  unfolding add_unknown_def added_def kept_def
  by (auto split: option.splits)

lemma GetInputPtr_pos: "upb_EpsCopyInputStream_GetInputPtr e p = eps_buffer_start e + eps_pos e p"
  by (simp add: upb_EpsCopyInputStream_GetInputPtr_def eps_pos_def)

lemma input_bytes_at:
  assumes "0 \<le> q" and "drop (nat q) (eps_input e) = xs @ ys" and "xs \<noteq> []"
  shows "input_bytes e (eps_buffer_start e + q) (length xs) = Some xs"
proof -
  have "length (eps_input e) - nat q = length xs + length ys" using arg_cong [OF assms(2), of length] by simp
  moreover have "0 < length xs" using assms(3) by simp
  ultimately have "q + int (length xs) \<le> int (length (eps_input e))" using assms(1) by linarith
  with assms show ?thesis by (simp add: input_bytes_def)
qed

lemma decoder_IsDone_any:
  assumes "standing (d_input d) p [] rest"
  shows "\<exists>done d' p'. upb_Decoder_IsDone d p = Inr (done, d', p') \<and> moved d p 0 d' p'"
proof (cases "eps_pos (d_input d) p = eps_lim (d_input d)")
  case True
  from assms have "moved d p 0 d p" by (simp add: moved_def advanced_def standing_def)
  with decoder_at_end [OF assms True] show ?thesis by blast
next
  case False
  with assms have lt: "eps_pos (d_input d) p < eps_lim (d_input d)" by (simp add: standing_def)
  have "eps_lim (d_input d) \<le> int (length (eps_input (d_input d)))"
    using assms eps.lim_len by (simp add: standing_def)
  with lt assms have "rest \<noteq> []" by (auto simp: standing_def)
  then obtain b r where r: "rest = [b] @ r" by (cases rest) auto
  with assms lt have "standing (d_input d) p [b] r" by (simp add: standing_def)
  from decoder_IsDone [OF this] show ?thesis by blast
qed

lemma DecodeUnknownField_keeps:
  fixes d :: upb_Decoder
  assumes s: "standing (d_input d0) p0 (hs @ body @ bs) rest" and mv: "moved d0 p0 (length hs) d p" and ne: "hs \<noteq> []"
    and start: "unknown_field_start (eps_mem (d_input d)) p (drop_bit 3 t) (t AND 7) = Some (p - int (length hs))"
    and t: "drop_bit 3 t \<noteq> 0" and aux: "aux_inv (upb_Message_GetInternal m)"
    and skip: "skip_body dm d p t v = Inr (d1, p1)" "moved d p (length body) d1 p1"
  shows "case upb_Decoder_DecodeUnknownField dm d p (Some m) (drop_bit 3 t) (t AND 7) v of
      Inl st \<Rightarrow> st = kUpb_DecodeStatus_OutOfMemory \<and> arena_refuses (d_arena d)
    | Inr (d', p', r) \<Rightarrow> \<exists>m' a d2. r = Some m' \<and> d' = d2\<lparr>d_arena := a\<rparr> \<and> moved d0 p0 (length (hs @ body)) d2 p' \<and>
        arena_refuses a = arena_refuses (d_arena d) \<and> kept m (hs @ body) m'"
proof -
  have s1: "standing (d_input d1) p1 bs rest"
    by (rule moved_standing [OF moved_standing [OF s mv] skip(2)])
  then have "standing (d_input d1) p1 [] (bs @ rest)" by (simp add: standing_def)
  from decoder_IsDone_any [OF this] obtain dn d2 p2 where d2: "upb_Decoder_IsDone d1 p1 = Inr (dn, d2, p2)" "moved d1 p1 0 d2 p2"
    by blast
  have mv2: "moved d p (length body + 0) d2 p2" by (rule moved_trans [OF skip(2) d2(2)])
  have mv0: "moved d0 p0 (length (hs @ body)) d2 p2" using moved_trans [OF mv mv2] by simp
  let ?q = "eps_pos (d_input d0) p0" and ?e = "d_input d2"
  have same: "eps_buffer_start (d_input d) = eps_buffer_start ?e"
    using mv2 by (simp add: moved_def eps_same_def)
  have p1: "upb_EpsCopyInputStream_GetInputPtr (d_input d) (p - int (length hs)) = eps_buffer_start ?e + ?q"
    using mv by (simp add: GetInputPtr_pos same eps_pos_add moved_def advanced_def eps_pos_def)
  have p2: "upb_EpsCopyInputStream_GetInputPtr ?e p2 = eps_buffer_start ?e + ?q + int (length (hs @ body))"
    using mv0 by (simp add: GetInputPtr_pos moved_def advanced_def)
  have "eps_input ?e = eps_input (d_input d0)" using mv0 by (simp add: moved_def advanced_def)
  with s have bytes: "input_bytes ?e (eps_buffer_start ?e + ?q) (length (hs @ body)) = Some (hs @ body)"
    by (intro input_bytes_at [where ys = "bs @ rest"]) (use ne in \<open>auto simp: standing_def\<close>)
  define base where "base = (if eps_aliasing ?e then Some (eps_buffer_start ?e) else None)"
  let ?add = "add_unknown d2 m (eps_buffer_start ?e + ?q) (hs @ body) base"
  have eq: "upb_Decoder_DecodeUnknownField dm d p (Some m) (drop_bit 3 t) (t AND 7) v =
      bindE ?add (\<lambda>(d, m). Inr (d, p2, Some m))"
    using t start skip(1) d2(1) p1 p2 bytes
    unfolding upb_Decoder_DecodeUnknownField_def skip_body_def base_def by (simp add: Let_def nat_int_add)
  have ar: "d_arena d2 = d_arena d" by (rule moved_fields(1) [OF mv2])
  note ok = add_unknown_keeps [OF aux, where d = d2 and data = "eps_buffer_start ?e + ?q" and bytes = "hs @ body"
      and base = base]
  show ?thesis
  proof (cases ?add)
    case (Inr r)
    obtain d3 m3 where r: "r = (d3, m3)" by (cases r)
    from ok Inr r ar obtain a where "d3 = d2\<lparr>d_arena := a\<rparr>" "arena_refuses a = arena_refuses (d_arena d)"
      "kept m (hs @ body) m3" by auto
    with mv0 show ?thesis unfolding eq Inr r by auto
  qed (use ok ar eq in simp)
qed

text \<open>Fields that a table does not know: \<open>U\<close> says of a number and a wire type that it is unknown.\<close>

inductive unknown_fields :: "(u32 \<Rightarrow> u32 \<Rightarrow> bool) \<Rightarrow> nat \<Rightarrow> byte list \<Rightarrow> bool" for U k where
  "unknown_fields U k []"
| "is_tag tb t \<Longrightarrow> drop_bit 3 t \<noteq> 0 \<Longrightarrow> U (drop_bit 3 t) (t AND 7) \<Longrightarrow> field_body k t hb body \<Longrightarrow>
    unknown_fields U k rest \<Longrightarrow> unknown_fields U k (tb @ hb @ body @ rest)"

lemma loop_keeps_unknown:
  fixes d :: upb_Decoder
  assumes "unknown_fields (\<lambda>n w. upb_Decoder_FindField env mt n w = FieldNotFound) k bs"
    and "standing (d_input d) p bs rest" and "eps_pos (d_input d) p + int (length bs) = eps_lim (d_input d)"
    and "d_end_group d = DECODE_NOGROUP" and "\<not> d_message_is_done d" and "int k \<le> d_depth d"
    and "length bs < fuel" and "aux_inv (upb_Message_GetInternal m)"
  shows "case decode_message_loop fuel env d p (Some m) mt of
      Inl st \<Rightarrow> st = kUpb_DecodeStatus_OutOfMemory \<and> arena_refuses (d_arena d)
    | Inr (d', p', r) \<Rightarrow> \<exists>m' a d1. r = Some m' \<and> d' = d1\<lparr>d_arena := a, d_message_is_done := True\<rparr> \<and>
        moved d p (length bs) d1 p' \<and> arena_refuses a = arena_refuses (d_arena d) \<and> kept m bs m'"
  using assms
proof (induction arbitrary: d p fuel m rule: unknown_fields.induct)
  case 1
  then obtain f where f: "fuel = Suc f" by (cases fuel) auto
  have "moved d p 0 d p" using 1 by (simp add: moved_def advanced_def standing_def)
  then show ?case using decoder_at_end [of d p rest] 1 kept_nil [of m]
    by (simp add: f Let_def upb_Decoder_DecodeField_def upb_Decoder_EndMessage_def)
      (metis upb_Decoder.surjective upb_Decoder.update_convs(2))
next
  case (2 tb t hb body bs)
  obtain f where f: "fuel = Suc f" using 2 by (cases fuel) auto
  have tb: "tb \<noteq> []" by (rule is_tag_nonempty [OF 2(1)])
  from loop_unknown_field [OF 2(7,1,2,4,3), where fuel = f and msg = "Some m"]
  obtain d1 p1 v where d1: "decode_message_loop (Suc f) env d p (Some m) mt =
      bindE (upb_Decoder_DecodeUnknownField (dm_of env f) d1 p1 (Some m) (drop_bit 3 t) (t AND 7) v)
        (\<lambda>(d, p, msg). if d_message_is_done d then Inr (d, p, msg) else decode_message_loop f env d p msg mt)"
    "moved d p (length tb + length hb) d1 p1" "t AND 7 = 2 \<longrightarrow> uint (ucast v :: u32) = int (length body)"
    "standing (d_input d1) p1 (body @ bs) rest"
    "unknown_field_start (eps_mem (d_input d1)) p1 (drop_bit 3 t) (t AND 7) = Some (p1 - int (length (tb @ hb)))"
    by blast
  note f1 = moved_fields [OF d1(2)]
  have len: "length body \<le> f" "length bs < f" using 2(12) f tb by (cases tb; auto)+
  have "standing (d_input d1) p1 body (bs @ rest)" using d1(4) by (simp add: standing_def)
  with walk_unknown(1) [OF 2(4), rule_format, of d1 p1 "bs @ rest" f v env] 2(9-11) f1 d1(3) len
  obtain d2 p2 where d2: "skip_body (dm_of env f) d1 p1 t v = Inr (d2, p2)" "moved d1 p1 (length body) d2 p2" by auto
  have s: "standing (d_input d) p ((tb @ hb) @ body @ bs) rest" using 2(7) by simp
  have mv: "moved d p (length (tb @ hb)) d1 p1" using d1(2) by simp
  have ne: "tb @ hb \<noteq> []" using tb by simp
  note field = DecodeUnknownField_keeps [OF s mv ne d1(5) 2(2,13) d2]
  show ?case
  proof (cases "upb_Decoder_DecodeUnknownField (dm_of env f) d1 p1 (Some m) (drop_bit 3 t) (t AND 7) v")
    case (Inl st)
    with field f1 d1(1) f show ?thesis by simp
  next
    case (Inr r)
    with field f1 obtain p3 m3 a d3 where d3: "r = (d3\<lparr>d_arena := a\<rparr>, p3, Some m3)"
      "moved d p (length ((tb @ hb) @ body)) d3 p3" "arena_refuses a = arena_refuses (d_arena d)"
      "kept m ((tb @ hb) @ body) m3" by (cases r) auto
    note f3 = moved_fields [OF d3(2)]
    let ?d = "d3\<lparr>d_arena := a\<rparr>"
    have "standing (d_input d) p (((tb @ hb) @ body) @ bs) rest" using s by simp
    from moved_standing [OF this d3(2)] have s3: "standing (d_input ?d) p3 bs rest" by simp
    have lim: "eps_pos (d_input ?d) p3 + int (length bs) = eps_lim (d_input ?d)"
      using d3(2) 2(8) by (simp add: moved_def advanced_def)
    have "aux_inv (upb_Message_GetInternal m3)" using d3(4) by (simp add: kept_def)
    with 2(6) [OF s3 lim, of f m3] 2(9-11) f3 len(2)
    have IH: "case decode_message_loop f env ?d p3 (Some m3) mt of
        Inl st \<Rightarrow> st = kUpb_DecodeStatus_OutOfMemory \<and> arena_refuses (d_arena ?d)
      | Inr (d', p', r) \<Rightarrow> \<exists>m' a' d1. r = Some m' \<and> d' = d1\<lparr>d_arena := a', d_message_is_done := True\<rparr> \<and>
          moved ?d p3 (length bs) d1 p' \<and> arena_refuses a' = arena_refuses (d_arena ?d) \<and> kept m3 bs m'" by simp
    have loop: "decode_message_loop fuel env d p (Some m) mt = decode_message_loop f env ?d p3 (Some m3) mt"
      using d1(1) Inr d3(1) f 2(10) f3 by simp
    show ?thesis
    proof (cases "decode_message_loop f env ?d p3 (Some m3) mt")
      case (Inl st)
      with IH loop d3(3) show ?thesis by simp
    next
      case (Inr r)
      with IH obtain p' m' a' d4 where d4: "r = (d4\<lparr>d_arena := a', d_message_is_done := True\<rparr>, p', Some m')"
        "moved ?d p3 (length bs) d4 p'" "arena_refuses a' = arena_refuses a" "kept m3 bs m'" by (cases r) auto
      let ?r = "d3\<lparr>d_input := d_input d4\<rparr>"
      have "moved d3 p3 (length bs) ?r p'" using d4(2) by (simp add: moved_def)
      with d3(2) have "moved d p (length ((tb @ hb) @ body) + length bs) ?r p'" by (rule moved_trans)
      moreover have "d4 = ?d\<lparr>d_input := d_input d4\<rparr>" using d4(2) unfolding moved_def by blast
      then have "d4\<lparr>d_arena := a', d_message_is_done := True\<rparr> = ?r\<lparr>d_arena := a', d_message_is_done := True\<rparr>"
        by (metis (no_types, lifting) upb_Decoder.surjective upb_Decoder.update_convs(1,2))
      moreover have "kept m (tb @ hb @ body @ bs) m'" using kept_append [OF d3(4) d4(4)] by simp
      ultimately show ?thesis unfolding loop Inr d4(1) using d3(3) d4(3) by (auto simp: add.assoc)
    qed
  qed
qed

section \<open>Properties\<close>

text \<open>C2: unknown fields survive decoding. Well-formed fields that the message's table (and the extension
  registry) does not know, with groups nested no deeper than the limit, are appended byte for byte, tags
  included, to the unknown fields of the message; its fields and presence bits stay as they were. The
  only other outcome is OutOfMemory, and only when the arena refuses a request. The bytes of the input
  plus one are enough fuel.\<close>

theorem decode_keeps_unknown_fields:
  assumes "init_args bs buf (fst (env_frame env buf (length bs))) (snd (env_frame env buf (length bs)))"
    and "unknown_fields (\<lambda>n w. upb_Decoder_FindField env (Some mt) n w = FieldNotFound) k bs"
    and "k \<le> unat (upb_DecodeOptions_GetEffectiveMaxDepth options)" and "length bs < fuel"
    and "mt_required_count (env_tabs env mt) = 0" and "aux_inv (upb_Message_GetInternal m)"
  shows "case upb_Decode env fuel buf bs m mt options arena of (status, m', _) \<Rightarrow>
      if status = kUpb_DecodeStatus_Ok then
        content (upb_Message_GetInternal m') = content (upb_Message_GetInternal m) @ bs \<and>
        extensions (upb_Message_GetInternal m') = extensions (upb_Message_GetInternal m) \<and>
        aux_inv (upb_Message_GetInternal m') \<and> msg_cells m' = msg_cells m \<and>
        msg_hasbits m' = msg_hasbits m \<and> msg_cases m' = msg_cases m
      else status = kUpb_DecodeStatus_OutOfMemory \<and> arena_refuses arena"
proof -
  obtain pa patch where fr: "env_frame env buf (length bs) = (pa, patch)" by (cases "env_frame env buf (length bs)")
  obtain e p where i: "upb_EpsCopyInputStream_Init bs buf pa patch (options AND kUpb_DecodeOption_AliasString \<noteq> 0) = (e, p)"
    by (cases "upb_EpsCopyInputStream_Init bs buf pa patch (options AND kUpb_DecodeOption_AliasString \<noteq> 0)")
  note s = Init_spec [OF assms(1) [unfolded fr fst_conv snd_conv] i]
  define d where "d = \<lparr>d_input = e, d_arena = arena,
        d_depth = uint (upb_DecodeOptions_GetEffectiveMaxDepth options),
        d_end_group = DECODE_NOGROUP, d_options = options AND 0xFFFF,
        d_missing_required = False, d_message_is_done = False\<rparr>"
  have init: "upb_Decoder_Init env buf bs options arena = (d, p)"
    by (simp add: upb_Decoder_Init_def fr i d_def)
  have "int k \<le> int (unat (upb_DecodeOptions_GetEffectiveMaxDepth options))"
    using assms(3) by (simp only: of_nat_le_iff)
  then have k: "int k \<le> d_depth d" by (simp add: d_def)
  have "standing (d_input d) p bs []" using s by (simp add: standing_def d_def)
  from loop_keeps_unknown [OF assms(2) this, of fuel m] s assms(4,6) k
  have loop: "case decode_message_loop fuel env d p (Some m) (Some mt) of
      Inl st \<Rightarrow> st = kUpb_DecodeStatus_OutOfMemory \<and> arena_refuses (d_arena d)
    | Inr (d', p', r) \<Rightarrow> \<exists>m' a d1. r = Some m' \<and> d' = d1\<lparr>d_arena := a, d_message_is_done := True\<rparr> \<and>
        moved d p (length bs) d1 p' \<and> arena_refuses a = arena_refuses (d_arena d) \<and> kept m bs m'"
    by (simp add: d_def)
  show ?thesis
  proof (cases "decode_message_loop fuel env d p (Some m) (Some mt)")
    case (Inl st)
    with loop init show ?thesis
      by (simp add: upb_Decode_def decode_bytes_with_def upb_Decoder_Decode_def upb_Decoder_DecodeTop_def
          upb_Decoder_DecodeMessage_def d_def)
  next
    case (Inr r)
    with loop obtain d1 a p' m' where r: "r = (d1\<lparr>d_arena := a, d_message_is_done := True\<rparr>, p', Some m')"
      "moved d p (length bs) d1 p'" "kept m bs m'" by (cases r) auto
    have "d1 = d\<lparr>d_input := d_input d1\<rparr>" using r(2) unfolding moved_def by blast
    then have "\<not> d_missing_required d1" by (metis d_def upb_Decoder.select_convs(6) upb_Decoder.update_convs(1))
    with Inr r moved_fields(3) [OF r(2)] init assms(5) show ?thesis
      by (simp add: upb_Decode_def decode_bytes_with_def upb_Decoder_Decode_def upb_Decoder_DecodeTop_def
          upb_Decoder_DecodeMessage_def d_def Let_def kept_def)
  qed
qed

text \<open>A number and an unknown group that holds one, into a message type without fields.\<close>

lemma unknown_example:
  "unknown_fields U 1 [8, 150, 1, 19, 8, 5, 20]" if "\<And>n w. U n w"
proof -
  have t: "is_tag [8] 8" "is_tag [19] 19" "is_tag [20] 20" "drop_bit 3 (8 :: u32) \<noteq> 0" "drop_bit 3 (19 :: u32) \<noteq> 0"
    "(8 :: u32) AND 7 = 0" "(19 :: u32) AND 7 = 3" "(20 :: u32) AND 7 = 4" "drop_bit 3 (20 :: u32) = drop_bit 3 19"
    "value_head 0 [150, 1]" "value_head 0 [5]" by code_simp+
  have "field_body 0 8 [5] []" using field_body_message_fields.scalar [of 8 "[5]" 0] t by simp
  from field_body_message_fields.field [OF t(1,4) this field_body_message_fields.none]
  have "message_fields 0 [8, 5]" by simp
  from field_body_message_fields.group [OF t(7) this t(3,8,9)] have g: "field_body 1 19 [] [8, 5, 20]" by simp
  have h: "field_body 1 8 [150, 1] []" using field_body_message_fields.scalar [of 8 "[150, 1]" 1] t by simp
  from unknown_fields.intros(2) [OF t(2,5) that g unknown_fields.intros(1)]
  have "unknown_fields U 1 [19, 8, 5, 20]" by simp
  from unknown_fields.intros(2) [OF t(1,4) that h this] show ?thesis by simp
qed

definition example_env :: decode_env where
  "example_env = \<lparr>env_tabs = (\<lambda>_. \<lparr>mt_subs = [], mt_fields = [], mt_size = 8, mt_ext = kUpb_ExtMode_NonExtendable,
       mt_dense_below = 0, mt_required_count = 0\<rparr>), env_extreg = None, env_utf8 = (\<lambda>_. True),
     env_map_new = (\<lambda>_ _. None), env_map_insert = (\<lambda>_ _ _ _. None), env_frame = (\<lambda>_ _. (0, replicate 32 0))\<rparr>"

definition example_arena :: upb_Arena where
  "example_arena = \<lparr>arena_malloc = (\<lambda>k n. Some 8192), arena_extend = (\<lambda>k p m n. False), arena_requests = 0\<rparr>"

theorem decode_keeps_unknown_fields_witness:
  "case upb_Decode example_env 8 1000 [8, 150, 1, 19, 8, 5, 20] new_message (MT 0) 0 example_arena of (status, m', _) \<Rightarrow>
     status = kUpb_DecodeStatus_Ok \<and> content (upb_Message_GetInternal m') = [8, 150, 1, 19, 8, 5, 20]"
proof -
  have "upb_MiniTable_FindFieldByNumber \<lparr>mt_subs = [], mt_fields = [], mt_size = 8, mt_ext = kUpb_ExtMode_NonExtendable,
       mt_dense_below = 0, mt_required_count = 0\<rparr> n = None" for n
    by (simp add: upb_MiniTable_FindFieldByNumber_def Let_def)
  then have ff: "upb_Decoder_FindField example_env (Some (MT 0)) n w = FieldNotFound" for n w
    by (simp add: upb_Decoder_FindField_def example_env_def)
  have "init_args [8, 150, 1, 19, 8, 5, 20] 1000 0 (replicate 32 0)" by (simp add: init_args_def)
  moreover have "1 \<le> unat (upb_DecodeOptions_GetEffectiveMaxDepth 0)" by code_simp
  moreover have "\<not> arena_refuses example_arena" by (simp add: example_arena_def arena_refuses_def)
  moreover have "content (upb_Message_GetInternal new_message) = []" "aux_inv (upb_Message_GetInternal new_message)"
    by (simp_all add: new_message_def upb_Message_GetInternal_def content_def aux_inv_def)
  ultimately show ?thesis
    using decode_keeps_unknown_fields [of "[8, 150, 1, 19, 8, 5, 20]" 1000 example_env "MT 0" 1 0 8 new_message example_arena]
      unknown_example [of "\<lambda>n w. upb_Decoder_FindField example_env (Some (MT 0)) n w = FieldNotFound", OF ff]
    by (auto simp: example_env_def split: prod.splits if_splits)
qed

end
