(* ===== verification/Mini_Enum.thy ===== *)
theory Mini_Enum
  imports Base92 Mini_Table
begin

text \<open>
  Closed enums from definition to table: the value list is written as a mini descriptor
  (\<open>upb/mini_descriptor/internal/encode.c\<close>, \<open>upb/reflection/desc_state.c\<close>,
  \<open>upb/reflection/enum_def.c\<close>) which \<open>upb/mini_descriptor/build_enum.c\<close> turns into the table
  that \<open>upb_MiniTableEnum_CheckValue\<close> searches.
\<close>

section \<open>Writing the mini descriptor of an enum\<close>

text \<open>\<open>upb_MtDataEncoderInternal_EnumState\<close>.\<close>

record enum_state =
  es_present_values_mask :: u64
  es_last_written_value :: u32

definition upb_MtDataEncoder_StartEnum ::
  "nat \<Rightarrow> byte list \<Rightarrow> enum_state \<times> byte list option" where
  "upb_MtDataEncoder_StartEnum cap ptr =
     (\<lparr>es_present_values_mask = 0, es_last_written_value = 0\<rparr>,
      upb_MtDataEncoder_PutRaw cap ptr kUpb_EncodedVersion_EnumV1)"

definition upb_MtDataEncoder_FlushDenseEnumMask ::
  "nat \<Rightarrow> enum_state \<Rightarrow> byte list \<Rightarrow> enum_state \<times> byte list option" where
  "upb_MtDataEncoder_FlushDenseEnumMask cap st ptr =
     (let ptr = upb_MtDataEncoder_Put cap ptr (uint (es_present_values_mask st))
      in (st\<lparr>es_present_values_mask := 0, es_last_written_value := es_last_written_value st + 5\<rparr>, ptr))"

text \<open>When the skip does not fit the state is updated all the same, and NULL returned.\<close>

definition upb_MtDataEncoder_PutEnumValue ::
  "nat \<Rightarrow> enum_state \<Rightarrow> byte list \<Rightarrow> u32 \<Rightarrow> enum_state \<times> byte list option" where
  "upb_MtDataEncoder_PutEnumValue cap st ptr val =
     (let delta = val - es_last_written_value st;
          (st, ptr, delta) =
            (if delta \<ge> 5 \<and> es_present_values_mask st \<noteq> 0 then
               case upb_MtDataEncoder_FlushDenseEnumMask cap st ptr of
                 (st, ptr) \<Rightarrow> (st, ptr, delta - 5)
             else (st, Some ptr, delta))
      in case ptr of
           None \<Rightarrow> (st, None)
         | Some ptr \<Rightarrow>
             let (st, ptr, delta) =
               (if delta \<ge> 5 then
                  (st\<lparr>es_last_written_value := es_last_written_value st + delta\<rparr>,
                   upb_MtDataEncoder_PutBase92Varint cap ptr delta
                     kUpb_EncodedValue_MinSkip kUpb_EncodedValue_MaxSkip, 0)
                else (st, Some ptr, delta))
             in (st\<lparr>es_present_values_mask := es_present_values_mask st OR push_bit (unat delta) 1\<rparr>, ptr))"

definition upb_MtDataEncoder_EndEnum ::
  "nat \<Rightarrow> enum_state \<Rightarrow> byte list \<Rightarrow> enum_state \<times> byte list option" where
  "upb_MtDataEncoder_EndEnum cap st ptr =
     (if es_present_values_mask st = 0 then (st, Some ptr)
      else upb_MtDataEncoder_FlushDenseEnumMask cap st ptr)"

text \<open>
  \<open>upb_DescState\<close>: the growing buffer, \<open>None\<close> before the first allocation, otherwise what is
  written. \<open>alloc\<close> says whether the arena grants a request of that many bytes.
\<close>

record upb_DescState =
  ds_bufsize :: nat
  ds_buf :: "byte list option"

definition kUpb_MtDataEncoder_MinSize :: nat where
  "kUpb_MtDataEncoder_MinSize = 16"

definition upb_DescState_Init :: upb_DescState where
  "upb_DescState_Init = \<lparr>ds_bufsize = kUpb_MtDataEncoder_MinSize * 2, ds_buf = None\<rparr>"

definition upb_DescState_Grow :: "(nat \<Rightarrow> bool) \<Rightarrow> upb_DescState \<Rightarrow> upb_DescState option" where
  "upb_DescState_Grow alloc d =
     (let oldbufsize = ds_bufsize d;
          used = (case ds_buf d of None \<Rightarrow> 0 | Some b \<Rightarrow> length b)
      in case (case ds_buf d of
                 None \<Rightarrow> if alloc (ds_bufsize d) then Some (d\<lparr>ds_buf := Some []\<rparr>) else None
               | Some _ \<Rightarrow> Some d) of
           None \<Rightarrow> None
         | Some d \<Rightarrow>
             if oldbufsize - used < kUpb_MtDataEncoder_MinSize then
               (if alloc (ds_bufsize d * 2) then Some (d\<lparr>ds_bufsize := ds_bufsize d * 2\<rparr>) else None)
             else Some d)"

text \<open>
  The loop of \<open>upb_EnumDef_MiniDescriptorEncode\<close> over the values; \<open>previous\<close> is \<open>None\<close> at
  \<open>i = 0\<close>. A NULL of the encoder, which the code does not test, ends the model with \<open>None\<close>;
  \<open>MiniDescriptorEncode_total\<close> below shows that only the allocator makes it fail.
\<close>

fun put_enum_values ::
  "(nat \<Rightarrow> bool) \<Rightarrow> u32 option \<Rightarrow> upb_DescState \<Rightarrow> enum_state \<Rightarrow> u32 list \<Rightarrow>
     (upb_DescState \<times> enum_state) option" where
  "put_enum_values alloc previous s st [] = Some (s, st)"
| "put_enum_values alloc previous s st (current # values) =
     (if previous = Some current then put_enum_values alloc previous s st values
      else case upb_DescState_Grow alloc s of
             None \<Rightarrow> None
           | Some s \<Rightarrow>
               (case upb_MtDataEncoder_PutEnumValue (ds_bufsize s) st (the (ds_buf s)) current of
                  (st, None) \<Rightarrow> None
                | (st, Some ptr) \<Rightarrow>
                    put_enum_values alloc (Some current) (s\<lparr>ds_buf := Some ptr\<rparr>) st values))"

text \<open>
  \<open>numbers\<close> are the numbers of the enum's values in order of definition. The pointer array
  for the sorted copy takes 8 bytes a value.
\<close>

definition upb_EnumDef_MiniDescriptorEncode ::
  "(nat \<Rightarrow> bool) \<Rightarrow> bool \<Rightarrow> u32 list \<Rightarrow> byte list option" where
  "upb_EnumDef_MiniDescriptorEncode alloc is_sorted numbers =
     (if \<not> is_sorted \<and> \<not> alloc (length numbers * 8) then None
      else
        let values = (if is_sorted then numbers else sort numbers) in
        case upb_DescState_Grow alloc upb_DescState_Init of
          None \<Rightarrow> None
        | Some s \<Rightarrow>
            (case upb_MtDataEncoder_StartEnum (ds_bufsize s) (the (ds_buf s)) of
               (st, None) \<Rightarrow> None
             | (st, Some ptr) \<Rightarrow>
                 (case put_enum_values alloc None (s\<lparr>ds_buf := Some ptr\<rparr>) st values of
                    None \<Rightarrow> None
                  | Some (s, st) \<Rightarrow>
                      (case upb_DescState_Grow alloc s of
                         None \<Rightarrow> None
                       | Some s \<Rightarrow> snd (upb_MtDataEncoder_EndEnum (ds_bufsize s) st (the (ds_buf s)))))))"

section \<open>Building the table\<close>

datatype md_error =
  MdOutOfMemory | MdInvalidVersion byte | MdUnexpectedCharacter byte | MdOverlongVarint

text \<open>
  \<open>upb_MdEnumDecoder\<close>: the table under construction with its capacity; \<open>enum_data_count\<close> is
  the length of \<open>mte_data\<close>.
\<close>

record upb_MdEnumDecoder =
  ed_table :: upb_MiniTableEnum
  ed_value_count :: u32
  ed_data_capacity :: u32

definition upb_MiniTableEnum_Size :: "nat \<Rightarrow> nat" where
  "upb_MiniTableEnum_Size count = max 8 (8 + 4 * count)"

definition upb_MiniTable_AddEnumDataMember ::
  "(nat \<Rightarrow> bool) \<Rightarrow> upb_MdEnumDecoder \<Rightarrow> u32 \<Rightarrow> md_error + upb_MdEnumDecoder" where
  "upb_MiniTable_AddEnumDataMember alloc d val =
     (let push = (\<lambda>d. d\<lparr>ed_table := (ed_table d)\<lparr>mte_data := mte_data (ed_table d) @ [val]\<rparr>\<rparr>) in
      if length (mte_data (ed_table d)) = unat (ed_data_capacity d) then
        if ed_data_capacity d > 0x7FFFFFFF then Inl MdOutOfMemory
        else
          let new_capacity = max 2 (ed_data_capacity d * 2) in
          if \<not> alloc (upb_MiniTableEnum_Size (unat new_capacity)) then Inl MdOutOfMemory
          else Inr (push (d\<lparr>ed_data_capacity := new_capacity\<rparr>))
      else Inr (push d))"

lemma AddEnumDataMember_same:
  "upb_MiniTable_AddEnumDataMember alloc d val = Inr d' \<Longrightarrow>
     mte_mask_limit (ed_table d') = mte_mask_limit (ed_table d) \<and>
     mte_value_count (ed_table d') = mte_value_count (ed_table d) \<and>
     mte_data (ed_table d') = mte_data (ed_table d) @ [val] \<and>
     ed_value_count d' = ed_value_count d"
  by (auto simp: upb_MiniTable_AddEnumDataMember_def Let_def split: if_splits)

lemma mask_limit_step:
  assumes "(m :: u32) < (q + 1) * 32"
  shows "unat (m + 32) = unat m + 32" "unat ((q + 1) * 32) - unat (m + 32) < unat ((q + 1) * 32) - unat m"
proof -
  have "unat ((q + 1) * 32 :: u32) = (unat (q + 1) * 32) mod 2 ^ 32"
    by (simp only: unat_word_ariths) simp
  also have "\<dots> = (unat (q + 1) mod 2 ^ 27) * 32"
    using mult_mod_left [of "unat (q + 1)" "2 ^ 27" 32] by simp
  also have "\<dots> \<le> (2 ^ 27 - 1) * 32"
  proof (rule mult_le_mono1)
    have "unat (q + 1) mod 2 ^ 27 < 2 ^ 27" by simp
    then show "unat (q + 1) mod 2 ^ 27 \<le> 2 ^ 27 - 1" by linarith
  qed
  finally have "unat m + 32 < 2 ^ 32" using assms by (simp add: word_less_nat_alt)
  then show "unat (m + 32) = unat m + 32" by (simp add: unat_word_ariths)
  with assms show "unat ((q + 1) * 32) - unat (m + 32) < unat ((q + 1) * 32) - unat m"
    by (simp add: word_less_nat_alt)
qed

text \<open>The loop that makes room in the bitmask for the word \<open>q = val / 32\<close>.\<close>

function grow_enum_mask ::
  "(nat \<Rightarrow> bool) \<Rightarrow> upb_MdEnumDecoder \<Rightarrow> u32 \<Rightarrow> md_error + upb_MdEnumDecoder" where
  "grow_enum_mask alloc d q =
     (let new_mask_limit = (q + 1) * 32 in
      if mte_mask_limit (ed_table d) < new_mask_limit then
        bindE (upb_MiniTable_AddEnumDataMember alloc d 0) (\<lambda>d.
          grow_enum_mask alloc
            (d\<lparr>ed_table := (ed_table d)\<lparr>mte_mask_limit := mte_mask_limit (ed_table d) + 32\<rparr>\<rparr>) q)
      else Inr d)"
  by pat_completeness auto
termination
proof (relation "measure (\<lambda>(alloc, d, q). unat ((q + 1) * 32) - unat (mte_mask_limit (ed_table d)))", goal_cases)
  case (2 alloc d q nl d')
  then show ?case using mask_limit_step(2) [of "mte_mask_limit (ed_table d)" q]
    by (auto dest!: AddEnumDataMember_same)
qed simp

declare grow_enum_mask.simps [simp del]

definition upb_MiniTableEnum_BuildValue ::
  "(nat \<Rightarrow> bool) \<Rightarrow> upb_MdEnumDecoder \<Rightarrow> u32 \<Rightarrow> md_error + upb_MdEnumDecoder" where
  "upb_MiniTableEnum_BuildValue alloc d val =
     (let table = ed_table d;
          d = d\<lparr>ed_value_count := ed_value_count d + 1\<rparr>
      in if mte_value_count table \<noteq> 0 \<or> (val > 512 \<and> ed_value_count d < val div 32) then
           bindE (upb_MiniTable_AddEnumDataMember alloc d val) (\<lambda>d.
             Inr (d\<lparr>ed_table := (ed_table d)\<lparr>mte_value_count := mte_value_count (ed_table d) + 1\<rparr>\<rparr>))
         else
           bindE (grow_enum_mask alloc d (val div 32)) (\<lambda>d.
             let data = mte_data (ed_table d); i = unat (val div 32) in
             Inr (d\<lparr>ed_table := (ed_table d)\<lparr>mte_data :=
                      data[i := data ! i OR push_bit (unat (val mod 32)) 1]\<rparr>\<rparr>)))"

text \<open>The five values of a mask character; \<open>n\<close> is the number left.\<close>

fun build_mask ::
  "(nat \<Rightarrow> bool) \<Rightarrow> nat \<Rightarrow> u32 \<Rightarrow> u32 \<Rightarrow> upb_MdEnumDecoder \<Rightarrow> md_error + upb_MdEnumDecoder \<times> u32" where
  "build_mask alloc 0 msk base d = Inr (d, base)"
| "build_mask alloc (Suc n) msk base d =
     bindE (if msk AND 1 \<noteq> 0 then upb_MiniTableEnum_BuildValue alloc d base else Inr d)
       (build_mask alloc n (drop_bit 1 msk) (base + 1))"

lemma DecodeVarint_loop_length:
  "Base92_DecodeVarint_loop b mn mx ptr ch val s = Some (ptr', v) \<Longrightarrow> length ptr' \<le> length ptr"
  by (induction ptr arbitrary: ch val s) (auto simp: Let_def le_Suc_eq split: if_splits)

function build_enum_loop ::
  "(nat \<Rightarrow> bool) \<Rightarrow> byte list \<Rightarrow> u32 \<Rightarrow> upb_MdEnumDecoder \<Rightarrow> md_error + upb_MdEnumDecoder" where
  "build_enum_loop alloc [] base d = Inr d"
| "build_enum_loop alloc (ch # ptr) base d =
     (if sint ch \<le> sint kUpb_EncodedValue_MaxEnumMask then
        let mask = word_of_int (upb_FromBase92 ch) in
        bindE (build_mask alloc 5 mask base d) (\<lambda>(d, base). build_enum_loop alloc ptr base d)
      else if sint kUpb_EncodedValue_MinSkip \<le> sint ch \<and> sint ch \<le> sint kUpb_EncodedValue_MaxSkip then
        (case upb_Base92_DecodeVarint ptr ch kUpb_EncodedValue_MinSkip kUpb_EncodedValue_MaxSkip of
           None \<Rightarrow> Inl MdOverlongVarint
         | Some (ptr, skip) \<Rightarrow> build_enum_loop alloc ptr (base + skip) d)
      else Inl (MdUnexpectedCharacter ch))"
  by pat_completeness auto
termination
  by (relation "measure (\<lambda>(alloc, ptr, base, d). length ptr)")
    (auto simp: upb_Base92_DecodeVarint_def dest!: DecodeVarint_loop_length)

definition upb_MtDecoder_DoBuildMiniTableEnum ::
  "(nat \<Rightarrow> bool) \<Rightarrow> upb_MdEnumDecoder option \<Rightarrow> byte list \<Rightarrow> md_error + upb_MiniTableEnum" where
  "upb_MtDecoder_DoBuildMiniTableEnum alloc d data =
     (if data \<noteq> [] \<and> hd data \<noteq> kUpb_EncodedVersion_EnumV1 then Inl (MdInvalidVersion (hd data))
      else
        let data = tl data in
        case d of
          None \<Rightarrow> Inl MdOutOfMemory
        | Some d \<Rightarrow>
            let d = d\<lparr>ed_table := (ed_table d)\<lparr>mte_mask_limit := 64\<rparr>\<rparr> in
            bindE (upb_MiniTable_AddEnumDataMember alloc d 0) (\<lambda>d.
            bindE (upb_MiniTable_AddEnumDataMember alloc d 0) (\<lambda>d.
            let d = d\<lparr>ed_table := (ed_table d)\<lparr>mte_value_count := 0\<rparr>\<rparr> in
            bindE (build_enum_loop alloc data 0 d) (\<lambda>d. Inr (ed_table d)))))"

text \<open>
  \<open>upb_MiniTableEnum_Build\<close>: the counters of the fresh table are not initialised before
  \<open>DoBuild\<close> sets them, so \<open>junk\<close> stands for what the memory held.
\<close>

definition upb_MiniTableEnum_Build ::
  "(nat \<Rightarrow> bool) \<Rightarrow> upb_MiniTableEnum \<Rightarrow> byte list \<Rightarrow> md_error + upb_MiniTableEnum" where
  "upb_MiniTableEnum_Build alloc junk data =
     (let initial_capacity = 2;
          decoder = (if alloc (upb_MiniTableEnum_Size (unat (initial_capacity :: u32)))
            then Some \<lparr>ed_table = junk\<lparr>mte_data := []\<rparr>, ed_value_count = 0,
                   ed_data_capacity = initial_capacity\<rparr>
            else None)
      in upb_MtDecoder_DoBuildMiniTableEnum alloc decoder data)"

definition create_enumlayout ::
  "(nat \<Rightarrow> bool) \<Rightarrow> upb_MiniTableEnum \<Rightarrow> bool \<Rightarrow> u32 list \<Rightarrow> md_error + upb_MiniTableEnum" where
  "create_enumlayout alloc junk is_sorted numbers =
     (case upb_EnumDef_MiniDescriptorEncode alloc is_sorted numbers of
        None \<Rightarrow> Inl MdOutOfMemory
      | Some sv \<Rightarrow> upb_MiniTableEnum_Build alloc junk sv)"

section \<open>The table holds exactly the values added in ascending order\<close>

text \<open>A result is good or the allocator has refused a request.\<close>

definition or_oom :: "(nat \<Rightarrow> bool) \<Rightarrow> md_error + 'a \<Rightarrow> ('a \<Rightarrow> bool) \<Rightarrow> bool" where
  "or_oom alloc r P \<longleftrightarrow> (case r of Inl e \<Rightarrow> e = MdOutOfMemory \<and> (\<exists>n. \<not> alloc n) | Inr x \<Rightarrow> P x)"

lemma or_oom_simps [simp]:
  "or_oom alloc (Inr x) P \<longleftrightarrow> P x"
  "or_oom alloc (Inl e) P \<longleftrightarrow> e = MdOutOfMemory \<and> (\<exists>n. \<not> alloc n)"
  by (simp_all add: or_oom_def)

lemma or_oom_bind:
  "or_oom alloc r P \<Longrightarrow> (\<And>x. P x \<Longrightarrow> or_oom alloc (f x) Q) \<Longrightarrow> or_oom alloc (bindE r f) Q"
  by (cases r) simp_all

lemma or_oom_mono: "or_oom alloc r P \<Longrightarrow> (\<And>x. P x \<Longrightarrow> Q x) \<Longrightarrow> or_oom alloc r Q"
  by (cases r) simp_all

definition cap_ok :: "upb_MdEnumDecoder \<Rightarrow> bool" where
  "cap_ok d \<longleftrightarrow> length (mte_data (ed_table d)) \<le> unat (ed_data_capacity d) \<and>
     unat (ed_data_capacity d) \<le> 2 * length (mte_data (ed_table d)) + 2"

lemma unat_double: "(c :: u32) \<le> 0x7FFFFFFF \<Longrightarrow> unat (max 2 (c * 2)) = max 2 (2 * unat c)"
proof -
  assume "c \<le> 0x7FFFFFFF"
  then have "unat c * 2 < 2 ^ 32" by (simp add: word_le_nat_alt)
  then have "unat (c * 2) = 2 * unat c" by (simp add: unat_word_ariths)
  then show ?thesis by (simp add: max_def word_le_nat_alt)
qed

lemma AddEnumDataMember_ok:
  assumes "cap_ok d" and "length (mte_data (ed_table d)) < 2 ^ 29"
  shows "or_oom alloc (upb_MiniTable_AddEnumDataMember alloc d v)
    (\<lambda>d'. cap_ok d' \<and> d' = d\<lparr>ed_table := (ed_table d)\<lparr>mte_data := mte_data (ed_table d) @ [v]\<rparr>,
        ed_data_capacity := ed_data_capacity d'\<rparr>)"
proof (cases "length (mte_data (ed_table d)) = unat (ed_data_capacity d)")
  case True
  then have "ed_data_capacity d \<le> 0x7FFFFFFF" using assms(2) by (simp add: word_le_nat_alt)
  with unat_double [OF this] True show ?thesis
    by (auto simp: upb_MiniTable_AddEnumDataMember_def Let_def cap_ok_def)
next
  case False
  with assms(1) show ?thesis by (simp add: upb_MiniTable_AddEnumDataMember_def Let_def cap_ok_def)
qed

lemma unat_div_32: "unat (x div 32 :: u32) = unat x div 32" and unat_mod_32: "unat (x mod 32 :: u32) = unat x mod 32"
  by (simp_all add: unat_div unat_mod)

lemma grow_enum_mask_ok:
  assumes "cap_ok d" and "unat (mte_mask_limit (ed_table d)) = 32 * length (mte_data (ed_table d))"
    and "unat q + 1 < 2 ^ 27"
  shows "or_oom alloc (grow_enum_mask alloc d q)
    (\<lambda>d'. cap_ok d' \<and> (\<exists>k. d' = d\<lparr>ed_table := (ed_table d)\<lparr>mte_mask_limit := mte_mask_limit (ed_table d'),
          mte_data := mte_data (ed_table d) @ replicate k 0\<rparr>, ed_data_capacity := ed_data_capacity d'\<rparr> \<and>
        unat (mte_mask_limit (ed_table d')) = 32 * (length (mte_data (ed_table d)) + k) \<and>
        length (mte_data (ed_table d)) + k = max (length (mte_data (ed_table d))) (unat q + 1)))"
  using assms
proof (induction alloc d q rule: grow_enum_mask.induct)
  case (1 alloc d q)
  let ?n = "length (mte_data (ed_table d))"
  have q: "unat ((q + 1) * 32) = 32 * (unat q + 1)"
    using 1(4) by (simp add: unat_word_ariths mod_less)
  show ?case
  proof (cases "mte_mask_limit (ed_table d) < (q + 1) * 32")
    case False
    then have "unat q + 1 \<le> ?n" using 1(3) q by (simp add: word_less_nat_alt)
    with False 1(2,3) show ?thesis
      by (subst grow_enum_mask.simps) (auto intro!: exI [of _ 0])
  next
    case True
    then have n: "?n < unat q + 1" using 1(3) q by (simp add: word_less_nat_alt)
    note add = AddEnumDataMember_ok [OF 1(2), of alloc 0]
    show ?thesis
      unfolding grow_enum_mask.simps [of alloc d q] Let_def if_P [OF True]
    proof (rule or_oom_bind)
      show "or_oom alloc (upb_MiniTable_AddEnumDataMember alloc d 0)
        (\<lambda>d'. cap_ok d' \<and> d' = d\<lparr>ed_table := (ed_table d)\<lparr>mte_data := mte_data (ed_table d) @ [0]\<rparr>,
            ed_data_capacity := ed_data_capacity d'\<rparr> \<and> upb_MiniTable_AddEnumDataMember alloc d 0 = Inr d')"
        using add n 1(4) by (cases "upb_MiniTable_AddEnumDataMember alloc d 0") auto
    next
      fix d1
      assume d1: "cap_ok d1 \<and> d1 = d\<lparr>ed_table := (ed_table d)\<lparr>mte_data := mte_data (ed_table d) @ [0]\<rparr>,
            ed_data_capacity := ed_data_capacity d1\<rparr> \<and> upb_MiniTable_AddEnumDataMember alloc d 0 = Inr d1"
      let ?d2 = "d1\<lparr>ed_table := (ed_table d1)\<lparr>mte_mask_limit := mte_mask_limit (ed_table d1) + 32\<rparr>\<rparr>"
      have same: "mte_mask_limit (ed_table d1) = mte_mask_limit (ed_table d)"
        "mte_data (ed_table d1) = mte_data (ed_table d) @ [0]" using d1 by (metis AddEnumDataMember_same)+
      have "cap_ok ?d2" using d1 by (simp add: cap_ok_def)
      moreover have "unat (mte_mask_limit (ed_table ?d2)) = 32 * length (mte_data (ed_table ?d2))"
        using mask_limit_step(1) [OF True] 1(3) by (simp add: same)
      ultimately have IH: "or_oom alloc (grow_enum_mask alloc ?d2 q)
        (\<lambda>d'. cap_ok d' \<and> (\<exists>k. d' = ?d2\<lparr>ed_table := (ed_table ?d2)\<lparr>mte_mask_limit := mte_mask_limit (ed_table d'),
            mte_data := mte_data (ed_table ?d2) @ replicate k 0\<rparr>, ed_data_capacity := ed_data_capacity d'\<rparr> \<and>
          unat (mte_mask_limit (ed_table d')) = 32 * (length (mte_data (ed_table ?d2)) + k) \<and>
          length (mte_data (ed_table ?d2)) + k = max (length (mte_data (ed_table ?d2))) (unat q + 1)))"
        using d1 1(4) by (intro 1(1) [OF refl True]) auto
      show "or_oom alloc (grow_enum_mask alloc ?d2 q)
        (\<lambda>d'. cap_ok d' \<and> (\<exists>k. d' = d\<lparr>ed_table := (ed_table d)\<lparr>mte_mask_limit := mte_mask_limit (ed_table d'),
          mte_data := mte_data (ed_table d) @ replicate k 0\<rparr>, ed_data_capacity := ed_data_capacity d'\<rparr> \<and>
        unat (mte_mask_limit (ed_table d')) = 32 * (?n + k) \<and> ?n + k = max ?n (unat q + 1)))"
      proof (rule or_oom_mono [OF IH], elim conjE exE, intro conjI)
        fix d' k
        assume k: "d' = ?d2\<lparr>ed_table := (ed_table ?d2)\<lparr>mte_mask_limit := mte_mask_limit (ed_table d'),
            mte_data := mte_data (ed_table ?d2) @ replicate k 0\<rparr>, ed_data_capacity := ed_data_capacity d'\<rparr>"
          "unat (mte_mask_limit (ed_table d')) = 32 * (length (mte_data (ed_table ?d2)) + k)"
          "length (mte_data (ed_table ?d2)) + k = max (length (mte_data (ed_table ?d2))) (unat q + 1)"
        have "d1 = d\<lparr>ed_table := (ed_table d)\<lparr>mte_data := mte_data (ed_table d) @ [0]\<rparr>,
            ed_data_capacity := ed_data_capacity d1\<rparr>" using d1 by blast
        with k(1) have "d' = d\<lparr>ed_table := (ed_table d)\<lparr>mte_mask_limit := mte_mask_limit (ed_table d'),
          mte_data := mte_data (ed_table d) @ replicate (Suc k) 0\<rparr>, ed_data_capacity := ed_data_capacity d'\<rparr>"
          by (cases d; cases d'; cases d1) (auto simp: same)
        with k(2,3) n show "\<exists>k. d' = d\<lparr>ed_table := (ed_table d)\<lparr>mte_mask_limit := mte_mask_limit (ed_table d'),
          mte_data := mte_data (ed_table d) @ replicate k 0\<rparr>, ed_data_capacity := ed_data_capacity d'\<rparr> \<and>
          unat (mte_mask_limit (ed_table d')) = 32 * (?n + k) \<and> ?n + k = max ?n (unat q + 1)"
          by (intro exI [of _ "Suc k"]) (simp add: same)
      qed
    qed
  qed
qed

text \<open>The decoder after the values \<open>vs\<close>.\<close>

definition enum_built :: "u32 list \<Rightarrow> upb_MdEnumDecoder \<Rightarrow> bool" where
  "enum_built vs d \<longleftrightarrow>
     enum_wf (ed_table d) \<and> cap_ok d \<and> unat (ed_value_count d) = length vs \<and>
     (\<forall>v. upb_MiniTableEnum_CheckValue (ed_table d) v \<longleftrightarrow> v \<in> set vs) \<and>
     unat (mte_value_count (ed_table d)) \<le> length vs \<and>
     unat (mte_mask_limit (ed_table d)) \<le> max 512 ((length vs + 1) * 32) \<and>
     (mte_value_count (ed_table d) \<noteq> 0 \<longrightarrow> (\<exists>w\<in>set vs. mte_mask_limit (ed_table d) \<le> w))"

lemma enum_built_list:
  assumes d: "enum_built vs d" and v: "mte_mask_limit (ed_table d) \<le> v"
    and n: "length vs < 2 ^ 26"
  shows "or_oom alloc
    (bindE (upb_MiniTable_AddEnumDataMember alloc (d\<lparr>ed_value_count := ed_value_count d + 1\<rparr>) v) (\<lambda>d.
       Inr (d\<lparr>ed_table := (ed_table d)\<lparr>mte_value_count := mte_value_count (ed_table d) + 1\<rparr>\<rparr>)))
    (enum_built (vs @ [v]))"
proof -
  let ?t = "ed_table d" and ?d = "d\<lparr>ed_value_count := ed_value_count d + 1\<rparr>"
  have wf: "enum_wf ?t" and cap: "cap_ok d" using d by (simp_all add: enum_built_def)
  have len: "length (mte_data ?t) < 2 ^ 29"
    using d n by (auto simp: enum_built_def enum_wf_def max_def split: if_splits)
  have cap': "cap_ok ?d" using cap by (simp add: cap_ok_def)
  have cnt: "unat (ed_value_count d + 1) = length vs + 1" "unat (mte_value_count ?t + 1) = unat (mte_value_count ?t) + 1"
    using d n by (auto simp: enum_built_def unat_word_ariths)
  show ?thesis
  proof (rule or_oom_bind [OF AddEnumDataMember_ok [OF cap']])
    show "length (mte_data (ed_table ?d)) < 2 ^ 29" using len by simp
  next
    fix d1
    assume d1: "cap_ok d1 \<and> d1 = ?d\<lparr>ed_table := (ed_table ?d)\<lparr>mte_data := mte_data (ed_table ?d) @ [v]\<rparr>,
        ed_data_capacity := ed_data_capacity d1\<rparr>"
    define t' where "t' = ?t\<lparr>mte_data := mte_data ?t @ [v], mte_value_count := mte_value_count ?t + 1\<rparr>"
    have d1': "d1 = ?d\<lparr>ed_table := (ed_table ?d)\<lparr>mte_data := mte_data (ed_table ?d) @ [v]\<rparr>,
        ed_data_capacity := ed_data_capacity d1\<rparr>" using d1 by blast
    have t1: "ed_table d1 = ?t\<lparr>mte_data := mte_data ?t @ [v]\<rparr>" "ed_value_count d1 = ed_value_count d + 1"
      by (rule trans [OF arg_cong [OF d1', of ed_table]], simp)
        (rule trans [OF arg_cong [OF d1', of ed_value_count]], simp)
    have wf': "enum_wf t'" using wf cnt by (simp add: enum_wf_def t'_def)
    have chk: "upb_MiniTableEnum_CheckValue t' x \<longleftrightarrow> upb_MiniTableEnum_CheckValue ?t x \<or> x = v" for x
    proof (cases "x < mte_mask_limit ?t")
      case True
      then have "unat x div 32 < length (mte_data ?t)"
        using wf by (auto simp: enum_wf_def word_less_nat_alt)
      with True v show ?thesis
        using CheckValue_mask [OF wf True] CheckValue_mask [OF wf', of x]
        by (auto simp: t'_def enum_mask_bit_def nth_append)
    next
      case False
      moreover have "unat (mte_mask_limit ?t) div 32 \<le> length (mte_data ?t)"
        using wf by (simp add: enum_wf_def)
      ultimately show ?thesis
        using CheckValue_list [OF wf, of x] CheckValue_list [OF wf', of x] by (auto simp: t'_def)
    qed
    have "enum_built (vs @ [v]) (d1\<lparr>ed_table := t'\<rparr>)"
      using d d1 cnt wf' v chk t1(2)
      by (auto simp: enum_built_def cap_ok_def t1(1)) (auto simp: t'_def)
    moreover have "d1\<lparr>ed_table := (ed_table d1)\<lparr>mte_value_count := mte_value_count (ed_table d1) + 1\<rparr>\<rparr> =
        d1\<lparr>ed_table := t'\<rparr>" by (simp add: t1 t'_def)
    ultimately show "or_oom alloc
        (Inr (d1\<lparr>ed_table := (ed_table d1)\<lparr>mte_value_count := mte_value_count (ed_table d1) + 1\<rparr>\<rparr>))
        (enum_built (vs @ [v]))" by simp
  qed
qed

lemma set_bit_u32: "n < 32 \<Longrightarrow> bit ((w :: u32) OR push_bit n 1) m \<longleftrightarrow> bit w m \<or> m = n"
  by (auto simp: bit_or_iff bit_exp_iff)

lemma enum_built_mask:
  assumes d: "enum_built vs d" and c: "mte_value_count (ed_table d) = 0"
    and q: "unat v div 32 < 16 \<or> unat v div 32 \<le> length vs + 1" and n: "length vs < 2 ^ 26"
  shows "or_oom alloc
    (bindE (grow_enum_mask alloc (d\<lparr>ed_value_count := ed_value_count d + 1\<rparr>) (v div 32)) (\<lambda>d.
       let data = mte_data (ed_table d); i = unat (v div 32) in
       Inr (d\<lparr>ed_table := (ed_table d)\<lparr>mte_data :=
                data[i := data ! i OR push_bit (unat (v mod 32)) 1]\<rparr>\<rparr>)))
    (enum_built (vs @ [v]))"
proof -
  let ?t = "ed_table d" and ?d = "d\<lparr>ed_value_count := ed_value_count d + 1\<rparr>"
  let ?n = "length (mte_data ?t)" and ?q = "unat v div 32"
  have wf: "enum_wf ?t" and cap: "cap_ok ?d" using d by (simp_all add: enum_built_def cap_ok_def)
  have lim: "unat (mte_mask_limit ?t) = 32 * ?n" "2 \<le> ?n" using wf c by (auto simp: enum_wf_def)
  have cnt: "unat (ed_value_count d + 1) = length vs + 1"
    using d n by (auto simp: enum_built_def unat_word_ariths)
  have qb: "unat (v div 32) + 1 < 2 ^ 27" using q n by (auto simp: unat_div_32)
  show ?thesis
  proof (rule or_oom_bind [OF grow_enum_mask_ok [OF cap _ qb]])
    show "unat (mte_mask_limit (ed_table ?d)) = 32 * length (mte_data (ed_table ?d))" using lim by simp
  next
    fix d1
    assume "cap_ok d1 \<and> (\<exists>k. d1 = ?d\<lparr>ed_table := (ed_table ?d)\<lparr>mte_mask_limit := mte_mask_limit (ed_table d1),
          mte_data := mte_data (ed_table ?d) @ replicate k 0\<rparr>, ed_data_capacity := ed_data_capacity d1\<rparr> \<and>
        unat (mte_mask_limit (ed_table d1)) = 32 * (length (mte_data (ed_table ?d)) + k) \<and>
        length (mte_data (ed_table ?d)) + k = max (length (mte_data (ed_table ?d))) (unat (v div 32) + 1))"
    then obtain k where cap1: "cap_ok d1"
      and d1: "d1 = ?d\<lparr>ed_table := ?t\<lparr>mte_mask_limit := mte_mask_limit (ed_table d1),
          mte_data := mte_data ?t @ replicate k 0\<rparr>, ed_data_capacity := ed_data_capacity d1\<rparr>"
      and ml: "unat (mte_mask_limit (ed_table d1)) = 32 * (?n + k)" and k: "?n + k = max ?n (?q + 1)"
      by (auto simp: unat_div_32)
    define data where "data = mte_data ?t @ replicate k 0"
    define L where "L = mte_mask_limit (ed_table d1)"
    note ml = ml [folded L_def] and d1 = d1 [folded L_def]
    define t' where "t' = ?t\<lparr>mte_mask_limit := L,
        mte_data := data[?q := data ! ?q OR push_bit (unat v mod 32) 1]\<rparr>"
    have t1: "ed_table d1 = ?t\<lparr>mte_mask_limit := L, mte_data := data\<rparr>"
      "ed_value_count d1 = ed_value_count d + 1"
      unfolding data_def
      by (rule trans [OF arg_cong [OF d1, of ed_table]], simp)
        (rule trans [OF arg_cong [OF d1, of ed_value_count]], simp)
    have len: "length data = ?n + k" by (simp add: data_def)
    have wf': "enum_wf t'" using wf c ml lim by (simp add: enum_wf_def t'_def len)
    have bit: "bit (data ! (unat x div 32)) (unat x mod 32) \<longleftrightarrow> upb_MiniTableEnum_CheckValue ?t x"
      if "unat x < 32 * (?n + k)" for x
    proof (cases "x < mte_mask_limit ?t")
      case True
      then have "unat x div 32 < ?n" using lim by (simp add: word_less_nat_alt)
      with CheckValue_mask [OF wf True] show ?thesis by (simp add: data_def nth_append enum_mask_bit_def)
    next
      case False
      then have "\<not> unat x div 32 < ?n" using lim by (simp add: word_less_nat_alt)
      moreover have "unat x div 32 < ?n + k"
        using that by (intro less_mult_imp_div_less) (simp add: mult.commute)
      ultimately show ?thesis
        using CheckValue_list [OF wf, of x] False lim by (simp add: data_def nth_append)
    qed
    have chk: "upb_MiniTableEnum_CheckValue t' x \<longleftrightarrow> upb_MiniTableEnum_CheckValue ?t x \<or> x = v" for x
    proof (cases "unat x < 32 * (?n + k)")
      case True
      then have "x < mte_mask_limit t'" by (simp add: t'_def word_less_nat_alt ml)
      note CheckValue_mask [OF wf' this]
      moreover have "unat x div 32 < length data" 
        using True unfolding len by (intro less_mult_imp_div_less) (simp add: mult.commute)
      moreover have "unat x div 32 = ?q \<and> unat x mod 32 = unat v mod 32 \<longleftrightarrow> x = v"
        by (metis div_mult_mod_eq word_unat_eq_iff)
      moreover have "bit (mte_data t' ! (unat x div 32)) (unat x mod 32) \<longleftrightarrow>
          bit (data ! (unat x div 32)) (unat x mod 32) \<or>
          (unat x div 32 = ?q \<and> unat x mod 32 = unat v mod 32)"
        using set_bit_u32 [of "unat v mod 32" "data ! ?q" "unat x mod 32"] \<open>unat x div 32 < length data\<close>
        by (cases "unat x div 32 = ?q")
          (simp_all del: push_bit_of_1 div_mult_mod_eq add: t'_def nth_list_update_eq)
      ultimately show ?thesis using bit [OF True] by (simp add: enum_mask_bit_def)
    next
      case False
      then have "\<not> x < mte_mask_limit t'" "\<not> x < mte_mask_limit ?t"
        using lim by (auto simp: t'_def word_less_nat_alt ml)
      moreover have "x \<noteq> v" using False k by auto
      ultimately show ?thesis
        using CheckValue_list [OF wf', of x] CheckValue_list [OF wf, of x] lim ml
        by (simp add: t'_def len)
    qed
    have "32 * (?n + k) \<le> max 512 ((length vs + 2) * 32)"
      using d lim q k by (auto simp: enum_built_def max_def split: if_splits)
    then have "enum_built (vs @ [v]) (d1\<lparr>ed_table := t'\<rparr>)"
      using d cap1 cnt wf' chk c len ml
      by (auto simp: enum_built_def cap_ok_def t1) (auto simp: t'_def)
    moreover have "d1\<lparr>ed_table := (ed_table d1)\<lparr>mte_data := (mte_data (ed_table d1))[unat (v div 32) :=
        mte_data (ed_table d1) ! unat (v div 32) OR push_bit (unat (v mod 32)) 1]\<rparr>\<rparr> = d1\<lparr>ed_table := t'\<rparr>"
      unfolding unat_div_32 unat_mod_32 t'_def t1(1) by simp
    ultimately show "or_oom alloc (let data = mte_data (ed_table d1); i = unat (v div 32) in
        Inr (d1\<lparr>ed_table := (ed_table d1)\<lparr>mte_data := data[i := data ! i OR push_bit (unat (v mod 32)) 1]\<rparr>\<rparr>))
        (enum_built (vs @ [v]))" by (simp add: Let_def)
  qed
qed

lemma BuildValue_ok:
  assumes d: "enum_built vs d" and v: "\<forall>w\<in>set vs. w < v" "512 \<notin> set vs" "v \<noteq> 512"
    and n: "length vs < 2 ^ 26"
  shows "or_oom alloc (upb_MiniTableEnum_BuildValue alloc d v) (enum_built (vs @ [v]))"
proof -
  have cnt: "unat (ed_value_count d + 1) = length vs + 1"
    using d n by (auto simp: enum_built_def unat_word_ariths)
  show ?thesis
  proof (cases "mte_value_count (ed_table d) \<noteq> 0 \<or> (v > 512 \<and> ed_value_count d + 1 < v div 32)")
    case True
    have "mte_mask_limit (ed_table d) \<le> v"
    proof (cases "mte_value_count (ed_table d) \<noteq> 0")
      case True
      with d v(1) show ?thesis unfolding enum_built_def by (meson less_imp_le order_trans)
    next
      case False
      with True have "512 < unat v" "length vs + 1 < unat v div 32"
        using cnt by (auto simp: word_less_nat_alt unat_div_32)
      then have "(length vs + 1) * 32 \<le> unat v div 32 * 32" by (intro mult_le_mono1) simp
      also have "\<dots> \<le> unat v" by simp
      finally have "(length vs + 1) * 32 \<le> unat v" .
      with d \<open>512 < unat v\<close> show ?thesis by (auto simp: enum_built_def word_le_nat_alt)
    qed
    from enum_built_list [OF d this n] True show ?thesis
      by (simp add: upb_MiniTableEnum_BuildValue_def)
  next
    case False
    then have "\<not> v > 512 \<or> \<not> ed_value_count d + 1 < v div 32" by simp
    then have "unat v < 512 \<or> unat v div 32 \<le> length vs + 1"
    proof
      assume "\<not> v > 512"
      moreover have "unat v \<noteq> 512" using v(3) by (simp add: word_unat_eq_iff)
      ultimately show ?thesis by (simp add: word_less_nat_alt)
    qed (auto simp: word_less_nat_alt unat_div_32 cnt)
    then have "unat v div 32 < 16 \<or> unat v div 32 \<le> length vs + 1" by auto
    note mask = enum_built_mask [OF d _ this n]
    have "upb_MiniTableEnum_BuildValue alloc d v =
        bindE (grow_enum_mask alloc (d\<lparr>ed_value_count := ed_value_count d + 1\<rparr>) (v div 32)) (\<lambda>d.
          let data = mte_data (ed_table d); i = unat (v div 32) in
          Inr (d\<lparr>ed_table := (ed_table d)\<lparr>mte_data :=
                   data[i := data ! i OR push_bit (unat (v mod 32)) 1]\<rparr>\<rparr>))"
      using False unfolding upb_MiniTableEnum_BuildValue_def Let_def by (subst if_not_P) auto
    then show ?thesis using mask False by simp
  qed
qed

fun build_values ::
  "(nat \<Rightarrow> bool) \<Rightarrow> upb_MdEnumDecoder \<Rightarrow> u32 list \<Rightarrow> md_error + upb_MdEnumDecoder" where
  "build_values alloc d [] = Inr d"
| "build_values alloc d (v # vs) =
     bindE (upb_MiniTableEnum_BuildValue alloc d v) (\<lambda>d. build_values alloc d vs)"

lemma build_values_append:
  "build_values alloc d (us @ vs) = bindE (build_values alloc d us) (\<lambda>d. build_values alloc d vs)"
  by (induction us arbitrary: d) (simp_all add: bindE_assoc)

lemma build_values_ok:
  "enum_built us d \<Longrightarrow> sorted_wrt (<) (us @ vs) \<Longrightarrow> 512 \<notin> set (us @ vs) \<Longrightarrow>
     length (us @ vs) < 2 ^ 26 \<Longrightarrow> or_oom alloc (build_values alloc d vs) (enum_built (us @ vs))"
proof (induction vs arbitrary: us d)
  case (Cons v vs)
  have "or_oom alloc (upb_MiniTableEnum_BuildValue alloc d v) (enum_built (us @ [v]))"
    using Cons.prems by (intro BuildValue_ok) (auto simp: sorted_wrt_append)
  then show ?case
    unfolding build_values.simps
  proof (rule or_oom_bind)
    fix d1 assume "enum_built (us @ [v]) d1"
    from Cons.IH [OF this] Cons.prems show "or_oom alloc (build_values alloc d1 vs) (enum_built (us @ v # vs))"
      by simp
  qed
qed simp

section \<open>What a mini descriptor of an enum denotes\<close>

text \<open>The values a descriptor lists, in order; \<open>None\<close> where the decoder reports an error.\<close>

fun mask_values :: "nat \<Rightarrow> u32 \<Rightarrow> u32 \<Rightarrow> u32 list" where
  "mask_values 0 msk base = []"
| "mask_values (Suc n) msk base =
     (if msk AND 1 \<noteq> 0 then [base] else []) @ mask_values n (drop_bit 1 msk) (base + 1)"

function enum_values :: "byte list \<Rightarrow> u32 \<Rightarrow> u32 list option" where
  "enum_values [] base = Some []"
| "enum_values (ch # ptr) base =
     (if sint ch \<le> 65 then
        map_option ((@) (mask_values 5 (word_of_int (upb_FromBase92 ch)) base)) (enum_values ptr (base + 5))
      else if 95 \<le> sint ch \<and> sint ch \<le> 126 then
        (case upb_Base92_DecodeVarint ptr ch 95 126 of
           None \<Rightarrow> None
         | Some (ptr, skip) \<Rightarrow> enum_values ptr (base + skip))
      else None)"
  by pat_completeness auto
termination
  by (relation "measure (\<lambda>(ptr, base). length ptr)")
    (auto simp: upb_Base92_DecodeVarint_def dest!: DecodeVarint_loop_length)

lemma build_mask_eq:
  "build_mask alloc n msk base =
     (\<lambda>d. bindE (build_values alloc d (mask_values n msk base)) (\<lambda>d. Inr (d, base + of_nat n)))"
  by (induction n arbitrary: msk base)
    (rule ext, simp add: bindE_assoc build_values_append algebra_simps)+

lemma build_enum_loop_eq:
  "enum_values ptr base = Some vs \<Longrightarrow> build_enum_loop alloc ptr base d = build_values alloc d vs"
proof (induction ptr base arbitrary: vs d rule: enum_values.induct)
  case (2 ch ptr base)
  show ?case
  proof (cases "sint ch \<le> 65")
    case True
    then obtain ws where ws: "enum_values ptr (base + 5) = Some ws"
      "vs = mask_values 5 (word_of_int (upb_FromBase92 ch)) base @ ws" using 2(3) by auto
    with True 2(1) show ?thesis
      by (simp add: build_mask_eq bindE_assoc build_values_append)
  next
    case False
    with 2 show ?thesis by (auto split: if_splits option.splits)
  qed
qed simp

subsection \<open>The writer lists the values it is given\<close>

lemma mask_values_0: "mask_values n 0 base = []"
  by (induction n arbitrary: base) simp_all

lemma mask_values_set:
  "d < n \<Longrightarrow> n \<le> 32 \<Longrightarrow> (\<And>i. d \<le> i \<Longrightarrow> \<not> bit m i) \<Longrightarrow>
     mask_values n (m OR push_bit d 1) base = mask_values n m base @ [base + of_nat d]"
proof (induction n arbitrary: d m base)
  case (Suc n)
  show ?case
  proof (cases d)
    case 0
    then have "m = 0" using Suc.prems(3) by (auto intro: bit_eqI)
    then show ?thesis using 0 by (simp add: mask_values_0)
  next
    case (Suc e)
    have odd: "(m OR push_bit d 1) AND 1 \<noteq> 0 \<longleftrightarrow> m AND 1 \<noteq> 0"
    proof -
      have a: "w AND 1 \<noteq> 0 \<longleftrightarrow> bit w 0" for w :: u32 using and_push_bit_1 [of w 0] by simp
      show ?thesis unfolding a Suc by (simp only: bit_or_iff bit_push_bit_iff) simp
    qed
    have drop: "drop_bit 1 (m OR push_bit d 1) = drop_bit 1 m OR push_bit e 1"
    proof (rule bit_eqI)
      fix i
      have lt: "d < 32" "e < 32" using Suc Suc.prems(1,2) by simp_all
      show "bit (drop_bit 1 (m OR push_bit d 1)) i \<longleftrightarrow> bit (drop_bit 1 m OR push_bit e 1) i"
        unfolding bit_drop_bit_eq comp_def set_bit_u32 [OF lt(1)] set_bit_u32 [OF lt(2)] using Suc by auto
    qed
    have "mask_values n (drop_bit 1 m OR push_bit e 1) (base + 1) =
        mask_values n (drop_bit 1 m) (base + 1) @ [(base + 1) + of_nat e]"
      using Suc Suc.prems by (intro Suc.IH) (auto simp: bit_drop_bit_eq)
    with odd drop Suc show ?thesis by (simp del: push_bit_of_1 drop_bit_Suc)
  qed
qed simp

lemma mask_char_check:
  "list_all (\<lambda>m. sint (upb_ToBase92 m) \<le> 65 \<and> upb_FromBase92 (upb_ToBase92 m) = m) [0..31]"
  by code_simp

lemma mask_char:
  assumes "\<forall>i\<ge>5. \<not> bit (m :: u64) i"
  shows "enum_values (upb_ToBase92 (uint m) # tail) base =
      map_option ((@) (mask_values 5 (ucast m) base)) (enum_values tail (base + 5))"
    and "skip_range.ends_varint (upb_ToBase92 (uint m) # tail)"
proof -
  have "m = take_bit 5 m" using assms by (intro bit_eqI) (auto simp: bit_take_bit_iff not_less [symmetric])
  then have "uint m = take_bit 5 (uint m)" by (metis unsigned_take_bit_eq)
  then have "uint m < 2 ^ 5" by (metis take_bit_int_less_exp)
  then have c: "sint (upb_ToBase92 (uint m)) \<le> 65" "upb_FromBase92 (upb_ToBase92 (uint m)) = uint m"
    using mask_char_check by (auto simp: list_all_iff)
  then show "enum_values (upb_ToBase92 (uint m) # tail) base =
      map_option ((@) (mask_values 5 (ucast m) base)) (enum_values tail (base + 5))"
    by simp
  from c show "skip_range.ends_varint (upb_ToBase92 (uint m) # tail)"
    by (simp add: skip_range.ends_varint_def)
qed

lemma skip_chars:
  assumes "skip_range.ends_varint tail"
  shows "enum_values (b92_digits 5 95 v @ tail) base = enum_values tail (base + v)"
proof -
  obtain c cs where c: "b92_digits 5 95 v = c # cs" using b92_digits_nonempty by (cases "b92_digits 5 95 v") auto
  have "95 \<le> sint c" "sint c \<le> 126" using skip_range.hd_digits(2,3) [of v] c by simp_all
  then show ?thesis using skip_range.read_written [OF assms, of v] c by simp
qed

text \<open>What is written stands for the values up to the five of the mask not yet written.\<close>

definition stands_for :: "u32 list \<Rightarrow> u32 \<Rightarrow> byte list \<Rightarrow> bool" where
  "stands_for pre base body \<longleftrightarrow> (\<forall>tail. skip_range.ends_varint tail \<longrightarrow>
     enum_values (body @ tail) 0 = map_option ((@) pre) (enum_values tail base))"

definition enum_written :: "u32 list \<Rightarrow> enum_state \<Rightarrow> byte list \<Rightarrow> bool" where
  "enum_written vs st body \<longleftrightarrow>
     (\<exists>pre. vs = pre @ mask_values 5 (ucast (es_present_values_mask st)) (es_last_written_value st) \<and>
        stands_for pre (es_last_written_value st) body) \<and>
     (if vs = [] then es_present_values_mask st = 0 \<and> es_last_written_value st = 0 \<and> body = []
      else es_present_values_mask st \<noteq> 0 \<and>
        (\<exists>k<5. unat (last vs) = unat (es_last_written_value st) + k \<and>
           (\<forall>i>k. \<not> bit (es_present_values_mask st) i)))"

lemma put_eq: "upb_MtDataEncoder_Put cap ptr ch =
    (if length ptr = cap then None else Some (ptr @ [upb_ToBase92 ch]))"
  by (simp add: upb_MtDataEncoder_Put_def upb_MtDataEncoder_PutRaw_def)

lemma append_Nil_id: "(@) [] = id"
  by (simp add: fun_eq_iff)

lemma enum_written_start: "enum_written [] \<lparr>es_present_values_mask = 0, es_last_written_value = 0\<rparr> []"
  by (simp add: enum_written_def stands_for_def mask_values_0 append_Nil_id option.map_id0)

lemma stands_for_flush:
  assumes "stands_for pre base body" and "\<forall>i\<ge>5. \<not> bit (m :: u64) i"
  shows "enum_values ((body @ [upb_ToBase92 (uint m)]) @ tail) 0 =
    map_option ((@) (pre @ mask_values 5 (ucast m) base)) (enum_values tail (base + 5))"
proof -
  have "(@) (pre @ mask_values 5 (ucast m) base) = (@) pre \<circ> (@) (mask_values 5 (ucast m) base)" by (rule ext) simp
  then show ?thesis
    using assms(1) mask_char [OF assms(2)] by (simp add: stands_for_def option.map_comp del: enum_values.simps)
qed

lemma stands_for_skip:
  assumes "\<And>tail. enum_values (body @ tail) 0 = map_option ((@) pre) (enum_values tail base)"
  shows "stands_for pre (base + v) (body @ b92_digits 5 95 v)"
  using assms skip_chars by (simp add: stands_for_def)

lemma enum_written_add:
  assumes "stands_for pre L body" and "\<forall>i\<ge>d. \<not> bit m i" and "d < 5"
    and "unat L + d = unat v" and "vs = pre @ mask_values 5 (ucast m) L"
  shows "enum_written (vs @ [v])
    \<lparr>es_present_values_mask = m OR push_bit d 1, es_last_written_value = L\<rparr> body"
proof -
  have uc: "ucast (m OR push_bit d 1) = (ucast m OR push_bit d 1 :: u32)"
    using assms(3) by (intro bit_eqI) (auto simp: bit_or_iff bit_exp_iff bit_unsigned_iff)
  have "v = of_nat (unat L + d)" unfolding assms(4) by simp
  then have v: "v = L + of_nat d" by simp
  have "mask_values 5 (ucast m OR push_bit d 1) L = mask_values 5 (ucast m) L @ [L + of_nat d]"
    using assms(2,3) by (intro mask_values_set) (auto simp: bit_unsigned_iff)
  then have "vs @ [v] = pre @ mask_values 5 (ucast (m OR push_bit d 1)) L"
    unfolding uc using assms(5) v by simp
  moreover have "m OR push_bit d 1 \<noteq> 0"
  proof
    assume "m OR push_bit d 1 = 0"
    then have "\<not> bit (m OR push_bit d 1) d" by simp
    then show False using assms(3) by (simp add: bit_or_iff bit_exp_iff)
  qed
  moreover have "\<forall>i>d. \<not> bit (m OR push_bit d 1) i"
    using assms(2) by (auto simp: bit_or_iff bit_exp_iff)
  moreover have "\<exists>k<5. unat (last (vs @ [v])) = unat L + k \<and> (\<forall>i>k. \<not> bit (m OR push_bit d 1) i)"
    using assms(3,4) calculation(3) by (intro exI [of _ d]) auto
  ultimately show ?thesis
    unfolding enum_written_def using assms(1) by (auto simp del: push_bit_of_1 last_append)
qed

lemma PutEnumValue_ok:
  assumes w: "enum_written vs st body" and v: "vs \<noteq> [] \<Longrightarrow> last vs < v" and room: "length ptr + 16 \<le> cap"
  shows "\<exists>st' cs. upb_MtDataEncoder_PutEnumValue cap st ptr v = (st', Some (ptr @ cs)) \<and>
    length cs \<le> 16 \<and> enum_written (vs @ [v]) st' (body @ cs)"
proof -
  define m L where "m = es_present_values_mask st" and "L = es_last_written_value st"
  have st: "st = \<lparr>es_present_values_mask = m, es_last_written_value = L\<rparr>" by (simp add: m_def L_def)
  from w obtain pre where vs: "vs = pre @ mask_values 5 (ucast m) L" and sf: "stands_for pre L body"
    unfolding enum_written_def m_def [symmetric] L_def [symmetric] by blast
  have le: "unat L \<le> unat v" "\<forall>i\<ge>unat v - unat L. \<not> bit m i" "\<forall>i\<ge>5. \<not> bit m i"
  proof -
    have "unat L \<le> unat v \<and> (\<forall>i\<ge>unat v - unat L. \<not> bit m i) \<and> (\<forall>i\<ge>5. \<not> bit m i)"
    proof (cases "vs = []")
      case True
      then show ?thesis using w by (simp add: enum_written_def m_def L_def)
    next
      case False
      with w obtain k where "k < 5" "unat (last vs) = unat L + k" "\<forall>i>k. \<not> bit m i"
        unfolding enum_written_def m_def L_def by auto
      moreover have "unat (last vs) < unat v" using v [OF False] by (simp add: word_less_nat_alt)
      ultimately show ?thesis by auto
    qed
    then show "unat L \<le> unat v" "\<forall>i\<ge>unat v - unat L. \<not> bit m i" "\<forall>i\<ge>5. \<not> bit m i" by blast+
  qed
  have delta: "unat (v - L) = unat v - unat L" using le(1) by (simp add: unat_sub word_le_nat_alt)
  have digits: "length (b92_digits 5 95 x) \<le> 7" for x
    by (rule b92_digits_length) (use unsigned_less [where ?'a = nat and w = x] in auto)
  have put: "upb_MtDataEncoder_PutBase92Varint cap p x 95 126 = Some (p @ b92_digits 5 95 x)"
    if "length p \<le> length ptr + 1" for p x
    using skip_range.written [of p cap x] digits [of x] that room by simp
  show ?thesis
  proof (cases "5 \<le> v - L")
    case False
    then have d: "unat (v - L) < 5" by (simp add: word_le_nat_alt)
    have "upb_MtDataEncoder_PutEnumValue cap st ptr v =
        (\<lparr>es_present_values_mask = m OR push_bit (unat (v - L)) 1, es_last_written_value = L\<rparr>, Some (ptr @ []))"
      using False by (simp add: upb_MtDataEncoder_PutEnumValue_def st)
    moreover have "enum_written (vs @ [v])
        \<lparr>es_present_values_mask = m OR push_bit (unat (v - L)) 1, es_last_written_value = L\<rparr> body"
      using le d delta by (intro enum_written_add [OF sf _ d _ vs]) auto
    ultimately show ?thesis by (intro exI conjI) (assumption, simp_all del: push_bit_of_1)
  next
    case True
    then have d5: "5 \<le> unat v - unat L" using delta by (simp add: word_le_nat_alt)
    show ?thesis
    proof (cases "m = 0")
      case m: True
      then have e: "vs = []" "body = []" "L = 0" using w by (auto simp: enum_written_def m_def L_def split: if_splits)
      have "upb_MtDataEncoder_PutEnumValue cap st ptr v =
          (\<lparr>es_present_values_mask = 0 OR push_bit 0 1, es_last_written_value = v\<rparr>, Some (ptr @ b92_digits 5 95 v))"
        using True put m by (simp add: upb_MtDataEncoder_PutEnumValue_def st e(3))
      moreover have "stands_for [] v (b92_digits 5 95 v)"
        using stands_for_skip [of "[]" "[]" 0 v] by (simp add: append_Nil_id option.map_id0)
      then have "enum_written ([] @ [v]) \<lparr>es_present_values_mask = 0 OR push_bit 0 1, es_last_written_value = v\<rparr>
          (b92_digits 5 95 v)"
        by (rule enum_written_add) (simp_all add: mask_values_0)
      ultimately show ?thesis using digits [of v] e by (intro exI conjI) (assumption, simp_all)
    next
      case m: False
      have L5: "unat (L + 5) = unat L + 5" using d5 unsigned_less [where ?'a = nat and w = v]
        by (simp add: unat_word_ariths)
      have d: "unat (v - L - 5) = unat v - unat L - 5" "v - L - 5 = v - (L + 5)"
        using d5 delta by (simp_all add: unat_sub word_le_nat_alt)
      define b where "b = [upb_ToBase92 (uint m)]"
      have flushed: "enum_values ((body @ b) @ tail) 0 = map_option ((@) vs) (enum_values tail (L + 5))" for tail
        using stands_for_flush [OF sf le(3)] vs by (simp add: b_def)
      have flush: "upb_MtDataEncoder_FlushDenseEnumMask cap st ptr =
          (\<lparr>es_present_values_mask = 0, es_last_written_value = L + 5\<rparr>, Some (ptr @ b))"
        using room by (simp add: upb_MtDataEncoder_FlushDenseEnumMask_def put_eq st b_def)
      show ?thesis
      proof (cases "5 \<le> v - L - 5")
        case False
        then have d': "unat (v - L - 5) < 5" by (simp add: word_le_nat_alt)
        have "upb_MtDataEncoder_PutEnumValue cap st ptr v =
            (\<lparr>es_present_values_mask = 0 OR push_bit (unat (v - L - 5)) 1, es_last_written_value = L + 5\<rparr>, Some (ptr @ b))"
          using True False m flush by (simp add: upb_MtDataEncoder_PutEnumValue_def st)
        moreover have "stands_for vs (L + 5) (body @ b)" using flushed by (simp add: stands_for_def)
        then have "enum_written (vs @ [v])
            \<lparr>es_present_values_mask = 0 OR push_bit (unat (v - L - 5)) 1, es_last_written_value = L + 5\<rparr> (body @ b)"
          using L5 d(1) d5 by (intro enum_written_add [OF _ _ d']) (simp_all add: mask_values_0)
        ultimately show ?thesis by (intro exI conjI) (assumption, simp_all add: b_def del: push_bit_of_1)
      next
        case skip: True
        have "upb_MtDataEncoder_PutEnumValue cap st ptr v =
            (\<lparr>es_present_values_mask = 0 OR push_bit 0 1, es_last_written_value = v\<rparr>,
             Some (ptr @ (b @ b92_digits 5 95 (v - L - 5))))"
          using True skip m flush put [of "ptr @ b"] by (simp add: upb_MtDataEncoder_PutEnumValue_def st b_def)
        moreover have "stands_for vs v ((body @ b) @ b92_digits 5 95 (v - L - 5))"
          using stands_for_skip [of "body @ b" vs "L + 5" "v - L - 5"] flushed by simp
        then have "enum_written (vs @ [v]) \<lparr>es_present_values_mask = 0 OR push_bit 0 1, es_last_written_value = v\<rparr>
            ((body @ b) @ b92_digits 5 95 (v - L - 5))"
          by (rule enum_written_add) (simp_all add: mask_values_0)
        ultimately show ?thesis
          using digits [of "v - L - 5"] by (intro exI conjI) (assumption, simp_all add: b_def)
      qed
    qed
  qed
qed

text \<open>\<open>Grow\<close> leaves room for a call of the encoder, whatever the buffer held.\<close>

definition ds_ok :: "upb_DescState \<Rightarrow> byte list \<Rightarrow> bool" where
  "ds_ok s b \<longleftrightarrow> ds_buf s = Some b \<and> length b \<le> ds_bufsize s \<and> 32 \<le> ds_bufsize s"

lemma Grow_ok:
  assumes "ds_ok s b \<or> (s = upb_DescState_Init \<and> b = [])"
  shows "case upb_DescState_Grow alloc s of None \<Rightarrow> \<exists>n. \<not> alloc n
    | Some s' \<Rightarrow> ds_ok s' b \<and> length b + 16 \<le> ds_bufsize s'"
  using assms
  by (auto simp: ds_ok_def upb_DescState_Grow_def upb_DescState_Init_def kUpb_MtDataEncoder_MinSize_def Let_def)

lemma put_enum_values_ok:
  assumes "enum_written vs st body" and "sorted_wrt (<) vs" and "ds_ok s (33 # body)"
    and "sorted nums" and "vs \<noteq> [] \<longrightarrow> (\<forall>x\<in>set nums. last vs \<le> x)"
  shows "case put_enum_values alloc (if vs = [] then None else Some (last vs)) s st nums of
      None \<Rightarrow> \<exists>n. \<not> alloc n
    | Some (s', st') \<Rightarrow> \<exists>vs' body'. enum_written vs' st' body' \<and> ds_ok s' (33 # body') \<and>
        sorted_wrt (<) vs' \<and> set vs' = set vs \<union> set nums"
  using assms
proof (induction nums arbitrary: vs st body s)
  case Nil
  then show ?case by auto
next
  case (Cons v nums)
  show ?case
  proof (cases "vs \<noteq> [] \<and> last vs = v")
    case True
    then have eq: "set vs \<union> set (v # nums) = set vs \<union> set nums" by (auto simp: last_in_set)
    from Cons.IH [OF Cons.prems(1,2,3)] Cons.prems(4,5) True show ?thesis unfolding eq by simp
  next
    case False
    with Cons.prems(5) have lt: "vs \<noteq> [] \<Longrightarrow> last vs < v" by force
    show ?thesis
    proof (cases "upb_DescState_Grow alloc s")
      case None
      with Grow_ok [of s "33 # body" alloc] Cons.prems(3) False show ?thesis by (auto split: if_splits)
    next
      case (Some s1)
      then have s1: "ds_ok s1 (33 # body)" "length (33 # body) + 16 \<le> ds_bufsize s1"
        using Grow_ok [of s "33 # body" alloc] Cons.prems(3) by auto
      obtain st1 cs where put: "upb_MtDataEncoder_PutEnumValue (ds_bufsize s1) st (33 # body) v =
          (st1, Some ((33 # body) @ cs))" "length cs \<le> 16" "enum_written (vs @ [v]) st1 (body @ cs)"
        using PutEnumValue_ok [OF Cons.prems(1) lt s1(2)] by blast
      let ?s2 = "s1\<lparr>ds_buf := Some ((33 # body) @ cs)\<rparr>"
      have "ds_ok ?s2 (33 # (body @ cs))" using s1 put(2) by (simp add: ds_ok_def)
      moreover have "sorted_wrt (<) (vs @ [v])"
      proof -
        have "w < v" if "w \<in> set vs" for w
        proof -
          have eq: "vs = butlast vs @ [last vs]" using that by (cases vs) auto
          then have "sorted_wrt (<) (butlast vs @ [last vs])" using Cons.prems(2) by simp
          then have "\<forall>x\<in>set (butlast vs). x < last vs" by (simp add: sorted_wrt_append)
          moreover have "w \<in> set (butlast vs) \<or> w = last vs" using that eq
            by (metis Un_iff empty_iff insert_iff list.set(1,2) set_append)
          ultimately have "w \<le> last vs" by auto
          with lt that show ?thesis by force
        qed
        with Cons.prems(2) show ?thesis by (simp add: sorted_wrt_append)
      qed
      ultimately have "case put_enum_values alloc (if vs @ [v] = [] then None else Some (last (vs @ [v]))) ?s2 st1 nums of
          None \<Rightarrow> \<exists>n. \<not> alloc n
        | Some (s', st') \<Rightarrow> \<exists>vs' body'. enum_written vs' st' body' \<and> ds_ok s' (33 # body') \<and>
            sorted_wrt (<) vs' \<and> set vs' = set (vs @ [v]) \<union> set nums"
        using put(3) Cons.prems(4) by (intro Cons.IH) auto
      moreover have "put_enum_values alloc (if vs = [] then None else Some (last vs)) s st (v # nums) =
          put_enum_values alloc (Some v) ?s2 st1 nums"
        using False Some put(1) s1(1) by (auto simp: ds_ok_def)
      moreover have "set (vs @ [v]) \<union> set nums = set vs \<union> set (v # nums)" by simp
      ultimately show ?thesis by (simp only: last_snoc append_is_Nil_conv not_Cons_self2 if_False simp_thms)
    qed
  qed
qed

lemma EndEnum_ok:
  assumes w: "enum_written vs st body" and room: "length (33 # body) + 16 \<le> cap"
  shows "\<exists>cs. snd (upb_MtDataEncoder_EndEnum cap st (33 # body)) = Some (33 # cs) \<and> enum_values cs 0 = Some vs"
proof (cases "es_present_values_mask st = 0")
  case True
  from w obtain pre where "vs = pre @ mask_values 5 (ucast (es_present_values_mask st)) (es_last_written_value st)"
    "stands_for pre (es_last_written_value st) body" unfolding enum_written_def by blast
  with True have "enum_values (body @ []) 0 = Some vs"
    unfolding stands_for_def by (auto simp: mask_values_0 skip_range.ends_varint_def)
  with True show ?thesis by (simp add: upb_MtDataEncoder_EndEnum_def)
next
  case False
  from w obtain pre where vs: "vs = pre @ mask_values 5 (ucast (es_present_values_mask st)) (es_last_written_value st)"
    "stands_for pre (es_last_written_value st) body" unfolding enum_written_def by blast
  have "\<forall>i\<ge>5. \<not> bit (es_present_values_mask st) i"
    using w False by (auto simp: enum_written_def split: if_splits)
  from stands_for_flush [OF vs(2) this, of "[]"] vs(1) room False show ?thesis
    by (simp add: upb_MtDataEncoder_EndEnum_def upb_MtDataEncoder_FlushDenseEnumMask_def put_eq)
qed

lemma MiniDescriptorEncode_ok:
  assumes "is_sorted \<longrightarrow> sorted numbers"
  shows "case upb_EnumDef_MiniDescriptorEncode alloc is_sorted numbers of
      None \<Rightarrow> \<exists>n. \<not> alloc n
    | Some sv \<Rightarrow> \<exists>cs vs. sv = 33 # cs \<and> enum_values cs 0 = Some vs \<and> sorted_wrt (<) vs \<and> set vs = set numbers"
proof -
  define nums where "nums = (if is_sorted then numbers else sort numbers)"
  have nums: "sorted nums" "set nums = set numbers" using assms by (auto simp: nums_def)
  show ?thesis
  proof (cases "(\<not> is_sorted \<and> \<not> alloc (length numbers * 8)) \<or> upb_DescState_Grow alloc upb_DescState_Init = None")
    case True
    with Grow_ok [of upb_DescState_Init "[]" alloc] show ?thesis
      by (auto simp: upb_EnumDef_MiniDescriptorEncode_def split: if_splits)
  next
    case False
    then obtain s where s: "upb_DescState_Grow alloc upb_DescState_Init = Some s" by auto
    then have "ds_ok s []" "16 \<le> ds_bufsize s" using Grow_ok [of upb_DescState_Init "[]" alloc] by auto
    then have start: "upb_MtDataEncoder_StartEnum (ds_bufsize s) (the (ds_buf s)) =
        (\<lparr>es_present_values_mask = 0, es_last_written_value = 0\<rparr>, Some [33])"
      and ok: "ds_ok (s\<lparr>ds_buf := Some [33]\<rparr>) (33 # [])"
      by (auto simp: upb_MtDataEncoder_StartEnum_def upb_MtDataEncoder_PutRaw_def ds_ok_def)
    have put: "case put_enum_values alloc None (s\<lparr>ds_buf := Some [33]\<rparr>)
          \<lparr>es_present_values_mask = 0, es_last_written_value = 0\<rparr> nums of
        None \<Rightarrow> \<exists>n. \<not> alloc n
      | Some (s', st') \<Rightarrow> \<exists>vs' body'. enum_written vs' st' body' \<and> ds_ok s' (33 # body') \<and>
          sorted_wrt (<) vs' \<and> set vs' = set numbers"
      using put_enum_values_ok [OF enum_written_start _ ok nums(1), of alloc]
      unfolding nums(2) by (simp only: list.set Un_empty_left if_True simp_thms sorted_wrt.simps)
    have eq: "upb_EnumDef_MiniDescriptorEncode alloc is_sorted numbers =
        (case put_enum_values alloc None (s\<lparr>ds_buf := Some [33]\<rparr>)
            \<lparr>es_present_values_mask = 0, es_last_written_value = 0\<rparr> nums of
           None \<Rightarrow> None
         | Some (s, st) \<Rightarrow>
             (case upb_DescState_Grow alloc s of
                None \<Rightarrow> None
              | Some s \<Rightarrow> snd (upb_MtDataEncoder_EndEnum (ds_bufsize s) st (the (ds_buf s)))))"
      using False s start by (auto simp: upb_EnumDef_MiniDescriptorEncode_def nums_def Let_def)
    show ?thesis
    proof (cases "put_enum_values alloc None (s\<lparr>ds_buf := Some [33]\<rparr>)
            \<lparr>es_present_values_mask = 0, es_last_written_value = 0\<rparr> nums")
      case None
      with put show ?thesis by (simp add: eq)
    next
      case (Some r)
      obtain s' st' where r: "r = (s', st')" by (cases r)
      with Some put obtain vs' body' where w: "enum_written vs' st' body'" "ds_ok s' (33 # body')"
        "sorted_wrt (<) vs'" "set vs' = set numbers" by auto
      show ?thesis
      proof (cases "upb_DescState_Grow alloc s'")
        case None
        with Grow_ok [of s' "33 # body'" alloc] w(2) show ?thesis by (simp add: eq Some r)
      next
        case (Some s2)
        then have s2: "ds_ok s2 (33 # body')" "length (33 # body') + 16 \<le> ds_bufsize s2"
          using Grow_ok [of s' "33 # body'" alloc] w(2) by auto
        from EndEnum_ok [OF w(1) s2(2)] w(3,4) s2(1) Some
          \<open>put_enum_values alloc None (s\<lparr>ds_buf := Some [33]\<rparr>)
            \<lparr>es_present_values_mask = 0, es_last_written_value = 0\<rparr> nums = Some r\<close>
        show ?thesis by (auto simp: eq r ds_ok_def)
      qed
    qed
  qed
qed

subsection \<open>From the definition to the table\<close>

lemma enum_built_start:
  assumes "upb_MiniTable_AddEnumDataMember alloc
      \<lparr>ed_table = junk\<lparr>mte_data := [], mte_mask_limit := 64\<rparr>, ed_value_count = 0, ed_data_capacity = 2\<rparr> 0 = Inr d1"
    and "upb_MiniTable_AddEnumDataMember alloc d1 0 = Inr d2"
  shows "enum_built [] (d2\<lparr>ed_table := (ed_table d2)\<lparr>mte_value_count := 0\<rparr>\<rparr>)"
proof -
  have d2: "d2 = \<lparr>ed_table = junk\<lparr>mte_data := [0, 0], mte_mask_limit := 64\<rparr>, ed_value_count = 0, ed_data_capacity = 2\<rparr>"
    using assms by (auto simp: upb_MiniTable_AddEnumDataMember_def Let_def)
  let ?t = "junk\<lparr>mte_data := [0, 0], mte_mask_limit := 64, mte_value_count := 0\<rparr>"
  have wf: "enum_wf ?t" by (simp add: enum_wf_def)
  have "\<not> upb_MiniTableEnum_CheckValue ?t v" for v
  proof (cases "v < 64")
    case True
    then have "unat v div 32 = 0 \<or> unat v div 32 = 1" by (simp add: word_less_nat_alt) linarith
    with CheckValue_mask [OF wf, of v] True show ?thesis by (auto simp: enum_mask_bit_def)
  next
    case False
    with CheckValue_list [OF wf, of v] show ?thesis by simp
  qed
  with wf show ?thesis by (simp add: d2 enum_built_def cap_ok_def)
qed

lemma Build_ok:
  assumes "enum_values cs 0 = Some vs" and "sorted_wrt (<) vs" and "512 \<notin> set vs" and "length vs < 2 ^ 26"
  shows "or_oom alloc (upb_MiniTableEnum_Build alloc junk (33 # cs))
    (\<lambda>t. \<forall>v. upb_MiniTableEnum_CheckValue t v \<longleftrightarrow> v \<in> set vs)"
proof (cases "alloc (upb_MiniTableEnum_Size 2)")
  case False
  then show ?thesis
    by (auto simp: upb_MiniTableEnum_Build_def upb_MtDecoder_DoBuildMiniTableEnum_def Let_def)
next
  case True
  define d0 where "d0 = \<lparr>ed_table = junk\<lparr>mte_data := [], mte_mask_limit := 64\<rparr>, ed_value_count = 0,
      ed_data_capacity = 2\<rparr>"
  have ok0: "cap_ok d0" "length (mte_data (ed_table d0)) = 0" by (simp_all add: d0_def cap_ok_def)
  obtain d1 where d1: "upb_MiniTable_AddEnumDataMember alloc d0 0 = Inr d1"
    by (auto simp: upb_MiniTable_AddEnumDataMember_def d0_def Let_def)
  obtain d2 where d2: "upb_MiniTable_AddEnumDataMember alloc d1 0 = Inr d2"
    using d1 by (auto simp: upb_MiniTable_AddEnumDataMember_def d0_def Let_def)
  let ?d3 = "d2\<lparr>ed_table := (ed_table d2)\<lparr>mte_value_count := 0\<rparr>\<rparr>"
  have "enum_built [] ?d3" using enum_built_start [OF d1 [unfolded d0_def] d2] .
  from build_values_ok [OF this, of vs alloc] assms(2-4)
  have b: "or_oom alloc (build_values alloc ?d3 vs) (enum_built vs)" by simp
  have "upb_MiniTableEnum_Build alloc junk (33 # cs) = bindE (build_values alloc ?d3 vs) (\<lambda>d. Inr (ed_table d))"
    using True d1 d2 build_enum_loop_eq [OF assms(1)]
    by (simp add: upb_MiniTableEnum_Build_def upb_MtDecoder_DoBuildMiniTableEnum_def Let_def d0_def)
  then show ?thesis using b by (auto intro: or_oom_bind simp: enum_built_def)
qed

section \<open>Properties\<close>

text \<open>C19: an enum's table accepts exactly the declared values. From the numbers of an enum definition, in
  any order and with repetitions when the \<open>is_sorted\<close> flag is not set, the mini descriptor that the
  definition is encoded to and the table that is built from it answer \<open>CheckValue\<close> with membership in the
  numbers, whatever the allocator did before and whatever the fresh memory holds; the only other outcome
  is that the allocator refuses. The number 512 is excluded: see the next theorem.\<close>

theorem create_enumlayout_exact:
  assumes "is_sorted \<longrightarrow> sorted numbers" and "512 \<notin> set numbers" and "length numbers < 2 ^ 26"
  shows "or_oom alloc (create_enumlayout alloc junk is_sorted numbers)
    (\<lambda>t. \<forall>v. upb_MiniTableEnum_CheckValue t v \<longleftrightarrow> v \<in> set numbers)"
proof (cases "upb_EnumDef_MiniDescriptorEncode alloc is_sorted numbers")
  case None
  with MiniDescriptorEncode_ok [OF assms(1), of alloc] show ?thesis by (simp add: create_enumlayout_def)
next
  case (Some sv)
  with MiniDescriptorEncode_ok [OF assms(1), of alloc] obtain cs vs where
    vs: "sv = 33 # cs" "enum_values cs 0 = Some vs" "sorted_wrt (<) vs" "set vs = set numbers" by auto
  then have "distinct vs" by (simp add: strict_sorted_iff)
  then have "length vs \<le> length numbers"
    using vs(4) by (metis card_length distinct_card)
  with Build_ok [OF vs(2,3), of alloc junk] vs(1,4) assms(2,3) Some show ?thesis
    by (simp add: create_enumlayout_def)
qed

theorem create_enumlayout_exact_witness:
  "or_oom (\<lambda>_. True) (create_enumlayout (\<lambda>_. True) \<lparr>mte_mask_limit = 7, mte_value_count = 9, mte_data = []\<rparr>
      False [1000, 1, 4000000000, 1])
    (\<lambda>t. \<forall>v. upb_MiniTableEnum_CheckValue t v \<longleftrightarrow> v \<in> {1, 1000, 4000000000})"
proof -
  have set: "set [1000, 1, 4000000000, 1 :: u32] = {1, 1000, 4000000000}" by auto
  show ?thesis
    unfolding set [symmetric] by (rule create_enumlayout_exact) simp_all
qed


end
