(* ===== verification/Mini_Message.thy ===== *)
theory Mini_Message
  imports Mini_Enum Message_Model
begin

text \<open>
  Message types from mini descriptors: \<open>upb/mini_descriptor/decode.c\<close> parses the string into fields,
  assigns presence bits and lays the flds out in memory. The theory has the whole decoder.
\<close>

section \<open>The decoder\<close>

datatype mini_platform = kUpb_MiniTablePlatform_32Bit | kUpb_MiniTablePlatform_64Bit

text \<open>The reasons for which the decoder leaves by \<open>longjmp\<close>; the last two are a failed assertion and a write to NULL.\<close>

datatype mt_error =
  MtOutOfMemory | MtOverlongVarint | MtInvalidFieldType int | MtCannotFlipPacked u32 | MtCannotFlipUtf8 u32
| MtInvalidModifier u32 | MtSingularAndRequired u32 | MtSingularSubmessage u32 | MtEmptyOneof
| MtNoSuchField u32 | MtNotForOneof u32 | MtExtensionModifiers | MtExtensionOneofs | MtInvalidFieldNumber u32
| MtInvalidChar byte | MtTooLarge | MtTooManyRequired | MtMapFields u16 | MtMapOneof | MtMapNumber u32
| MtMapNotScalar u32 | MtMapType u32 | MtMessageSetLength | MtInvalidVersion byte | MtNotExtendable
| MtAssertFailed | MtWriteToNull

text \<open>
  \<open>upb_MtDecoder\<close>. The array of fields may hold more of them than \<open>field_count\<close>, which has 16 bits, says.
  An item of \<open>oneofs\<close> is the index of the oneof's first field and the representation of its storage. The
  subtypes are counted in the decoder, and \<open>rep_counts_offsets\<close> is indexed by the representation.
\<close>

record upb_MtDecoder =
  md_fields :: "upb_MiniTableField list"
  md_field_count :: u16
  md_platform :: mini_platform
  md_oneofs :: "(u16 \<times> upb_FieldRep) list"
  md_oneofs_capacity :: nat
  md_rep_counts_offsets :: "upb_FieldRep \<Rightarrow> u16"
  md_is_extension :: bool
  md_submsg_count :: u16
  md_subenum_count :: u16
  md_size :: u16
  md_ext :: byte
  md_dense_below :: byte
  md_required_count :: byte

definition kUpb_Reserved_Hasbytes :: nat where
  "kUpb_Reserved_Hasbytes = 8"

definition kUpb_Reserved_Hasbits :: nat where
  "kUpb_Reserved_Hasbits = kUpb_Reserved_Hasbytes * 8"

definition kUpb_OneOfLayoutItem_IndexSentinel :: u16 where
  "kUpb_OneOfLayoutItem_IndexSentinel = - 1"

definition kUpb_OneOf_CaseFieldRep :: upb_FieldRep where
  "kUpb_OneOf_CaseFieldRep = kUpb_FieldRep_4Byte"

definition kUpb_MaxFieldNumber :: u32 where
  "kUpb_MaxFieldNumber = 2 ^ 29 - 1"

text \<open>The presence classes that a field's offset holds while the string is parsed.\<close>

abbreviation (input) "kNoPresence \<equiv> 0 :: u16"
abbreviation (input) "kHasbitPresence \<equiv> 1 :: u16"
abbreviation (input) "kRequiredPresence \<equiv> 2 :: u16"
abbreviation (input) "kOneofBase \<equiv> 3 :: u16"

text \<open>The label flags of a mode, its modes, and where the representation starts.\<close>

abbreviation (input) "kUpb_LabelFlags_IsPacked \<equiv> 4 :: byte"
abbreviation (input) "kUpb_LabelFlags_IsExtension \<equiv> 8 :: byte"
abbreviation (input) "kUpb_LabelFlags_IsAlternate \<equiv> 16 :: byte"

definition kUpb_NoSub :: u16 where
  "kUpb_NoSub = - 1"

definition rep_number :: "upb_FieldRep \<Rightarrow> byte" where
  "rep_number rep =
     (case rep of kUpb_FieldRep_1Byte \<Rightarrow> 0 | kUpb_FieldRep_4Byte \<Rightarrow> 1 | kUpb_FieldRep_StringView \<Rightarrow> 2 | kUpb_FieldRep_8Byte \<Rightarrow> 3)"

section \<open>Fields\<close>

definition upb_MtDecoder_FieldIsPackable :: "upb_MiniTableField \<Rightarrow> bool" where
  "upb_MtDecoder_FieldIsPackable f \<longleftrightarrow>
     mtf_mode f AND 1 \<noteq> 0 \<and> upb_FieldType_IsPackable (mtf_descriptortype f)"

text \<open>The field and the two counters.\<close>

definition upb_MiniTable_SetTypeAndSub ::
  "upb_MtDecoder \<Rightarrow> upb_MiniTableField \<Rightarrow> upb_FieldType \<Rightarrow> u32 \<Rightarrow> bool \<Rightarrow> mt_error + upb_MtDecoder \<times> upb_MiniTableField" where
  "upb_MiniTable_SetTypeAndSub d f type msg_modifiers is_proto3_enum =
     (if is_proto3_enum \<and> type \<noteq> kUpb_FieldType_Enum then Inl MtAssertFailed
      else
        let (type, f) =
              (if is_proto3_enum then (kUpb_FieldType_Int32, f\<lparr>mtf_mode := mtf_mode f OR kUpb_LabelFlags_IsAlternate\<rparr>)
               else if type = kUpb_FieldType_String \<and> msg_modifiers AND 1 = 0 then
                 (kUpb_FieldType_Bytes, f\<lparr>mtf_mode := mtf_mode f OR kUpb_LabelFlags_IsAlternate\<rparr>)
               else (type, f));
            f = f\<lparr>mtf_descriptortype := type\<rparr>;
            f = (if upb_MtDecoder_FieldIsPackable f \<and> msg_modifiers AND 2 \<noteq> 0
                 then f\<lparr>mtf_mode := mtf_mode f OR kUpb_LabelFlags_IsPacked\<rparr> else f)
        in if type = kUpb_FieldType_Message \<or> type = kUpb_FieldType_Group then
             Inr (d\<lparr>md_submsg_count := md_submsg_count d + 1\<rparr>, f\<lparr>mtf_submsg_index := md_submsg_count d\<rparr>)
           else if type = kUpb_FieldType_Enum then
             Inr (d\<lparr>md_subenum_count := md_subenum_count d + 1\<rparr>, f\<lparr>mtf_submsg_index := md_subenum_count d\<rparr>)
           else Inr (d, f\<lparr>mtf_submsg_index := kUpb_NoSub\<rparr>))"

definition kUpb_EncodedToType :: "upb_FieldType list" where
  "kUpb_EncodedToType =
     [kUpb_FieldType_Double, kUpb_FieldType_Float, kUpb_FieldType_Fixed32, kUpb_FieldType_Fixed64,
      kUpb_FieldType_SFixed32, kUpb_FieldType_SFixed64, kUpb_FieldType_Int32, kUpb_FieldType_UInt32,
      kUpb_FieldType_SInt32, kUpb_FieldType_Int64, kUpb_FieldType_UInt64, kUpb_FieldType_SInt64,
      kUpb_FieldType_Enum, kUpb_FieldType_Bool, kUpb_FieldType_Bytes, kUpb_FieldType_String,
      kUpb_FieldType_Group, kUpb_FieldType_Message, kUpb_FieldType_Enum]"

text \<open>The entries of the group and the message are zero.\<close>

definition kUpb_EncodedToFieldRep :: "upb_FieldRep list" where
  "kUpb_EncodedToFieldRep =
     [kUpb_FieldRep_8Byte, kUpb_FieldRep_4Byte, kUpb_FieldRep_4Byte, kUpb_FieldRep_8Byte,
      kUpb_FieldRep_4Byte, kUpb_FieldRep_8Byte, kUpb_FieldRep_4Byte, kUpb_FieldRep_4Byte,
      kUpb_FieldRep_4Byte, kUpb_FieldRep_8Byte, kUpb_FieldRep_8Byte, kUpb_FieldRep_8Byte,
      kUpb_FieldRep_4Byte, kUpb_FieldRep_1Byte, kUpb_FieldRep_StringView, kUpb_FieldRep_StringView,
      kUpb_FieldRep_1Byte, kUpb_FieldRep_1Byte, kUpb_FieldRep_4Byte]"

text \<open>The character is unsigned here; a field type out of range is negative or at least 19.\<close>

definition upb_MiniTable_SetField ::
  "upb_MtDecoder \<Rightarrow> byte \<Rightarrow> upb_MiniTableField \<Rightarrow> u32 \<Rightarrow> mt_error + upb_MtDecoder \<times> upb_MiniTableField" where
  "upb_MiniTable_SetField d ch f msg_modifiers =
     (let pointer_rep = (case md_platform d of kUpb_MiniTablePlatform_32Bit \<Rightarrow> kUpb_FieldRep_4Byte | _ \<Rightarrow> kUpb_FieldRep_8Byte);
          shifted = (\<lambda>rep. push_bit 6 (rep_number rep));
          type = upb_FromBase92 ch
      in bindE
           (if ch \<ge> upb_ToBase92 20 then
              Inr (type - 20, f\<lparr>mtf_mode := 1 OR shifted pointer_rep, mtf_offset := kNoPresence\<rparr>)
            else
              let f = f\<lparr>mtf_mode := 2, mtf_offset := kHasbitPresence\<rparr> in
              if type = 16 \<or> type = 17 then Inr (type, f\<lparr>mtf_mode := mtf_mode f OR shifted pointer_rep\<rparr>)
              else if type < 0 \<or> type \<ge> 19 then Inl (MtInvalidFieldType type)
              else Inr (type, f\<lparr>mtf_mode := mtf_mode f OR shifted (kUpb_EncodedToFieldRep ! nat type)\<rparr>))
           (\<lambda>(type, f).
              if type < 0 \<or> type \<ge> 19 then Inl (MtInvalidFieldType type)
              else upb_MiniTable_SetTypeAndSub d f (kUpb_EncodedToType ! nat type) msg_modifiers (type = 12)))"

text \<open>The modifiers: 1 flips packed, 2 is required, 4 is proto3 singular, 8 flips UTF-8 validation.\<close>

definition upb_MtDecoder_ModifyField :: "u32 \<Rightarrow> upb_MiniTableField \<Rightarrow> mt_error + upb_MiniTableField" where
  "upb_MtDecoder_ModifyField field_modifiers f =
     bindE
       (if field_modifiers AND 1 \<noteq> 0 then
          if \<not> upb_MtDecoder_FieldIsPackable f then Inl (MtCannotFlipPacked (mtf_number f))
          else Inr (f\<lparr>mtf_mode := mtf_mode f XOR kUpb_LabelFlags_IsPacked\<rparr>)
        else Inr f) (\<lambda>f.
     bindE
       (if field_modifiers AND 8 \<noteq> 0 then
          if mtf_descriptortype f \<noteq> kUpb_FieldType_Bytes \<or> mtf_mode f AND kUpb_LabelFlags_IsAlternate = 0
          then Inl (MtCannotFlipUtf8 (mtf_number f))
          else Inr (f\<lparr>mtf_descriptortype := kUpb_FieldType_String, mtf_mode := mtf_mode f AND NOT kUpb_LabelFlags_IsAlternate\<rparr>)
        else Inr f) (\<lambda>f.
     let singular = field_modifiers AND 4 \<noteq> 0; required = field_modifiers AND 2 \<noteq> 0 in
     if (singular \<or> required) \<and> mtf_offset f \<noteq> kHasbitPresence then Inl (MtInvalidModifier (mtf_number f))
     else if singular \<and> required then Inl (MtSingularAndRequired (mtf_number f))
     else if singular \<and> upb_MiniTableField_IsSubMessage f then Inl (MtSingularSubmessage (mtf_number f))
     else
       let f = (if singular then f\<lparr>mtf_offset := kNoPresence\<rparr> else f);
           f = (if required then f\<lparr>mtf_offset := kRequiredPresence\<rparr> else f)
       in Inr f))"

section \<open>Oneofs\<close>

definition sizeof_upb_OneOfLayoutItem :: nat where
  "sizeof_upb_OneOfLayoutItem = 4"

text \<open>\<open>alloc n\<close> says whether the allocator grants a block of \<open>n\<close> bytes.\<close>

definition upb_MtDecoder_PushOneof ::
  "(nat \<Rightarrow> bool) \<Rightarrow> upb_MtDecoder \<Rightarrow> u16 \<times> upb_FieldRep \<Rightarrow> mt_error + upb_MtDecoder" where
  "upb_MtDecoder_PushOneof alloc d item =
     (if fst item = kUpb_OneOfLayoutItem_IndexSentinel then Inl MtEmptyOneof
      else
        bindE
          (if (length (md_oneofs d) + 1) * sizeof_upb_OneOfLayoutItem > md_oneofs_capacity d then
             let new_cap = max 8 (length (md_oneofs d) * 2) * sizeof_upb_OneOfLayoutItem in
             if \<not> alloc new_cap then Inl MtOutOfMemory else Inr (d\<lparr>md_oneofs_capacity := new_cap\<rparr>)
           else Inr d) (\<lambda>d.
        let r = md_rep_counts_offsets d;
            r = r(kUpb_OneOf_CaseFieldRep := r kUpb_OneOf_CaseFieldRep + 1);
            r = r(snd item := r (snd item) + 1)
        in Inr (d\<lparr>md_rep_counts_offsets := r, md_oneofs := md_oneofs d @ [(fst item - kOneofBase, snd item)]\<rparr>)))"

definition upb_MtDecoder_SizeOfRep :: "upb_FieldRep \<Rightarrow> mini_platform \<Rightarrow> nat" where
  "upb_MtDecoder_SizeOfRep rep platform =
     (case rep of
        kUpb_FieldRep_1Byte \<Rightarrow> 1
      | kUpb_FieldRep_4Byte \<Rightarrow> 4
      | kUpb_FieldRep_StringView \<Rightarrow> (case platform of kUpb_MiniTablePlatform_32Bit \<Rightarrow> 8 | _ \<Rightarrow> 16)
      | kUpb_FieldRep_8Byte \<Rightarrow> 8)"

definition upb_MtDecoder_AlignOfRep :: "upb_FieldRep \<Rightarrow> mini_platform \<Rightarrow> nat" where
  "upb_MtDecoder_AlignOfRep rep platform =
     (case rep of
        kUpb_FieldRep_1Byte \<Rightarrow> 1
      | kUpb_FieldRep_4Byte \<Rightarrow> 4
      | kUpb_FieldRep_StringView \<Rightarrow> (case platform of kUpb_MiniTablePlatform_32Bit \<Rightarrow> 4 | _ \<Rightarrow> 8)
      | kUpb_FieldRep_8Byte \<Rightarrow> 8)"

text \<open>The table under construction, for lookups; \<open>fields\<close> are the first \<open>field_count\<close> of them.\<close>

definition md_table :: "upb_MtDecoder \<Rightarrow> upb_MiniTableSub list \<Rightarrow> upb_ExtMode \<Rightarrow> upb_MiniTable" where
  "md_table d subs ext =
     \<lparr>mt_subs = subs, mt_fields = take (unat (md_field_count d)) (md_fields d), mt_size = md_size d, mt_ext = ext,
      mt_dense_below = md_dense_below d, mt_required_count = md_required_count d\<rparr>"

definition upb_MtDecoder_DecodeOneofField ::
  "upb_MtDecoder \<Rightarrow> byte list \<Rightarrow> byte \<Rightarrow> u16 \<times> upb_FieldRep \<Rightarrow>
   mt_error + upb_MtDecoder \<times> byte list \<times> (u16 \<times> upb_FieldRep)" where
  "upb_MtDecoder_DecodeOneofField d ptr first_ch item =
     (case upb_Base92_DecodeVarint ptr first_ch kUpb_EncodedValue_MinOneofField kUpb_EncodedValue_MaxOneofField of
        None \<Rightarrow> Inl MtOverlongVarint
      | Some (ptr, field_num) \<Rightarrow>
          (case upb_MiniTable_FindFieldByNumber (md_table d [] kUpb_ExtMode_NonExtendable) field_num of
             None \<Rightarrow> Inl (MtNoSuchField field_num)
           | Some i \<Rightarrow>
               let f = md_fields d ! i in
               if mtf_offset f \<noteq> kHasbitPresence then Inl (MtNotForOneof field_num)
               else
                 let rep = upb_MiniTableField_GetRep f;
                     new_size = upb_MtDecoder_SizeOfRep rep (md_platform d);
                     new_align = upb_MtDecoder_AlignOfRep rep (md_platform d);
                     current_size = upb_MtDecoder_SizeOfRep (snd item) (md_platform d);
                     current_align = upb_MtDecoder_AlignOfRep (snd item) (md_platform d);
                     larger = (new_size > current_size \<or> (new_size = current_size \<and> new_align > current_align))
                 in if (if larger then \<not> new_align \<ge> current_align else \<not> current_align \<ge> new_align) then Inl MtAssertFailed
                    else
                      Inr (d\<lparr>md_fields := (md_fields d)[i := f\<lparr>mtf_offset := fst item\<rparr>]\<rparr>, ptr,
                        (of_nat i + kOneofBase, if larger then rep else snd item))))"

lemma DecodeVarint_length: "upb_Base92_DecodeVarint ptr ch mn mx = Some (ptr', v) \<Longrightarrow> length ptr' \<le> length ptr"
  by (auto simp: upb_Base92_DecodeVarint_def Let_def dest: DecodeVarint_loop_length)

lemma DecodeOneofField_length:
  "upb_MtDecoder_DecodeOneofField d ptr ch item = Inr (d', ptr', item') \<Longrightarrow> length ptr' \<le> length ptr"
  by (auto simp: upb_MtDecoder_DecodeOneofField_def Let_def dest: DecodeVarint_length split: option.splits prod.splits if_splits)

function decode_oneofs_loop ::
  "(nat \<Rightarrow> bool) \<Rightarrow> upb_MtDecoder \<Rightarrow> byte list \<Rightarrow> u16 \<times> upb_FieldRep \<Rightarrow> mt_error + upb_MtDecoder \<times> (u16 \<times> upb_FieldRep)" where
  "decode_oneofs_loop alloc d [] item = Inr (d, item)"
| "decode_oneofs_loop alloc d (ch # ptr) item =
     (if ch = kUpb_EncodedValue_FieldSeparator then decode_oneofs_loop alloc d ptr item
      else if ch = kUpb_EncodedValue_OneofSeparator then
        bindE (upb_MtDecoder_PushOneof alloc d item) (\<lambda>d.
        decode_oneofs_loop alloc d ptr (kUpb_OneOfLayoutItem_IndexSentinel, snd item))
      else
        bindE (upb_MtDecoder_DecodeOneofField d ptr ch item) (\<lambda>(d, ptr, item).
        decode_oneofs_loop alloc d ptr item))"
  by pat_completeness auto
termination
  by (relation "measure (\<lambda>(alloc, d, ptr, item). length ptr)") (auto dest!: DecodeOneofField_length)

text \<open>The loop runs to the end of the string.\<close>

definition upb_MtDecoder_DecodeOneofs :: "(nat \<Rightarrow> bool) \<Rightarrow> upb_MtDecoder \<Rightarrow> byte list \<Rightarrow> mt_error + upb_MtDecoder" where
  "upb_MtDecoder_DecodeOneofs alloc d ptr =
     bindE (decode_oneofs_loop alloc d ptr (kUpb_OneOfLayoutItem_IndexSentinel, kUpb_FieldRep_1Byte)) (\<lambda>(d, item).
     upb_MtDecoder_PushOneof alloc d item)"

section \<open>Parsing the string\<close>

definition update_last :: "('a \<Rightarrow> 'a) \<Rightarrow> 'a list \<Rightarrow> 'a list" where
  "update_last g xs = butlast xs @ [g (last xs)]"

text \<open>The last field, if there is one, is the last of the array.\<close>

definition upb_MtDecoder_ParseModifier ::
  "upb_MtDecoder \<Rightarrow> byte list \<Rightarrow> byte \<Rightarrow> u32 \<Rightarrow> mt_error + upb_MtDecoder \<times> byte list \<times> u32" where
  "upb_MtDecoder_ParseModifier d ptr first_ch msg_modifiers =
     (case upb_Base92_DecodeVarint ptr first_ch kUpb_EncodedValue_MinModifier kUpb_EncodedValue_MaxModifier of
        None \<Rightarrow> Inl MtOverlongVarint
      | Some (ptr, md) \<Rightarrow>
          if md_fields d \<noteq> [] then
            bindE (upb_MtDecoder_ModifyField md (last (md_fields d))) (\<lambda>f.
            Inr (d\<lparr>md_fields := update_last (\<lambda>_. f) (md_fields d)\<rparr>, ptr, msg_modifiers))
          else if md_is_extension d then Inl MtExtensionModifiers
          else Inr (d, ptr, md))"

lemma ParseModifier_length:
  "upb_MtDecoder_ParseModifier d ptr ch m = Inr (d', ptr', m') \<Longrightarrow> length ptr' \<le> length ptr"
  by (auto simp: upb_MtDecoder_ParseModifier_def bindE_Inr_conv dest: DecodeVarint_length split: option.splits prod.splits if_splits)

text \<open>A new field; its presence is set when the string has been parsed.\<close>

definition new_field :: "u32 \<Rightarrow> upb_MiniTableField" where
  "new_field number = \<lparr>mtf_number = number, mtf_offset = 0, mtf_presence = 0, mtf_submsg_index = 0,
     mtf_descriptortype = kUpb_FieldType_Double, mtf_mode = 0\<rparr>"

definition set_dense_below :: "upb_MtDecoder \<Rightarrow> upb_MtDecoder" where
  "set_dense_below d = d\<lparr>md_dense_below := ucast (md_field_count d)\<rparr>"

text \<open>
  The loop of \<open>upb_MtDecoder_Parse\<close>, over the message modifiers, the number of the last field and whether
  \<open>dense_below\<close> is still to be set. The result has the rest of the string, which is not empty
  only for an extension.
\<close>

function mt_parse_loop ::
  "(nat \<Rightarrow> bool) \<Rightarrow> upb_MtDecoder \<Rightarrow> byte list \<Rightarrow> u32 \<Rightarrow> u32 \<Rightarrow> bool \<Rightarrow> mt_error + upb_MtDecoder \<times> byte list \<times> bool" where
  "mt_parse_loop alloc d [] msg_modifiers last_field_number need_dense_below = Inr (d, [], need_dense_below)"
| "mt_parse_loop alloc d (ch # ptr) msg_modifiers last_field_number need_dense_below =
     (if sint ch \<le> sint kUpb_EncodedValue_MaxField then
        if md_is_extension d \<and> md_fields d \<noteq> [] then Inr (d, ch # ptr, False)
        else
          let number = last_field_number + 1;
              d = d\<lparr>md_field_count := md_field_count d + 1\<rparr>
          in if number = 0 \<or> (number > kUpb_MaxFieldNumber \<and> \<not> md_is_extension d) then Inl (MtInvalidFieldNumber number)
             else
               bindE (upb_MiniTable_SetField d ch (new_field number) msg_modifiers) (\<lambda>(d, f).
               mt_parse_loop alloc (d\<lparr>md_fields := md_fields d @ [f]\<rparr>) ptr msg_modifiers number need_dense_below)
      else if sint kUpb_EncodedValue_MinModifier \<le> sint ch \<and> sint ch \<le> sint kUpb_EncodedValue_MaxModifier then
        bindE (upb_MtDecoder_ParseModifier d ptr ch msg_modifiers) (\<lambda>(d, ptr, msg_modifiers).
        let d = (if msg_modifiers AND 4 \<noteq> 0 then d\<lparr>md_ext := md_ext d OR 1\<rparr> else d)
        in mt_parse_loop alloc d ptr msg_modifiers last_field_number need_dense_below)
      else if ch = kUpb_EncodedValue_End then
        if md_is_extension d then Inl MtExtensionOneofs
        else bindE (upb_MtDecoder_DecodeOneofs alloc d ptr) (\<lambda>d. Inr (d, [], need_dense_below))
      else if sint kUpb_EncodedValue_MinSkip \<le> sint ch \<and> sint ch \<le> sint kUpb_EncodedValue_MaxSkip then
        let d = (if need_dense_below then set_dense_below d else d) in
        (case upb_Base92_DecodeVarint ptr ch kUpb_EncodedValue_MinSkip kUpb_EncodedValue_MaxSkip of
           None \<Rightarrow> Inl MtOverlongVarint
         | Some (ptr, skip) \<Rightarrow> mt_parse_loop alloc d ptr msg_modifiers (last_field_number + skip - 1) False)
      else Inl (MtInvalidChar ch))"
  by pat_completeness auto
termination
  by (relation "measure (\<lambda>(alloc, d, ptr, m, l, n). length ptr)")
    (auto dest!: ParseModifier_length DecodeVarint_length)

definition upb_MtDecoder_Parse :: "(nat \<Rightarrow> bool) \<Rightarrow> upb_MtDecoder \<Rightarrow> byte list \<Rightarrow> mt_error + upb_MtDecoder \<times> byte list" where
  "upb_MtDecoder_Parse alloc d ptr =
     bindE (mt_parse_loop alloc d ptr 0 0 (\<not> md_is_extension d)) (\<lambda>(d, ptr, need_dense_below).
     Inr (if need_dense_below then set_dense_below d else d, ptr))"

section \<open>Subtypes\<close>

text \<open>NULL in the place of an enum that is not linked yet.\<close>

definition null_enum :: upb_MiniTableEnum where
  "null_enum = \<lparr>mte_mask_limit = 0, mte_value_count = 0, mte_data = []\<rparr>"

definition sizeof_upb_MiniTableField :: nat where
  "sizeof_upb_MiniTableField = 12"

definition upb_MtDecoder_AllocateSubs ::
  "(nat \<Rightarrow> bool) \<Rightarrow> upb_MtDecoder \<Rightarrow> mt_error + upb_MtDecoder \<times> upb_MiniTableSub list" where
  "upb_MtDecoder_AllocateSubs alloc d =
     (let submsg_count = unat (md_submsg_count d); subenum_count = unat (md_subenum_count d);
          subs_bytes = 8 * (submsg_count + subenum_count);
          ptrs_bytes = 8 * submsg_count
      in if subs_bytes \<noteq> 0 \<and> \<not> alloc subs_bytes then Inl MtOutOfMemory
         else if ptrs_bytes \<noteq> 0 \<and> \<not> alloc ptrs_bytes then Inl MtOutOfMemory
         else
           let n = unat (md_field_count d);
               shift = (\<lambda>f. if mtf_descriptortype f = kUpb_FieldType_Enum
                            then f\<lparr>mtf_submsg_index := mtf_submsg_index f + md_submsg_count d\<rparr> else f);
               flds = (if subenum_count \<noteq> 0 then map shift (take n (md_fields d)) @ drop n (md_fields d) else md_fields d)
           in Inr (d\<lparr>md_fields := flds\<rparr>,
                replicate submsg_count (SubMsg MT_Empty) @ replicate subenum_count (SubEnum null_enum)))"

text \<open>The bytes of the string bound the fields; shrinking the array to its size does not fail.\<close>

definition upb_MtDecoder_ParseMessage ::
  "(nat \<Rightarrow> bool) \<Rightarrow> upb_MtDecoder \<Rightarrow> byte list \<Rightarrow> mt_error + upb_MtDecoder \<times> upb_MiniTableSub list" where
  "upb_MtDecoder_ParseMessage alloc d data =
     (if (2 ^ 64 - 1) div sizeof_upb_MiniTableField < length data then Inl MtOutOfMemory
      else if \<not> alloc (sizeof_upb_MiniTableField * length data) then Inl MtOutOfMemory
      else
        let d = d\<lparr>md_fields := [], md_field_count := 0, md_submsg_count := 0, md_subenum_count := 0\<rparr> in
        bindE (upb_MtDecoder_Parse alloc d data) (\<lambda>(d, ptr).
        upb_MtDecoder_AllocateSubs alloc d))"

section \<open>Layout\<close>

definition upb_align_up :: "nat \<Rightarrow> nat \<Rightarrow> nat" where
  "upb_align_up n a = (n + a - 1) div a * a"

text \<open>The first loop of \<open>CalculateAlignments\<close>.\<close>

definition count_reps :: "upb_MiniTableField list \<Rightarrow> (upb_FieldRep \<Rightarrow> u16) \<Rightarrow> upb_FieldRep \<Rightarrow> u16" where
  "count_reps flds r =
     foldl (\<lambda>r f. if mtf_offset f \<ge> kOneofBase then r
                  else r(upb_MiniTableField_GetRep f := r (upb_MiniTableField_GetRep f) + 1)) r flds"

text \<open>One turn of its second loop.\<close>

definition reserve_rep ::
  "mini_platform \<Rightarrow> (upb_FieldRep \<Rightarrow> u16) \<times> nat \<Rightarrow> upb_FieldRep \<Rightarrow> (upb_FieldRep \<Rightarrow> u16) \<times> nat" where
  "reserve_rep platform s rep =
     (case s of (r, base) \<Rightarrow>
       let count = r rep in
       if count \<noteq> 0 then
         let base = upb_align_up base (upb_MtDecoder_AlignOfRep rep platform)
         in (r(rep := of_nat base), base + upb_MtDecoder_SizeOfRep rep platform * unat count)
       else (r, base))"

definition upb_MtDecoder_CalculateAlignments :: "upb_MtDecoder \<Rightarrow> mt_error + upb_MtDecoder" where
  "upb_MtDecoder_CalculateAlignments d =
     (let r = count_reps (take (unat (md_field_count d)) (md_fields d)) (md_rep_counts_offsets d);
          (r, base) = foldl (reserve_rep (md_platform d)) (r, unat (md_size d))
            [kUpb_FieldRep_1Byte, kUpb_FieldRep_4Byte, kUpb_FieldRep_StringView, kUpb_FieldRep_8Byte]
      in if base > 2 ^ 16 - 1 then Inl MtTooLarge
         else Inr (d\<lparr>md_rep_counts_offsets := r, md_size := of_nat base\<rparr>))"

text \<open>\<open>presence\<close> is an \<open>int16_t\<close>: the assignment of a number.\<close>

definition to_int16 :: "nat \<Rightarrow> int" where
  "to_int16 n = sint (of_nat n :: u16)"

text \<open>The two loops of \<open>AssignHasbits\<close>: the fields and \<open>last_hasbit\<close>.\<close>

fun assign_required :: "upb_MiniTableField list \<Rightarrow> nat \<Rightarrow> upb_MiniTableField list \<times> nat" where
  "assign_required [] last_hasbit = ([], last_hasbit)"
| "assign_required (f # fs) last_hasbit =
     (let (f, last_hasbit) =
            (if mtf_offset f = kRequiredPresence then (f\<lparr>mtf_presence := to_int16 (last_hasbit + 1)\<rparr>, last_hasbit + 1)
             else if mtf_offset f = kNoPresence then (f\<lparr>mtf_presence := 0\<rparr>, last_hasbit)
             else (f, last_hasbit));
          (fs, last_hasbit) = assign_required fs last_hasbit
      in (f # fs, last_hasbit))"

fun assign_optional :: "upb_MiniTableField list \<Rightarrow> nat \<Rightarrow> upb_MiniTableField list \<times> nat" where
  "assign_optional [] last_hasbit = ([], last_hasbit)"
| "assign_optional (f # fs) last_hasbit =
     (let (f, last_hasbit) =
            (if mtf_offset f = kHasbitPresence then (f\<lparr>mtf_presence := to_int16 (last_hasbit + 1)\<rparr>, last_hasbit + 1)
             else (f, last_hasbit));
          (fs, last_hasbit) = assign_optional fs last_hasbit
      in (f # fs, last_hasbit))"

definition upb_MiniTable_DivideRoundUp :: "nat \<Rightarrow> nat \<Rightarrow> nat" where
  "upb_MiniTable_DivideRoundUp n d = (n + d - 1) div d"

definition upb_MtDecoder_AssignHasbits :: "upb_MtDecoder \<Rightarrow> mt_error + upb_MtDecoder" where
  "upb_MtDecoder_AssignHasbits d =
     (let n = unat (md_field_count d);
          (flds, last_hasbit) = assign_required (take n (md_fields d)) (kUpb_Reserved_Hasbits - 1)
      in if last_hasbit > kUpb_Reserved_Hasbits + 63 then Inl MtTooManyRequired
         else
           let required_count = of_nat (last_hasbit - (kUpb_Reserved_Hasbits - 1));
               (flds, last_hasbit) = assign_optional flds last_hasbit
           in Inr (d\<lparr>md_required_count := required_count, md_fields := flds @ drop n (md_fields d),
                md_size := (if last_hasbit \<noteq> 0 then of_nat (upb_MiniTable_DivideRoundUp (last_hasbit + 1) 8) else 0)\<rparr>))"

definition upb_MtDecoder_Place ::
  "mini_platform \<Rightarrow> (upb_FieldRep \<Rightarrow> u16) \<Rightarrow> upb_FieldRep \<Rightarrow> u16 \<times> (upb_FieldRep \<Rightarrow> u16)" where
  "upb_MtDecoder_Place platform r rep =
     (let offset = r rep in (offset, r(rep := offset + of_nat (upb_MtDecoder_SizeOfRep rep platform))))"

text \<open>The loops of \<open>AssignOffsets\<close>: over the fields that are in no oneof, \<dots>\<close>

fun assign_field_offsets ::
  "mini_platform \<Rightarrow> (upb_FieldRep \<Rightarrow> u16) \<Rightarrow> upb_MiniTableField list \<Rightarrow> upb_MiniTableField list \<times> (upb_FieldRep \<Rightarrow> u16)" where
  "assign_field_offsets platform r [] = ([], r)"
| "assign_field_offsets platform r (f # fs) =
     (let (f, r) =
            (if mtf_offset f \<ge> kOneofBase then (f, r)
             else
               let (offset, r) = upb_MtDecoder_Place platform r (upb_MiniTableField_GetRep f)
               in (f\<lparr>mtf_offset := offset\<rparr>, r));
          (fs, r) = assign_field_offsets platform r fs
      in (f # fs, r))"

text \<open>\<dots> along the list of a oneof's fields, \<dots>; the fuel bounds a list by the number of fields,\<close>

fun assign_oneof_chain ::
  "nat \<Rightarrow> nat \<Rightarrow> u16 \<Rightarrow> u16 \<Rightarrow> nat \<Rightarrow> upb_MiniTableField list \<Rightarrow> mt_error + upb_MiniTableField list" where
  "assign_oneof_chain 0 n case_offset data_offset i flds = Inl MtAssertFailed"
| "assign_oneof_chain (Suc fuel) n case_offset data_offset i flds =
     (let f = flds ! i;
          next_offset = mtf_offset f;
          flds = flds[i := f\<lparr>mtf_presence := sint (NOT case_offset), mtf_offset := data_offset\<rparr>]
      in if next_offset = kUpb_OneOfLayoutItem_IndexSentinel then Inr flds
         else if \<not> uint next_offset - 3 < int n then Inl MtAssertFailed
         else assign_oneof_chain fuel n case_offset data_offset (unat (next_offset - kOneofBase)) flds)"

text \<open>\<dots> and over the oneofs.\<close>

fun assign_oneofs ::
  "mini_platform \<Rightarrow> nat \<Rightarrow> (upb_FieldRep \<Rightarrow> u16) \<Rightarrow> (u16 \<times> upb_FieldRep) list \<Rightarrow> upb_MiniTableField list \<Rightarrow>
   mt_error + upb_MiniTableField list \<times> (upb_FieldRep \<Rightarrow> u16)" where
  "assign_oneofs platform n r [] flds = Inr (flds, r)"
| "assign_oneofs platform n r (item # oneofs) flds =
     (let (case_offset, r) = upb_MtDecoder_Place platform r kUpb_OneOf_CaseFieldRep;
          (data_offset, r) = upb_MtDecoder_Place platform r (snd item)
      in bindE (assign_oneof_chain (length flds) n case_offset data_offset (unat (fst item)) flds) (\<lambda>flds.
         assign_oneofs platform n r oneofs flds))"

definition upb_MtDecoder_AssignOffsets :: "upb_MtDecoder \<Rightarrow> mt_error + upb_MtDecoder" where
  "upb_MtDecoder_AssignOffsets d =
     (let n = unat (md_field_count d);
          (flds, r) = assign_field_offsets (md_platform d) (md_rep_counts_offsets d) (take n (md_fields d))
      in bindE (assign_oneofs (md_platform d) n r (md_oneofs d) (flds @ drop n (md_fields d))) (\<lambda>(flds, r).
         Inr (d\<lparr>md_fields := flds, md_rep_counts_offsets := r,
                md_size := of_nat (upb_align_up (unat (md_size d)) 8)\<rparr>)))"

section \<open>Building tables\<close>

definition upb_MtDecoder_ValidateEntryField :: "upb_MiniTableField \<Rightarrow> u32 \<Rightarrow> mt_error + unit" where
  "upb_MtDecoder_ValidateEntryField f expected_num =
     (if mtf_number f \<noteq> expected_num then Inl (MtMapNumber expected_num)
      else if \<not> upb_MiniTableField_IsScalar f then Inl (MtMapNotScalar expected_num)
      else
        let not_ok_types =
              (if expected_num = 1 then
                 [kUpb_FieldType_Float, kUpb_FieldType_Double, kUpb_FieldType_Message, kUpb_FieldType_Group,
                  kUpb_FieldType_Bytes, kUpb_FieldType_Enum]
               else [kUpb_FieldType_Group])
        in if upb_MiniTableField_Type f \<in> set not_ok_types then Inl (MtMapType expected_num) else Inr ())"

text \<open>The offsets of \<open>k\<close> and \<open>v\<close> in \<open>upb_MapEntry\<close>, and its size.\<close>

definition upb_MapEntry_k :: nat where
  "upb_MapEntry_k = 16"

definition upb_MapEntry_v :: nat where
  "upb_MapEntry_v = 32"

definition sizeof_upb_MapEntry :: nat where
  "sizeof_upb_MapEntry = 48"

definition upb_MtDecoder_ParseMap ::
  "(nat \<Rightarrow> bool) \<Rightarrow> upb_MtDecoder \<Rightarrow> byte list \<Rightarrow> mt_error + upb_MtDecoder \<times> upb_MiniTableSub list" where
  "upb_MtDecoder_ParseMap alloc d data =
     bindE (upb_MtDecoder_ParseMessage alloc d data) (\<lambda>(d, subs).
     bindE (upb_MtDecoder_AssignHasbits d) (\<lambda>d.
     if md_field_count d \<noteq> 2 then Inl (MtMapFields (md_field_count d))
     else if md_oneofs d \<noteq> [] then Inl MtMapOneof
     else
       bindE (upb_MtDecoder_ValidateEntryField (md_fields d ! 0) 1) (\<lambda>_.
       bindE (upb_MtDecoder_ValidateEntryField (md_fields d ! 1) 2) (\<lambda>_.
       let flds = md_fields d;
           flds = flds[0 := (flds ! 0)\<lparr>mtf_offset := of_nat upb_MapEntry_k\<rparr>];
           flds = flds[1 := (flds ! 1)\<lparr>mtf_offset := of_nat upb_MapEntry_v\<rparr>]
       in Inr (d\<lparr>md_fields := flds, md_size := of_nat sizeof_upb_MapEntry, md_ext := md_ext d OR 4\<rparr>, subs)))))"

definition upb_MtDecoder_ParseMessageSet ::
  "upb_MtDecoder \<Rightarrow> byte list \<Rightarrow> mt_error + upb_MtDecoder \<times> upb_MiniTableSub list" where
  "upb_MtDecoder_ParseMessageSet d data =
     (if length data > 0 then Inl MtMessageSetLength
      else Inr (d\<lparr>md_size := of_nat kUpb_Reserved_Hasbytes, md_field_count := 0, md_ext := 2,
                  md_dense_below := 0, md_required_count := 0\<rparr>, []))"

text \<open>The extension mode that the bits of a table stand for; the bit of a map entry comes before the others.\<close>

definition ext_mode :: "byte \<Rightarrow> upb_ExtMode" where
  "ext_mode b =
     (if b AND 4 \<noteq> 0 then kUpb_ExtMode_IsMapEntry
      else if b = 0 then kUpb_ExtMode_NonExtendable
      else if b = 1 then kUpb_ExtMode_Extendable
      else if b = 2 then kUpb_ExtMode_IsMessageSet
      else kUpb_ExtMode_IsMessageSet_ITEM)"

definition sizeof_upb_MiniTable :: nat where
  "sizeof_upb_MiniTable = 24"

text \<open>
  \<open>DoBuildMiniTableWithBuf\<close>. The table at the end is written through the pointer of its allocation, which is
  not checked; \<open>CheckInvariants\<close> asserts the alignment of the size.
\<close>

definition upb_MtDecoder_DoBuildMiniTableWithBuf ::
  "(nat \<Rightarrow> bool) \<Rightarrow> upb_MtDecoder \<Rightarrow> byte list \<Rightarrow> mt_error + upb_MiniTable" where
  "upb_MtDecoder_DoBuildMiniTableWithBuf alloc d data =
     (let d = d\<lparr>md_size := of_nat kUpb_Reserved_Hasbytes, md_field_count := 0, md_ext := 0, md_dense_below := 0,
                md_required_count := 0\<rparr>
      in bindE
           (case data of
              [] \<Rightarrow> Inr (d, [])
            | vers # data \<Rightarrow>
                if vers = kUpb_EncodedVersion_MapV1 then upb_MtDecoder_ParseMap alloc d data
                else if vers = kUpb_EncodedVersion_MessageV1 then
                  bindE (upb_MtDecoder_ParseMessage alloc d data) (\<lambda>(d, subs).
                  bindE (upb_MtDecoder_AssignHasbits d) (\<lambda>d.
                  bindE (upb_MtDecoder_CalculateAlignments d) (\<lambda>d.
                  bindE (upb_MtDecoder_AssignOffsets d) (\<lambda>d. Inr (d, subs)))))
                else if vers = kUpb_EncodedVersion_MessageSetV1 then upb_MtDecoder_ParseMessageSet d data
                else Inl (MtInvalidVersion vers))
           (\<lambda>(d, subs).
              if \<not> alloc sizeof_upb_MiniTable then Inl MtWriteToNull
              else if unat (md_size d) mod 8 \<noteq> 0 then Inl MtAssertFailed
              else Inr (md_table d subs (ext_mode (md_ext d)))))"

text \<open>\<open>_upb_MiniTable_Build\<close>: with no buffer for the oneofs at the start.\<close>

definition upb_MiniTable_Build :: "(nat \<Rightarrow> bool) \<Rightarrow> mini_platform \<Rightarrow> byte list \<Rightarrow> mt_error + upb_MiniTable" where
  "upb_MiniTable_Build alloc platform data =
     upb_MtDecoder_DoBuildMiniTableWithBuf alloc
       \<lparr>md_fields = [], md_field_count = 0, md_platform = platform, md_oneofs = [], md_oneofs_capacity = 0,
        md_rep_counts_offsets = (\<lambda>_. 0), md_is_extension = False, md_submsg_count = 0, md_subenum_count = 0,
        md_size = 0, md_ext = 0, md_dense_below = 0, md_required_count = 0\<rparr> data"

section \<open>Extensions\<close>

definition upb_MtDecoder_DoBuildMiniTableExtension ::
  "(nat \<Rightarrow> bool) \<Rightarrow> upb_MtDecoder \<Rightarrow> byte list \<Rightarrow> mt_ref \<Rightarrow> upb_ExtMode \<Rightarrow> upb_MiniTableSub \<Rightarrow>
   mt_error + (upb_MiniTableExtension \<times> byte list) option" where
  "upb_MtDecoder_DoBuildMiniTableExtension alloc d data extendee extendee_mode sub =
     (if extendee_mode \<noteq> kUpb_ExtMode_Extendable \<and> extendee_mode \<noteq> kUpb_ExtMode_IsMessageSet \<and>
         extendee_mode \<noteq> kUpb_ExtMode_IsMessageSet_ITEM then Inl MtNotExtendable
      else if data \<noteq> [] \<and> hd data \<noteq> kUpb_EncodedVersion_ExtensionV1 then Inl (MtInvalidVersion (hd data))
      else
        bindE (upb_MtDecoder_Parse alloc d (tl data)) (\<lambda>(d, ret).
        if md_field_count d \<noteq> 1 then Inr None
        else
          let f = md_fields d ! 0;
              f = f\<lparr>mtf_mode := mtf_mode f OR kUpb_LabelFlags_IsExtension, mtf_offset := 0, mtf_presence := 0\<rparr>
          in if extendee_mode \<noteq> kUpb_ExtMode_Extendable \<and>
                (\<not> upb_MiniTableField_IsSubMessage f \<or> upb_MiniTableField_IsArray f) then Inr None
             else Inr (Some (\<lparr>mx_field = f, mx_extendee = extendee, mx_sub = sub\<rparr>, ret))))"

text \<open>NULL when the decoder leaves with an error, and the rest of the string otherwise.\<close>

definition upb_MiniTableExtension_Init ::
  "(nat \<Rightarrow> bool) \<Rightarrow> mini_platform \<Rightarrow> byte list \<Rightarrow> mt_ref \<Rightarrow> upb_ExtMode \<Rightarrow> upb_MiniTableSub \<Rightarrow>
   (upb_MiniTableExtension \<times> byte list) option" where
  "upb_MiniTableExtension_Init alloc platform data extendee extendee_mode sub =
     (case upb_MtDecoder_DoBuildMiniTableExtension alloc
        \<lparr>md_fields = [], md_field_count = 0, md_platform = platform, md_oneofs = [], md_oneofs_capacity = 0,
         md_rep_counts_offsets = (\<lambda>_. 0), md_is_extension = True, md_submsg_count = 0, md_subenum_count = 0,
         md_size = 0, md_ext = 0, md_dense_below = 0, md_required_count = 0\<rparr> data extendee extendee_mode sub of
        Inl _ \<Rightarrow> None
      | Inr r \<Rightarrow> r)"

definition upb_MiniTableExtension_Build ::
  "(nat \<Rightarrow> bool) \<Rightarrow> mini_platform \<Rightarrow> byte list \<Rightarrow> mt_ref \<Rightarrow> upb_ExtMode \<Rightarrow> upb_MiniTableSub \<Rightarrow>
   upb_MiniTableExtension option" where
  "upb_MiniTableExtension_Build alloc platform data extendee extendee_mode sub =
     (if \<not> alloc 32 then None
      else map_option fst (upb_MiniTableExtension_Init alloc platform data extendee extendee_mode sub))"

section \<open>Linking\<close>

text \<open>
  Linking a field to its subtype. The tables that a field of a message can refer to are keys, and the
  argument \<open>is_map\<close> tells which are map entries; the pointer to the field is its index.
\<close>

definition upb_MiniTable_SetSubMessage ::
  "upb_MiniTable \<Rightarrow> nat \<Rightarrow> mt_ref \<Rightarrow> bool \<Rightarrow> upb_MiniTable option" where
  "upb_MiniTable_SetSubMessage m i sub sub_is_map =
     (let f = mt_fields m ! i;
          link = (\<lambda>m. m\<lparr>mt_subs := (mt_subs m)[unat (mtf_submsg_index f) := SubMsg sub]\<rparr>)
      in (case mtf_descriptortype f of
            kUpb_FieldType_Message \<Rightarrow>
              if sub_is_map then
                if mt_ext m = kUpb_ExtMode_IsMapEntry then None
                else Some (link (m\<lparr>mt_fields := (mt_fields m)[i := f\<lparr>mtf_mode := (mtf_mode f AND NOT 3) OR 0\<rparr>]\<rparr>))
              else Some (link m)
          | kUpb_FieldType_Group \<Rightarrow> if sub_is_map then None else Some (link m)
          | _ \<Rightarrow> None))"

definition upb_MiniTable_SetSubEnum :: "upb_MiniTable \<Rightarrow> nat \<Rightarrow> upb_MiniTableEnum \<Rightarrow> upb_MiniTable option" where
  "upb_MiniTable_SetSubEnum m i sub =
     (let f = mt_fields m ! i in
      if mtf_descriptortype f \<noteq> kUpb_FieldType_Enum then None
      else Some (m\<lparr>mt_subs := (mt_subs m)[unat (mtf_submsg_index f) := SubEnum sub]\<rparr>))"

text \<open>The fields with a subtype, the messages before the enums, and how many there are of each.\<close>

definition upb_MiniTable_GetSubList :: "upb_MiniTable \<Rightarrow> nat list \<times> u32" where
  "upb_MiniTable_GetSubList m =
     (let msgs = filter (\<lambda>i. upb_MiniTableField_CType (mt_fields m ! i) = kUpb_CType_Message) [0..<length (mt_fields m)];
          enums = filter (\<lambda>i. upb_MiniTableField_IsClosedEnum (mt_fields m ! i)) [0..<length (mt_fields m)]
      in (msgs @ enums, push_bit 16 (of_nat (length msgs)) OR of_nat (length enums)))"

text \<open>
  The loops of \<open>upb_MiniTable_Link\<close>, over the indices left; a list of subtypes that has run out is the
  count above the number of subtypes, for which the code reads one past the array before it looks.
\<close>

fun link_messages :: "(mt_ref \<Rightarrow> bool) \<Rightarrow> upb_MiniTable \<Rightarrow> nat list \<Rightarrow> mt_ref option list \<Rightarrow> (upb_MiniTable \<times> mt_ref option list) option" where
  "link_messages is_map m [] sub_tables = Some (m, sub_tables)"
| "link_messages is_map m (i # is) sub_tables =
     (if upb_MiniTableField_CType (mt_fields m ! i) = kUpb_CType_Message then
        (case sub_tables of
           [] \<Rightarrow> None
         | sub # sub_tables \<Rightarrow>
             (case sub of
                None \<Rightarrow> link_messages is_map m is sub_tables
              | Some sub \<Rightarrow>
                  (case upb_MiniTable_SetSubMessage m i sub (is_map sub) of
                     None \<Rightarrow> None
                   | Some m \<Rightarrow> link_messages is_map m is sub_tables)))
      else link_messages is_map m is sub_tables)"

fun link_enums :: "upb_MiniTable \<Rightarrow> nat list \<Rightarrow> upb_MiniTableEnum option list \<Rightarrow> (upb_MiniTable \<times> upb_MiniTableEnum option list) option" where
  "link_enums m [] sub_enums = Some (m, sub_enums)"
| "link_enums m (i # is) sub_enums =
     (if upb_MiniTableField_IsClosedEnum (mt_fields m ! i) then
        (case sub_enums of
           [] \<Rightarrow> None
         | sub # sub_enums \<Rightarrow>
             (case sub of
                None \<Rightarrow> link_enums m is sub_enums
              | Some sub \<Rightarrow>
                  (case upb_MiniTable_SetSubEnum m i sub of
                     None \<Rightarrow> None
                   | Some m \<Rightarrow> link_enums m is sub_enums)))
      else link_enums m is sub_enums)"

definition upb_MiniTable_Link ::
  "(mt_ref \<Rightarrow> bool) \<Rightarrow> upb_MiniTable \<Rightarrow> mt_ref option list \<Rightarrow> upb_MiniTableEnum option list \<Rightarrow> (bool \<times> upb_MiniTable) option" where
  "upb_MiniTable_Link is_map m sub_tables sub_enums =
     (case link_messages is_map m [0..<length (mt_fields m)] sub_tables of
        None \<Rightarrow> None
      | Some (m, sub_tables) \<Rightarrow>
          (case link_enums m [0..<length (mt_fields m)] sub_enums of
             None \<Rightarrow> None
           | Some (m, sub_enums) \<Rightarrow> Some (sub_tables = [] \<and> sub_enums = [], m)))"

end
