(* ===== verification/Mini_Parse.thy ===== *)
theory Mini_Parse
  imports Mini_Message
begin

text \<open>
  What the parser of message mini descriptors leaves behind: the fields that belong to a oneof hang on
  disjoint lists linked through their offsets, one list for each item of \<open>oneofs\<close>; the storage of an item
  is large enough for every field on its list; and the representations of the items are counted.
\<close>

section \<open>Representations\<close>

text \<open>A value of the first representation fits into storage of the second, with its alignment.\<close>

definition rep_within :: "mini_platform \<Rightarrow> upb_FieldRep \<Rightarrow> upb_FieldRep \<Rightarrow> bool" where
  "rep_within p r s \<longleftrightarrow>
     upb_MtDecoder_SizeOfRep r p \<le> upb_MtDecoder_SizeOfRep s p \<and> upb_MtDecoder_AlignOfRep r p dvd upb_MtDecoder_AlignOfRep s p"

lemmas rep_size_defs = upb_MtDecoder_SizeOfRep_def upb_MtDecoder_AlignOfRep_def

lemma rep_within_refl [simp]: "rep_within p r r"
  by (simp add: rep_within_def)

lemma rep_within_trans [trans]: "rep_within p r s \<Longrightarrow> rep_within p s t \<Longrightarrow> rep_within p r t"
  unfolding rep_within_def by (blast intro: le_trans dvd_trans)

text \<open>The choice of \<open>DecodeOneofField\<close>, whose assertions hold.\<close>

definition larger_rep :: "mini_platform \<Rightarrow> upb_FieldRep \<Rightarrow> upb_FieldRep \<Rightarrow> bool" where
  "larger_rep p r s \<longleftrightarrow>
     upb_MtDecoder_SizeOfRep r p > upb_MtDecoder_SizeOfRep s p \<or>
     upb_MtDecoder_SizeOfRep r p = upb_MtDecoder_SizeOfRep s p \<and> upb_MtDecoder_AlignOfRep r p > upb_MtDecoder_AlignOfRep s p"

lemma rep_align_order:
  "\<not> (if larger_rep p r s then \<not> upb_MtDecoder_AlignOfRep r p \<ge> upb_MtDecoder_AlignOfRep s p
      else \<not> upb_MtDecoder_AlignOfRep s p \<ge> upb_MtDecoder_AlignOfRep r p)"
  by (cases p; cases r; cases s) (simp_all add: larger_rep_def rep_size_defs)

lemma rep_within_choice:
  "rep_within p r (if larger_rep p r s then r else s)" "rep_within p s (if larger_rep p r s then r else s)"
  by (cases p; cases r; cases s, simp_all add: larger_rep_def rep_within_def rep_size_defs)+

lemma GetRep_update [simp]:
  "upb_MiniTableField_GetRep (f\<lparr>mtf_offset := x\<rparr>) = upb_MiniTableField_GetRep f"
  "upb_MiniTableField_GetRep (f\<lparr>mtf_presence := y\<rparr>) = upb_MiniTableField_GetRep f"
  "upb_MiniTableField_GetRep (f\<lparr>mtf_submsg_index := x\<rparr>) = upb_MiniTableField_GetRep f"
  by (simp_all add: upb_MiniTableField_GetRep_def)

section \<open>The lists of the oneofs\<close>

text \<open>The list that starts at a link: a link is the index of a field, above the presence classes.\<close>

fun oneof_chain :: "upb_MiniTableField list \<Rightarrow> u16 \<Rightarrow> nat list \<Rightarrow> bool" where
  "oneof_chain flds x [] \<longleftrightarrow> x = kUpb_OneOfLayoutItem_IndexSentinel"
| "oneof_chain flds x (j # js) \<longleftrightarrow>
     x = of_nat j + kOneofBase \<and> j < length flds \<and> j + 3 < 65535 \<and> oneof_chain flds (mtf_offset (flds ! j)) js"

lemma oneof_chain_cong:
  "length flds' = length flds \<Longrightarrow> (\<And>j. j \<in> set js \<Longrightarrow> mtf_offset (flds' ! j) = mtf_offset (flds ! j)) \<Longrightarrow>
     oneof_chain flds' x js = oneof_chain flds x js"
  by (induction js arbitrary: x) auto

lemma oneof_chain_bound: "oneof_chain flds x js \<Longrightarrow> j \<in> set js \<Longrightarrow> j < length flds"
  by (induction js arbitrary: x) auto

lemma unat_oneof_link: "j + 3 < 65535 \<Longrightarrow> unat (of_nat j + kOneofBase :: u16) = j + 3"
  by (simp add: unat_word_ariths unat_of_nat)

lemma unat_sentinel: "unat kUpb_OneOfLayoutItem_IndexSentinel = 65535"
  by (simp add: kUpb_OneOfLayoutItem_IndexSentinel_def unsigned_minus_1_eq_mask mask_eq_exp_minus_1)

lemma oneof_link_not_sentinel:
  assumes "j + 3 < 65535"
  shows "of_nat j + kOneofBase \<noteq> kUpb_OneOfLayoutItem_IndexSentinel"
proof
  assume "of_nat j + kOneofBase = kUpb_OneOfLayoutItem_IndexSentinel"
  then have "j + 3 = 65535" using unat_oneof_link [OF assms] by (simp only: unat_sentinel)
  with assms show False by simp
qed

lemma sentinel_ge_base: "kUpb_OneOfLayoutItem_IndexSentinel \<ge> kOneofBase"
  by (simp add: kUpb_OneOfLayoutItem_IndexSentinel_def)

lemma oneof_link_ge_base: "j + 3 < 65535 \<Longrightarrow> of_nat j + kOneofBase \<ge> kOneofBase"
  using unat_oneof_link [of j] by (simp add: word_le_nat_alt)

lemma oneof_chain_start: "oneof_chain flds x js \<Longrightarrow> x \<ge> kOneofBase"
  by (cases js) (auto simp: sentinel_ge_base oneof_link_ge_base)

lemma oneof_chain_nonempty: "oneof_chain flds x js \<Longrightarrow> x \<noteq> kUpb_OneOfLayoutItem_IndexSentinel \<Longrightarrow> js \<noteq> []"
  by (cases js) auto

text \<open>One oneof: its item after the push, and its list.\<close>

definition oneof_item_wf :: "mini_platform \<Rightarrow> upb_MiniTableField list \<Rightarrow> u16 \<times> upb_FieldRep \<Rightarrow> nat list \<Rightarrow> bool" where
  "oneof_item_wf p flds it js \<longleftrightarrow>
     js \<noteq> [] \<and> oneof_chain flds (fst it + kOneofBase) js \<and>
     (\<forall>j\<in>set js. rep_within p (upb_MiniTableField_GetRep (flds ! j)) (snd it))"

text \<open>The oneofs that are complete and the one that is being read.\<close>

definition oneofs_wf ::
  "mini_platform \<Rightarrow> upb_MiniTableField list \<Rightarrow> (u16 \<times> upb_FieldRep) list \<Rightarrow> nat list list \<Rightarrow> u16 \<times> upb_FieldRep \<Rightarrow> nat list \<Rightarrow> bool" where
  "oneofs_wf p flds items css it cur \<longleftrightarrow>
     list_all2 (oneof_item_wf p flds) items css \<and>
     oneof_chain flds (fst it) cur \<and> (\<forall>j\<in>set cur. rep_within p (upb_MiniTableField_GetRep (flds ! j)) (snd it)) \<and>
     distinct (concat css @ cur) \<and>
     (\<forall>j<length flds. mtf_offset (flds ! j) \<ge> kOneofBase \<longleftrightarrow> j \<in> set (concat css @ cur))"

text \<open>What the items ask for: the case and the storage of each.\<close>

definition oneof_requests :: "(u16 \<times> upb_FieldRep) list \<Rightarrow> upb_FieldRep list" where
  "oneof_requests items = concat (map (\<lambda>it. [kUpb_OneOf_CaseFieldRep, snd it]) items)"

definition oneofs_counted :: "upb_MtDecoder \<Rightarrow> bool" where
  "oneofs_counted d \<longleftrightarrow> (\<forall>r. md_rep_counts_offsets d r = of_nat (count_list (oneof_requests (md_oneofs d)) r))"

lemma oneof_requests_simps [simp]:
  "oneof_requests [] = []" "oneof_requests (it # its) = kUpb_OneOf_CaseFieldRep # snd it # oneof_requests its"
  "oneof_requests (its @ its') = oneof_requests its @ oneof_requests its'"
  by (simp_all add: oneof_requests_def)

lemma length_oneof_requests [simp]: "length (oneof_requests its) = 2 * length its"
  by (induction its) simp_all

section \<open>The steps\<close>

lemma PushOneof_wf:
  assumes push: "upb_MtDecoder_PushOneof alloc d it = Inr d'"
    and wf: "oneofs_wf p (md_fields d) (md_oneofs d) css it cur" and cnt: "oneofs_counted d"
  shows "oneofs_wf p (md_fields d') (md_oneofs d') (css @ [cur]) (kUpb_OneOfLayoutItem_IndexSentinel, r) []"
    "oneofs_counted d'" "cur \<noteq> []"
    "\<exists>c k. d' = d\<lparr>md_oneofs_capacity := c, md_rep_counts_offsets := k, md_oneofs := md_oneofs d @ [(fst it - kOneofBase, snd it)]\<rparr>"
proof -
  have ne: "fst it \<noteq> kUpb_OneOfLayoutItem_IndexSentinel"
    using push by (auto simp: upb_MtDecoder_PushOneof_def)
  show shape: "\<exists>c k. d' = d\<lparr>md_oneofs_capacity := c, md_rep_counts_offsets := k, md_oneofs := md_oneofs d @ [(fst it - kOneofBase, snd it)]\<rparr>"
    using push ne by (cases d) (auto simp: upb_MtDecoder_PushOneof_def Let_def split: if_splits)
  have eq: "md_fields d' = md_fields d" "md_oneofs d' = md_oneofs d @ [(fst it - kOneofBase, snd it)]"
    using shape by auto
  show "cur \<noteq> []" using wf ne by (auto simp: oneofs_wf_def dest: oneof_chain_nonempty)
  with wf show "oneofs_wf p (md_fields d') (md_oneofs d') (css @ [cur]) (kUpb_OneOfLayoutItem_IndexSentinel, r) []"
    by (auto simp: oneofs_wf_def eq oneof_item_wf_def intro!: list_all2_appendI)
  show "oneofs_counted d'"
    using push ne cnt
    by (auto simp: upb_MtDecoder_PushOneof_def Let_def oneofs_counted_def split: if_splits)
qed

lemma bsearch_range:
  "find_field_bsearch base number hi lo = Some i \<Longrightarrow> 0 \<le> lo \<Longrightarrow> hi < int (length base) \<Longrightarrow> i < length base"
proof (induction base number hi lo rule: find_field_bsearch.induct)
  case (1 base number hi lo)
  let ?mid = "(hi + lo) div 2"
  note step = "1.prems"(1) [unfolded find_field_bsearch.simps [of base number hi lo] Let_def]
  have le: "lo \<le> hi" using step by (simp split: if_splits)
  then have mid: "lo \<le> ?mid" "?mid \<le> hi" by auto
  consider "i = nat ?mid" | "mtf_number (base ! nat ?mid) \<noteq> number" "mtf_number (base ! nat ?mid) < number"
      "find_field_bsearch base number hi (?mid + 1) = Some i"
    | "mtf_number (base ! nat ?mid) \<noteq> number" "\<not> mtf_number (base ! nat ?mid) < number"
      "find_field_bsearch base number (?mid - 1) lo = Some i"
    using step le by (auto split: if_splits)
  then show ?case
  proof cases
    case 1
    with mid "1.prems" show ?thesis by simp
  next
    case 2
    from "1.IH"(1) [OF le refl refl refl refl 2] mid "1.prems" show ?thesis by simp
  next
    case 3
    from "1.IH"(2) [OF le refl refl refl refl 3] mid "1.prems" show ?thesis by simp
  qed
qed

lemma FindFieldByNumber_range:
  assumes "upb_MiniTable_FindFieldByNumber m number = Some i" and "unat (mt_dense_below m) \<le> length (mt_fields m)"
  shows "i < length (mt_fields m)"
  using assms bsearch_range [of "mt_fields m" number "int (length (mt_fields m)) - 1" "uint (mt_dense_below m)" i]
  by (auto simp: upb_MiniTable_FindFieldByNumber_def Let_def word_less_nat_alt unat_ucast_byte split: if_splits)

text \<open>The number of fields and the dense prefix, which has eight bits.\<close>

definition fields_counted :: "upb_MtDecoder \<Rightarrow> bool" where
  "fields_counted d \<longleftrightarrow> unat (md_field_count d) = length (md_fields d) \<and> unat (md_dense_below d) \<le> length (md_fields d)"

lemma DecodeOneofField_wf:
  assumes dec: "upb_MtDecoder_DecodeOneofField d ptr ch it = Inr (d', ptr', it')"
    and wf: "oneofs_wf (md_platform d) (md_fields d) (md_oneofs d) css it cur" and fc: "fields_counted d"
    and small: "length (md_fields d) \<le> 65532"
  shows "\<exists>j. oneofs_wf (md_platform d) (md_fields d') (md_oneofs d') css it' (j # cur)"
    and "\<exists>fs. d' = d\<lparr>md_fields := fs\<rparr> \<and> length fs = length (md_fields d)"
proof -
  let ?p = "md_platform d" and ?flds = "md_fields d"
  obtain num i where find: "upb_MiniTable_FindFieldByNumber (md_table d [] kUpb_ExtMode_NonExtendable) num = Some i"
    and off: "mtf_offset (?flds ! i) = kHasbitPresence"
    and d': "d' = d\<lparr>md_fields := ?flds[i := (?flds ! i)\<lparr>mtf_offset := fst it\<rparr>]\<rparr>"
    and it': "it' = (of_nat i + kOneofBase,
      if larger_rep ?p (upb_MiniTableField_GetRep (?flds ! i)) (snd it) then upb_MiniTableField_GetRep (?flds ! i) else snd it)"
    using dec by (auto simp: upb_MtDecoder_DecodeOneofField_def Let_def larger_rep_def split: option.splits prod.splits if_splits)
  have i: "i < length ?flds"
    using FindFieldByNumber_range [OF find] fc by (simp add: md_table_def fields_counted_def)
  show "\<exists>fs. d' = d\<lparr>md_fields := fs\<rparr> \<and> length fs = length ?flds" using d' by auto
  have "mtf_offset (?flds ! i) \<ge> kOneofBase \<longleftrightarrow> i \<in> set (concat css @ cur)"
    using wf i unfolding oneofs_wf_def by blast
  then have new: "i \<notin> set (concat css @ cur)" by (simp add: off word_le_nat_alt)
  have rep [simp]: "upb_MiniTableField_GetRep (?flds[i := (?flds ! i)\<lparr>mtf_offset := x\<rparr>] ! j) = upb_MiniTableField_GetRep (?flds ! j)" for x j
    using i by (cases "i = j") simp_all
  have chain: "oneof_chain (?flds[i := f]) x js = oneof_chain ?flds x js" if "i \<notin> set js" for f x js
    using that by (intro oneof_chain_cong) (simp, metis nth_list_update_neq)
  have "list_all2 (oneof_item_wf ?p (?flds[i := (?flds ! i)\<lparr>mtf_offset := fst it\<rparr>])) (md_oneofs d) css"
    using wf new unfolding oneofs_wf_def oneof_item_wf_def
    by (auto simp: list_all2_conv_all_nth chain dest!: nth_mem)
  moreover have "\<forall>j\<in>set (i # cur). rep_within ?p (upb_MiniTableField_GetRep (?flds ! j)) (snd it')"
    using wf rep_within_choice(1) [of ?p "upb_MiniTableField_GetRep (?flds ! i)" "snd it"]
      rep_within_choice(2) [of ?p "snd it" "upb_MiniTableField_GetRep (?flds ! i)"]
    by (auto simp: oneofs_wf_def it' intro: rep_within_trans)
  moreover have "oneof_chain (?flds[i := (?flds ! i)\<lparr>mtf_offset := fst it\<rparr>]) (fst it') (i # cur)"
    using i small new wf by (simp add: it' chain oneofs_wf_def)
  ultimately show "\<exists>j. oneofs_wf ?p (md_fields d') (md_oneofs d') css it' (j # cur)"
    using wf new i oneof_chain_start [of ?flds "fst it" cur]
    by (intro exI [of _ i]) (auto simp: oneofs_wf_def d' nth_list_update)
qed

section \<open>The whole parse\<close>

text \<open>The state between two steps, with the oneof that is being read.\<close>

definition parse_inv :: "mini_platform \<Rightarrow> upb_MtDecoder \<Rightarrow> nat list list \<Rightarrow> u16 \<times> upb_FieldRep \<Rightarrow> nat list \<Rightarrow> bool" where
  "parse_inv p d css it cur \<longleftrightarrow>
     md_platform d = p \<and> oneofs_wf p (md_fields d) (md_oneofs d) css it cur \<and> oneofs_counted d \<and> fields_counted d"

lemma PushOneof_inv:
  assumes "upb_MtDecoder_PushOneof alloc d it = Inr d'" and "parse_inv p d css it cur"
  shows "parse_inv p d' (css @ [cur]) (kUpb_OneOfLayoutItem_IndexSentinel, r) []"
    "length (md_oneofs d') = Suc (length (md_oneofs d))" "md_fields d' = md_fields d"
proof -
  have wf: "oneofs_wf p (md_fields d) (md_oneofs d) css it cur" and cnt: "oneofs_counted d"
    using assms(2) by (auto simp: parse_inv_def)
  note push = PushOneof_wf [OF assms(1) wf cnt]
  show "parse_inv p d' (css @ [cur]) (kUpb_OneOfLayoutItem_IndexSentinel, r) []"
    using assms(2) push(1) [of r] push(2,4) by (auto simp: parse_inv_def fields_counted_def)
  show "length (md_oneofs d') = Suc (length (md_oneofs d))" "md_fields d' = md_fields d"
    using push(4) by auto
qed

lemma DecodeOneofField_inv:
  assumes "upb_MtDecoder_DecodeOneofField d ptr ch it = Inr (d', ptr', it')" and "parse_inv p d css it cur"
    and "length (md_fields d) \<le> 65532"
  shows "\<exists>j. parse_inv p d' css it' (j # cur)" "md_oneofs d' = md_oneofs d" "length (md_fields d') = length (md_fields d)"
proof -
  have wf: "oneofs_wf (md_platform d) (md_fields d) (md_oneofs d) css it cur" and fc: "fields_counted d"
    using assms(2) by (auto simp: parse_inv_def)
  obtain j fs where j: "oneofs_wf (md_platform d) (md_fields d') (md_oneofs d') css it' (j # cur)"
    and d': "d' = d\<lparr>md_fields := fs\<rparr>" "length fs = length (md_fields d)"
    using DecodeOneofField_wf [OF assms(1) wf fc assms(3)] by blast
  then have "parse_inv p d' css it' (j # cur)"
    using assms(2) by (simp add: parse_inv_def fields_counted_def oneofs_counted_def)
  then show "\<exists>j. parse_inv p d' css it' (j # cur)" by blast
  show "md_oneofs d' = md_oneofs d" "length (md_fields d') = length (md_fields d)"
    using d' by simp_all
qed

lemma decode_oneofs_loop_inv:
  "decode_oneofs_loop alloc d ptr it = Inr (d', it') \<Longrightarrow> parse_inv p d css it cur \<Longrightarrow> length (md_fields d) \<le> 65532 \<Longrightarrow>
   \<exists>css' cur'. parse_inv p d' css' it' cur' \<and> length (md_fields d') = length (md_fields d) \<and>
     length (md_oneofs d') \<le> length (md_oneofs d) + length ptr"
proof (induction alloc d ptr it arbitrary: css cur rule: decode_oneofs_loop.induct)
  case (1 alloc d it)
  then show ?case by auto
next
  case (2 alloc d ch ptr it)
  consider "ch = kUpb_EncodedValue_FieldSeparator" "decode_oneofs_loop alloc d ptr it = Inr (d', it')"
    | d1 where "ch \<noteq> kUpb_EncodedValue_FieldSeparator" "ch = kUpb_EncodedValue_OneofSeparator"
        "upb_MtDecoder_PushOneof alloc d it = Inr d1"
        "decode_oneofs_loop alloc d1 ptr (kUpb_OneOfLayoutItem_IndexSentinel, snd it) = Inr (d', it')"
    | d1 ptr1 it1 where "ch \<noteq> kUpb_EncodedValue_FieldSeparator" "ch \<noteq> kUpb_EncodedValue_OneofSeparator"
        "upb_MtDecoder_DecodeOneofField d ptr ch it = Inr (d1, ptr1, it1)"
        "decode_oneofs_loop alloc d1 ptr1 it1 = Inr (d', it')"
    using "2.prems"(1) by (auto simp: bindE_Inr_conv split: if_splits prod.splits)
  then show ?case
  proof cases
    case 1
    from "2.IH"(1) [OF 1 "2.prems"(2,3)] show ?thesis by fastforce
  next
    case 2
    note push = PushOneof_inv [OF 2(3) "2.prems"(2)]
    from "2.IH"(2) [OF 2(1,2,3,4) push(1)] push(2,3) "2.prems"(3) show ?thesis by fastforce
  next
    case 3
    note field = DecodeOneofField_inv [OF 3(3) "2.prems"(2,3)]
    obtain j where "parse_inv p d1 css it1 (j # cur)" using field(1) by blast
    from "2.IH"(3) [OF 3(1,2,3) refl refl 3(4) this] field(2,3) "2.prems"(3) DecodeOneofField_length [OF 3(3)]
    show ?thesis by fastforce
  qed
qed

text \<open>After the parse: no oneof is being read.\<close>

definition parsed :: "mini_platform \<Rightarrow> upb_MtDecoder \<Rightarrow> nat list list \<Rightarrow> bool" where
  "parsed p d css \<longleftrightarrow> parse_inv p d css (kUpb_OneOfLayoutItem_IndexSentinel, kUpb_FieldRep_1Byte) []"

lemma DecodeOneofs_parsed:
  assumes dec: "upb_MtDecoder_DecodeOneofs alloc d ptr = Inr d'" and inv: "parsed p d css" and small: "length (md_fields d) \<le> 65532"
  shows "\<exists>css'. parsed p d' css' \<and> length (md_fields d') = length (md_fields d) \<and>
    length (md_oneofs d') \<le> Suc (length (md_oneofs d) + length ptr)"
proof -
  obtain d1 it1 where loop: "decode_oneofs_loop alloc d ptr (kUpb_OneOfLayoutItem_IndexSentinel, kUpb_FieldRep_1Byte) = Inr (d1, it1)"
    and push: "upb_MtDecoder_PushOneof alloc d1 it1 = Inr d'"
    using dec by (auto simp: upb_MtDecoder_DecodeOneofs_def bindE_Inr_conv)
  obtain css' cur' where "parse_inv p d1 css' it1 cur'" "length (md_fields d1) = length (md_fields d)"
    "length (md_oneofs d1) \<le> length (md_oneofs d) + length ptr"
    using decode_oneofs_loop_inv [OF loop inv [unfolded parsed_def] small] by blast
  with PushOneof_inv [OF push] show ?thesis
    unfolding parsed_def by fastforce
qed

lemma parsed_Nil:
  "parsed p d [] \<longleftrightarrow> md_platform d = p \<and> md_oneofs d = [] \<and> (\<forall>r. md_rep_counts_offsets d r = 0) \<and> fields_counted d \<and>
     (\<forall>f\<in>set (md_fields d). mtf_offset f < kOneofBase)"
  by (auto simp: parsed_def parse_inv_def oneofs_wf_def oneofs_counted_def all_set_conv_all_nth not_le)

lemma SetField_offset:
  assumes "upb_MiniTable_SetField d ch f m = Inr (d', f')"
  shows "\<exists>a b. d' = d\<lparr>md_submsg_count := a, md_subenum_count := b\<rparr>" "mtf_offset f' < kOneofBase"
  using assms
  by (cases d; auto simp: upb_MiniTable_SetField_def upb_MiniTable_SetTypeAndSub_def bindE_Inr_conv Let_def
      word_less_nat_alt split: if_splits prod.splits)+

lemma ModifyField_offset:
  "upb_MtDecoder_ModifyField m f = Inr f' \<Longrightarrow> mtf_offset f < kOneofBase \<Longrightarrow> mtf_offset f' < kOneofBase"
  by (auto simp: upb_MtDecoder_ModifyField_def bindE_Inr_conv Let_def word_less_nat_alt split: if_splits)

lemma ParseModifier_parsed:
  assumes mod: "upb_MtDecoder_ParseModifier d ptr ch m = Inr (d', ptr', m')" and inv: "parsed p d []"
  shows "parsed p d' []" "md_is_extension d' = md_is_extension d" "length (md_fields d') = length (md_fields d)"
proof -
  obtain fs where d': "d' = d\<lparr>md_fields := fs\<rparr>" "length fs = length (md_fields d)"
    and fs: "\<forall>f\<in>set fs. mtf_offset f < kOneofBase"
  proof (cases "md_fields d = []")
    case True
    with mod show ?thesis
      by (intro that [of "[]"]) (cases d; auto simp: upb_MtDecoder_ParseModifier_def split: option.splits if_splits)+
  next
    case False
    then obtain md f where f: "upb_MtDecoder_ModifyField md (last (md_fields d)) = Inr f"
      "d' = d\<lparr>md_fields := update_last (\<lambda>_. f) (md_fields d)\<rparr>"
      using mod by (auto simp: upb_MtDecoder_ParseModifier_def bindE_Inr_conv split: option.splits)
    with False inv show ?thesis
      using ModifyField_offset [OF f(1)]
      by (intro that [of "update_last (\<lambda>_. f) (md_fields d)"]) (auto simp: parsed_Nil update_last_def dest: in_set_butlastD)
  qed
  then show "parsed p d' []" using inv by (simp add: parsed_Nil fields_counted_def)
  show "md_is_extension d' = md_is_extension d" "length (md_fields d') = length (md_fields d)"
    using d' by simp_all
qed

lemma unat_ucast_byte_le: "unat (ucast (w :: u16) :: byte) \<le> unat w"
  by (simp add: unsigned_ucast_eq)

lemma set_dense_below_parsed: "parsed p d css \<Longrightarrow> parsed p (set_dense_below d) css"
  using unat_ucast_byte_le [of "md_field_count d"]
  by (auto simp: parsed_def parse_inv_def set_dense_below_def fields_counted_def oneofs_counted_def)

text \<open>A field and a oneof each take a character; the last oneof has the character that starts the oneofs.\<close>

lemma mt_parse_loop_parsed:
  "mt_parse_loop alloc d ptr m l nd = Inr (d', ptr', nd') \<Longrightarrow> parsed p d [] \<Longrightarrow> \<not> md_is_extension d \<Longrightarrow>
   length (md_fields d) + length ptr \<le> 65532 \<Longrightarrow>
   \<exists>css. parsed p d' css \<and> length (md_fields d') + length (md_oneofs d') \<le> length (md_fields d) + length ptr"
proof (induction alloc d ptr m l nd rule: mt_parse_loop.induct)
  case (1 alloc d m l nd)
  then have "parsed p d' []" "length (md_fields d') + length (md_oneofs d') \<le> length (md_fields d)"
    by (auto simp: parsed_Nil)
  then show ?case by (intro exI [of _ "[]"]) simp
next
  case (2 alloc d ch ptr m l nd)
  let ?field = "sint ch \<le> sint kUpb_EncodedValue_MaxField"
  let ?modifier = "sint kUpb_EncodedValue_MinModifier \<le> sint ch \<and> sint ch \<le> sint kUpb_EncodedValue_MaxModifier"
  let ?dc = "d\<lparr>md_field_count := md_field_count d + 1\<rparr>"
  have oneofs: "md_oneofs d = []" using "2.prems"(2) by (simp add: parsed_Nil)
  consider (field) d1 f where ?field "\<not> (md_is_extension d \<and> md_fields d \<noteq> [])"
      "\<not> (l + 1 = 0 \<or> l + 1 > kUpb_MaxFieldNumber \<and> \<not> md_is_extension ?dc)"
      "upb_MiniTable_SetField ?dc ch (new_field (l + 1)) m = Inr (d1, f)"
      "mt_parse_loop alloc (d1\<lparr>md_fields := md_fields d1 @ [f]\<rparr>) ptr m (l + 1) nd = Inr (d', ptr', nd')"
    | (modifier) d1 ptr1 m1 where "\<not> ?field" ?modifier "upb_MtDecoder_ParseModifier d ptr ch m = Inr (d1, ptr1, m1)"
      "mt_parse_loop alloc (if m1 AND 4 \<noteq> 0 then d1\<lparr>md_ext := md_ext d1 OR 1\<rparr> else d1) ptr1 m1 l nd = Inr (d', ptr', nd')"
    | (oneofs) "upb_MtDecoder_DecodeOneofs alloc d ptr = Inr d'"
    | (skip) ptr1 skip where "\<not> ?field" "\<not> ?modifier" "ch \<noteq> kUpb_EncodedValue_End"
      "sint kUpb_EncodedValue_MinSkip \<le> sint ch \<and> sint ch \<le> sint kUpb_EncodedValue_MaxSkip"
      "upb_Base92_DecodeVarint ptr ch kUpb_EncodedValue_MinSkip kUpb_EncodedValue_MaxSkip = Some (ptr1, skip)"
      "mt_parse_loop alloc (if nd then set_dense_below d else d) ptr1 m (l + skip - 1) False = Inr (d', ptr', nd')"
    using "2.prems"(1,3)
    by (auto simp: Let_def bindE_Inr_conv simp del: not_less not_le split: if_splits option.splits prod.splits)
  then show ?case
  proof cases
    case field
    from SetField_offset [OF field(4)] obtain a b where
      d1: "d1 = ?dc\<lparr>md_submsg_count := a, md_subenum_count := b\<rparr>" and off: "mtf_offset f < kOneofBase" by blast
    have "unat (md_field_count d + 1) = Suc (length (md_fields d))"
      using "2.prems"(2,4) by (simp add: parsed_Nil fields_counted_def unat_word_ariths)
    then have "parsed p (d1\<lparr>md_fields := md_fields d1 @ [f]\<rparr>) []"
      using "2.prems"(2) off by (auto simp: d1 parsed_Nil fields_counted_def)
    from "2.IH"(1) [OF field(1,2) refl refl field(3,4) refl field(5) this] "2.prems"(3,4) show ?thesis
      by (simp add: d1)
  next
    case modifier
    note pm = ParseModifier_parsed [OF modifier(3) "2.prems"(2)]
    let ?d = "if m1 AND 4 \<noteq> 0 then d1\<lparr>md_ext := md_ext d1 OR 1\<rparr> else d1"
    have "parsed p ?d []" "\<not> md_is_extension ?d" "length (md_fields ?d) = length (md_fields d)"
      using pm "2.prems"(3) by (auto simp: parsed_Nil fields_counted_def)
    with "2.IH"(2) [OF modifier(1,2,3) refl refl refl modifier(4)] "2.prems"(4) ParseModifier_length [OF modifier(3)]
    show ?thesis by fastforce
  next
    case oneofs
    from DecodeOneofs_parsed [OF this "2.prems"(2)] "2.prems"(4) show ?thesis
      using \<open>md_oneofs d = []\<close> by fastforce
  next
    case skip
    let ?d = "if nd then set_dense_below d else d"
    have "parsed p ?d []" "\<not> md_is_extension ?d" "length (md_fields ?d) = length (md_fields d)"
      using set_dense_below_parsed [OF "2.prems"(2)] "2.prems"(2,3) by (auto simp: set_dense_below_def)
    with "2.IH"(3) [OF skip(1,2,3,4) refl skip(5) refl skip(6)] "2.prems"(4) DecodeVarint_length [OF skip(5)]
    show ?thesis by fastforce
  qed
qed

text \<open>The lists depend only on the offsets and the representations.\<close>

definition same_layout :: "upb_MiniTableField list \<Rightarrow> upb_MiniTableField list \<Rightarrow> bool" where
  "same_layout flds flds' \<longleftrightarrow>
     list_all2 (\<lambda>f f'. mtf_offset f' = mtf_offset f \<and> upb_MiniTableField_GetRep f' = upb_MiniTableField_GetRep f) flds flds'"

lemma same_layout_nth:
  assumes "same_layout flds flds'"
  shows "length flds' = length flds"
    "i < length flds \<Longrightarrow> mtf_offset (flds' ! i) = mtf_offset (flds ! i)"
    "i < length flds \<Longrightarrow> upb_MiniTableField_GetRep (flds' ! i) = upb_MiniTableField_GetRep (flds ! i)"
  using assms by (auto simp: same_layout_def list_all2_conv_all_nth)

lemma oneof_chain_same: "same_layout flds flds' \<Longrightarrow> oneof_chain flds x js \<Longrightarrow> oneof_chain flds' x js"
  using oneof_chain_cong [of flds' flds js x] oneof_chain_bound [of flds x js]
  by (simp add: same_layout_nth)

lemma oneof_item_same: "same_layout flds flds' \<Longrightarrow> oneof_item_wf p flds it js \<Longrightarrow> oneof_item_wf p flds' it js"
  by (auto simp: oneof_item_wf_def same_layout_nth oneof_chain_same dest: oneof_chain_bound)

lemma parsed_same:
  assumes "parsed p d css" and "same_layout (md_fields d) flds'"
  shows "parsed p (d\<lparr>md_fields := flds'\<rparr>) css"
  using assms
  by (auto simp: parsed_def parse_inv_def oneofs_wf_def oneofs_counted_def fields_counted_def same_layout_nth
      elim!: list_all2_mono oneof_item_same)

lemma AllocateSubs_parsed:
  assumes alloc: "upb_MtDecoder_AllocateSubs alloc d = Inr (d', subs)" and inv: "parsed p d css"
  shows "parsed p d' css" "md_oneofs d' = md_oneofs d" "length (md_fields d') = length (md_fields d)"
proof -
  have d': "d' = d\<lparr>md_fields := md_fields d'\<rparr>"
    using alloc by (cases d) (auto simp: upb_MtDecoder_AllocateSubs_def Let_def split: if_splits)
  have same: "same_layout (md_fields d) (md_fields d')"
    using alloc
    by (auto simp: upb_MtDecoder_AllocateSubs_def Let_def same_layout_def list_all2_conv_all_nth nth_append
        split: if_splits)
  show "parsed p d' css" using parsed_same [OF inv same] d' by simp
  show "length (md_fields d') = length (md_fields d)" using same by (rule same_layout_nth)
  have "md_oneofs (d\<lparr>md_fields := md_fields d'\<rparr>) = md_oneofs d" by simp
  then show "md_oneofs d' = md_oneofs d" by (simp only: d' [symmetric])
qed

lemma ParseMessage_parsed:
  assumes parse: "upb_MtDecoder_ParseMessage alloc d data = Inr (d', subs)"
    and fresh: "md_platform d = p" "md_oneofs d = []" "md_rep_counts_offsets d = (\<lambda>_. 0)" "\<not> md_is_extension d" "md_dense_below d = 0"
    and small: "length data \<le> 65532"
  shows "\<exists>css. parsed p d' css \<and> length (md_fields d') + length (md_oneofs d') \<le> length data"
proof -
  let ?d = "d\<lparr>md_fields := [], md_field_count := 0, md_submsg_count := 0, md_subenum_count := 0\<rparr>"
  obtain d1 ptr1 nd1 where loop: "mt_parse_loop alloc ?d data 0 0 True = Inr (d1, ptr1, nd1)"
    and subs: "upb_MtDecoder_AllocateSubs alloc (if nd1 then set_dense_below d1 else d1) = Inr (d', subs)"
    using parse fresh(4)
    by (auto simp: upb_MtDecoder_ParseMessage_def upb_MtDecoder_Parse_def bindE_Inr_conv Let_def split: if_splits)
  have "parsed p ?d []" using fresh by (simp add: parsed_Nil fields_counted_def)
  from mt_parse_loop_parsed [OF loop this] fresh(4) small obtain css where
    css: "parsed p d1 css" "length (md_fields d1) + length (md_oneofs d1) \<le> length data" by auto
  let ?d1 = "if nd1 then set_dense_below d1 else d1"
  have "parsed p ?d1 css" using css(1) set_dense_below_parsed by auto
  from AllocateSubs_parsed [OF subs this] css(2) show ?thesis
    by (intro exI [of _ css]) (auto simp: set_dense_below_def split: if_splits)
qed

section \<open>Assertions\<close>

text \<open>The assertions of the parse never fail.\<close>

lemma PushOneof_asserts: "upb_MtDecoder_PushOneof alloc d it \<noteq> Inl MtAssertFailed"
  by (auto simp: upb_MtDecoder_PushOneof_def bindE_Inl_conv Let_def split: if_splits)

lemma DecodeOneofField_asserts: "upb_MtDecoder_DecodeOneofField d ptr ch it \<noteq> Inl MtAssertFailed"
  using rep_align_order [of "md_platform d" _ "snd it"]
  by (auto simp: upb_MtDecoder_DecodeOneofField_def Let_def larger_rep_def split: option.splits if_splits prod.splits)

lemma decode_oneofs_loop_asserts: "decode_oneofs_loop alloc d ptr it \<noteq> Inl MtAssertFailed"
  by (induction alloc d ptr it rule: decode_oneofs_loop.induct)
    (auto simp: bindE_Inl_conv PushOneof_asserts DecodeOneofField_asserts split: if_splits)

lemma DecodeOneofs_asserts: "upb_MtDecoder_DecodeOneofs alloc d ptr \<noteq> Inl MtAssertFailed"
  by (auto simp: upb_MtDecoder_DecodeOneofs_def bindE_Inl_conv PushOneof_asserts decode_oneofs_loop_asserts)

lemma EncodedToType_Enum: "kUpb_EncodedToType ! 12 = kUpb_FieldType_Enum"
  by (simp add: kUpb_EncodedToType_def)

lemma SetField_asserts: "upb_MiniTable_SetField d ch f m \<noteq> Inl MtAssertFailed"
  by (auto simp: upb_MiniTable_SetField_def upb_MiniTable_SetTypeAndSub_def bindE_Inl_conv Let_def EncodedToType_Enum
      split: if_splits prod.splits)

lemma ParseModifier_asserts: "upb_MtDecoder_ParseModifier d ptr ch m \<noteq> Inl MtAssertFailed"
  by (auto simp: upb_MtDecoder_ParseModifier_def upb_MtDecoder_ModifyField_def bindE_Inl_conv Let_def
      split: option.splits if_splits)

lemma mt_parse_loop_asserts: "mt_parse_loop alloc d ptr m l nd \<noteq> Inl MtAssertFailed"
proof (induction alloc d ptr m l nd rule: mt_parse_loop.induct)
  case (1 alloc d m l nd)
  then show ?case by simp
next
  case (2 alloc d ch ptr m l nd)
  then show ?case
    by (auto simp: bindE_Inl_conv Let_def SetField_asserts ParseModifier_asserts DecodeOneofs_asserts
        simp del: not_less not_le split: if_splits option.splits)
qed

lemma ParseMessage_asserts: "upb_MtDecoder_ParseMessage alloc d data \<noteq> Inl MtAssertFailed"
  by (auto simp: upb_MtDecoder_ParseMessage_def upb_MtDecoder_Parse_def upb_MtDecoder_AllocateSubs_def
      bindE_Inl_conv Let_def mt_parse_loop_asserts split: if_splits)

end
