(* ===== verification/Mini_Layout.thy ===== *)
theory Mini_Layout
  imports Mini_Parse
begin

text \<open>
  The layout of a message type: every call of \<open>Place\<close> is a request for storage of a representation, and the
  bytes granted to the requests are aligned, disjoint and inside the message. From this the theory shows what
  the builder promises about a table: presence bits, oneof cases and values do not overlap.
\<close>

section \<open>Regions and requests\<close>

lemma upb_align_up_bounds:
  assumes "0 < a"
  shows "a dvd upb_align_up n a" "n \<le> upb_align_up n a" "upb_align_up n a < n + a"
proof -
  show "a dvd upb_align_up n a" by (simp add: upb_align_up_def)
  have eq: "(n + a - 1) div a * a + (n + a - 1) mod a = n + a - 1" by (rule div_mult_mod_eq)
  have less: "(n + a - 1) mod a < a" using assms by simp
  show "n \<le> upb_align_up n a" "upb_align_up n a < n + a"
    using eq less assms unfolding upb_align_up_def by linarith+
qed

lemma AlignOfRep_pos [simp]: "0 < upb_MtDecoder_AlignOfRep r p"
  by (cases p; cases r) (simp_all add: rep_size_defs)

lemma SizeOfRep_pos [simp]: "0 < upb_MtDecoder_SizeOfRep r p"
  by (cases p; cases r) (simp_all add: rep_size_defs)

lemma AlignOfRep_dvd_SizeOfRep [simp]: "upb_MtDecoder_AlignOfRep r p dvd upb_MtDecoder_SizeOfRep r p"
  by (cases p; cases r) (simp_all add: rep_size_defs)

text \<open>A start for each representation, such that the regions with the given numbers of slots lie between two bounds.\<close>

definition regions_ok :: "mini_platform \<Rightarrow> upb_FieldRep set \<Rightarrow> (upb_FieldRep \<Rightarrow> nat) \<Rightarrow> (upb_FieldRep \<Rightarrow> nat) \<Rightarrow> nat \<Rightarrow> nat \<Rightarrow> bool" where
  "regions_ok p R b c lo hi \<longleftrightarrow>
     lo + (\<Sum>r\<in>R. c r) \<le> hi \<and>
     (\<forall>r\<in>R. c r \<noteq> 0 \<longrightarrow>
        upb_MtDecoder_AlignOfRep r p dvd b r \<and> lo \<le> b r \<and> b r + upb_MtDecoder_SizeOfRep r p * c r \<le> hi) \<and>
     (\<forall>r\<in>R. \<forall>s\<in>R. c r \<noteq> 0 \<longrightarrow> c s \<noteq> 0 \<longrightarrow> r \<noteq> s \<longrightarrow>
        b r + upb_MtDecoder_SizeOfRep r p * c r \<le> b s \<or> b s + upb_MtDecoder_SizeOfRep s p * c s \<le> b r)"

lemma regions_ok_cong:
  assumes "\<And>r. r \<in> R \<Longrightarrow> c r = c' r"
  shows "regions_ok p R b c lo hi \<longleftrightarrow> regions_ok p R b c' lo hi"
  using assms unfolding regions_ok_def by (simp cong: ball_cong)

lemma regions_ok_insert:
  assumes ok: "regions_ok p R b c mid hi" and a: "a \<notin> R" "finite R"
    and start: "upb_MtDecoder_AlignOfRep a p dvd x" "lo \<le> x" "x + upb_MtDecoder_SizeOfRep a p * c a \<le> mid"
  shows "regions_ok p (insert a R) (b(a := x)) c lo hi"
  unfolding regions_ok_def
proof (intro conjI ballI impI)
  have "1 * c a \<le> upb_MtDecoder_SizeOfRep a p * c a"
    using SizeOfRep_pos [of a p] by (intro mult_le_mono1) linarith
  moreover have "mid + (\<Sum>r\<in>R. c r) \<le> hi" using ok unfolding regions_ok_def by blast
  ultimately show "lo + (\<Sum>r\<in>insert a R. c r) \<le> hi"
    using start(2,3) sum.insert [OF a(2,1), of c] by linarith
  fix r assume r: "r \<in> insert a R" "c r \<noteq> 0"
  have in_R: "upb_MtDecoder_AlignOfRep s p dvd b s \<and> mid \<le> b s \<and> b s + upb_MtDecoder_SizeOfRep s p * c s \<le> hi"
    if "s \<in> R" "c s \<noteq> 0" for s using ok that unfolding regions_ok_def by blast
  have hi: "mid \<le> hi" using ok unfolding regions_ok_def by simp
  show "upb_MtDecoder_AlignOfRep r p dvd (b(a := x)) r" "lo \<le> (b(a := x)) r"
    "(b(a := x)) r + upb_MtDecoder_SizeOfRep r p * c r \<le> hi"
    using r in_R [of r] start hi a by (cases "r = a"; simp)+
  fix s assume s: "s \<in> insert a R" "c s \<noteq> 0" "r \<noteq> s"
  show "(b(a := x)) r + upb_MtDecoder_SizeOfRep r p * c r \<le> (b(a := x)) s \<or>
    (b(a := x)) s + upb_MtDecoder_SizeOfRep s p * c s \<le> (b(a := x)) r"
  proof (cases "r = a \<or> s = a")
    case True
    with r s in_R [of r] in_R [of s] start show ?thesis by auto
  next
    case False
    with ok r s show ?thesis unfolding regions_ok_def by auto
  qed
qed

lemma reserve_rep_step:
  "reserve_rep p (r, lo) a =
     (if r a = 0 then (r, lo)
      else (r(a := of_nat (upb_align_up lo (upb_MtDecoder_AlignOfRep a p))),
        upb_align_up lo (upb_MtDecoder_AlignOfRep a p) + upb_MtDecoder_SizeOfRep a p * unat (r a)))"
  by (simp add: reserve_rep_def Let_def)

lemma reserve_rep_regions:
  "foldl (reserve_rep p) (r, lo) reps = (r', hi) \<Longrightarrow> distinct reps \<Longrightarrow>
   \<exists>b. regions_ok p (set reps) b (\<lambda>q. unat (r q)) lo hi \<and> (\<forall>q\<in>set reps. r q \<noteq> 0 \<longrightarrow> r' q = of_nat (b q)) \<and>
     (\<forall>q. q \<notin> set reps \<longrightarrow> r' q = r q)"
proof (induction reps arbitrary: r lo)
  case Nil
  then show ?case by (auto simp: regions_ok_def)
next
  case (Cons a reps)
  let ?x = "upb_align_up lo (upb_MtDecoder_AlignOfRep a p)"
  let ?r = "if r a = 0 then r else r(a := of_nat ?x)"
  let ?lo = "if r a = 0 then lo else ?x + upb_MtDecoder_SizeOfRep a p * unat (r a)"
  have "foldl (reserve_rep p) (?r, ?lo) reps = (r', hi)"
    using Cons.prems(1) by (simp add: reserve_rep_step split: if_splits)
  from Cons.IH [OF this] Cons.prems(2) obtain b where
    b: "regions_ok p (set reps) b (\<lambda>q. unat (?r q)) ?lo hi" "\<forall>q\<in>set reps. ?r q \<noteq> 0 \<longrightarrow> r' q = of_nat (b q)"
      "\<forall>q. q \<notin> set reps \<longrightarrow> r' q = ?r q" by auto
  have same: "regions_ok p (set reps) b (\<lambda>q. unat (r q)) ?lo hi"
    using b(1) by (rule regions_ok_cong [THEN iffD1, rotated]) (use Cons.prems(2) in auto)
  show ?case
  proof (cases "r a = 0")
    case True
    have "regions_ok p (insert a (set reps)) b (\<lambda>q. unat (r q)) lo hi"
      using same True Cons.prems(2) by (auto simp: regions_ok_def)
    with b True show ?thesis by (intro exI [of _ b]) auto
  next
    case False
    have ok: "regions_ok p (set (a # reps)) (b(a := ?x)) (\<lambda>q. unat (r q)) lo hi"
      unfolding list.set using same False Cons.prems(2) upb_align_up_bounds [OF AlignOfRep_pos [of a p], of lo]
      by (intro regions_ok_insert) auto
    have "\<forall>q\<in>set (a # reps). r q \<noteq> 0 \<longrightarrow> r' q = of_nat ((b(a := ?x)) q)" "\<forall>q. q \<notin> set (a # reps) \<longrightarrow> r' q = r q"
      using b False Cons.prems(2) by auto
    with ok show ?thesis by blast
  qed
qed

text \<open>The position of a request: its index among the requests of its representation.\<close>

definition slot_pos :: "mini_platform \<Rightarrow> (upb_FieldRep \<Rightarrow> nat) \<Rightarrow> upb_FieldRep list \<Rightarrow> nat \<Rightarrow> nat" where
  "slot_pos p b reqs k = b (reqs ! k) + upb_MtDecoder_SizeOfRep (reqs ! k) p * count_list (take k reqs) (reqs ! k)"

abbreviation slot_end :: "mini_platform \<Rightarrow> (upb_FieldRep \<Rightarrow> nat) \<Rightarrow> upb_FieldRep list \<Rightarrow> nat \<Rightarrow> nat" where
  "slot_end p b reqs k \<equiv> slot_pos p b reqs k + upb_MtDecoder_SizeOfRep (reqs ! k) p"

lemma count_list_take_Suc:
  "k < length xs \<Longrightarrow> count_list (take (Suc k) xs) x = count_list (take k xs) x + (if xs ! k = x then 1 else 0)"
  by (simp add: take_Suc_conv_app_nth)

lemma count_list_take_mono: "k \<le> l \<Longrightarrow> count_list (take k xs) x \<le> count_list (take l xs) x"
  by (metis count_list_append le_add1 take_add le_Suc_ex)

lemma count_list_take_less: "k < l \<Longrightarrow> l \<le> length xs \<Longrightarrow> count_list (take k xs) (xs ! k) < count_list (take l xs) (xs ! k)"
  using count_list_take_mono [of "Suc k" l xs "xs ! k"] count_list_take_Suc [of k xs "xs ! k"] by simp

lemma slot_bounds:
  assumes ok: "regions_ok p UNIV b (count_list reqs) lo hi" and k: "k < length reqs"
  shows "upb_MtDecoder_AlignOfRep (reqs ! k) p dvd slot_pos p b reqs k" "lo \<le> slot_pos p b reqs k"
    "slot_end p b reqs k \<le> b (reqs ! k) + upb_MtDecoder_SizeOfRep (reqs ! k) p * count_list reqs (reqs ! k)"
    "slot_end p b reqs k \<le> hi"
proof -
  have less: "Suc (count_list (take k reqs) (reqs ! k)) \<le> count_list reqs (reqs ! k)"
    using count_list_take_less [of k "length reqs" reqs] k by simp
  then have reg: "upb_MtDecoder_AlignOfRep (reqs ! k) p dvd b (reqs ! k)" "lo \<le> b (reqs ! k)"
    "b (reqs ! k) + upb_MtDecoder_SizeOfRep (reqs ! k) p * count_list reqs (reqs ! k) \<le> hi"
    using ok unfolding regions_ok_def by auto
  then show "upb_MtDecoder_AlignOfRep (reqs ! k) p dvd slot_pos p b reqs k" "lo \<le> slot_pos p b reqs k"
    by (auto simp: slot_pos_def intro: dvd_add dvd_mult2)
  show le: "slot_end p b reqs k \<le> b (reqs ! k) + upb_MtDecoder_SizeOfRep (reqs ! k) p * count_list reqs (reqs ! k)"
    using mult_le_mono2 [OF less, of "upb_MtDecoder_SizeOfRep (reqs ! k) p"] by (simp add: slot_pos_def)
  with reg show "slot_end p b reqs k \<le> hi" by linarith
qed

lemma slots_apart:
  assumes ok: "regions_ok p UNIV b (count_list reqs) lo hi" and kl: "k < length reqs" "l < length reqs" "k \<noteq> l"
  shows "slot_end p b reqs k \<le> slot_pos p b reqs l \<or> slot_end p b reqs l \<le> slot_pos p b reqs k"
proof (cases "reqs ! k = reqs ! l")
  case True
  let ?c = "\<lambda>k. count_list (take k reqs) (reqs ! l)"
  have "Suc (?c k) \<le> ?c l \<or> Suc (?c l) \<le> ?c k"
    using count_list_take_less [of k l reqs] count_list_take_less [of l k reqs] kl True
    by (cases k l rule: linorder_cases) auto
  then show ?thesis
    using mult_le_mono2 [of "Suc (?c k)" "?c l" "upb_MtDecoder_SizeOfRep (reqs ! l) p"]
      mult_le_mono2 [of "Suc (?c l)" "?c k" "upb_MtDecoder_SizeOfRep (reqs ! l) p"] True
    by (auto simp: slot_pos_def)
next
  case False
  let ?e = "\<lambda>r. b r + upb_MtDecoder_SizeOfRep r p * count_list reqs r"
  have "count_list reqs (reqs ! k) \<noteq> 0" "count_list reqs (reqs ! l) \<noteq> 0"
    using kl by (simp_all add: count_list_0_iff)
  with ok False have "?e (reqs ! k) \<le> b (reqs ! l) \<or> ?e (reqs ! l) \<le> b (reqs ! k)"
    unfolding regions_ok_def by blast
  moreover have "b (reqs ! k) \<le> slot_pos p b reqs k" "b (reqs ! l) \<le> slot_pos p b reqs l"
    by (simp_all add: slot_pos_def)
  ultimately show ?thesis
    using slot_bounds(3) [OF ok kl(1)] slot_bounds(3) [OF ok kl(2)] by linarith
qed

section \<open>Placing the requests\<close>

text \<open>The offsets after a list of requests, at their width.\<close>

definition advance :: "mini_platform \<Rightarrow> (upb_FieldRep \<Rightarrow> u16) \<Rightarrow> upb_FieldRep list \<Rightarrow> upb_FieldRep \<Rightarrow> u16" where
  "advance p r reqs = (\<lambda>q. r q + of_nat (upb_MtDecoder_SizeOfRep q p * count_list reqs q))"

lemma advance_Nil [simp]: "advance p r [] = r"
  by (simp add: advance_def)

lemma advance_advance [simp]: "advance p (advance p r xs) ys = advance p r (xs @ ys)"
  by (rule ext) (simp add: advance_def distrib_left)

lemma Place_advance: "upb_MtDecoder_Place p r q = (r q, advance p r [q])"
  by (auto simp: upb_MtDecoder_Place_def advance_def Let_def)

abbreviation in_oneof :: "upb_MiniTableField \<Rightarrow> bool" where
  "in_oneof f \<equiv> mtf_offset f \<ge> kOneofBase"

definition field_requests :: "upb_MiniTableField list \<Rightarrow> upb_FieldRep list" where
  "field_requests flds = map upb_MiniTableField_GetRep (filter (\<lambda>f. \<not> in_oneof f) flds)"

lemma field_requests_simps [simp]:
  "field_requests [] = []"
  "field_requests (f # flds) = (if in_oneof f then field_requests flds else upb_MiniTableField_GetRep f # field_requests flds)"
  by (simp_all add: field_requests_def)

lemma assign_field_offsets_spec:
  "assign_field_offsets p r flds = (flds', r') \<Longrightarrow>
     length flds' = length flds \<and> r' = advance p r (field_requests flds) \<and>
     (\<forall>i<length flds. flds' ! i =
        (if in_oneof (flds ! i) then flds ! i
         else (flds ! i)\<lparr>mtf_offset := advance p r (field_requests (take i flds)) (upb_MiniTableField_GetRep (flds ! i))\<rparr>))"
proof (induction flds arbitrary: r flds')
  case Nil
  then show ?case by simp
next
  case (Cons f flds)
  let ?r = "if in_oneof f then r else advance p r [upb_MiniTableField_GetRep f]"
  obtain rest where rest: "assign_field_offsets p ?r flds = (rest, r')"
    "flds' = (if in_oneof f then f else f\<lparr>mtf_offset := r (upb_MiniTableField_GetRep f)\<rparr>) # rest"
    using Cons.prems by (auto simp: Let_def Place_advance split: if_splits prod.splits)
  show ?case
  proof (intro conjI allI impI)
    show "length flds' = length (f # flds)" "r' = advance p r (field_requests (f # flds))"
      using Cons.IH [OF rest(1)] rest(2) by auto
    fix i assume "i < length (f # flds)"
    then show "flds' ! i = (if in_oneof ((f # flds) ! i) then (f # flds) ! i
      else ((f # flds) ! i)\<lparr>mtf_offset := advance p r (field_requests (take i (f # flds))) (upb_MiniTableField_GetRep ((f # flds) ! i))\<rparr>)"
      using Cons.IH [OF rest(1)] rest(2) by (cases i) auto
  qed
qed

lemma assign_oneof_chain_spec:
  "oneof_chain flds (of_nat i + kOneofBase) (i # js) \<Longrightarrow> distinct (i # js) \<Longrightarrow> length (i # js) \<le> fuel \<Longrightarrow> n = length flds \<Longrightarrow>
   \<exists>flds'. assign_oneof_chain fuel n c x i flds = Inr flds' \<and> length flds' = length flds \<and>
     (\<forall>j<length flds. flds' ! j =
        (if j \<in> set (i # js) then (flds ! j)\<lparr>mtf_presence := sint (NOT c), mtf_offset := x\<rparr> else flds ! j))"
proof (induction fuel arbitrary: flds i js)
  case 0
  then show ?case by simp
next
  case (Suc fuel)
  let ?flds = "flds[i := (flds ! i)\<lparr>mtf_presence := sint (NOT c), mtf_offset := x\<rparr>]"
  have i: "i < length flds" "i + 3 < 65535" and tl: "oneof_chain flds (mtf_offset (flds ! i)) js"
    using Suc.prems(1) by simp_all
  show ?case
  proof (cases js)
    case Nil
    with tl i show ?thesis by (auto simp: Let_def nth_list_update)
  next
    case (Cons j ks)
    then have j: "mtf_offset (flds ! i) = of_nat j + kOneofBase" "j < length flds" "j + 3 < 65535" using tl by auto
    have next_j: "mtf_offset (flds ! i) \<noteq> kUpb_OneOfLayoutItem_IndexSentinel" "uint (mtf_offset (flds ! i)) = int j + 3"
      "unat (mtf_offset (flds ! i) - kOneofBase) = j"
      using j oneof_link_not_sentinel [OF j(3)] unat_oneof_link [OF j(3)]
      by (auto simp: uint_nat unat_of_nat)
    have "oneof_chain ?flds (of_nat j + kOneofBase) (j # ks)"
    proof -
      have "mtf_offset (?flds ! l) = mtf_offset (flds ! l)" if "l \<in> set js" for l
        using that Suc.prems(2) by (metis distinct.simps(2) nth_list_update_neq)
      then have "oneof_chain ?flds (of_nat j + kOneofBase) js"
        using tl oneof_chain_cong [of ?flds flds js] by (simp add: j(1))
      then show ?thesis by (simp only: Cons)
    qed
    from Suc.IH [OF this] Suc.prems(2-4) Cons obtain flds' where
      "assign_oneof_chain fuel n c x j ?flds = Inr flds'" "length flds' = length flds"
      "\<forall>l<length flds. flds' ! l = (if l \<in> set js then (?flds ! l)\<lparr>mtf_presence := sint (NOT c), mtf_offset := x\<rparr> else ?flds ! l)"
      by auto
    with next_j j(2) i Suc.prems(2,4) show ?thesis
      by (auto simp: Let_def nth_list_update simp del: unat_sub)
  qed
qed

lemma oneof_item_start:
  assumes "oneof_item_wf p flds it js"
  obtains i ks where "js = i # ks" "unat (fst it) = i" "oneof_chain flds (of_nat i + kOneofBase) (i # ks)"
proof -
  obtain i ks where js: "js = i # ks" using assms by (cases js) (auto simp: oneof_item_wf_def)
  then have i: "fst it = of_nat i" "i + 3 < 65535" using assms by (auto simp: oneof_item_wf_def)
  then have "unat (fst it) = i" by (simp add: unat_of_nat)
  moreover have "oneof_chain flds (of_nat i + kOneofBase) (i # ks)"
    using assms i(1) js by (simp add: oneof_item_wf_def)
  ultimately show ?thesis using js that by blast
qed

lemma oneof_item_cong:
  assumes "length flds' = length flds" and "\<And>j. j \<in> set js \<Longrightarrow> flds' ! j = flds ! j"
  shows "oneof_item_wf p flds' it js = oneof_item_wf p flds it js"
  using oneof_chain_cong [OF assms(1), of js] assms(2) by (auto simp: oneof_item_wf_def)

text \<open>The case and the storage of the \<open>k\<close>-th oneof.\<close>

definition case_at :: "mini_platform \<Rightarrow> (upb_FieldRep \<Rightarrow> u16) \<Rightarrow> (u16 \<times> upb_FieldRep) list \<Rightarrow> nat \<Rightarrow> u16" where
  "case_at p r items k = advance p r (oneof_requests (take k items)) kUpb_OneOf_CaseFieldRep"

definition data_at :: "mini_platform \<Rightarrow> (upb_FieldRep \<Rightarrow> u16) \<Rightarrow> (u16 \<times> upb_FieldRep) list \<Rightarrow> nat \<Rightarrow> u16" where
  "data_at p r items k = advance p r (oneof_requests (take k items) @ [kUpb_OneOf_CaseFieldRep]) (snd (items ! k))"

definition placed :: "mini_platform \<Rightarrow> (upb_FieldRep \<Rightarrow> u16) \<Rightarrow> (u16 \<times> upb_FieldRep) list \<Rightarrow> nat \<Rightarrow> upb_MiniTableField \<Rightarrow> upb_MiniTableField" where
  "placed p r items k f = f\<lparr>mtf_presence := sint (NOT (case_at p r items k)), mtf_offset := data_at p r items k\<rparr>"

lemma placed_Suc: "placed p r (it # items) (Suc k) = placed p (advance p r [kUpb_OneOf_CaseFieldRep, snd it]) items k"
  by (rule ext) (simp add: placed_def case_at_def data_at_def)

lemma placed_0:
  "placed p r (it # items) 0 f =
     f\<lparr>mtf_presence := sint (NOT (r kUpb_OneOf_CaseFieldRep)), mtf_offset := advance p r [kUpb_OneOf_CaseFieldRep] (snd it)\<rparr>"
  by (simp add: placed_def case_at_def data_at_def)

lemma assign_oneofs_spec:
  "list_all2 (oneof_item_wf p flds) items css \<Longrightarrow> distinct (concat css) \<Longrightarrow> n = length flds \<Longrightarrow>
   \<exists>flds' r'. assign_oneofs p n r items flds = Inr (flds', r') \<and> length flds' = length flds \<and>
     (\<forall>k<length items. \<forall>j\<in>set (css ! k). flds' ! j = placed p r items k (flds ! j)) \<and>
     (\<forall>j<length flds. j \<notin> set (concat css) \<longrightarrow> flds' ! j = flds ! j)"
proof (induction items arbitrary: r flds css)
  case Nil
  then show ?case by auto
next
  case (Cons it items)
  then obtain js rest where css: "css = js # rest" and it: "oneof_item_wf p flds it js"
    and rest: "list_all2 (oneof_item_wf p flds) items rest"
    by (auto simp: list_all2_Cons1)
  let ?r = "advance p r [kUpb_OneOf_CaseFieldRep, snd it]"
  obtain i ks where i: "js = i # ks" "unat (fst it) = i" "oneof_chain flds (of_nat i + kOneofBase) (i # ks)"
    using it by (rule oneof_item_start)
  have dist: "distinct js" "distinct (concat rest)" "set js \<inter> set (concat rest) = {}"
    using Cons.prems(2) css by auto
  have bound: "set js \<subseteq> {..<length flds}" using oneof_chain_bound [OF i(3)] i(1) by auto
  have "length js \<le> length flds"
    using card_mono [OF _ bound] distinct_card [OF dist(1)] by simp
  with assign_oneof_chain_spec [OF i(3), of "length flds" n "r kUpb_OneOf_CaseFieldRep" "advance p r [kUpb_OneOf_CaseFieldRep] (snd it)"]
    dist(1) Cons.prems(3) i(1)
  obtain flds1 where flds1: "assign_oneof_chain (length flds) n (r kUpb_OneOf_CaseFieldRep)
      (advance p r [kUpb_OneOf_CaseFieldRep] (snd it)) i flds = Inr flds1" "length flds1 = length flds"
    "\<forall>j<length flds. flds1 ! j = (if j \<in> set js then placed p r (it # items) 0 (flds ! j) else flds ! j)"
    unfolding placed_0 by blast
  have bounds: "j < length flds" if "j \<in> set cs" "cs \<in> set rest" for j cs
    using rest that oneof_chain_bound by (fastforce simp: list_all2_conv_all_nth in_set_conv_nth oneof_item_wf_def)
  have same: "flds1 ! j = flds ! j" if "j \<in> set cs" "cs \<in> set rest" for j cs
    using flds1(3) bounds [OF that] dist(3) that by auto
  have "list_all2 (oneof_item_wf p flds1) items rest"
    using rest oneof_item_cong [OF flds1(2)] same by (auto simp: list_all2_conv_all_nth)
  from Cons.IH [OF this dist(2), of ?r] Cons.prems(3) flds1(2) obtain flds' r' where
    flds': "assign_oneofs p n ?r items flds1 = Inr (flds', r')" "length flds' = length flds"
      "\<forall>k<length items. \<forall>j\<in>set (rest ! k). flds' ! j = placed p ?r items k (flds1 ! j)"
      "\<forall>j<length flds. j \<notin> set (concat rest) \<longrightarrow> flds' ! j = flds1 ! j" by auto
  have run: "assign_oneofs p n r (it # items) flds = Inr (flds', r')"
    using flds1(1) flds'(1) i(2) by (simp add: Place_advance Let_def)
  have "flds' ! j = placed p r (it # items) k (flds ! j)" if "k < length (it # items)" "j \<in> set (css ! k)" for k j
  proof (cases k)
    case 0
    with that css have j: "j \<in> set js" by simp
    then have "j < length flds" "j \<notin> set (concat rest)" using dist(3) bound by blast+
    then show ?thesis using 0 j flds'(4) flds1(3) by simp
  next
    case (Suc l)
    then have l: "l < length items" "j \<in> set (rest ! l)" using that css by auto
    then have "rest ! l \<in> set rest" using rest by (auto simp: list_all2_conv_all_nth)
    with Suc l flds'(3) same show ?thesis by (auto simp: placed_Suc)
  qed
  moreover have "flds' ! j = flds ! j" if "j < length flds" "j \<notin> set (concat css)" for j
    using that css flds'(4) flds1(3) by auto
  ultimately show ?case using run flds'(2) by blast
qed

section \<open>Presence bits\<close>

abbreviation class_count :: "u16 \<Rightarrow> upb_MiniTableField list \<Rightarrow> nat" where
  "class_count c flds \<equiv> length (filter (\<lambda>f. mtf_offset f = c) flds)"

lemma assign_required_spec:
  "assign_required flds h = (flds', h') \<Longrightarrow>
     length flds' = length flds \<and> h' = h + class_count kRequiredPresence flds \<and>
     (\<forall>i<length flds. flds' ! i =
        (if mtf_offset (flds ! i) = kRequiredPresence
         then (flds ! i)\<lparr>mtf_presence := to_int16 (h + Suc (class_count kRequiredPresence (take i flds)))\<rparr>
         else if mtf_offset (flds ! i) = kNoPresence then (flds ! i)\<lparr>mtf_presence := 0\<rparr> else flds ! i))"
proof (induction flds arbitrary: h flds')
  case Nil
  then show ?case by simp
next
  case (Cons f flds)
  let ?h = "if mtf_offset f = kRequiredPresence then Suc h else h"
  obtain rest where rest: "assign_required flds ?h = (rest, h')" and "tl flds' = rest" "length flds' = Suc (length rest)"
    "flds' ! 0 = (if mtf_offset f = kRequiredPresence then f\<lparr>mtf_presence := to_int16 (Suc h)\<rparr>
       else if mtf_offset f = kNoPresence then f\<lparr>mtf_presence := 0\<rparr> else f)"
    using Cons.prems by (auto simp: Let_def split: if_splits prod.splits)
  moreover have "flds' ! Suc i = rest ! i" for i using calculation by (cases flds') auto
  ultimately show ?case
    using Cons.IH [OF rest] by (auto simp: nth_Cons less_Suc_eq_0_disj split: nat.split)
qed

lemma assign_optional_spec:
  "assign_optional flds h = (flds', h') \<Longrightarrow>
     length flds' = length flds \<and> h' = h + class_count kHasbitPresence flds \<and>
     (\<forall>i<length flds. flds' ! i =
        (if mtf_offset (flds ! i) = kHasbitPresence
         then (flds ! i)\<lparr>mtf_presence := to_int16 (h + Suc (class_count kHasbitPresence (take i flds)))\<rparr> else flds ! i))"
proof (induction flds arbitrary: h flds')
  case Nil
  then show ?case by simp
next
  case (Cons f flds)
  let ?h = "if mtf_offset f = kHasbitPresence then Suc h else h"
  obtain rest where rest: "assign_optional flds ?h = (rest, h')" and "tl flds' = rest" "length flds' = Suc (length rest)"
    "flds' ! 0 = (if mtf_offset f = kHasbitPresence then f\<lparr>mtf_presence := to_int16 (Suc h)\<rparr> else f)"
    using Cons.prems by (auto simp: Let_def split: if_splits prod.splits)
  moreover have "flds' ! Suc i = rest ! i" for i using calculation by (cases flds') auto
  ultimately show ?case
    using Cons.IH [OF rest] by (auto simp: nth_Cons less_Suc_eq_0_disj split: nat.split)
qed

text \<open>The presence bit of a field: the required fields come first.\<close>

definition hasbit_index :: "upb_MiniTableField list \<Rightarrow> nat \<Rightarrow> nat" where
  "hasbit_index flds i =
     (if mtf_offset (flds ! i) = kRequiredPresence then 64 + class_count kRequiredPresence (take i flds)
      else 64 + class_count kRequiredPresence flds + class_count kHasbitPresence (take i flds))"

definition hasbit_bytes :: "upb_MiniTableField list \<Rightarrow> nat" where
  "hasbit_bytes flds = (71 + class_count kRequiredPresence flds + class_count kHasbitPresence flds) div 8"

definition with_presence :: "upb_MiniTableField list \<Rightarrow> nat \<Rightarrow> upb_MiniTableField" where
  "with_presence flds i =
     (if mtf_offset (flds ! i) = kNoPresence then (flds ! i)\<lparr>mtf_presence := 0\<rparr>
      else if in_oneof (flds ! i) then flds ! i
      else (flds ! i)\<lparr>mtf_presence := to_int16 (hasbit_index flds i)\<rparr>)"

lemma presence_classes: "\<not> 3 \<le> x \<longleftrightarrow> x = 0 \<or> x = 1 \<or> x = (2 :: u16)"
  unfolding word_le_nat_alt word_unat_eq_iff by simp linarith

lemma AssignHasbits_step:
  assumes "assign_required (take (unat (md_field_count d)) (md_fields d)) 63 = (fs1, h1)" "assign_optional fs1 h1 = (fs2, h2)"
  shows "upb_MtDecoder_AssignHasbits d =
    (if h1 > 127 then Inl MtTooManyRequired
     else Inr (d\<lparr>md_required_count := of_nat (h1 - 63), md_fields := fs2 @ drop (unat (md_field_count d)) (md_fields d),
       md_size := (if h2 \<noteq> 0 then of_nat (upb_MiniTable_DivideRoundUp (Suc h2) 8) else 0)\<rparr>))"
  by (simp add: upb_MtDecoder_AssignHasbits_def kUpb_Reserved_Hasbits_def kUpb_Reserved_Hasbytes_def assms)

lemma AssignHasbits_spec:
  assumes hb: "upb_MtDecoder_AssignHasbits d = Inr d'" and fc: "fields_counted d"
  shows "class_count kRequiredPresence (md_fields d) \<le> 64"
    and "\<exists>flds'. d' = d\<lparr>md_required_count := of_nat (class_count kRequiredPresence (md_fields d)), md_fields := flds',
           md_size := of_nat (hasbit_bytes (md_fields d))\<rparr> \<and>
         length flds' = length (md_fields d) \<and> (\<forall>i<length (md_fields d). flds' ! i = with_presence (md_fields d) i)"
proof -
  let ?flds = "md_fields d"
  let ?R = "class_count kRequiredPresence ?flds" and ?O = "class_count kHasbitPresence ?flds"
  have all: "take (unat (md_field_count d)) ?flds = ?flds" "drop (unat (md_field_count d)) ?flds = []"
    using fc by (simp_all add: fields_counted_def)
  obtain fs1 h1 where req: "assign_required ?flds 63 = (fs1, h1)" by fastforce
  obtain fs2 h2 where opt: "assign_optional fs1 h1 = (fs2, h2)" by fastforce
  note R = assign_required_spec [OF req] and O = assign_optional_spec [OF opt]
  have offs: "map mtf_offset fs1 = map mtf_offset ?flds"
    using R by (intro nth_equalityI) auto
  have cls: "class_count c (take i fs1) = class_count c (take i ?flds)" for c i
    using arg_cong [OF offs, of "\<lambda>xs. length (filter (\<lambda>x. x = c) (take i xs))"]
    by (simp add: take_map filter_map comp_def)
  have cls_all: "class_count c fs1 = class_count c ?flds" for c
    using arg_cong [OF offs, of "\<lambda>xs. length (filter (\<lambda>x. x = c) xs)"]
    by (simp add: filter_map comp_def)
  have h: "h1 = 63 + ?R" "h2 = 63 + ?R + ?O" using R O cls_all by auto
  show "?R \<le> 64" using hb req h(1) all
    by (auto simp: upb_MtDecoder_AssignHasbits_def kUpb_Reserved_Hasbits_def kUpb_Reserved_Hasbytes_def Let_def split: if_splits)
  have req': "assign_required (take (unat (md_field_count d)) ?flds) 63 = (fs1, h1)" using req all by simp
  have bytes: "upb_MiniTable_DivideRoundUp (Suc h2) 8 = hasbit_bytes ?flds"
    by (simp add: upb_MiniTable_DivideRoundUp_def hasbit_bytes_def h)
  have R_minus: "h1 - 63 = ?R" and pos: "h2 \<noteq> 0" by (simp_all add: h)
  have d': "d' = d\<lparr>md_required_count := of_nat ?R, md_fields := fs2, md_size := of_nat (hasbit_bytes ?flds)\<rparr>"
    using hb unfolding AssignHasbits_step [OF req' opt] bytes R_minus all(2) by (simp add: pos split: if_splits)
  have "fs2 ! i = with_presence ?flds i" if "i < length ?flds" for i
  proof -
    have fs1: "fs1 ! i =
        (if mtf_offset (?flds ! i) = kRequiredPresence
         then (?flds ! i)\<lparr>mtf_presence := to_int16 (64 + class_count kRequiredPresence (take i ?flds))\<rparr>
         else if mtf_offset (?flds ! i) = kNoPresence then (?flds ! i)\<lparr>mtf_presence := 0\<rparr> else ?flds ! i)"
      using R that by simp
    have fs2: "fs2 ! i =
        (if mtf_offset (fs1 ! i) = kHasbitPresence
         then (fs1 ! i)\<lparr>mtf_presence := to_int16 (64 + ?R + class_count kHasbitPresence (take i ?flds))\<rparr> else fs1 ! i)"
      using O R that by (simp only: h(1) cls) (simp add: add.assoc)
    consider "in_oneof (?flds ! i)" "mtf_offset (?flds ! i) \<noteq> 0" "mtf_offset (?flds ! i) \<noteq> 1" "mtf_offset (?flds ! i) \<noteq> 2"
      | "mtf_offset (?flds ! i) = 0" | "mtf_offset (?flds ! i) = 1" | "mtf_offset (?flds ! i) = 2"
      using presence_classes [of "mtf_offset (?flds ! i)"] by blast
    then show ?thesis
      by cases (simp_all add: fs2 fs1 with_presence_def hasbit_index_def word_le_nat_alt)
  qed
  with d' R O show "\<exists>flds'. d' = d\<lparr>md_required_count := of_nat ?R, md_fields := flds', md_size := of_nat (hasbit_bytes ?flds)\<rparr> \<and>
         length flds' = length ?flds \<and> (\<forall>i<length ?flds. flds' ! i = with_presence ?flds i)"
    by (intro exI [of _ fs2]) simp
qed

lemma count_reps_spec: "count_reps flds r q = r q + of_nat (count_list (field_requests flds) q)"
proof (induction flds arbitrary: r)
  case Nil
  then show ?case by (simp add: count_reps_def)
next
  case (Cons f flds)
  have "count_reps (f # flds) r =
    count_reps flds (if in_oneof f then r else r(upb_MiniTableField_GetRep f := r (upb_MiniTableField_GetRep f) + 1))"
    by (simp add: count_reps_def)
  then show ?case by (simp add: Cons.IH)
qed

section \<open>The layout of a parsed message\<close>

definition all_requests :: "upb_MtDecoder \<Rightarrow> upb_FieldRep list" where
  "all_requests d = field_requests (md_fields d) @ oneof_requests (md_oneofs d)"

lemma field_request_index:
  assumes "i < length flds" "\<not> in_oneof (flds ! i)"
  shows "length (field_requests (take i flds)) < length (field_requests flds)"
    "field_requests flds ! length (field_requests (take i flds)) = upb_MiniTableField_GetRep (flds ! i)"
    "take (length (field_requests (take i flds))) (field_requests flds) = field_requests (take i flds)"
proof -
  have "field_requests flds = field_requests (take i flds) @ upb_MiniTableField_GetRep (flds ! i) # field_requests (drop (Suc i) flds)"
    using assms by (subst id_take_nth_drop [OF assms(1)]) (simp add: field_requests_def)
  then show "length (field_requests (take i flds)) < length (field_requests flds)"
    "field_requests flds ! length (field_requests (take i flds)) = upb_MiniTableField_GetRep (flds ! i)"
    "take (length (field_requests (take i flds))) (field_requests flds) = field_requests (take i flds)"
    by simp_all
qed

lemma oneof_request_index:
  assumes "k < length items"
  shows "oneof_requests items ! (2 * k) = kUpb_OneOf_CaseFieldRep" "oneof_requests items ! Suc (2 * k) = snd (items ! k)"
    "take (2 * k) (oneof_requests items) = oneof_requests (take k items)"
    "take (Suc (2 * k)) (oneof_requests items) = oneof_requests (take k items) @ [kUpb_OneOf_CaseFieldRep]"
proof -
  have eq: "oneof_requests items = oneof_requests (take k items) @ kUpb_OneOf_CaseFieldRep # snd (items ! k) # oneof_requests (drop (Suc k) items)"
    using assms by (subst id_take_nth_drop [OF assms]) (simp only: oneof_requests_simps)
  have len: "length (oneof_requests (take k items)) = 2 * k" using assms by simp
  show "oneof_requests items ! (2 * k) = kUpb_OneOf_CaseFieldRep" "oneof_requests items ! Suc (2 * k) = snd (items ! k)"
    "take (2 * k) (oneof_requests items) = oneof_requests (take k items)"
    "take (Suc (2 * k)) (oneof_requests items) = oneof_requests (take k items) @ [kUpb_OneOf_CaseFieldRep]"
    by (subst eq, use len in \<open>simp add: nth_append del: length_oneof_requests\<close>)+
qed

lemma length_le_concat: "\<forall>xs\<in>set xss. xs \<noteq> [] \<Longrightarrow> length xss \<le> length (concat xss)"
proof (induction xss)
  case (Cons xs xss)
  then have "1 \<le> length xs" by (cases xs) auto
  with Cons show ?case by simp
qed simp

lemma length_all_requests:
  assumes "parsed p d css"
  shows "length (all_requests d) \<le> length (md_fields d) + length (md_oneofs d)"
proof -
  let ?flds = "md_fields d"
  have wf: "oneofs_wf p ?flds (md_oneofs d) css (kUpb_OneOfLayoutItem_IndexSentinel, kUpb_FieldRep_1Byte) []"
    using assms by (simp add: parsed_def parse_inv_def)
  have lens: "length css = length (md_oneofs d)" using wf by (auto simp: oneofs_wf_def dest: list_all2_lengthD)
  have "\<forall>xs\<in>set css. xs \<noteq> []"
    using wf by (auto simp: oneofs_wf_def oneof_item_wf_def list_all2_conv_all_nth in_set_conv_nth)
  then have "length css \<le> length (concat css)" by (rule length_le_concat)
  moreover have "set (concat css) = {i. i < length ?flds \<and> in_oneof (?flds ! i)}"
  proof -
    have "j < length ?flds" if "j \<in> set (concat css)" for j
      using wf that oneof_chain_bound
      by (fastforce simp: oneofs_wf_def oneof_item_wf_def list_all2_conv_all_nth in_set_conv_nth [of _ css])
    with wf show ?thesis by (auto simp: oneofs_wf_def)
  qed
  then have "length (concat css) = length (filter (\<lambda>f. in_oneof f) ?flds)"
    using wf distinct_card [of "concat css"] by (simp add: oneofs_wf_def length_filter_conv_card)
  ultimately show ?thesis
    using sum_length_filter_compl [of "\<lambda>f. in_oneof f" ?flds] lens
    by (simp add: all_requests_def field_requests_def)
qed

text \<open>The table that is laid out: every field has its class or its oneof.\<close>

definition field_slot_index :: "upb_MtDecoder \<Rightarrow> nat \<Rightarrow> nat" where
  "field_slot_index d i = length (field_requests (take i (md_fields d)))"

definition case_slot_index :: "upb_MtDecoder \<Rightarrow> nat \<Rightarrow> nat" where
  "case_slot_index d k = length (field_requests (md_fields d)) + 2 * k"

lemma advance_slot:
  assumes "r q = of_nat (b q)" and "k < length reqs" "reqs ! k = q" "take k reqs = xs"
  shows "advance p r xs q = of_nat (slot_pos p b reqs k)"
  using assms by (auto simp: advance_def slot_pos_def)

lemma all_requests_index:
  shows "i < length (md_fields d) \<Longrightarrow> \<not> in_oneof (md_fields d ! i) \<Longrightarrow>
      field_slot_index d i < length (all_requests d) \<and>
      all_requests d ! field_slot_index d i = upb_MiniTableField_GetRep (md_fields d ! i) \<and>
      take (field_slot_index d i) (all_requests d) = field_requests (take i (md_fields d))"
    and "k < length (md_oneofs d) \<Longrightarrow>
      Suc (case_slot_index d k) < length (all_requests d) \<and>
      all_requests d ! case_slot_index d k = kUpb_OneOf_CaseFieldRep \<and>
      take (case_slot_index d k) (all_requests d) = field_requests (md_fields d) @ oneof_requests (take k (md_oneofs d)) \<and>
      all_requests d ! Suc (case_slot_index d k) = snd (md_oneofs d ! k) \<and>
      take (Suc (case_slot_index d k)) (all_requests d) =
        field_requests (md_fields d) @ oneof_requests (take k (md_oneofs d)) @ [kUpb_OneOf_CaseFieldRep]"
proof -
  assume "i < length (md_fields d)" "\<not> in_oneof (md_fields d ! i)"
  from field_request_index [OF this] show "field_slot_index d i < length (all_requests d) \<and>
      all_requests d ! field_slot_index d i = upb_MiniTableField_GetRep (md_fields d ! i) \<and>
      take (field_slot_index d i) (all_requests d) = field_requests (take i (md_fields d))"
    by (simp add: field_slot_index_def all_requests_def nth_append)
next
  assume k: "k < length (md_oneofs d)"
  let ?F = "length (field_requests (md_fields d))"
  have "oneof_requests (md_oneofs d) ! (Suc (?F + 2 * k) - ?F) = snd (md_oneofs d ! k)"
    "take (Suc (?F + 2 * k) - ?F) (oneof_requests (md_oneofs d)) = oneof_requests (take k (md_oneofs d)) @ [kUpb_OneOf_CaseFieldRep]"
    using oneof_request_index [OF k] by (simp_all add: Suc_diff_le)
  then show "Suc (case_slot_index d k) < length (all_requests d) \<and>
      all_requests d ! case_slot_index d k = kUpb_OneOf_CaseFieldRep \<and>
      take (case_slot_index d k) (all_requests d) = field_requests (md_fields d) @ oneof_requests (take k (md_oneofs d)) \<and>
      all_requests d ! Suc (case_slot_index d k) = snd (md_oneofs d ! k) \<and>
      take (Suc (case_slot_index d k)) (all_requests d) =
        field_requests (md_fields d) @ oneof_requests (take k (md_oneofs d)) @ [kUpb_OneOf_CaseFieldRep]"
    using oneof_request_index [OF k] k
    by (simp add: case_slot_index_def all_requests_def nth_append)
qed

lemma count_list_le_length: "count_list xs x \<le> length xs"
  by (induction xs) auto

lemma field_requests_same: "same_layout flds flds' \<Longrightarrow> field_requests flds' = field_requests flds"
  unfolding same_layout_def by (induction rule: list_all2_induct) auto

lemma same_layout_take: "same_layout flds flds' \<Longrightarrow> same_layout (take i flds) (take i flds')"
  by (simp add: same_layout_def list_all2_takeI)

lemma count_reps_requests:
  assumes inv: "parsed p d css" and small: "length (md_fields d) + length (md_oneofs d) \<le> 65532"
  shows "unat (count_reps (md_fields d) (md_rep_counts_offsets d) q) = count_list (all_requests d) q"
proof -
  have "oneofs_counted d" using inv by (auto simp: parsed_def parse_inv_def)
  then have "count_reps (md_fields d) (md_rep_counts_offsets d) q = of_nat (count_list (all_requests d) q)"
    by (simp add: count_reps_spec oneofs_counted_def all_requests_def add.commute)
  moreover have "count_list (all_requests d) q < 65536"
    using count_list_le_length [of "all_requests d" q] length_all_requests [OF inv] small by linarith
  ultimately show ?thesis by (simp add: unat_of_nat)
qed

lemma all_reps: "set [kUpb_FieldRep_1Byte, kUpb_FieldRep_4Byte, kUpb_FieldRep_StringView, kUpb_FieldRep_8Byte] = UNIV"
  using upb_FieldRep.exhaust by auto

lemma finite_FieldRep: "finite (UNIV :: upb_FieldRep set)"
  unfolding all_reps [symmetric] by (rule finite_set)

lemma CalculateAlignments_regions:
  assumes calc: "upb_MtDecoder_CalculateAlignments d = Inr d'" and inv: "parsed p d css"
    and small: "length (md_fields d) + length (md_oneofs d) \<le> 65532"
  shows "\<exists>b hi r. regions_ok p UNIV b (count_list (all_requests d)) (unat (md_size d)) hi \<and> hi \<le> 65535 \<and>
    d' = d\<lparr>md_rep_counts_offsets := r, md_size := of_nat hi\<rparr> \<and> (\<forall>q\<in>set (all_requests d). r q = of_nat (b q))"
proof -
  let ?reps = "[kUpb_FieldRep_1Byte, kUpb_FieldRep_4Byte, kUpb_FieldRep_StringView, kUpb_FieldRep_8Byte]"
  let ?c = "count_reps (md_fields d) (md_rep_counts_offsets d)"
  have all: "take (unat (md_field_count d)) (md_fields d) = md_fields d" and p: "md_platform d = p"
    using inv by (auto simp: parsed_def parse_inv_def fields_counted_def)
  note c = count_reps_requests [OF inv small]
  obtain r hi where fold: "foldl (reserve_rep p) (?c, unat (md_size d)) ?reps = (r, hi)" by fastforce
  from reserve_rep_regions [OF fold] obtain b where
    b: "regions_ok p UNIV b (\<lambda>q. unat (?c q)) (unat (md_size d)) hi" "\<forall>q. ?c q \<noteq> 0 \<longrightarrow> r q = of_nat (b q)"
    unfolding all_reps by auto
  have "r q = of_nat (b q)" if "q \<in> set (all_requests d)" for q
  proof -
    have "count_list (all_requests d) q \<noteq> 0" using that by (simp add: count_list_0_iff)
    then have "unat (?c q) \<noteq> 0" using c [of q] by linarith
    with b(2) show ?thesis by (metis unat_0)
  qed
  moreover have "d' = d\<lparr>md_rep_counts_offsets := r, md_size := of_nat hi\<rparr>" "hi \<le> 65535"
    using calc fold by (auto simp: upb_MtDecoder_CalculateAlignments_def all p simp del: foldl.simps split: if_splits)
  ultimately show ?thesis using b(1) unfolding c by blast
qed

text \<open>What \<open>AssignOffsets\<close> writes, when the counters are the starts of regions: it never fails.\<close>

definition laid_out ::
  "mini_platform \<Rightarrow> (upb_FieldRep \<Rightarrow> nat) \<Rightarrow> upb_MtDecoder \<Rightarrow> nat list list \<Rightarrow> upb_MiniTableField list \<Rightarrow> bool" where
  "laid_out p b d css flds \<longleftrightarrow>
     length flds = length (md_fields d) \<and>
     (\<forall>i<length flds. \<not> in_oneof (md_fields d ! i) \<longrightarrow>
        flds ! i = (md_fields d ! i)\<lparr>mtf_offset := of_nat (slot_pos p b (all_requests d) (field_slot_index d i))\<rparr>) \<and>
     (\<forall>k<length (md_oneofs d). \<forall>i\<in>set (css ! k).
        flds ! i = (md_fields d ! i)
          \<lparr>mtf_presence := sint (NOT (of_nat (slot_pos p b (all_requests d) (case_slot_index d k)) :: u16)),
            mtf_offset := of_nat (slot_pos p b (all_requests d) (Suc (case_slot_index d k)))\<rparr>)"

lemma AssignOffsets_laid_out:
  assumes p: "md_platform d = p" and fc: "fields_counted d"
    and wf: "oneofs_wf p (md_fields d) (md_oneofs d) css (kUpb_OneOfLayoutItem_IndexSentinel, kUpb_FieldRep_1Byte) []"
    and base: "\<forall>q\<in>set (all_requests d). md_rep_counts_offsets d q = of_nat (b q)"
  shows "\<exists>flds r. upb_MtDecoder_AssignOffsets d =
      Inr (d\<lparr>md_fields := flds, md_rep_counts_offsets := r, md_size := of_nat (upb_align_up (unat (md_size d)) 8)\<rparr>) \<and>
    laid_out p b d css flds"
proof -
  let ?flds = "md_fields d" and ?r = "md_rep_counts_offsets d" and ?reqs = "all_requests d"
  have n: "unat (md_field_count d) = length ?flds" using fc by (simp add: fields_counted_def)
  obtain fs r1 where fs: "assign_field_offsets p ?r ?flds = (fs, r1)" by fastforce
  note F = assign_field_offsets_spec [OF fs]
  have items: "list_all2 (oneof_item_wf p ?flds) (md_oneofs d) css" and dist: "distinct (concat css)"
    and mem: "j < length ?flds \<Longrightarrow> in_oneof (?flds ! j) \<longleftrightarrow> j \<in> set (concat css)" for j
    using wf by (simp_all add: oneofs_wf_def)
  have bound: "j < length ?flds" if "k < length (md_oneofs d)" "j \<in> set (css ! k)" for j k
    using items that oneof_chain_bound by (fastforce simp: list_all2_conv_all_nth oneof_item_wf_def)
  have sub: "j \<in> set (concat css)" if "k < length (md_oneofs d)" "j \<in> set (css ! k)" for j k
    using items that by (fastforce simp: list_all2_conv_all_nth)
  have kept: "fs ! j = ?flds ! j" if "k < length (md_oneofs d)" "j \<in> set (css ! k)" for j k
    using F mem bound [OF that] sub [OF that] by auto
  have "list_all2 (oneof_item_wf p fs) (md_oneofs d) css"
    using items kept oneof_item_cong [of fs ?flds] F by (auto simp: list_all2_conv_all_nth)
  from assign_oneofs_spec [OF this dist, of "length ?flds" r1] F obtain flds r2 where
    O: "assign_oneofs p (length ?flds) r1 (md_oneofs d) fs = Inr (flds, r2)" "length flds = length ?flds"
      "\<forall>k<length (md_oneofs d). \<forall>j\<in>set (css ! k). flds ! j = placed p r1 (md_oneofs d) k (fs ! j)"
      "\<forall>j<length ?flds. j \<notin> set (concat css) \<longrightarrow> flds ! j = fs ! j" by auto
  have run: "upb_MtDecoder_AssignOffsets d =
      Inr (d\<lparr>md_fields := flds, md_rep_counts_offsets := r2, md_size := of_nat (upb_align_up (unat (md_size d)) 8)\<rparr>)"
    using fs O(1) n p by (simp add: upb_MtDecoder_AssignOffsets_def)
  have slot: "advance p ?r (take k ?reqs) (?reqs ! k) = of_nat (slot_pos p b ?reqs k)" if "k < length ?reqs" for k
    using base that by (intro advance_slot) auto
  have "flds ! i = (?flds ! i)\<lparr>mtf_offset := of_nat (slot_pos p b ?reqs (field_slot_index d i))\<rparr>"
    if "i < length ?flds" "\<not> in_oneof (?flds ! i)" for i
    using O(4) F that mem slot [of "field_slot_index d i"] all_requests_index(1) [OF that] by simp
  moreover have "flds ! i = (?flds ! i)
      \<lparr>mtf_presence := sint (NOT (of_nat (slot_pos p b ?reqs (case_slot_index d k)) :: u16)),
       mtf_offset := of_nat (slot_pos p b ?reqs (Suc (case_slot_index d k)))\<rparr>"
    if "k < length (md_oneofs d)" "i \<in> set (css ! k)" for i k
    using O(3) that kept [OF that] slot [of "case_slot_index d k"] slot [of "Suc (case_slot_index d k)"]
      all_requests_index(2) [OF that(1)] F
    by (simp add: placed_def case_at_def data_at_def)
  ultimately have "laid_out p b d css flds" using O(2) by (simp add: laid_out_def)
  with run show ?thesis by blast
qed

section \<open>Tables\<close>

lemma sint_not_of_nat:
  assumes "c < 32768"
  shows "sint (NOT (of_nat c) :: u16) = - int c - 1"
proof -
  have "(NOT (of_nat c) :: u16) = word_of_int (- int c - 1)" by (simp add: not_eq_complement)
  then show ?thesis using assms by (simp only: int_word_sint) simp
qed

lemma to_int16_small: "n < 32768 \<Longrightarrow> to_int16 n = int n"
  using int_word_sint [of "int n", where ?'a = 16] by (simp add: to_int16_def)

text \<open>The bytes that a field's value, the case of its oneof and its presence bit take up.\<close>

definition field_bytes :: "mini_platform \<Rightarrow> upb_MiniTableField \<Rightarrow> nat set" where
  "field_bytes p f =
     {unat (mtf_offset f) ..< unat (mtf_offset f) + upb_MtDecoder_SizeOfRep (upb_MiniTableField_GetRep f) p}"

definition case_bytes :: "upb_MiniTableField \<Rightarrow> nat set" where
  "case_bytes f = {upb_MiniTableField_OneofOffset f ..< upb_MiniTableField_OneofOffset f + 4}"

definition hasbit_byte :: "upb_MiniTableField \<Rightarrow> nat" where
  "hasbit_byte f = nat (mtf_presence f) div 8"

text \<open>
  A table's layout is safe: values and cases are aligned and lie between the reserved bytes and the size; a
  value, a case and a byte of presence bits never overlap, except for the values of one oneof; no two fields
  share a presence bit.
\<close>

definition field_safe :: "mini_platform \<Rightarrow> nat \<Rightarrow> upb_MiniTableField \<Rightarrow> bool" where
  "field_safe p sz f \<longleftrightarrow>
     upb_MtDecoder_AlignOfRep (upb_MiniTableField_GetRep f) p dvd unat (mtf_offset f) \<and> field_bytes p f \<subseteq> {8..<sz} \<and>
     (mtf_presence f > 0 \<longrightarrow> mtf_presence f \<ge> 64) \<and>
     (upb_MiniTableField_IsInOneof f \<longrightarrow> 4 dvd upb_MiniTableField_OneofOffset f \<and> case_bytes f \<subseteq> {8..<sz})"

definition apart :: "mini_platform \<Rightarrow> upb_MiniTableField \<Rightarrow> upb_MiniTableField \<Rightarrow> bool" where
  "apart p f g \<longleftrightarrow>
     (mtf_presence f > 0 \<longrightarrow>
        hasbit_byte f \<notin> field_bytes p g \<and> (upb_MiniTableField_IsInOneof g \<longrightarrow> hasbit_byte f \<notin> case_bytes g)) \<and>
     (upb_MiniTableField_IsInOneof f \<longrightarrow>
        case_bytes f \<inter> field_bytes p g = {} \<and>
        (upb_MiniTableField_IsInOneof g \<longrightarrow> mtf_presence f \<noteq> mtf_presence g \<longrightarrow> case_bytes f \<inter> case_bytes g = {}))"

definition distinct_storage :: "mini_platform \<Rightarrow> upb_MiniTableField \<Rightarrow> upb_MiniTableField \<Rightarrow> bool" where
  "distinct_storage p f g \<longleftrightarrow>
     (mtf_presence f > 0 \<longrightarrow> mtf_presence f \<noteq> mtf_presence g) \<and>
     (field_bytes p f \<inter> field_bytes p g = {} \<or> upb_MiniTableField_IsInOneof f \<and> mtf_presence f = mtf_presence g)"

definition layout_safe :: "mini_platform \<Rightarrow> upb_MiniTable \<Rightarrow> bool" where
  "layout_safe p m \<longleftrightarrow>
     (\<forall>i<length (mt_fields m). field_safe p (unat (mt_size m)) (mt_fields m ! i)) \<and>
     (\<forall>i<length (mt_fields m). \<forall>j<length (mt_fields m). apart p (mt_fields m ! i) (mt_fields m ! j)) \<and>
     (\<forall>i<length (mt_fields m). \<forall>j<length (mt_fields m). i \<noteq> j \<longrightarrow> distinct_storage p (mt_fields m ! i) (mt_fields m ! j))"

text \<open>The slots as sets of bytes.\<close>

definition slot_bytes :: "mini_platform \<Rightarrow> (upb_FieldRep \<Rightarrow> nat) \<Rightarrow> upb_FieldRep list \<Rightarrow> nat \<Rightarrow> nat set" where
  "slot_bytes p b reqs k = {slot_pos p b reqs k ..< slot_end p b reqs k}"

lemma slot_bytes_disjoint:
  "regions_ok p UNIV b (count_list reqs) lo hi \<Longrightarrow> k < length reqs \<Longrightarrow> l < length reqs \<Longrightarrow> k \<noteq> l \<Longrightarrow>
     slot_bytes p b reqs k \<inter> slot_bytes p b reqs l = {}"
  using slots_apart [of p b reqs lo hi k l] unfolding slot_bytes_def by auto

lemma slot_bytes_range:
  "regions_ok p UNIV b (count_list reqs) lo hi \<Longrightarrow> k < length reqs \<Longrightarrow> slot_bytes p b reqs k \<subseteq> {lo..<hi}"
  using slot_bounds [of p b reqs lo hi k] unfolding slot_bytes_def by auto

text \<open>The decoder after \<open>AssignOffsets\<close>, with the bounds that keep its 16-bit numbers exact.\<close>

definition layout_inv ::
  "mini_platform \<Rightarrow> (upb_FieldRep \<Rightarrow> nat) \<Rightarrow> upb_MtDecoder \<Rightarrow> nat list list \<Rightarrow> upb_MiniTableField list \<Rightarrow> nat \<Rightarrow> nat \<Rightarrow> bool" where
  "layout_inv p b d css flds lo hi \<longleftrightarrow>
     laid_out p b d css flds \<and> regions_ok p UNIV b (count_list (all_requests d)) lo hi \<and> 8 \<le> lo \<and> hi \<le> 32768 \<and>
     oneofs_wf p (md_fields d) (md_oneofs d) css (kUpb_OneOfLayoutItem_IndexSentinel, kUpb_FieldRep_1Byte) [] \<and>
     (\<forall>i<length (md_fields d). \<not> in_oneof (md_fields d ! i) \<longrightarrow>
        mtf_presence (md_fields d ! i) =
          (if mtf_offset (md_fields d ! i) = kNoPresence then 0 else int (hasbit_index (md_fields d) i))) \<and>
     (\<forall>i<length (md_fields d). \<not> in_oneof (md_fields d ! i) \<longrightarrow> mtf_offset (md_fields d ! i) \<noteq> kNoPresence \<longrightarrow>
        hasbit_index (md_fields d) i < 8 * lo)"

lemma layout_field_cases:
  assumes inv: "layout_inv p b d css flds lo hi" and i: "i < length flds"
  obtains (single) "\<not> in_oneof (md_fields d ! i)" "field_slot_index d i < length (field_requests (md_fields d))"
      "field_bytes p (flds ! i) = slot_bytes p b (all_requests d) (field_slot_index d i)"
      "upb_MtDecoder_AlignOfRep (upb_MiniTableField_GetRep (flds ! i)) p dvd unat (mtf_offset (flds ! i))"
      "mtf_presence (flds ! i) = (if mtf_offset (md_fields d ! i) = kNoPresence then 0 else int (hasbit_index (md_fields d) i))"
    | (member) k where "k < length (md_oneofs d)"
      "field_bytes p (flds ! i) \<subseteq> slot_bytes p b (all_requests d) (Suc (case_slot_index d k))"
      "upb_MtDecoder_AlignOfRep (upb_MiniTableField_GetRep (flds ! i)) p dvd unat (mtf_offset (flds ! i))"
      "mtf_presence (flds ! i) = - int (slot_pos p b (all_requests d) (case_slot_index d k)) - 1"
      "case_bytes (flds ! i) = slot_bytes p b (all_requests d) (case_slot_index d k)"
      "4 dvd upb_MiniTableField_OneofOffset (flds ! i)"
      "in_oneof (md_fields d ! i)" "i \<in> set (css ! k)"
proof (cases "in_oneof (md_fields d ! i)")
  case False
  let ?s = "field_slot_index d i"
  have ok: "regions_ok p UNIV b (count_list (all_requests d)) lo hi" and hi: "hi \<le> 32768"
    and n: "i < length (md_fields d)" using inv i by (auto simp: layout_inv_def laid_out_def)
  note ix = all_requests_index(1) [OF n False]
  have f: "flds ! i = (md_fields d ! i)\<lparr>mtf_offset := of_nat (slot_pos p b (all_requests d) ?s)\<rparr>"
    using inv i False by (simp add: layout_inv_def laid_out_def)
  note bd = slot_bounds [OF ok, of ?s]
  have "slot_pos p b (all_requests d) ?s < 65536" using bd(4) ix hi by simp
  then have off: "unat (mtf_offset (flds ! i)) = slot_pos p b (all_requests d) ?s" by (simp add: f unat_of_nat)
  show ?thesis
  proof (rule single)
    show "?s < length (field_requests (md_fields d))"
      using field_request_index(1) [OF n False] by (simp add: field_slot_index_def)
    show "field_bytes p (flds ! i) = slot_bytes p b (all_requests d) ?s"
      using ix off by (simp add: field_bytes_def slot_bytes_def f)
    show "upb_MtDecoder_AlignOfRep (upb_MiniTableField_GetRep (flds ! i)) p dvd unat (mtf_offset (flds ! i))"
      using bd(1) ix off by (simp add: f)
    show "mtf_presence (flds ! i) = (if mtf_offset (md_fields d ! i) = kNoPresence then 0 else int (hasbit_index (md_fields d) i))"
      using inv n False by (simp add: layout_inv_def f)
  qed (rule False)
next
  case True
  have ok: "regions_ok p UNIV b (count_list (all_requests d)) lo hi" and hi: "hi \<le> 32768"
    and n: "i < length (md_fields d)" using inv i by (auto simp: layout_inv_def laid_out_def)
  have wf: "list_all2 (oneof_item_wf p (md_fields d)) (md_oneofs d) css" "i \<in> set (concat css)"
    using inv n True by (auto simp: layout_inv_def oneofs_wf_def)
  then obtain k where k: "k < length (md_oneofs d)" "i \<in> set (css ! k)"
    by (auto simp: list_all2_conv_all_nth in_set_conv_nth [of _ css])
  let ?c = "case_slot_index d k"
  note ix = all_requests_index(2) [OF k(1)]
  have rep: "rep_within p (upb_MiniTableField_GetRep (md_fields d ! i)) (snd (md_oneofs d ! k))"
    using wf(1) k by (auto simp: list_all2_conv_all_nth oneof_item_wf_def)
  have f: "flds ! i = (md_fields d ! i)\<lparr>mtf_presence := sint (NOT (of_nat (slot_pos p b (all_requests d) ?c)) :: u16),
      mtf_offset := of_nat (slot_pos p b (all_requests d) (Suc ?c))\<rparr>"
    using inv k by (simp add: layout_inv_def laid_out_def)
  note cb = slot_bounds [OF ok, of ?c] and db = slot_bounds [OF ok, of "Suc ?c"]
  have csize: "upb_MtDecoder_SizeOfRep kUpb_OneOf_CaseFieldRep p = 4" "upb_MtDecoder_AlignOfRep kUpb_OneOf_CaseFieldRep p = 4"
    by (simp_all add: kUpb_OneOf_CaseFieldRep_def rep_size_defs)
  have small: "slot_pos p b (all_requests d) ?c < 32768" "slot_pos p b (all_requests d) (Suc ?c) < 65536"
    using cb(4) db(4) ix hi csize by simp_all
  have off: "unat (mtf_offset (flds ! i)) = slot_pos p b (all_requests d) (Suc ?c)"
    using small(2) by (simp add: f unat_of_nat)
  have pres: "mtf_presence (flds ! i) = - int (slot_pos p b (all_requests d) ?c) - 1"
    using small(1) by (simp add: f sint_not_of_nat)
  have same_rep: "upb_MiniTableField_GetRep (flds ! i) = upb_MiniTableField_GetRep (md_fields d ! i)" by (simp add: f)
  have cs: "upb_MiniTableField_OneofOffset (flds ! i) = slot_pos p b (all_requests d) ?c"
    by (simp add: upb_MiniTableField_OneofOffset_def pres)
  show ?thesis
  proof (rule member [OF k(1)])
    show "field_bytes p (flds ! i) \<subseteq> slot_bytes p b (all_requests d) (Suc ?c)"
      using ix rep by (auto simp: field_bytes_def slot_bytes_def off same_rep rep_within_def)
    show "upb_MtDecoder_AlignOfRep (upb_MiniTableField_GetRep (flds ! i)) p dvd unat (mtf_offset (flds ! i))"
      using db(1) ix rep by (auto simp: off same_rep rep_within_def intro: dvd_trans)
    show "mtf_presence (flds ! i) = - int (slot_pos p b (all_requests d) ?c) - 1" by (rule pres)
    show "case_bytes (flds ! i) = slot_bytes p b (all_requests d) ?c"
      using ix csize by (simp add: case_bytes_def slot_bytes_def cs)
    show "4 dvd upb_MiniTableField_OneofOffset (flds ! i)" using cb(1) ix csize by (simp add: cs)
  qed (rule True, rule k(2))
qed

lemma filter_take_less:
  assumes "i < j" "j \<le> length xs" "P (xs ! i)"
  shows "length (filter P (take i xs)) < length (filter P (take j xs))"
proof -
  have "take (Suc i) xs = take i xs @ [xs ! i]" using assms by (simp add: take_Suc_conv_app_nth)
  moreover have "take j xs = take (Suc i) xs @ take (j - Suc i) (drop (Suc i) xs)"
    using assms(1) by (metis Suc_leI le_add_diff_inverse take_add)
  ultimately show ?thesis using assms(3) by simp
qed

lemma field_slot_index_inj:
  assumes "i < length (md_fields d)" "j < length (md_fields d)" "i \<noteq> j"
    and "\<not> in_oneof (md_fields d ! i)" "\<not> in_oneof (md_fields d ! j)"
  shows "field_slot_index d i \<noteq> field_slot_index d j"
  using filter_take_less [of i j "md_fields d" "\<lambda>f. \<not> in_oneof f"] filter_take_less [of j i "md_fields d" "\<lambda>f. \<not> in_oneof f"] assms
  by (cases i j rule: linorder_cases) (auto simp: field_slot_index_def field_requests_def)

lemma hasbit_index_inj:
  assumes "i < length flds" "j < length flds" "i \<noteq> j"
    and "mtf_offset (flds ! i) \<in> {1, 2}" "mtf_offset (flds ! j) \<in> {1, 2}"
  shows "hasbit_index flds i \<noteq> hasbit_index flds j"
proof -
  have req: "class_count kRequiredPresence (take k flds) < class_count kRequiredPresence flds"
    if "k < length flds" "mtf_offset (flds ! k) = 2" for k
    using filter_take_less [of k "length flds" flds "\<lambda>f. mtf_offset f = kRequiredPresence"] that by simp
  have less: "hasbit_index flds i \<noteq> hasbit_index flds j"
    if "i < j" "j < length flds" "mtf_offset (flds ! i) \<in> {1, 2}" "mtf_offset (flds ! j) \<in> {1, 2}" for i j
    using that filter_take_less [of i j flds "\<lambda>f. mtf_offset f = mtf_offset (flds ! i)"] req [of i] req [of j]
    by (auto simp: hasbit_index_def)
  show ?thesis using less [of i j] less [of j i] assms by (cases i j rule: linorder_cases) auto
qed

lemma hasbit_index_ge: "64 \<le> hasbit_index flds i"
  by (simp add: hasbit_index_def)

text \<open>The cases, the values and the presence bits of two fields, from their slots.\<close>

lemma layout_field_safe:
  assumes inv: "layout_inv p b d css flds lo hi" and i: "i < length flds" and sz: "hi \<le> sz"
  shows "field_safe p sz (flds ! i)"
proof -
  have ok: "regions_ok p UNIV b (count_list (all_requests d)) lo hi" and lo: "8 \<le> lo"
    using inv by (auto simp: layout_inv_def)
  have range: "slot_bytes p b (all_requests d) k \<subseteq> {8..<sz}" if "k < length (all_requests d)" for k
    using slot_bytes_range [OF ok that] lo sz by auto
  from inv i show ?thesis
  proof (cases rule: layout_field_cases)
    case single
    moreover have "field_slot_index d i < length (all_requests d)" using single by (simp add: all_requests_def)
    ultimately show ?thesis
      using range hasbit_index_ge [of "md_fields d" i] by (auto simp: field_safe_def upb_MiniTableField_IsInOneof_def split: if_splits)
  next
    case (member k)
    note ix = all_requests_index(2) [OF member(1)]
    with member show ?thesis
      using range [of "case_slot_index d k"] range [of "Suc (case_slot_index d k)"]
      by (auto simp: field_safe_def)
  qed
qed

lemma layout_apart:
  assumes inv: "layout_inv p b d css flds lo hi" and i: "i < length flds" and j: "j < length flds"
  shows "apart p (flds ! i) (flds ! j)"
proof -
  let ?S = "slot_bytes p b (all_requests d)" and ?F = "length (field_requests (md_fields d))"
  have ok: "regions_ok p UNIV b (count_list (all_requests d)) lo hi" using inv by (auto simp: layout_inv_def)
  have ge: "lo \<le> x" if "x \<in> ?S k" "k < length (all_requests d)" for x k
    using slot_bytes_range [OF ok that(2)] that(1) by auto
  have len: "k < length (md_oneofs d) \<Longrightarrow> Suc (case_slot_index d k) < length (all_requests d)" for k
    using all_requests_index(2) by blast
  have F: "k < ?F \<Longrightarrow> k < length (all_requests d)" for k by (simp add: all_requests_def)
  have neg: "\<not> mtf_presence (flds ! l) > 0" if "mtf_presence (flds ! l) = - int c - 1" for l c using that by simp
  have own: "\<exists>k < length (all_requests d). field_bytes p (flds ! l) \<subseteq> ?S k \<and> (\<forall>m. k \<noteq> case_slot_index d m)"
    if "l < length flds" for l
    using inv that
  proof (cases rule: layout_field_cases)
    case single
    then show ?thesis using F by (intro exI [of _ "field_slot_index d l"]) (auto simp: case_slot_index_def)
  next
    case (member k)
    have "Suc (case_slot_index d k) \<noteq> case_slot_index d m" for m unfolding case_slot_index_def by presburger
    then show ?thesis using member len by (intro exI [of _ "Suc (case_slot_index d k)"]) auto
  qed
  have oneof: "\<exists>k < length (md_oneofs d). case_bytes (flds ! l) = ?S (case_slot_index d k) \<and>
      mtf_presence (flds ! l) = - int (slot_pos p b (all_requests d) (case_slot_index d k)) - 1"
    if "l < length flds" "upb_MiniTableField_IsInOneof (flds ! l)" for l
    using inv that(1)
  proof (cases rule: layout_field_cases)
    case single
    with that(2) show ?thesis by (simp add: upb_MiniTableField_IsInOneof_def split: if_splits)
  next
    case (member k)
    then show ?thesis by blast
  qed
  have hasbit: "hasbit_byte (flds ! i) < lo" if "mtf_presence (flds ! i) > 0"
    using inv i
  proof (cases rule: layout_field_cases)
    case single
    have "mtf_offset (md_fields d ! i) \<noteq> kNoPresence" using that single(5) by auto
    then have "hasbit_index (md_fields d) i < 8 * lo"
      using inv i single(1) by (auto simp: layout_inv_def laid_out_def)
    with single that show ?thesis by (auto simp: hasbit_byte_def split: if_splits)
  next
    case (member k)
    with that show ?thesis by simp
  qed
  show ?thesis
    unfolding apart_def
  proof (intro conjI impI)
    assume pos: "mtf_presence (flds ! i) > 0"
    show "hasbit_byte (flds ! i) \<notin> field_bytes p (flds ! j)"
      using hasbit [OF pos] own [OF j] ge by (meson not_le subsetD)
    assume "upb_MiniTableField_IsInOneof (flds ! j)"
    from oneof [OF j this] show "hasbit_byte (flds ! i) \<notin> case_bytes (flds ! j)"
      using hasbit [OF pos] ge len by (metis Suc_lessD not_le)
  next
    assume one: "upb_MiniTableField_IsInOneof (flds ! i)"
    from oneof [OF i one] obtain k where k: "k < length (md_oneofs d)" "case_bytes (flds ! i) = ?S (case_slot_index d k)"
      "mtf_presence (flds ! i) = - int (slot_pos p b (all_requests d) (case_slot_index d k)) - 1" by blast
    show "case_bytes (flds ! i) \<inter> field_bytes p (flds ! j) = {}"
      using own [OF j] k slot_bytes_disjoint [OF ok Suc_lessD [OF len [OF k(1)]]] by fastforce
    assume "upb_MiniTableField_IsInOneof (flds ! j)" "mtf_presence (flds ! i) \<noteq> mtf_presence (flds ! j)"
    with oneof [OF j] k obtain l where l: "l < length (md_oneofs d)" "case_bytes (flds ! j) = ?S (case_slot_index d l)"
      "case_slot_index d l \<noteq> case_slot_index d k" by force
    show "case_bytes (flds ! i) \<inter> case_bytes (flds ! j) = {}"
      using slot_bytes_disjoint [OF ok Suc_lessD [OF len [OF k(1)]] Suc_lessD [OF len [OF l(1)]]] k l by auto
  qed
qed

lemma layout_distinct:
  assumes inv: "layout_inv p b d css flds lo hi" and i: "i < length flds" and j: "j < length flds" and ij: "i \<noteq> j"
  shows "distinct_storage p (flds ! i) (flds ! j)"
proof -
  let ?S = "slot_bytes p b (all_requests d)" and ?F = "length (field_requests (md_fields d))"
  have ok: "regions_ok p UNIV b (count_list (all_requests d)) lo hi" and n: "length flds = length (md_fields d)"
    using inv by (auto simp: layout_inv_def laid_out_def)
  have len: "k < length (md_oneofs d) \<Longrightarrow> Suc (case_slot_index d k) < length (all_requests d)" for k
    using all_requests_index(2) by blast
  have F: "k < ?F \<Longrightarrow> k < length (all_requests d)" for k by (simp add: all_requests_def)
  have apart: "?S k \<inter> ?S l = {}" if "k < length (all_requests d)" "l < length (all_requests d)" "k \<noteq> l" for k l
    using slot_bytes_disjoint [OF ok that] .
  from inv i show ?thesis
  proof (cases rule: layout_field_cases)
    case single
    note si = this
    from inv j show ?thesis
    proof (cases rule: layout_field_cases)
      case single
      have "mtf_presence (flds ! i) \<noteq> mtf_presence (flds ! j)" if "mtf_presence (flds ! i) > 0"
        using that si(1,5) single(1,5) hasbit_index_inj [of i "md_fields d" j] i j ij n
          presence_classes [of "mtf_offset (md_fields d ! i)"] presence_classes [of "mtf_offset (md_fields d ! j)"]
        by (auto split: if_splits)
      then show ?thesis
        using si single apart F field_slot_index_inj [of i d j] i j ij n by (simp add: distinct_storage_def)
    next
      case (member k)
      have "field_slot_index d i \<noteq> Suc (case_slot_index d k)" using si(2) by (simp add: case_slot_index_def)
      with member si len [OF member(1)] F apart [of "field_slot_index d i" "Suc (case_slot_index d k)"]
      show ?thesis by (auto simp: distinct_storage_def)
    qed
  next
    case (member k)
    note mi = this
    from inv j show ?thesis
    proof (cases rule: layout_field_cases)
      case single
      have "field_slot_index d j \<noteq> Suc (case_slot_index d k)" using single(2) by (simp add: case_slot_index_def)
      with mi single len [OF mi(1)] F apart [of "Suc (case_slot_index d k)" "field_slot_index d j"]
      show ?thesis by (auto simp: distinct_storage_def)
    next
      case (member l)
      show ?thesis
      proof (cases "k = l")
        case True
        with mi member show ?thesis by (simp add: distinct_storage_def upb_MiniTableField_IsInOneof_def)
      next
        case False
        then have "Suc (case_slot_index d k) \<noteq> Suc (case_slot_index d l)" by (simp add: case_slot_index_def)
        from apart [OF len [OF mi(1)] len [OF member(1)] this] mi member show ?thesis
          by (auto simp: distinct_storage_def)
      qed
    qed
  qed
qed

section \<open>From the parse to the table\<close>

lemma hasbit_index_less:
  assumes "i < length flds" "mtf_offset (flds ! i) \<in> {1, 2}"
  shows "hasbit_index flds i < 64 + class_count kRequiredPresence flds + class_count kHasbitPresence flds"
  using filter_take_less [of i "length flds" flds "\<lambda>f. mtf_offset f = mtf_offset (flds ! i)"] assms
  by (auto simp: hasbit_index_def)

lemma class_counts_le:
  "class_count kRequiredPresence flds + class_count kHasbitPresence flds \<le> length (field_requests flds)"
  by (induction flds) (auto simp: word_le_nat_alt)

lemma hasbit_index_same:
  assumes "same_layout flds flds'" and "i < length flds"
  shows "hasbit_index flds' i = hasbit_index flds i"
proof -
  have offs: "map mtf_offset flds' = map mtf_offset flds"
    using same_layout_nth [OF assms(1)] by (intro nth_equalityI) auto
  have cls: "class_count c (take k flds') = class_count c (take k flds)" for c k
    using arg_cong [OF offs, of "\<lambda>xs. length (filter (\<lambda>x. x = c) (take k xs))"]
    by (simp add: take_map filter_map comp_def)
  have cls_all: "class_count c flds' = class_count c flds" for c
    using arg_cong [OF offs, of "\<lambda>xs. length (filter (\<lambda>x. x = c) xs)"]
    by (simp add: filter_map comp_def)
  show ?thesis using same_layout_nth [OF assms(1)] assms(2) by (simp add: hasbit_index_def cls cls_all)
qed

text \<open>The three passes after the parse.\<close>

lemma AssignHasbits_parsed:
  assumes inv: "parsed p d css" and hb: "upb_MtDecoder_AssignHasbits d = Inr d1"
  obtains flds where "d1 = d\<lparr>md_required_count := of_nat (class_count kRequiredPresence (md_fields d)), md_fields := flds,
        md_size := of_nat (hasbit_bytes (md_fields d))\<rparr>" "length flds = length (md_fields d)"
    "\<And>i. i < length (md_fields d) \<Longrightarrow> flds ! i = with_presence (md_fields d) i" "same_layout (md_fields d) flds" "parsed p d1 css"
proof -
  have fc: "fields_counted d" using inv by (auto simp: parsed_def parse_inv_def)
  from AssignHasbits_spec(2) [OF hb fc] obtain flds where
    d1: "d1 = d\<lparr>md_required_count := of_nat (class_count kRequiredPresence (md_fields d)), md_fields := flds,
        md_size := of_nat (hasbit_bytes (md_fields d))\<rparr>"
    and flds: "length flds = length (md_fields d)" "\<And>i. i < length (md_fields d) \<Longrightarrow> flds ! i = with_presence (md_fields d) i" by auto
  have same: "same_layout (md_fields d) flds"
    using flds by (simp add: same_layout_def list_all2_conv_all_nth with_presence_def)
  have "parsed p d1 css"
    using parsed_same [OF inv same] by (simp add: d1 parsed_def parse_inv_def fields_counted_def oneofs_counted_def)
  with that d1 flds same show thesis by blast
qed

lemma message_layout:
  assumes inv: "parsed p d css" and small: "length (md_fields d) + length (md_oneofs d) \<le> 65532"
    and hb: "upb_MtDecoder_AssignHasbits d = Inr d1" and calc: "upb_MtDecoder_CalculateAlignments d1 = Inr d2"
  shows "\<exists>d3 b lo hi. upb_MtDecoder_AssignOffsets d2 = Inr d3 \<and> md_size d3 = of_nat (upb_align_up hi 8) \<and> hi \<le> 65535 \<and>
    md_fields d3 = take (unat (md_field_count d3)) (md_fields d3) \<and>
    (hi \<le> 32768 \<longrightarrow> layout_inv p b d2 css (md_fields d3) lo hi)"
proof -
  let ?flds = "md_fields d"
  let ?R = "class_count kRequiredPresence ?flds" and ?O = "class_count kHasbitPresence ?flds" and ?lo = "hasbit_bytes ?flds"
  from AssignHasbits_parsed [OF inv hb] obtain flds where
    d1: "d1 = d\<lparr>md_required_count := of_nat ?R, md_fields := flds, md_size := of_nat ?lo\<rparr>"
    and flds: "length flds = length ?flds" "\<And>i. i < length ?flds \<Longrightarrow> flds ! i = with_presence ?flds i"
    and same: "same_layout ?flds flds" and inv1: "parsed p d1 css" by metis
  have small1: "length (md_fields d1) + length (md_oneofs d1) \<le> 65532" using small flds(1) by (simp add: d1)
  have RO: "?R + ?O \<le> length (field_requests ?flds)" by (rule class_counts_le)
  have F: "length (field_requests ?flds) \<le> length ?flds" by (simp add: field_requests_def)
  have lo: "unat (md_size d1) = ?lo"
    using RO F small by (simp add: d1 unat_of_nat hasbit_bytes_def)
  from CalculateAlignments_regions [OF calc inv1 small1] obtain b hi r where
    reg: "regions_ok p UNIV b (count_list (all_requests d1)) ?lo hi" "hi \<le> 65535"
      "d2 = d1\<lparr>md_rep_counts_offsets := r, md_size := of_nat hi\<rparr>" "\<forall>q\<in>set (all_requests d1). r q = of_nat (b q)"
    unfolding lo by blast
  have reqs: "all_requests d2 = all_requests d1" "md_fields d2 = flds" "md_oneofs d2 = md_oneofs d" "md_size d2 = of_nat hi"
    by (simp_all add: reg(3) all_requests_def d1)
  have wf2: "oneofs_wf p (md_fields d2) (md_oneofs d2) css (kUpb_OneOfLayoutItem_IndexSentinel, kUpb_FieldRep_1Byte) []"
    using inv1 by (simp add: parsed_def parse_inv_def reg(3))
  have fc2: "fields_counted d2" and p2: "md_platform d2 = p"
    using inv1 by (simp_all add: parsed_def parse_inv_def fields_counted_def reg(3))
  have base: "\<forall>q\<in>set (all_requests d2). md_rep_counts_offsets d2 q = of_nat (b q)"
    using reg(4) by (simp add: reqs(1)) (simp add: reg(3))
  from AssignOffsets_laid_out [OF p2 fc2 wf2 base] obtain fs r3 where
    off: "upb_MtDecoder_AssignOffsets d2 =
      Inr (d2\<lparr>md_fields := fs, md_rep_counts_offsets := r3, md_size := of_nat (upb_align_up (unat (md_size d2)) 8)\<rparr>)"
      "laid_out p b d2 css fs" by blast
  have "length fs = length (md_fields d2)" using off(2) by (simp add: laid_out_def)
  then have count: "fs = take (unat (md_field_count d2)) fs" using fc2 by (simp add: fields_counted_def)
  have layout: "layout_inv p b d2 css fs ?lo hi" if hi: "hi \<le> 32768"
    unfolding layout_inv_def
  proof (intro conjI allI impI)
    show "8 \<le> ?lo" by (simp add: hasbit_bytes_def)
    have "length (all_requests d1) + ?lo \<le> hi"
      using reg(1) sum_count_set [of "all_requests d1" UNIV] finite_FieldRep by (simp add: regions_ok_def add.commute)
    moreover have "length (field_requests ?flds) \<le> length (all_requests d1)"
      using field_requests_same [OF same] by (simp add: all_requests_def d1)
    ultimately have exact: "64 + ?R + ?O < 32768" using RO hi by (simp add: hasbit_bytes_def)
    fix i assume i: "i < length (md_fields d2)" "\<not> in_oneof (md_fields d2 ! i)"
    have i': "i < length ?flds" "\<not> in_oneof (?flds ! i)" "mtf_offset (md_fields d2 ! i) = mtf_offset (?flds ! i)"
      using i flds same_layout_nth [OF same] by (simp_all add: reqs)
    have ix: "hasbit_index (md_fields d2) i = hasbit_index ?flds i"
      using hasbit_index_same [OF same i'(1)] by (simp add: reqs)
    have less: "hasbit_index ?flds i < 64 + ?R + ?O" if "mtf_offset (?flds ! i) \<noteq> kNoPresence"
      using hasbit_index_less [OF i'(1)] that i'(2) presence_classes [of "mtf_offset (?flds ! i)"] by auto
    have "to_int16 (hasbit_index ?flds i) = int (hasbit_index ?flds i)" if "mtf_offset (?flds ! i) \<noteq> kNoPresence"
      using less [OF that] exact by (intro to_int16_small) linarith
    then show "mtf_presence (md_fields d2 ! i) =
        (if mtf_offset (md_fields d2 ! i) = kNoPresence then 0 else int (hasbit_index (md_fields d2) i))"
      using i' flds(2) [OF i'(1)] ix by (simp add: reqs with_presence_def)
    assume "mtf_offset (md_fields d2 ! i) \<noteq> kNoPresence"
    with less i' have "hasbit_index ?flds i < 64 + ?R + ?O" by simp
    then show "hasbit_index (md_fields d2) i < 8 * ?lo" unfolding ix hasbit_bytes_def by linarith
  qed (use off(2) reg(1) hi wf2 in \<open>simp_all add: reqs(1)\<close>)
  have size: "unat (md_size d2) = hi" using reg(2) by (simp add: reqs unat_of_nat)
  show ?thesis
    by (rule exI [of _ "d2\<lparr>md_fields := fs, md_rep_counts_offsets := r3, md_size := of_nat (upb_align_up (unat (md_size d2)) 8)\<rparr>"],
        rule exI [of _ b], rule exI [of _ ?lo], rule exI [of _ hi])
      (use off(1) size reg(2) count layout in simp)
qed

text \<open>Each request takes at most 16 bytes, and each of the four regions less than 8 more for its alignment.\<close>

lemma reserve_rep_size:
  "foldl (reserve_rep p) (r, lo) reps = (r', hi) \<Longrightarrow> distinct reps \<Longrightarrow>
   lo \<le> hi \<and> hi \<le> lo + 16 * (\<Sum>q\<in>set reps. unat (r q)) + 8 * length reps"
proof (induction reps arbitrary: r lo)
  case (Cons a reps)
  let ?x = "upb_align_up lo (upb_MtDecoder_AlignOfRep a p)"
  obtain r2 lo2 where step: "reserve_rep p (r, lo) a = (r2, lo2)" by fastforce
  have sum2: "(\<Sum>q\<in>set reps. unat (r2 q)) = (\<Sum>q\<in>set reps. unat (r q))"
    using step Cons.prems(2) by (intro sum.cong) (auto simp: reserve_rep_step split: if_splits)
  have "upb_MtDecoder_AlignOfRep a p \<le> 8" "upb_MtDecoder_SizeOfRep a p \<le> 16"
    by (cases p; cases a; simp add: rep_size_defs)+
  then have x: "lo \<le> ?x" "?x + upb_MtDecoder_SizeOfRep a p * unat (r a) \<le> lo + 8 + 16 * unat (r a)"
    using upb_align_up_bounds [OF AlignOfRep_pos [of a p], of lo] by (simp, intro add_mono mult_le_mono1) simp_all
  with step have lo2: "lo \<le> lo2" "lo2 \<le> lo + 8 + 16 * unat (r a)"
    by (auto simp: reserve_rep_step split: if_splits)
  have "foldl (reserve_rep p) (r2, lo2) reps = (r', hi)" using Cons.prems(1) step by simp
  from Cons.IH [OF this] Cons.prems(2) sum2
  have "lo2 \<le> hi" "hi \<le> lo2 + 16 * (\<Sum>q\<in>set reps. unat (r q)) + 8 * length reps" by simp_all
  with lo2 Cons.prems(2) show ?case by simp
qed simp

lemma CalculateAlignments_size:
  assumes inv: "parsed p d css" and small: "length (md_fields d) + length (md_oneofs d) \<le> 65532"
  obtains hi r where "upb_MtDecoder_CalculateAlignments d =
      (if hi > 65535 then Inl MtTooLarge else Inr (d\<lparr>md_rep_counts_offsets := r, md_size := of_nat hi\<rparr>))"
    "unat (md_size d) \<le> hi" "hi \<le> unat (md_size d) + 16 * (length (md_fields d) + length (md_oneofs d)) + 32"
proof -
  let ?reps = "[kUpb_FieldRep_1Byte, kUpb_FieldRep_4Byte, kUpb_FieldRep_StringView, kUpb_FieldRep_8Byte]"
  let ?c = "count_reps (md_fields d) (md_rep_counts_offsets d)"
  have all: "take (unat (md_field_count d)) (md_fields d) = md_fields d" and p: "md_platform d = p"
    using inv by (auto simp: parsed_def parse_inv_def fields_counted_def)
  obtain r hi where fold: "foldl (reserve_rep p) (?c, unat (md_size d)) ?reps = (r, hi)" by fastforce
  have "(\<Sum>q\<in>set ?reps. unat (?c q)) = length (all_requests d)"
    unfolding all_reps count_reps_requests [OF inv small] by (rule sum_count_set) (simp_all add: finite_FieldRep)
  with reserve_rep_size [OF fold] length_all_requests [OF inv]
  have "unat (md_size d) \<le> hi" "hi \<le> unat (md_size d) + 16 * (length (md_fields d) + length (md_oneofs d)) + 32"
    by simp_all
  moreover have "upb_MtDecoder_CalculateAlignments d =
      (if hi > 65535 then Inl MtTooLarge else Inr (d\<lparr>md_rep_counts_offsets := r, md_size := of_nat hi\<rparr>))"
    using fold by (simp add: upb_MtDecoder_CalculateAlignments_def all p del: foldl.simps)
  ultimately show thesis by (rule that [rotated 1])
qed

text \<open>
  What a message of \<open>n\<close> fields and oneofs takes: not too large up to 4000 of them, and up to 2000 of them
  in the range of the signed 16-bit numbers.
\<close>

lemma message_size:
  assumes inv: "parsed p d css" and small: "length (md_fields d) + length (md_oneofs d) \<le> 65532"
    and hb: "upb_MtDecoder_AssignHasbits d = Inr d1"
  shows "upb_MtDecoder_CalculateAlignments d1 = Inl e \<Longrightarrow> e = MtTooLarge \<and> 4000 < length (md_fields d) + length (md_oneofs d)"
    and "upb_MtDecoder_CalculateAlignments d1 = Inr d2 \<Longrightarrow> length (md_fields d) + length (md_oneofs d) \<le> 2000 \<Longrightarrow>
      8 \<le> unat (md_size d2) \<and> unat (md_size d2) \<le> 32700"
proof -
  let ?n = "length (md_fields d) + length (md_oneofs d)"
  have inv1: "parsed p d1 css"
    and d1: "md_size d1 = of_nat (hasbit_bytes (md_fields d))" "length (md_fields d1) = length (md_fields d)" "md_oneofs d1 = md_oneofs d"
    by (rule AssignHasbits_parsed [OF inv hb], simp)+
  have "class_count kRequiredPresence (md_fields d) + class_count kHasbitPresence (md_fields d) \<le> length (field_requests (md_fields d))"
    by (rule class_counts_le)
  moreover have "length (field_requests (md_fields d)) \<le> length (md_fields d)" by (simp add: field_requests_def)
  ultimately have lo: "unat (md_size d1) = hasbit_bytes (md_fields d)" "8 \<le> hasbit_bytes (md_fields d)"
    "8 * hasbit_bytes (md_fields d) \<le> 71 + ?n"
    using small by (simp_all add: d1 unat_of_nat hasbit_bytes_def)
  obtain hi r where calc: "upb_MtDecoder_CalculateAlignments d1 =
      (if hi > 65535 then Inl MtTooLarge else Inr (d1\<lparr>md_rep_counts_offsets := r, md_size := of_nat hi\<rparr>))"
    "unat (md_size d1) \<le> hi" "hi \<le> unat (md_size d1) + 16 * ?n + 32"
    using CalculateAlignments_size [OF inv1] small d1 by metis
  show "e = MtTooLarge \<and> 4000 < ?n" if "upb_MtDecoder_CalculateAlignments d1 = Inl e"
    using that calc lo by (auto split: if_splits)
  show "8 \<le> unat (md_size d2) \<and> unat (md_size d2) \<le> 32700" if "upb_MtDecoder_CalculateAlignments d1 = Inr d2" "?n \<le> 2000"
    using that calc lo by (auto simp: unat_of_nat split: if_splits)
qed

end
