(* ===== verification/Mini_Build.thy ===== *)
theory Mini_Build
  imports Mini_Layout
begin

text \<open>
  The tables that \<open>_upb_MiniTable_Build\<close> returns: no assertion fails, the layout is safe, the subtypes of
  the fields have the right kind; and what happens at the limits of the 16-bit numbers.
\<close>

section \<open>Building\<close>

lemma Build_message:
  assumes "upb_MiniTable_Build alloc p (kUpb_EncodedVersion_MessageV1 # data) = Inr m"
  obtains d0 d1 d2 d3 subs where
    "upb_MtDecoder_ParseMessage alloc
       \<lparr>md_fields = [], md_field_count = 0, md_platform = p, md_oneofs = [], md_oneofs_capacity = 0,
        md_rep_counts_offsets = (\<lambda>_. 0), md_is_extension = False, md_submsg_count = 0, md_subenum_count = 0,
        md_size = 8, md_ext = 0, md_dense_below = 0, md_required_count = 0\<rparr> data = Inr (d0, subs)"
    "upb_MtDecoder_AssignHasbits d0 = Inr d1" "upb_MtDecoder_CalculateAlignments d1 = Inr d2"
    "upb_MtDecoder_AssignOffsets d2 = Inr d3" "m = md_table d3 subs (ext_mode (md_ext d3))"
  using assms
  by (auto simp: upb_MiniTable_Build_def upb_MtDecoder_DoBuildMiniTableWithBuf_def bindE_Inr_conv
      kUpb_Reserved_Hasbytes_def split: if_splits)

lemma ParseMessage_fresh_parsed:
  assumes "upb_MtDecoder_ParseMessage alloc
       \<lparr>md_fields = [], md_field_count = 0, md_platform = p, md_oneofs = [], md_oneofs_capacity = 0,
        md_rep_counts_offsets = (\<lambda>_. 0), md_is_extension = False, md_submsg_count = 0, md_subenum_count = 0,
        md_size = s, md_ext = 0, md_dense_below = 0, md_required_count = 0\<rparr> data = Inr (d0, subs)"
    and "length data \<le> 65532"
  shows "\<exists>css. parsed p d0 css \<and> length (md_fields d0) + length (md_oneofs d0) \<le> 65532"
  using ParseMessage_parsed [OF assms(1), of p] assms(2) by (auto intro: le_trans)

lemma align_up_8_exact:
  assumes hi: "hi \<le> 65535" and pos: "0 < (of_nat (upb_align_up hi 8) :: u16)"
  shows "unat (of_nat (upb_align_up hi 8) :: u16) = upb_align_up hi 8"
proof -
  note al = upb_align_up_bounds [of 8 hi]
  have "upb_align_up hi 8 \<noteq> 65536" using pos by auto
  moreover have "upb_align_up hi 8 \<le> 65536" using al hi by (auto elim!: dvdE)
  ultimately show ?thesis by (simp add: unat_of_nat)
qed


section \<open>Assertions\<close>

lemma AssignHasbits_asserts: "upb_MtDecoder_AssignHasbits d \<noteq> Inl MtAssertFailed"
  by (auto simp: upb_MtDecoder_AssignHasbits_def Let_def split: prod.splits if_splits)

lemma CalculateAlignments_asserts: "upb_MtDecoder_CalculateAlignments d \<noteq> Inl MtAssertFailed"
  by (auto simp: upb_MtDecoder_CalculateAlignments_def Let_def split: prod.splits if_splits)

lemma ParseMap_asserts: "upb_MtDecoder_ParseMap alloc d data \<noteq> Inl MtAssertFailed"
  by (auto simp: upb_MtDecoder_ParseMap_def upb_MtDecoder_ValidateEntryField_def bindE_Inl_conv Let_def
      ParseMessage_asserts AssignHasbits_asserts split: if_splits prod.splits)

lemma ParseMap_size: "upb_MtDecoder_ParseMap alloc d data = Inr (d', subs) \<Longrightarrow> md_size d' = 48"
  by (auto simp: upb_MtDecoder_ParseMap_def bindE_Inr_conv Let_def sizeof_upb_MapEntry_def split: if_splits)

lemma unat_align_up_mod_8: "unat (of_nat (upb_align_up n 8) :: u16) mod 8 = 0"
proof -
  have "unat (of_nat (upb_align_up n 8) :: u16) = upb_align_up n 8 mod 65536" by (simp add: unat_of_nat)
  moreover have "8 dvd upb_align_up n 8" by (rule upb_align_up_bounds) simp
  ultimately show ?thesis by (simp add: mod_mod_cancel dvd_eq_mod_eq_0)
qed

lemma message_steps:
  assumes parse: "upb_MtDecoder_ParseMessage alloc
       \<lparr>md_fields = [], md_field_count = 0, md_platform = p, md_oneofs = [], md_oneofs_capacity = 0,
        md_rep_counts_offsets = (\<lambda>_. 0), md_is_extension = False, md_submsg_count = 0, md_subenum_count = 0,
        md_size = s, md_ext = 0, md_dense_below = 0, md_required_count = 0\<rparr> data = Inr (d0, subs)"
    and "length data \<le> 65532"
    and steps: "upb_MtDecoder_AssignHasbits d0 = Inr d1" "upb_MtDecoder_CalculateAlignments d1 = Inr d2"
  shows "\<exists>d3. upb_MtDecoder_AssignOffsets d2 = Inr d3 \<and> unat (md_size d3) mod 8 = 0"
proof -
  obtain css where "parsed p d0 css" "length (md_fields d0) + length (md_oneofs d0) \<le> 65532"
    using ParseMessage_fresh_parsed [OF assms(1,2)] by blast
  from message_layout [OF this steps] show ?thesis
    using unat_align_up_mod_8 by fastforce
qed


section \<open>A family of messages\<close>

text \<open>
  A message of \<open>n\<close> optional fields of type \<open>int32\<close>, the first of them in a oneof: its table for every \<open>n\<close>.
\<close>

definition int32_field :: "u32 \<Rightarrow> upb_MiniTableField" where
  "int32_field number = \<lparr>mtf_number = number, mtf_offset = kHasbitPresence, mtf_presence = 0, mtf_submsg_index = kUpb_NoSub,
     mtf_descriptortype = kUpb_FieldType_Int32, mtf_mode = 66\<rparr>"

lemma int32_field_simps [simp]:
  "mtf_number (int32_field k) = k" "mtf_offset (int32_field k) = kHasbitPresence"
  "upb_MiniTableField_GetRep (int32_field k) = kUpb_FieldRep_4Byte" "mtf_descriptortype (int32_field k) = kUpb_FieldType_Int32"
  by (simp_all add: int32_field_def upb_MiniTableField_GetRep_def)

definition int32s :: "nat \<Rightarrow> nat \<Rightarrow> upb_MiniTableField list" where
  "int32s l n = map (\<lambda>i. int32_field (of_nat i)) [Suc l..<Suc l + n]"

lemma length_int32s [simp]: "length (int32s l n) = n"
  by (simp add: int32s_def)

lemma nth_int32s [simp]: "i < n \<Longrightarrow> int32s l n ! i = int32_field (of_nat (Suc l + i))"
  by (simp add: int32s_def del: upt_Suc)

lemma int32s_0 [simp]: "int32s l 0 = []"
  by (simp add: int32s_def)

lemma int32s_Suc: "int32s l (Suc n) = int32_field (of_nat (Suc l)) # int32s (Suc l) n"
  by (rule nth_equalityI) (auto simp: nth_Cons split: nat.split)

lemma SetField_int32: "upb_MiniTable_SetField d 40 (new_field k) 0 = Inr (d, int32_field k)"
  by (simp add: upb_MiniTable_SetField_def upb_MiniTable_SetTypeAndSub_def upb_FromBase92_def kUpb_FromBase92_def
      upb_ToBase92_def kUpb_ToBase92_def kUpb_EncodedToType_def kUpb_EncodedToFieldRep_def new_field_def int32_field_def
      rep_number_def Let_def)

lemma parse_int32s:
  "\<not> md_is_extension d \<Longrightarrow> l + n < 2 ^ 29 \<Longrightarrow>
   mt_parse_loop alloc d (replicate n 40 @ rest) 0 (of_nat l) nd =
   mt_parse_loop alloc (d\<lparr>md_fields := md_fields d @ int32s l n, md_field_count := md_field_count d + of_nat n\<rparr>)
     rest 0 (of_nat (l + n)) nd"
proof (induction n arbitrary: d l)
  case 0
  then show ?case by simp
next
  case (Suc n)
  let ?d = "d\<lparr>md_field_count := md_field_count d + 1\<rparr>"
  let ?d' = "d\<lparr>md_fields := md_fields d @ [int32_field (of_nat (Suc l))], md_field_count := md_field_count d + 1\<rparr>"
  have num: "unat (of_nat l + 1 :: u32) = Suc l"
    using Suc.prems(2) by (simp add: unat_word_ariths unat_of_nat)
  have ok: "\<not> (of_nat l + 1 = (0 :: u32) \<or> of_nat l + 1 > kUpb_MaxFieldNumber \<and> \<not> md_is_extension ?d)"
    using num Suc.prems(2) by (auto simp: word_less_nat_alt kUpb_MaxFieldNumber_def unat_eq_zero [symmetric] simp del: unat_eq_zero)
  have "mt_parse_loop alloc d (replicate (Suc n) 40 @ rest) 0 (of_nat l) nd =
    mt_parse_loop alloc ?d' (replicate n 40 @ rest) 0 (of_nat (Suc l)) nd"
    using ok Suc.prems(1) by (cases d) (simp add: SetField_int32 Let_def add.commute)
  also have "\<dots> = mt_parse_loop alloc (?d'\<lparr>md_fields := md_fields ?d' @ int32s (Suc l) n, md_field_count := md_field_count ?d' + of_nat n\<rparr>)
     rest 0 (of_nat (Suc l + n)) nd"
    using Suc.prems by (intro Suc.IH) simp_all
  finally show ?case by (simp add: int32s_Suc add.assoc)
qed

definition int32s_decoder :: "mini_platform \<Rightarrow> nat \<Rightarrow> upb_MtDecoder" where
  "int32s_decoder p n =
     \<lparr>md_fields = (int32_field 1)\<lparr>mtf_offset := kUpb_OneOfLayoutItem_IndexSentinel\<rparr> # int32s 1 (n - 1), md_field_count = of_nat n,
      md_platform = p, md_oneofs = [(0, kUpb_FieldRep_4Byte)], md_oneofs_capacity = 32,
      md_rep_counts_offsets = (\<lambda>_. 0)(kUpb_FieldRep_4Byte := 2), md_is_extension = False, md_submsg_count = 0,
      md_subenum_count = 0, md_size = 8, md_ext = 0, md_dense_below = ucast (of_nat n :: u16), md_required_count = 0\<rparr>"

lemma find_int32s:
  assumes "md_fields d = int32s 0 n" "md_dense_below d = 0" "unat (md_field_count d) = n" "0 < n" "n < 2 ^ 29"
  shows "upb_MiniTable_FindFieldByNumber (md_table d [] kUpb_ExtMode_NonExtendable) 1 = Some 0"
proof -
  have "(of_nat (Suc i) :: u32) < of_nat (Suc j)" if "i < j" "j < n" for i j
    using that assms(5) by (simp add: word_less_nat_alt unat_of_nat del: of_nat_Suc)
  then have "mt_sorted (md_table d [] kUpb_ExtMode_NonExtendable)"
    using assms by (simp add: mt_sorted_def md_table_def sorted_wrt_iff_nth_less del: of_nat_Suc)
  then show ?thesis using assms by (simp add: FindFieldByNumber_iff md_table_def)
qed

lemma read_33: "upb_Base92_DecodeVarint [] 33 kUpb_EncodedValue_MinOneofField kUpb_EncodedValue_MaxOneofField = Some ([], 1)"
  by (simp add: upb_Base92_DecodeVarint_def upb_FromBase92_def kUpb_FromBase92_def)

lemma ParseMessage_int32s:
  assumes "0 < n" "n \<le> 65530"
  shows "upb_MtDecoder_ParseMessage (\<lambda>_. True)
       \<lparr>md_fields = [], md_field_count = 0, md_platform = p, md_oneofs = [], md_oneofs_capacity = 0,
        md_rep_counts_offsets = (\<lambda>_. 0), md_is_extension = False, md_submsg_count = 0, md_subenum_count = 0,
        md_size = 8, md_ext = 0, md_dense_below = 0, md_required_count = 0\<rparr> (replicate n 40 @ [94, 33]) =
    Inr (int32s_decoder p n, [])"
proof -
  let ?d = "\<lparr>md_fields = int32s 0 n, md_field_count = of_nat n, md_platform = p, md_oneofs = [], md_oneofs_capacity = 0,
        md_rep_counts_offsets = (\<lambda>_. 0), md_is_extension = False, md_submsg_count = 0, md_subenum_count = 0,
        md_size = 8, md_ext = 0, md_dense_below = 0, md_required_count = 0\<rparr>"
  obtain k where n: "n = Suc k" using assms by (cases n) auto
  have find: "upb_MiniTable_FindFieldByNumber (md_table ?d [] kUpb_ExtMode_NonExtendable) 1 = Some 0"
    using assms by (intro find_int32s) (simp_all add: unat_of_nat, linarith)
  have field: "upb_MtDecoder_DecodeOneofField ?d [] 33 (kUpb_OneOfLayoutItem_IndexSentinel, kUpb_FieldRep_1Byte) =
    Inr (?d\<lparr>md_fields := (int32_field 1)\<lparr>mtf_offset := kUpb_OneOfLayoutItem_IndexSentinel\<rparr> # int32s 1 (n - 1)\<rparr>, [],
      (3, kUpb_FieldRep_4Byte))"
    by (simp add: upb_MtDecoder_DecodeOneofField_def read_33 find) (simp add: n int32s_Suc rep_size_defs)
  have push: "upb_MtDecoder_PushOneof (\<lambda>_. True)
      (?d\<lparr>md_fields := (int32_field 1)\<lparr>mtf_offset := kUpb_OneOfLayoutItem_IndexSentinel\<rparr> # int32s 1 (n - 1)\<rparr>) (3, kUpb_FieldRep_4Byte) =
    Inr ((int32s_decoder p n)\<lparr>md_dense_below := 0\<rparr>)"
    by (simp add: upb_MtDecoder_PushOneof_def int32s_decoder_def sizeof_upb_OneOfLayoutItem_def kUpb_OneOf_CaseFieldRep_def
        kUpb_OneOfLayoutItem_IndexSentinel_def)
  have loop: "mt_parse_loop (\<lambda>_. True) ?d [94, 33] 0 (of_nat n) True = Inr ((int32s_decoder p n)\<lparr>md_dense_below := 0\<rparr>, [], True)"
    using push by (simp add: upb_MtDecoder_DecodeOneofs_def field)
  have "mt_parse_loop (\<lambda>_. True)
       \<lparr>md_fields = [], md_field_count = 0, md_platform = p, md_oneofs = [], md_oneofs_capacity = 0,
        md_rep_counts_offsets = (\<lambda>_. 0), md_is_extension = False, md_submsg_count = 0, md_subenum_count = 0,
        md_size = 8, md_ext = 0, md_dense_below = 0, md_required_count = 0\<rparr> (replicate n 40 @ [94, 33]) 0 0 True =
      Inr ((int32s_decoder p n)\<lparr>md_dense_below := 0\<rparr>, [], True)"
    using parse_int32s [of _ 0 n "\<lambda>_. True" "[94, 33]" True] loop assms(2) by simp
  then show ?thesis
    using assms by (simp add: upb_MtDecoder_ParseMessage_def upb_MtDecoder_Parse_def sizeof_upb_MiniTableField_def
        upb_MtDecoder_AllocateSubs_def set_dense_below_def) (simp add: int32s_decoder_def)
qed

definition int32s_base :: "nat \<Rightarrow> nat" where
  "int32s_base n = upb_align_up ((70 + n) div 8) 4"

lemma count_list_replicate: "count_list (replicate n x) y = (if x = y then n else 0)"
  by (induction n) auto

lemma CalculateAlignments_4Byte:
  assumes inv: "parsed p d css" and reqs: "all_requests d = replicate c kUpb_FieldRep_4Byte" and "0 < c" "c < 65536"
    and fits: "upb_align_up (unat (md_size d)) 4 + 4 * c \<le> 65535"
  shows "\<exists>r. upb_MtDecoder_CalculateAlignments d =
      Inr (d\<lparr>md_rep_counts_offsets := r, md_size := of_nat (upb_align_up (unat (md_size d)) 4 + 4 * c)\<rparr>) \<and>
    r kUpb_FieldRep_4Byte = of_nat (upb_align_up (unat (md_size d)) 4)"
proof -
  let ?c = "count_reps (md_fields d) (md_rep_counts_offsets d)"
  have all: "take (unat (md_field_count d)) (md_fields d) = md_fields d" and p: "md_platform d = p"
    and cnt: "oneofs_counted d"
    using inv by (auto simp: parsed_def parse_inv_def fields_counted_def)
  have c: "?c q = of_nat (count_list (all_requests d) q)" for q
    using cnt by (simp add: count_reps_spec oneofs_counted_def all_requests_def add.commute)
  have zero: "?c kUpb_FieldRep_1Byte = 0" "?c kUpb_FieldRep_StringView = 0" "?c kUpb_FieldRep_8Byte = 0"
    and four: "?c kUpb_FieldRep_4Byte = of_nat c" "unat (?c kUpb_FieldRep_4Byte) = c"
    using assms(4) by (simp_all add: c reqs count_list_replicate unat_of_nat)
  have "?c kUpb_FieldRep_4Byte \<noteq> 0" using four(2) assms(3) by auto
  with zero four(2) have fold: "foldl (reserve_rep p) (?c, unat (md_size d))
      [kUpb_FieldRep_1Byte, kUpb_FieldRep_4Byte, kUpb_FieldRep_StringView, kUpb_FieldRep_8Byte] =
    (?c(kUpb_FieldRep_4Byte := of_nat (upb_align_up (unat (md_size d)) 4)), upb_align_up (unat (md_size d)) 4 + 4 * c)"
    by (simp add: reserve_rep_step rep_size_defs)
  with fits show ?thesis
    by (intro exI [of _ "?c(kUpb_FieldRep_4Byte := of_nat (upb_align_up (unat (md_size d)) 4))"])
      (simp add: upb_MtDecoder_CalculateAlignments_def all p del: foldl.simps)
qed

lemma AssignHasbits_optional:
  assumes "fields_counted d" "class_count kRequiredPresence (md_fields d) = 0"
  shows "\<exists>d'. upb_MtDecoder_AssignHasbits d = Inr d'"
proof -
  obtain fs1 h1 where req: "assign_required (take (unat (md_field_count d)) (md_fields d)) 63 = (fs1, h1)" by fastforce
  obtain fs2 h2 where opt: "assign_optional fs1 h1 = (fs2, h2)" by fastforce
  have "h1 = 63" using assign_required_spec [OF req] assms by (simp add: fields_counted_def)
  then show ?thesis by (simp add: AssignHasbits_step [OF req opt])
qed

lemma hasbit_below_base [simp]: "\<not> kOneofBase \<le> kHasbitPresence"
  by (simp add: word_le_nat_alt)

lemma in_oneof_int32s: "\<not> in_oneof (int32_field k)" "in_oneof ((int32_field k)\<lparr>mtf_offset := kUpb_OneOfLayoutItem_IndexSentinel\<rparr>)"
  by (simp_all add: sentinel_ge_base)

lemma filter_int32s: "filter (\<lambda>f. \<not> in_oneof f) (int32s l k) = int32s l k" "class_count kHasbitPresence (int32s l k) = k"
  "class_count kRequiredPresence (int32s l k) = 0"
  by (simp_all add: int32s_def filter_map comp_def in_oneof_int32s)

lemma field_requests_int32s: "field_requests (int32s l k) = replicate k kUpb_FieldRep_4Byte"
  by (simp add: field_requests_def filter_int32s) (simp add: int32s_def comp_def map_replicate_const)

lemma take_int32s: "take i (int32s l k) = int32s l (min i k)"
  by (rule nth_equalityI) auto

lemma int32s_decoder_counts:
  assumes "0 < n"
  shows "class_count kRequiredPresence (md_fields (int32s_decoder p n)) = 0"
    "class_count kHasbitPresence (md_fields (int32s_decoder p n)) = n - 1"
    "field_requests (md_fields (int32s_decoder p n)) = replicate (n - 1) kUpb_FieldRep_4Byte"
    "length (md_fields (int32s_decoder p n)) = n"
    "i < n \<Longrightarrow> in_oneof (md_fields (int32s_decoder p n) ! i) \<longleftrightarrow> i = 0"
    "i < n \<Longrightarrow> 0 < i \<Longrightarrow> field_requests (take i (md_fields (int32s_decoder p n))) = replicate (i - 1) kUpb_FieldRep_4Byte"
    "i < n \<Longrightarrow> 0 < i \<Longrightarrow> class_count kHasbitPresence (take i (md_fields (int32s_decoder p n))) = i - 1"
proof -
  have sent: "kUpb_OneOfLayoutItem_IndexSentinel \<noteq> 1" "kUpb_OneOfLayoutItem_IndexSentinel \<noteq> 2"
    by (simp_all add: kUpb_OneOfLayoutItem_IndexSentinel_def)
  show "class_count kRequiredPresence (md_fields (int32s_decoder p n)) = 0"
    "class_count kHasbitPresence (md_fields (int32s_decoder p n)) = n - 1"
    "field_requests (md_fields (int32s_decoder p n)) = replicate (n - 1) kUpb_FieldRep_4Byte"
    "length (md_fields (int32s_decoder p n)) = n"
    using assms by (simp_all add: int32s_decoder_def filter_int32s sent field_requests_int32s in_oneof_int32s sentinel_ge_base)
  show "i < n \<Longrightarrow> in_oneof (md_fields (int32s_decoder p n) ! i) \<longleftrightarrow> i = 0"
    by (cases i) (simp_all add: int32s_decoder_def in_oneof_int32s sentinel_ge_base)
  show "i < n \<Longrightarrow> 0 < i \<Longrightarrow> field_requests (take i (md_fields (int32s_decoder p n))) = replicate (i - 1) kUpb_FieldRep_4Byte"
    "i < n \<Longrightarrow> 0 < i \<Longrightarrow> class_count kHasbitPresence (take i (md_fields (int32s_decoder p n))) = i - 1"
    by (cases i; simp add: int32s_decoder_def take_int32s field_requests_int32s filter_int32s sent in_oneof_int32s sentinel_ge_base)+
qed

text \<open>The table of the message with \<open>n\<close> fields, when it fits.\<close>

lemma Build_int32s:
  assumes n: "0 < n" and fits: "int32s_base n + 4 * (n + 1) \<le> 65535"
  shows "\<exists>m. upb_MiniTable_Build (\<lambda>_. True) p (36 # replicate n 40 @ [94, 33]) = Inr m \<and> length (mt_fields m) = n \<and>
    mt_size m = of_nat (upb_align_up (int32s_base n + 4 * (n + 1)) 8) \<and>
    mtf_presence (mt_fields m ! 0) = sint (NOT (of_nat (int32s_base n + 4 * (n - 1))) :: u16) \<and>
    unat (mtf_offset (mt_fields m ! 0)) = int32s_base n + 4 * n \<and>
    (\<forall>i<n. 0 < i \<longrightarrow> unat (mtf_offset (mt_fields m ! i)) = int32s_base n + 4 * (i - 1)) \<and>
    (\<forall>i<n. upb_MiniTableField_GetRep (mt_fields m ! i) = kUpb_FieldRep_4Byte)"
proof -
  let ?d = "int32s_decoder p n" and ?B = "int32s_base n"
  have n': "n \<le> 65530" using fits by simp
  note C = int32s_decoder_counts [OF n, where p = p]
  note parse = ParseMessage_int32s [OF n n', of p]
  obtain css where inv: "parsed p ?d css" using ParseMessage_fresh_parsed [OF parse] n' by fastforce
  have fc: "fields_counted ?d" using inv by (simp add: parsed_def parse_inv_def)
  obtain d1 where hb: "upb_MtDecoder_AssignHasbits ?d = Inr d1" using AssignHasbits_optional [OF fc C(1)] by blast
  have hbytes: "hasbit_bytes (md_fields ?d) = (70 + n) div 8" using n by (simp add: hasbit_bytes_def C)
  from AssignHasbits_spec(2) [OF hb fc] obtain flds where
    d1: "d1 = ?d\<lparr>md_required_count := 0, md_fields := flds, md_size := of_nat ((70 + n) div 8)\<rparr>"
    and flds: "length flds = n" "\<And>i. i < n \<Longrightarrow> flds ! i = with_presence (md_fields ?d) i" by (auto simp: C hbytes)
  have same: "same_layout (md_fields ?d) flds"
    using flds by (simp add: same_layout_def list_all2_conv_all_nth with_presence_def C(4))
  have inv1: "parsed p d1 css"
    using parsed_same [OF inv same] by (simp add: d1 parsed_def parse_inv_def fields_counted_def oneofs_counted_def)
  have reqs: "all_requests d1 = replicate (n + 1) kUpb_FieldRep_4Byte"
  proof -
    have "oneof_requests (md_oneofs d1) = replicate 2 kUpb_FieldRep_4Byte"
      by (simp add: d1 int32s_decoder_def kUpb_OneOf_CaseFieldRep_def numeral_2_eq_2)
    moreover have "n - 1 + 2 = n + 1" using n by simp
    ultimately show ?thesis
      using field_requests_same [OF same] by (simp add: all_requests_def d1 C(3) replicate_add [symmetric] del: replicate_add)
  qed
  have sz: "unat (md_size d1) = (70 + n) div 8" using n' by (simp add: d1 unat_of_nat)
  from CalculateAlignments_4Byte [OF inv1 reqs] fits obtain r where
    calc: "upb_MtDecoder_CalculateAlignments d1 = Inr (d1\<lparr>md_rep_counts_offsets := r, md_size := of_nat (?B + 4 * (n + 1))\<rparr>)"
    and r: "r kUpb_FieldRep_4Byte = of_nat ?B"
    unfolding sz by (auto simp: int32s_base_def)
  define d2 where "d2 = d1\<lparr>md_rep_counts_offsets := r, md_size := of_nat (?B + 4 * (n + 1))\<rparr>"
  have sel: "md_fields d2 = flds" "all_requests d2 = replicate (n + 1) kUpb_FieldRep_4Byte" "md_oneofs d2 = [(0, kUpb_FieldRep_4Byte)]"
    "md_size d2 = of_nat (?B + 4 * (n + 1))" "md_platform d2 = p" "fields_counted d2"
    "oneofs_wf p (md_fields d2) (md_oneofs d2) css (kUpb_OneOfLayoutItem_IndexSentinel, kUpb_FieldRep_1Byte) []"
    using inv1 reqs by (simp_all add: d2_def all_requests_def parsed_def parse_inv_def fields_counted_def)
      (simp_all add: d1 int32s_decoder_def)
  have base: "\<forall>q\<in>set (all_requests d2). md_rep_counts_offsets d2 q = of_nat ((\<lambda>_. ?B) q)"
    unfolding sel(2) by (simp add: r d2_def)
  from AssignOffsets_laid_out [OF sel(5,6,7) base] obtain fs r3 where
    off: "upb_MtDecoder_AssignOffsets d2 =
      Inr (d2\<lparr>md_fields := fs, md_rep_counts_offsets := r3, md_size := of_nat (upb_align_up (unat (md_size d2)) 8)\<rparr>)"
      "laid_out p (\<lambda>_. ?B) d2 css fs" by blast
  have pos: "slot_pos p (\<lambda>_. ?B) (all_requests d2) k = ?B + 4 * k" if "k < n + 1" for k
    using that by (simp add: sel(2) slot_pos_def rep_size_defs count_list_replicate del: replicate.simps)
  have len: "length fs = n" using off(2) flds by (simp add: laid_out_def sel(1))
  have oneof: "in_oneof (flds ! i) \<longleftrightarrow> i = 0" if "i < n" for i
    using C(5) [OF that] same_layout_nth [OF same] C(4) that by simp
  have css0: "0 \<in> set (css ! 0)" "length css = 1"
  proof -
    show "length css = 1" using sel(7) by (auto simp: oneofs_wf_def sel(3) dest: list_all2_lengthD)
    then obtain js where "css = [js]" by (cases css) auto
    then show "0 \<in> set (css ! 0)" using sel(7) oneof [OF n] flds(1) n by (auto simp: oneofs_wf_def sel(1))
  qed
  have case_ix: "case_slot_index d2 0 = n - 1"
    using field_requests_same [OF same] by (simp add: case_slot_index_def sel(1) C(3))
  have first: "fs ! 0 = (flds ! 0)\<lparr>mtf_presence := sint (NOT (of_nat (?B + 4 * (n - 1))) :: u16), mtf_offset := of_nat (?B + 4 * n)\<rparr>"
    using off(2) css0 pos [of "n - 1"] pos [of n] n by (simp add: laid_out_def sel(1,3) case_ix)
  have rest: "fs ! i = (flds ! i)\<lparr>mtf_offset := of_nat (?B + 4 * (i - 1))\<rparr>" if "i < n" "0 < i" for i
  proof -
    have "field_slot_index d2 i = i - 1"
      using field_requests_same [OF same_layout_take [OF same, of i]] C(6) [OF that] by (simp add: field_slot_index_def sel(1))
    then show ?thesis using off(2) oneof [OF that(1)] pos [of "i - 1"] that len by (simp add: laid_out_def sel(1))
  qed
  have rep: "upb_MiniTableField_GetRep (fs ! i) = kUpb_FieldRep_4Byte" if "i < n" for i
  proof -
    have "upb_MiniTableField_GetRep (md_fields ?d ! i) = kUpb_FieldRep_4Byte"
      using that by (cases i) (simp_all add: int32s_decoder_def)
    then show ?thesis using that first rest [OF that] same_layout_nth(3) [OF same] C(4) by (cases "i = 0") simp_all
  qed
  define m where "m = md_table (d2\<lparr>md_fields := fs, md_rep_counts_offsets := r3, md_size := of_nat (upb_align_up (unat (md_size d2)) 8)\<rparr>) [] (ext_mode (md_ext d2))"
  have mf: "mt_fields m = fs" using sel(6) len flds(1) by (simp add: m_def md_table_def fields_counted_def sel(1))
  have ms: "mt_size m = of_nat (upb_align_up (?B + 4 * (n + 1)) 8)"
  proof -
    have "unat (md_size d2) = ?B + 4 * (n + 1)" using fits by (simp only: sel(4) unat_of_nat) simp
    then show ?thesis by (simp add: m_def md_table_def)
  qed
  have "upb_MiniTable_Build (\<lambda>_. True) p (36 # replicate n 40 @ [94, 33]) = Inr m"
    using parse hb calc [folded d2_def] off(1) unat_align_up_mod_8
    by (simp add: upb_MiniTable_Build_def upb_MtDecoder_DoBuildMiniTableWithBuf_def kUpb_Reserved_Hasbytes_def m_def)
  moreover have exact: "unat (of_nat (?B + 4 * k) :: u16) = ?B + 4 * k" if "k \<le> n" for k
    using fits that by (simp only: unat_of_nat) simp
  moreover have "unat (mtf_offset (fs ! 0)) = ?B + 4 * n" using exact [of n] by (simp only: first) simp
  moreover have "unat (mtf_offset (fs ! i)) = ?B + 4 * (i - 1)" if "i < n" "0 < i" for i
    using exact [of "i - 1"] that by (simp only: rest) simp
  ultimately show ?thesis using first rep len by (intro exI [of _ m]) (simp add: mf ms)
qed



text \<open>
  C39: at the limit of the size, rounding up to eight bytes wraps the 16-bit size to 0: the fields of the
  table that the builder returns all lie outside of a message of that size.
\<close>

theorem Build_size_wraps_to_zero:
  "\<exists>m. upb_MiniTable_Build (\<lambda>_. True) p (kUpb_EncodedVersion_MessageV1 # replicate 15883 40 @ [kUpb_EncodedValue_End, 33]) = Inr m \<and>
     length (mt_fields m) = 15883 \<and> mt_size m = 0 \<and> list_all (\<lambda>f. unat (mtf_offset f) \<ge> 8) (mt_fields m)"
proof -
  have base: "int32s_base 15883 = 1996" by (simp add: int32s_base_def upb_align_up_def)
  then obtain m where m: "upb_MiniTable_Build (\<lambda>_. True) p (36 # replicate 15883 40 @ [94, 33]) = Inr m"
    "length (mt_fields m) = 15883" "mt_size m = of_nat (upb_align_up 65532 8)"
    "unat (mtf_offset (mt_fields m ! 0)) = 65528" "\<forall>i<15883. 0 < i \<longrightarrow> unat (mtf_offset (mt_fields m ! i)) = 1996 + 4 * (i - 1)"
    using Build_int32s [of 15883 p] by auto
  have "unat (mtf_offset (mt_fields m ! i)) \<ge> 8" if "i < 15883" for i
    using m(4,5) that by (cases "i = 0") auto
  with m(1-3) show ?thesis by (intro exI [of _ m]) (simp add: upb_align_up_def list_all_length)
qed


end
