(* ===== verification/Mini_Subs.thy ===== *)
theory Mini_Subs
  imports Mini_Build
begin

text \<open>
  Subtypes: the fields of a table that the builder returns refer to subtypes of their own kind, messages to
  messages and enums to enums, and never past the array; and linking keeps this.
\<close>

section \<open>Fields and counters\<close>

definition sub_wf :: "nat \<Rightarrow> nat \<Rightarrow> upb_FieldType \<times> u16 \<Rightarrow> bool" where
  "sub_wf msgs enums t \<longleftrightarrow>
     (fst t \<in> {kUpb_FieldType_Message, kUpb_FieldType_Group} \<longrightarrow> unat (snd t) < msgs) \<and>
     (fst t = kUpb_FieldType_Enum \<longrightarrow> unat (snd t) < enums)"

definition field_type :: "upb_MiniTableField \<Rightarrow> upb_FieldType \<times> u16" where
  "field_type f = (mtf_descriptortype f, mtf_submsg_index f)"

definition field_types :: "upb_MiniTableField list \<Rightarrow> (upb_FieldType \<times> u16) list" where
  "field_types flds = map field_type flds"

lemma sub_wf_mono: "sub_wf a b t \<Longrightarrow> a \<le> a' \<Longrightarrow> b \<le> b' \<Longrightarrow> sub_wf a' b' t"
  unfolding sub_wf_def by (meson less_le_trans)

lemma field_type_update [simp]:
  "field_type (f\<lparr>mtf_offset := x\<rparr>) = field_type f" "field_type (f\<lparr>mtf_presence := y\<rparr>) = field_type f"
  "field_type (f\<lparr>mtf_mode := z\<rparr>) = field_type f"
  by (simp_all add: field_type_def)

lemma field_types_update:
  assumes "field_type f = field_type (flds ! i)"
  shows "field_types (flds[i := f]) = field_types flds"
proof (cases "i < length flds")
  case True
  with assms show ?thesis unfolding field_types_def map_update by (metis list_update_id nth_map)
qed (simp add: field_types_def list_update_beyond)

text \<open>The counters of the parser bound the indices it has given out.\<close>

definition subs_counted :: "upb_MtDecoder \<Rightarrow> bool" where
  "subs_counted d \<longleftrightarrow>
     (\<forall>t\<in>set (field_types (md_fields d)). sub_wf (unat (md_submsg_count d)) (unat (md_subenum_count d)) t) \<and>
     unat (md_submsg_count d) + unat (md_subenum_count d) \<le> length (md_fields d)"

lemma field_type_collapse: "mtf_descriptortype f = t \<Longrightarrow> mtf_submsg_index f = i \<Longrightarrow> field_type f = (t, i)"
  by (simp add: field_type_def)

lemma SetTypeAndSub_shape:
  assumes "upb_MiniTable_SetTypeAndSub d f type m e = Inr (d', f')"
  obtains t f2 where "mtf_descriptortype f2 = t"
    "(if t = kUpb_FieldType_Message \<or> t = kUpb_FieldType_Group then (d\<lparr>md_submsg_count := md_submsg_count d + 1\<rparr>, f2\<lparr>mtf_submsg_index := md_submsg_count d\<rparr>)
      else if t = kUpb_FieldType_Enum then (d\<lparr>md_subenum_count := md_subenum_count d + 1\<rparr>, f2\<lparr>mtf_submsg_index := md_subenum_count d\<rparr>)
      else (d, f2\<lparr>mtf_submsg_index := kUpb_NoSub\<rparr>)) = (d', f')"
proof -
  define tf where "tf = (if e then (kUpb_FieldType_Int32, f\<lparr>mtf_mode := mtf_mode f OR kUpb_LabelFlags_IsAlternate\<rparr>)
               else if type = kUpb_FieldType_String \<and> m AND 1 = 0 then
                 (kUpb_FieldType_Bytes, f\<lparr>mtf_mode := mtf_mode f OR kUpb_LabelFlags_IsAlternate\<rparr>)
               else (type, f))"
  define f1 where "f1 = (snd tf)\<lparr>mtf_descriptortype := fst tf\<rparr>"
  define f2 where "f2 = (if upb_MtDecoder_FieldIsPackable f1 \<and> m AND 2 \<noteq> 0
                 then f1\<lparr>mtf_mode := mtf_mode f1 OR kUpb_LabelFlags_IsPacked\<rparr> else f1)"
  have desc: "mtf_descriptortype f2 = fst tf" by (simp add: f2_def f1_def)
  have eq: "upb_MiniTable_SetTypeAndSub d f type m e =
    (if e \<and> type \<noteq> kUpb_FieldType_Enum then Inl MtAssertFailed else Inr 
     (if fst tf = kUpb_FieldType_Message \<or> fst tf = kUpb_FieldType_Group then (d\<lparr>md_submsg_count := md_submsg_count d + 1\<rparr>, f2\<lparr>mtf_submsg_index := md_submsg_count d\<rparr>)
      else if fst tf = kUpb_FieldType_Enum then (d\<lparr>md_subenum_count := md_subenum_count d + 1\<rparr>, f2\<lparr>mtf_submsg_index := md_subenum_count d\<rparr>)
      else (d, f2\<lparr>mtf_submsg_index := kUpb_NoSub\<rparr>)))"
    unfolding upb_MiniTable_SetTypeAndSub_def Let_def tf_def [symmetric] case_prod_beta f1_def [symmetric] f2_def [symmetric]
    by (simp only: if_distrib [of Inr])
  have no: "(e \<and> type \<noteq> kUpb_FieldType_Enum) = False" using assms eq by (metis Inl_Inr_False)
  show ?thesis using assms unfolding eq no if_False sum.inject by (rule that [OF desc])
qed
lemma SetTypeAndSub_counted:
  assumes set: "upb_MiniTable_SetTypeAndSub d f type m e = Inr (d', f')"
    and small: "unat (md_submsg_count d) + unat (md_subenum_count d) < 65535"
  shows "\<exists>a b. d' = d\<lparr>md_submsg_count := a, md_subenum_count := b\<rparr> \<and> sub_wf (unat a) (unat b) (field_type f') \<and>
    unat (md_submsg_count d) \<le> unat a \<and> unat (md_subenum_count d) \<le> unat b \<and>
    unat a + unat b \<le> Suc (unat (md_submsg_count d) + unat (md_subenum_count d))"
proof -
  have inc: "unat (md_submsg_count d + 1) = Suc (unat (md_submsg_count d))"
    "unat (md_subenum_count d + 1) = Suc (unat (md_subenum_count d))"
    using small by (simp_all add: unat_word_ariths)
  obtain t f2 where t: "mtf_descriptortype f2 = t" and shape:
    "(if t = kUpb_FieldType_Message \<or> t = kUpb_FieldType_Group
      then (d\<lparr>md_submsg_count := md_submsg_count d + 1\<rparr>, f2\<lparr>mtf_submsg_index := md_submsg_count d\<rparr>)
      else if t = kUpb_FieldType_Enum
      then (d\<lparr>md_subenum_count := md_subenum_count d + 1\<rparr>, f2\<lparr>mtf_submsg_index := md_subenum_count d\<rparr>)
      else (d, f2\<lparr>mtf_submsg_index := kUpb_NoSub\<rparr>)) = (d', f')"
    using set by (rule SetTypeAndSub_shape)
  consider (msg) "t = kUpb_FieldType_Message \<or> t = kUpb_FieldType_Group" "field_type f' = (t, md_submsg_count d)"
      "d' = d\<lparr>md_submsg_count := md_submsg_count d + 1, md_subenum_count := md_subenum_count d\<rparr>"
    | (enum) "field_type f' = (kUpb_FieldType_Enum, md_subenum_count d)"
      "d' = d\<lparr>md_submsg_count := md_submsg_count d, md_subenum_count := md_subenum_count d + 1\<rparr>"
    | (none) "fst (field_type f') \<notin> {kUpb_FieldType_Message, kUpb_FieldType_Group, kUpb_FieldType_Enum}"
      "d' = d\<lparr>md_submsg_count := md_submsg_count d, md_subenum_count := md_subenum_count d\<rparr>"
  proof (cases "t = kUpb_FieldType_Message \<or> t = kUpb_FieldType_Group")
    case True
    with shape t show ?thesis by (intro msg) (auto simp: field_type_def)
  next
    case False
    show ?thesis
    proof (cases "t = kUpb_FieldType_Enum")
      case True
      with shape t show ?thesis by (intro enum) (auto simp: field_type_def)
    next
      case no_enum: False
      with False shape t show ?thesis by (intro none) (auto simp: field_type_def)
    qed
  qed
  then show ?thesis
  proof cases
    case msg
    have "sub_wf (unat (md_submsg_count d + 1)) (unat (md_subenum_count d)) (field_type f')"
      using msg(1,2) inc by (auto simp: sub_wf_def)
    with msg(3) inc show ?thesis by (metis add_Suc le_refl lessI less_imp_le)
  next
    case enum
    have "sub_wf (unat (md_submsg_count d)) (unat (md_subenum_count d + 1)) (field_type f')"
      using enum(1) inc by (auto simp: sub_wf_def)
    with enum(2) inc show ?thesis by (metis add_Suc_right le_refl lessI less_imp_le)
  next
    case none
    have "sub_wf (unat (md_submsg_count d)) (unat (md_subenum_count d)) (field_type f')"
      using none(1) by (auto simp: sub_wf_def)
    with none(2) show ?thesis by (metis le_refl lessI less_imp_le)
  qed
qed

lemma SetField_counted:
  assumes set: "upb_MiniTable_SetField d ch f m = Inr (d', f')"
    and small: "unat (md_submsg_count d) + unat (md_subenum_count d) < 65535"
  shows "\<exists>a b. d' = d\<lparr>md_submsg_count := a, md_subenum_count := b\<rparr> \<and> sub_wf (unat a) (unat b) (field_type f') \<and>
    unat (md_submsg_count d) \<le> unat a \<and> unat (md_subenum_count d) \<le> unat b \<and>
    unat a + unat b \<le> Suc (unat (md_submsg_count d) + unat (md_subenum_count d))"
proof -
  obtain t f2 e where "upb_MiniTable_SetTypeAndSub d f2 t m e = Inr (d', f')"
    using set by (auto simp: upb_MiniTable_SetField_def bindE_Inr_conv Let_def simp del: not_less not_le split: if_splits)
  then show ?thesis using small by (rule SetTypeAndSub_counted)
qed

lemma SetField_subs_counted:
  assumes set: "upb_MiniTable_SetField (d\<lparr>md_field_count := c\<rparr>) ch f m = Inr (d', f')"
    and cnt: "subs_counted d" and small: "length (md_fields d) \<le> 65532"
  shows "subs_counted (d'\<lparr>md_fields := md_fields d' @ [f']\<rparr>)"
proof -
  have "unat (md_submsg_count (d\<lparr>md_field_count := c\<rparr>)) + unat (md_subenum_count (d\<lparr>md_field_count := c\<rparr>)) < 65535"
    using cnt small by (simp add: subs_counted_def)
  from SetField_counted [OF set this] obtain a b where ab: "d' = d\<lparr>md_field_count := c, md_submsg_count := a, md_subenum_count := b\<rparr>"
    "sub_wf (unat a) (unat b) (field_type f')" "unat (md_submsg_count d) \<le> unat a" "unat (md_subenum_count d) \<le> unat b"
    "unat a + unat b \<le> Suc (unat (md_submsg_count d) + unat (md_subenum_count d))" by auto
  then show ?thesis
    using cnt sub_wf_mono [OF _ ab(3,4)] by (auto simp: subs_counted_def field_types_def)
qed

lemma ModifyField_type:
  "upb_MtDecoder_ModifyField m f = Inr f' \<Longrightarrow> field_type f' = field_type f \<or> fst (field_type f') = kUpb_FieldType_String"
  by (auto simp: upb_MtDecoder_ModifyField_def bindE_Inr_conv Let_def field_type_def split: if_splits)

lemma ParseModifier_subs_counted:
  assumes "upb_MtDecoder_ParseModifier d ptr ch m = Inr (d', ptr', m')" and "subs_counted d"
  shows "subs_counted d'" "length (md_fields d') = length (md_fields d)" "md_is_extension d' = md_is_extension d"
proof -
  have *: "subs_counted d' \<and> length (md_fields d') = length (md_fields d) \<and> md_is_extension d' = md_is_extension d"
  proof (cases "md_fields d = []")
    case True
    with assms show ?thesis by (auto simp: upb_MtDecoder_ParseModifier_def split: option.splits if_splits)
  next
    case False
    then obtain md f where f: "upb_MtDecoder_ModifyField md (last (md_fields d)) = Inr f"
      "d' = d\<lparr>md_fields := update_last (\<lambda>_. f) (md_fields d)\<rparr>"
      using assms by (auto simp: upb_MtDecoder_ParseModifier_def bindE_Inr_conv split: option.splits)
    have "sub_wf (unat (md_submsg_count d)) (unat (md_subenum_count d)) (field_type f)"
      using ModifyField_type [OF f(1)] assms(2) last_in_set [OF False]
      by (auto simp: subs_counted_def field_types_def sub_wf_def)
    with False assms(2) f(2) show ?thesis
      by (auto simp: subs_counted_def field_types_def update_last_def dest: in_set_butlastD)
  qed
  then show "subs_counted d'" "length (md_fields d') = length (md_fields d)" "md_is_extension d' = md_is_extension d" by auto
qed

text \<open>The oneofs keep the types and the counters.\<close>

definition same_subs :: "upb_MtDecoder \<Rightarrow> upb_MtDecoder \<Rightarrow> bool" where
  "same_subs d d' \<longleftrightarrow> field_types (md_fields d') = field_types (md_fields d) \<and>
     md_submsg_count d' = md_submsg_count d \<and> md_subenum_count d' = md_subenum_count d"

lemma same_subs_length: "same_subs d d' \<Longrightarrow> length (md_fields d') = length (md_fields d)"
  by (metis same_subs_def field_types_def length_map)

lemma same_subs_counted: "same_subs d d' \<Longrightarrow> subs_counted d \<Longrightarrow> subs_counted d'"
  by (simp add: subs_counted_def same_subs_length) (simp add: same_subs_def)

lemma same_subs_refl [simp]: "same_subs d d"
  by (simp add: same_subs_def)

lemma same_subs_trans [trans]: "same_subs d d' \<Longrightarrow> same_subs d' d'' \<Longrightarrow> same_subs d d''"
  by (simp add: same_subs_def)

lemma PushOneof_same: "upb_MtDecoder_PushOneof alloc d it = Inr d' \<Longrightarrow> same_subs d d'"
  by (auto simp: upb_MtDecoder_PushOneof_def bindE_Inr_conv Let_def same_subs_def split: if_splits)

lemma DecodeOneofField_same:
  "upb_MtDecoder_DecodeOneofField d ptr ch it = Inr (d', ptr', it') \<Longrightarrow> same_subs d d'"
  by (auto simp: upb_MtDecoder_DecodeOneofField_def Let_def same_subs_def field_types_update
      simp del: not_less not_le split: option.splits prod.splits if_splits)

lemma decode_oneofs_loop_same: "decode_oneofs_loop alloc d ptr it = Inr (d', it') \<Longrightarrow> same_subs d d'"
proof (induction alloc d ptr it rule: decode_oneofs_loop.induct)
  case (2 alloc d ch ptr it)
  then show ?case
    by (auto simp: bindE_Inr_conv split: if_splits prod.splits dest: PushOneof_same DecodeOneofField_same intro: same_subs_trans)
qed simp

lemma DecodeOneofs_same: "upb_MtDecoder_DecodeOneofs alloc d ptr = Inr d' \<Longrightarrow> same_subs d d'"
  by (auto simp: upb_MtDecoder_DecodeOneofs_def bindE_Inr_conv dest!: decode_oneofs_loop_same PushOneof_same
      intro: same_subs_trans)

section \<open>The parse and the later passes\<close>

lemma mt_parse_loop_subs:
  "mt_parse_loop alloc d ptr m l nd = Inr (d', ptr', nd') \<Longrightarrow> subs_counted d \<Longrightarrow> \<not> md_is_extension d \<Longrightarrow>
   length (md_fields d) + length ptr \<le> 65532 \<Longrightarrow>
   subs_counted d' \<and> length (md_fields d') \<le> length (md_fields d) + length ptr"
proof (induction alloc d ptr m l nd rule: mt_parse_loop.induct)
  case (1 alloc d m l nd)
  then show ?case by auto
next
  case (2 alloc d ch ptr m l nd)
  let ?field = "sint ch \<le> sint kUpb_EncodedValue_MaxField"
  let ?modifier = "sint kUpb_EncodedValue_MinModifier \<le> sint ch \<and> sint ch \<le> sint kUpb_EncodedValue_MaxModifier"
  let ?dc = "d\<lparr>md_field_count := md_field_count d + 1\<rparr>"
  consider (field) d1 f where ?field "\<not> (md_is_extension d \<and> md_fields d \<noteq> [])"
      "\<not> (l + 1 = 0 \<or> l + 1 > kUpb_MaxFieldNumber \<and> \<not> md_is_extension ?dc)"
      "upb_MiniTable_SetField ?dc ch (new_field (l + 1)) m = Inr (d1, f)"
      "mt_parse_loop alloc (d1\<lparr>md_fields := md_fields d1 @ [f]\<rparr>) ptr m (l + 1) nd = Inr (d', ptr', nd')"
    | (modifier) d1 ptr1 m1 where "\<not> ?field" ?modifier "upb_MtDecoder_ParseModifier d ptr ch m = Inr (d1, ptr1, m1)"
      "mt_parse_loop alloc (if m1 AND 4 \<noteq> 0 then d1\<lparr>md_ext := md_ext d1 OR 1\<rparr> else d1) ptr1 m1 l nd = Inr (d', ptr', nd')"
    | (oneofs) "upb_MtDecoder_DecodeOneofs alloc d ptr = Inr d'"
    | (skip) ptr1 skip where "\<not> ?field" "\<not> ?modifier" "ch \<noteq> kUpb_EncodedValue_End"
      "sint kUpb_EncodedValue_MinSkip \<le> sint ch \<and> sint ch \<le> sint kUpb_EncodedValue_MaxSkip"
      "upb_Base92_DecodeVarint ptr ch kUpb_EncodedValue_MinSkip kUpb_EncodedValue_MaxSkip = Some (ptr1, skip)"
      "mt_parse_loop alloc (if nd then set_dense_below d else d) ptr1 m (l + skip - 1) False = Inr (d', ptr', nd')"
    using "2.prems"(1,3)
    by (auto simp: Let_def bindE_Inr_conv simp del: not_less not_le split: if_splits option.splits prod.splits)
  then show ?case
  proof cases
    case field
    have "length (md_fields d) \<le> 65532" using "2.prems"(4) by simp
    from SetField_subs_counted [OF field(4) "2.prems"(2) this] SetField_offset(1) [OF field(4)]
      "2.IH"(1) [OF field(1,2) refl refl field(3,4) refl field(5)] "2.prems"(3,4)
    show ?thesis by auto
  next
    case modifier
    note pm = ParseModifier_subs_counted [OF modifier(3) "2.prems"(2)]
    let ?d = "if m1 AND 4 \<noteq> 0 then d1\<lparr>md_ext := md_ext d1 OR 1\<rparr> else d1"
    have "subs_counted ?d" "\<not> md_is_extension ?d" "length (md_fields ?d) = length (md_fields d)"
      using pm "2.prems"(3) by (auto simp: subs_counted_def)
    with "2.IH"(2) [OF modifier(1,2,3) refl refl refl modifier(4)] "2.prems"(4) ParseModifier_length [OF modifier(3)]
    show ?thesis by fastforce
  next
    case oneofs
    note same = DecodeOneofs_same [OF this]
    show ?thesis using same_subs_counted [OF same "2.prems"(2)] same_subs_length [OF same] by simp
  next
    case skip
    let ?d = "if nd then set_dense_below d else d"
    have "subs_counted ?d" "\<not> md_is_extension ?d" "length (md_fields ?d) = length (md_fields d)"
      using "2.prems"(2,3) by (auto simp: set_dense_below_def subs_counted_def)
    with "2.IH"(3) [OF skip(1,2,3,4) refl skip(5) refl skip(6)] "2.prems"(4) DecodeVarint_length [OF skip(5)]
    show ?thesis by fastforce
  qed
qed

definition is_msg_sub :: "upb_MiniTableSub \<Rightarrow> bool" where
  "is_msg_sub s \<longleftrightarrow> (case s of SubMsg _ \<Rightarrow> True | _ \<Rightarrow> False)"

definition is_enum_sub :: "upb_MiniTableSub \<Rightarrow> bool" where
  "is_enum_sub s \<longleftrightarrow> (case s of SubEnum _ \<Rightarrow> True | _ \<Rightarrow> False)"

text \<open>A field's type and index fit the array of subtypes.\<close>

definition sub_typed :: "upb_MiniTableSub list \<Rightarrow> upb_FieldType \<times> u16 \<Rightarrow> bool" where
  "sub_typed subs t \<longleftrightarrow>
     (fst t \<in> {kUpb_FieldType_Message, kUpb_FieldType_Group} \<longrightarrow> unat (snd t) < length subs \<and> is_msg_sub (subs ! unat (snd t))) \<and>
     (fst t = kUpb_FieldType_Enum \<longrightarrow> unat (snd t) < length subs \<and> is_enum_sub (subs ! unat (snd t)))"

definition subs_typed :: "upb_MiniTable \<Rightarrow> bool" where
  "subs_typed m \<longleftrightarrow> (\<forall>f\<in>set (mt_fields m). sub_typed (mt_subs m) (field_type f))"

lemma AllocateSubs_typed:
  assumes alloc: "upb_MtDecoder_AllocateSubs alloc d = Inr (d', subs)" and cnt: "subs_counted d"
    and small: "length (md_fields d) \<le> 65532" and fc: "fields_counted d"
  shows "\<forall>t\<in>set (field_types (md_fields d')). sub_typed subs t"
proof
  let ?a = "md_submsg_count d" and ?b = "md_subenum_count d"
  fix t assume t: "t \<in> set (field_types (md_fields d'))"
  have all: "take (unat (md_field_count d)) (md_fields d) = md_fields d" "drop (unat (md_field_count d)) (md_fields d) = []"
    using fc by (simp_all add: fields_counted_def)
  have subs: "subs = replicate (unat ?a) (SubMsg MT_Empty) @ replicate (unat ?b) (SubEnum null_enum)"
    and fields: "md_fields d' = (if unat ?b \<noteq> 0 then map (\<lambda>f. if mtf_descriptortype f = kUpb_FieldType_Enum
        then f\<lparr>mtf_submsg_index := mtf_submsg_index f + ?a\<rparr> else f) (md_fields d) else md_fields d)"
    using alloc all by (auto simp: upb_MtDecoder_AllocateSubs_def Let_def split: if_splits)
  obtain f where f: "f \<in> set (md_fields d)" and tf: "t = (if unat ?b \<noteq> 0 \<and> mtf_descriptortype f = kUpb_FieldType_Enum
      then (kUpb_FieldType_Enum, mtf_submsg_index f + ?a) else field_type f)"
    using t by (auto simp: fields field_types_def field_type_def split: if_splits)
  have wf: "sub_wf (unat ?a) (unat ?b) (field_type f)" "unat ?a + unat ?b \<le> 65532"
    using cnt small f by (auto simp: subs_counted_def field_types_def)
  show "sub_typed subs t"
  proof (cases "mtf_descriptortype f = kUpb_FieldType_Enum")
    case True
    then have less: "unat (mtf_submsg_index f) < unat ?b" using wf(1) by (simp add: sub_wf_def field_type_def)
    then have "unat (mtf_submsg_index f + ?a) = unat (mtf_submsg_index f) + unat ?a"
      using wf(2) by (simp add: unat_word_ariths)
    moreover have "t = (kUpb_FieldType_Enum, mtf_submsg_index f + ?a)" using tf True less by auto
    ultimately show ?thesis using less by (simp add: sub_typed_def subs nth_append is_enum_sub_def)
  next
    case False
    then show ?thesis using tf wf(1) by (auto simp: sub_typed_def subs nth_append is_msg_sub_def sub_wf_def field_type_def)
  qed
qed

lemma ParseMessage_typed:
  assumes parse: "upb_MtDecoder_ParseMessage alloc d data = Inr (d', subs)"
    and fresh: "md_platform d = p" "md_oneofs d = []" "md_rep_counts_offsets d = (\<lambda>_. 0)" "\<not> md_is_extension d" "md_dense_below d = 0"
    and small: "length data \<le> 65532"
  shows "(\<forall>t\<in>set (field_types (md_fields d')). sub_typed subs t) \<and> fields_counted d'"
proof -
  let ?d = "d\<lparr>md_fields := [], md_field_count := 0, md_submsg_count := 0, md_subenum_count := 0\<rparr>"
  obtain d1 ptr1 nd1 where loop: "mt_parse_loop alloc ?d data 0 0 True = Inr (d1, ptr1, nd1)"
    and subs: "upb_MtDecoder_AllocateSubs alloc (if nd1 then set_dense_below d1 else d1) = Inr (d', subs)"
    using parse fresh(4)
    by (auto simp: upb_MtDecoder_ParseMessage_def upb_MtDecoder_Parse_def bindE_Inr_conv Let_def split: if_splits)
  have "subs_counted ?d" by (simp add: subs_counted_def field_types_def)
  with mt_parse_loop_subs [OF loop] fresh(4) small have cnt: "subs_counted d1" "length (md_fields d1) \<le> 65532" by auto
  have "parsed p ?d []" using fresh by (simp add: parsed_Nil fields_counted_def)
  from mt_parse_loop_parsed [OF loop this] fresh(4) small obtain css where css: "parsed p d1 css" by auto
  let ?d1 = "if nd1 then set_dense_below d1 else d1"
  have parsed1: "parsed p ?d1 css" using css set_dense_below_parsed by auto
  have "subs_counted ?d1" "length (md_fields ?d1) \<le> 65532"
    using cnt by (auto simp: set_dense_below_def subs_counted_def)
  moreover have "fields_counted ?d1" using parsed1 unfolding parsed_def parse_inv_def by blast
  moreover have "fields_counted d'"
    using AllocateSubs_parsed(1) [OF subs parsed1] unfolding parsed_def parse_inv_def by blast
  ultimately show ?thesis using AllocateSubs_typed [OF subs] by blast
qed

text \<open>
  What the layout leaves alone: whatever does not depend on the offset and the presence of a field is, field by
  field, the same after the passes.
\<close>

locale layout_independent =
  fixes g :: "upb_MiniTableField \<Rightarrow> 'a"
  assumes offset: "g (f\<lparr>mtf_offset := x\<rparr>) = g f" and presence: "g (f\<lparr>mtf_presence := y\<rparr>) = g f"
begin

lemma update:
  assumes "g f = g (flds ! i)"
  shows "map g (flds[i := f]) = map g flds"
proof (cases "i < length flds")
  case True
  with assms show ?thesis unfolding map_update by (metis list_update_id nth_map)
qed (simp add: list_update_beyond)

lemma AssignHasbits:
  assumes "upb_MtDecoder_AssignHasbits d = Inr d'" and "fields_counted d"
  shows "map g (md_fields d') = map g (md_fields d)" "fields_counted d'"
proof -
  obtain fs where d': "md_fields d' = fs" "md_field_count d' = md_field_count d" "md_dense_below d' = md_dense_below d"
    and fs: "length fs = length (md_fields d)" "\<forall>i<length (md_fields d). fs ! i = with_presence (md_fields d) i"
    using AssignHasbits_spec(2) [OF assms] by auto
  show "map g (md_fields d') = map g (md_fields d)"
    by (rule nth_equalityI) (use d' fs in \<open>simp_all add: with_presence_def presence\<close>)
  show "fields_counted d'" using assms(2) d' fs(1) by (simp add: fields_counted_def)
qed

lemma assign_field_offsets: "assign_field_offsets p r flds = (flds', r') \<Longrightarrow> map g flds' = map g flds"
proof (induction flds arbitrary: r flds')
  case (Cons f flds)
  then show ?case by (force simp: Let_def Place_advance offset split: if_splits prod.splits)
qed simp

lemma assign_oneof_chain: "assign_oneof_chain fuel n c x i flds = Inr flds' \<Longrightarrow> map g flds' = map g flds"
  by (induction fuel n c x i flds arbitrary: flds' rule: assign_oneof_chain.induct)
    (auto simp: Let_def update offset presence split: if_splits)

lemma assign_oneofs: "assign_oneofs p n r items flds = Inr (flds', r') \<Longrightarrow> map g flds' = map g flds"
proof (induction items arbitrary: r flds)
  case (Cons it items)
  then show ?case by (fastforce simp: Let_def bindE_Inr_conv Place_advance dest: assign_oneof_chain)
qed simp

lemma AssignOffsets:
  assumes "upb_MtDecoder_AssignOffsets d = Inr d'" and "fields_counted d"
  shows "map g (md_fields d') = map g (md_fields d)" "fields_counted d'"
proof -
  obtain fs r flds r' where fs: "Mini_Message.assign_field_offsets (md_platform d) (md_rep_counts_offsets d) (md_fields d) = (fs, r)"
    and flds: "Mini_Message.assign_oneofs (md_platform d) (unat (md_field_count d)) r (md_oneofs d) fs = Inr (flds, r')"
    and d': "md_fields d' = flds" "md_field_count d' = md_field_count d" "md_dense_below d' = md_dense_below d"
    using assms by (auto simp: upb_MtDecoder_AssignOffsets_def bindE_Inr_conv fields_counted_def Let_def split: prod.splits)
  have same: "map g flds = map g (md_fields d)"
    using assign_field_offsets [OF fs] assign_oneofs [OF flds] by simp
  then show "map g (md_fields d') = map g (md_fields d)" using d'(1) by simp
  have "length flds = length (md_fields d)" using same by (rule map_eq_imp_length_eq)
  then show "fields_counted d'" using assms(2) d' by (simp add: fields_counted_def)
qed

end

interpretation field_kind: layout_independent field_type
  by unfold_locales simp_all

lemmas AssignHasbits_types = field_kind.AssignHasbits [folded field_types_def]
lemmas AssignOffsets_types = field_kind.AssignOffsets [folded field_types_def]

lemma CalculateAlignments_types:
  "upb_MtDecoder_CalculateAlignments d = Inr d' \<Longrightarrow> md_fields d' = md_fields d \<and> md_field_count d' = md_field_count d \<and> md_dense_below d' = md_dense_below d"
  by (auto simp: upb_MtDecoder_CalculateAlignments_def Let_def split: prod.splits if_splits)

lemma md_table_typed:
  assumes "fields_counted d" and "\<forall>t\<in>set (field_types (md_fields d)). sub_typed subs t"
  shows "subs_typed (md_table d subs ext)"
  using assms by (simp add: subs_typed_def md_table_def fields_counted_def field_types_def)

lemma ParseMap_typed:
  assumes parse: "upb_MtDecoder_ParseMap alloc d data = Inr (d', subs)"
    and fresh: "md_platform d = p" "md_oneofs d = []" "md_rep_counts_offsets d = (\<lambda>_. 0)" "\<not> md_is_extension d" "md_dense_below d = 0"
    and small: "length data \<le> 65532"
  shows "(\<forall>t\<in>set (field_types (md_fields d')). sub_typed subs t) \<and> fields_counted d'"
proof -
  obtain d0 d1 where steps: "upb_MtDecoder_ParseMessage alloc d data = Inr (d0, subs)" "upb_MtDecoder_AssignHasbits d0 = Inr d1"
    and d': "md_fields d' = (let fs = (md_fields d1)[0 := (md_fields d1 ! 0)\<lparr>mtf_offset := of_nat upb_MapEntry_k\<rparr>]
        in fs[1 := (fs ! 1)\<lparr>mtf_offset := of_nat upb_MapEntry_v\<rparr>])"
      "md_field_count d' = md_field_count d1" "md_dense_below d' = md_dense_below d1"
    using parse by (auto simp: upb_MtDecoder_ParseMap_def bindE_Inr_conv Let_def split: if_splits prod.splits)
  note msg = ParseMessage_typed [OF steps(1) fresh small]
  note hb = AssignHasbits_types [OF steps(2)]
  have types: "field_types (md_fields d') = field_types (md_fields d1)"
  proof -
    have upd: "field_types (fs[i := (fs ! i)\<lparr>mtf_offset := x\<rparr>]) = field_types fs" for fs i x
      by (rule field_types_update) simp
    show ?thesis unfolding d'(1) Let_def upd ..
  qed
  then have "length (md_fields d') = length (md_fields d1)" by (metis field_types_def length_map)
  then show ?thesis using msg hb types d' by (simp add: fields_counted_def)
qed

lemma Build_typed:
  assumes build: "upb_MiniTable_Build alloc p data = Inr m" and small: "length data \<le> 65533"
  shows "subs_typed m"
proof (cases data)
  case Nil
  with build have "mt_fields m = []"
    by (auto simp: upb_MiniTable_Build_def upb_MtDecoder_DoBuildMiniTableWithBuf_def md_table_def Let_def split: if_splits)
  then show ?thesis by (simp add: subs_typed_def)
next
  case (Cons vers rest)
  let ?d = "\<lparr>md_fields = [], md_field_count = 0, md_platform = p, md_oneofs = [], md_oneofs_capacity = 0,
        md_rep_counts_offsets = (\<lambda>_. 0), md_is_extension = False, md_submsg_count = 0, md_subenum_count = 0,
        md_size = 8, md_ext = 0, md_dense_below = 0, md_required_count = 0\<rparr>"
  have rest: "length rest \<le> 65532" using small Cons by simp
  consider (map) d subs where "upb_MtDecoder_ParseMap alloc ?d rest = Inr (d, subs)" "m = md_table d subs (ext_mode (md_ext d))"
    | (msg) d0 subs d1 d2 d3 where "upb_MtDecoder_ParseMessage alloc ?d rest = Inr (d0, subs)" "upb_MtDecoder_AssignHasbits d0 = Inr d1"
        "upb_MtDecoder_CalculateAlignments d1 = Inr d2" "upb_MtDecoder_AssignOffsets d2 = Inr d3" "m = md_table d3 subs (ext_mode (md_ext d3))"
    | (set) "mt_fields m = []"
    using build Cons
    by (auto simp: upb_MiniTable_Build_def upb_MtDecoder_DoBuildMiniTableWithBuf_def bindE_Inr_conv md_table_def
        upb_MtDecoder_ParseMessageSet_def kUpb_Reserved_Hasbytes_def Let_def split: if_splits)
  then show ?thesis
  proof cases
    case map
    from ParseMap_typed [OF map(1) _ _ _ _ _ rest, of p] have
      "(\<forall>t\<in>set (field_types (md_fields d)). sub_typed subs t) \<and> fields_counted d" by simp
    then show ?thesis unfolding map(2) by (intro md_table_typed) blast+
  next
    case msg
    from ParseMessage_typed [OF msg(1) _ _ _ _ _ rest, of p] have
      parsed: "\<forall>t\<in>set (field_types (md_fields d0)). sub_typed subs t" "fields_counted d0" by simp_all
    note hb = AssignHasbits_types [OF msg(2) parsed(2)] and calc = CalculateAlignments_types [OF msg(3)]
    have "fields_counted d2" using hb(2) calc by (simp add: fields_counted_def)
    note off = AssignOffsets_types [OF msg(4) this]
    show ?thesis unfolding msg(5) using parsed(1) hb(1) calc off by (intro md_table_typed) simp_all
  next
    case set
    then show ?thesis by (simp add: subs_typed_def)
  qed
qed

section \<open>Linking\<close>

lemma is_sub_simps [simp]:
  "is_msg_sub (SubMsg r)" "\<not> is_msg_sub (SubEnum e)" "is_enum_sub (SubEnum e)" "\<not> is_enum_sub (SubMsg r)"
  by (simp_all add: is_msg_sub_def is_enum_sub_def)

lemma sub_typed_link:
  assumes "sub_typed subs t" "sub_typed subs u"
    and "is_msg_sub s \<and> fst u \<in> {kUpb_FieldType_Message, kUpb_FieldType_Group} \<or> is_enum_sub s \<and> fst u = kUpb_FieldType_Enum"
  shows "sub_typed (subs[unat (snd u) := s]) t"
  using assms by (cases "unat (snd t) = unat (snd u)") (auto simp: sub_typed_def is_msg_sub_def is_enum_sub_def split: upb_MiniTableSub.splits)

lemma field_typesD: "field_types flds = field_types flds' \<Longrightarrow> (\<forall>f\<in>set flds. P (field_type f)) = (\<forall>f\<in>set flds'. P (field_type f))"
  by (metis (no_types, lifting) field_types_def image_iff list.set_map)

lemma SetSubMessage_typed:
  assumes set: "upb_MiniTable_SetSubMessage m i sub is_map = Some m'" and typed: "subs_typed m" and i: "i < length (mt_fields m)"
  shows "subs_typed m'" "length (mt_fields m') = length (mt_fields m)"
proof -
  let ?f = "mt_fields m ! i"
  have kind: "fst (field_type ?f) \<in> {kUpb_FieldType_Message, kUpb_FieldType_Group}"
    using set by (auto simp: upb_MiniTable_SetSubMessage_def field_type_def Let_def split: upb_FieldType.splits)
  have subs: "mt_subs m' = (mt_subs m)[unat (snd (field_type ?f)) := SubMsg sub]"
    using set by (auto simp: upb_MiniTable_SetSubMessage_def field_type_def Let_def split: upb_FieldType.splits if_splits)
  have types: "field_types (mt_fields m') = field_types (mt_fields m)"
    using set by (auto simp: upb_MiniTable_SetSubMessage_def Let_def field_types_update split: upb_FieldType.splits if_splits)
  then show "length (mt_fields m') = length (mt_fields m)" by (metis field_types_def length_map)
  have "sub_typed (mt_subs m') (field_type f)" if "f \<in> set (mt_fields m)" for f
    unfolding subs by (rule sub_typed_link) (use typed that i kind in \<open>auto simp: subs_typed_def\<close>)
  then show "subs_typed m'" using field_typesD [OF types] by (simp add: subs_typed_def)
qed

lemma SetSubEnum_typed:
  assumes set: "upb_MiniTable_SetSubEnum m i sub = Some m'" and typed: "subs_typed m" and i: "i < length (mt_fields m)"
  shows "subs_typed m'" "length (mt_fields m') = length (mt_fields m)"
proof -
  let ?f = "mt_fields m ! i"
  have kind: "fst (field_type ?f) = kUpb_FieldType_Enum" and subs: "mt_subs m' = (mt_subs m)[unat (snd (field_type ?f)) := SubEnum sub]"
    and fields: "mt_fields m' = mt_fields m"
    using set by (auto simp: upb_MiniTable_SetSubEnum_def field_type_def Let_def split: if_splits)
  show "length (mt_fields m') = length (mt_fields m)" by (simp add: fields)
  have "sub_typed (mt_subs m') (field_type f)" if "f \<in> set (mt_fields m)" for f
    unfolding subs by (rule sub_typed_link) (use typed that i kind in \<open>auto simp: subs_typed_def\<close>)
  then show "subs_typed m'" by (simp add: subs_typed_def fields)
qed

lemma link_messages_typed:
  "link_messages is_map m is tabs = Some (m', tabs') \<Longrightarrow> subs_typed m \<Longrightarrow> \<forall>i\<in>set is. i < length (mt_fields m) \<Longrightarrow>
   subs_typed m' \<and> length (mt_fields m') = length (mt_fields m)"
proof (induction is_map m "is" tabs rule: link_messages.induct)
  case (2 is_map m i "is" tabs)
  note step = SetSubMessage_typed [OF _ "2.prems"(2), of i]
  show ?case
    using "2.prems" "2.IH" by (auto split: if_splits list.splits option.splits) (metis step)+
qed simp

lemma link_enums_typed:
  "link_enums m is enums = Some (m', enums') \<Longrightarrow> subs_typed m \<Longrightarrow> \<forall>i\<in>set is. i < length (mt_fields m) \<Longrightarrow>
   subs_typed m' \<and> length (mt_fields m') = length (mt_fields m)"
proof (induction m "is" enums rule: link_enums.induct)
  case (2 m i "is" enums)
  note step = SetSubEnum_typed [OF _ "2.prems"(2), of i]
  show ?case
    using "2.prems" "2.IH" by (auto split: if_splits list.splits option.splits) (metis step)+
qed simp

lemma Link_typed:
  assumes "upb_MiniTable_Link is_map m tabs enums = Some (ok, m')" and m: "subs_typed m"
  shows "subs_typed m'"
proof -
  obtain m1 tabs' enums' where l1: "link_messages is_map m [0..<length (mt_fields m)] tabs = Some (m1, tabs')"
    and l2: "link_enums m1 [0..<length (mt_fields m1)] enums = Some (m', enums')"
    using assms(1) unfolding upb_MiniTable_Link_def
    by (simp split: option.split_asm prod.split_asm)
  from link_messages_typed [OF l1 m] link_enums_typed [OF l2] show ?thesis by simp
qed

text \<open>Evaluation of the builder on a string without oneofs.\<close>

lemmas build_eval = Let_def kUpb_MaxFieldNumber_def upb_MiniTable_SetField_def upb_MiniTable_SetTypeAndSub_def
  upb_FromBase92_def kUpb_FromBase92_def upb_ToBase92_def kUpb_ToBase92_def kUpb_EncodedToType_def
  kUpb_EncodedToFieldRep_def new_field_def rep_number_def upb_MiniTable_Build_def
  upb_MtDecoder_DoBuildMiniTableWithBuf_def upb_MtDecoder_ParseMessage_def upb_MtDecoder_Parse_def
  upb_MtDecoder_AllocateSubs_def sizeof_upb_MiniTableField_def set_dense_below_def kUpb_Reserved_Hasbytes_def
  upb_MtDecoder_AssignHasbits_def kUpb_Reserved_Hasbits_def upb_MiniTable_DivideRoundUp_def
  upb_MtDecoder_FieldIsPackable_def upb_FieldType_IsPackable_def upb_MtDecoder_CalculateAlignments_def
  count_reps_def reserve_rep_step upb_MtDecoder_AssignOffsets_def Place_advance upb_MiniTableField_GetRep_def
  rep_size_defs upb_align_up_def md_table_def

lemma Build_submessage:
  "\<exists>m. upb_MiniTable_Build (\<lambda>_. True) kUpb_MiniTablePlatform_64Bit [36, 51] = Inr m \<and>
     field_types (mt_fields m) = [(kUpb_FieldType_Message, 0)]"
  by (simp add: build_eval field_types_def field_type_def)



end
