(* ===== verification/Mini_Encode.thy ===== *)
theory Mini_Encode
  imports Mini_Subs
begin

text \<open>
  Message definitions and their mini descriptors: the message operations of
  \<open>upb/mini_descriptor/internal/encode.c\<close>, the field and message definitions of \<open>upb/reflection\<close> as far as
  their mini descriptors depend on them, and the step from a definition to its table in \<open>message_def.c\<close>.
\<close>

section \<open>The message operations of the encoder\<close>

text \<open>
  Why an operation gives no string: the functions of the reflection return false when the arena refuses or
  when a map entry has not two fields; the encoder returns NULL, which they do not test; an assertion fails.
\<close>

datatype enc_fail = EncOutOfMemory | EncNotMapEntry | EncNull | EncAssertFailed

definition or_null :: "'a option \<Rightarrow> enc_fail + 'a" where
  "or_null x = (case x of None \<Rightarrow> Inl EncNull | Some a \<Rightarrow> Inr a)"

lemma or_null_simps [simp]: "or_null None = Inl EncNull" "or_null (Some a) = Inr a"
  by (simp_all add: or_null_def)

datatype oneof_state =
  kUpb_OneofState_NotStarted | kUpb_OneofState_StartedOneof | kUpb_OneofState_EmittedOneofField

record msg_state =
  ms_msg_modifiers :: u64
  ms_last_field_num :: u32
  ms_oneof_state :: oneof_state

abbreviation (input) "kUpb_FieldModifier_IsRepeated \<equiv> 1 :: u64"
abbreviation (input) "kUpb_FieldModifier_IsPacked \<equiv> 2 :: u64"
abbreviation (input) "kUpb_FieldModifier_IsClosedEnum \<equiv> 4 :: u64"
abbreviation (input) "kUpb_FieldModifier_IsProto3Singular \<equiv> 8 :: u64"
abbreviation (input) "kUpb_FieldModifier_IsRequired \<equiv> 16 :: u64"
abbreviation (input) "kUpb_FieldModifier_ValidateUtf8 \<equiv> 32 :: u64"

abbreviation (input) "kUpb_MessageModifier_ValidateUtf8 \<equiv> 1 :: u64"
abbreviation (input) "kUpb_MessageModifier_DefaultIsPacked \<equiv> 2 :: u64"
abbreviation (input) "kUpb_MessageModifier_IsExtendable \<equiv> 4 :: u64"

abbreviation (input) "kUpb_EncodedFieldModifier_FlipPacked \<equiv> 1 :: u32"
abbreviation (input) "kUpb_EncodedFieldModifier_IsRequired \<equiv> 2 :: u32"
abbreviation (input) "kUpb_EncodedFieldModifier_IsProto3Singular \<equiv> 4 :: u32"
abbreviation (input) "kUpb_EncodedFieldModifier_FlipValidateUtf8 \<equiv> 8 :: u32"

definition upb_MtDataEncoder_PutModifier :: "nat \<Rightarrow> byte list \<Rightarrow> u64 \<Rightarrow> enc_fail + byte list" where
  "upb_MtDataEncoder_PutModifier cap ptr md =
     (if md \<noteq> 0 then
        or_null (upb_MtDataEncoder_PutBase92Varint cap ptr (ucast md) kUpb_EncodedValue_MinModifier kUpb_EncodedValue_MaxModifier)
      else Inr ptr)"

definition upb_MtDataEncoder_MaybePutFieldSkip ::
  "nat \<Rightarrow> msg_state \<Rightarrow> byte list \<Rightarrow> u32 \<Rightarrow> enc_fail + msg_state \<times> byte list" where
  "upb_MtDataEncoder_MaybePutFieldSkip cap st ptr field_num =
     (if field_num \<le> ms_last_field_num st then Inl EncNull
      else
        bindE
          (if ms_last_field_num st + 1 \<noteq> field_num then
             if \<not> field_num > ms_last_field_num st then Inl EncAssertFailed
             else
               let skip = field_num - ms_last_field_num st in
               or_null (upb_MtDataEncoder_PutBase92Varint cap ptr skip kUpb_EncodedValue_MinSkip kUpb_EncodedValue_MaxSkip)
           else Inr ptr) (\<lambda>ptr.
        Inr (st\<lparr>ms_last_field_num := field_num\<rparr>, ptr)))"

fun kUpb_TypeToEncoded :: "upb_FieldType \<Rightarrow> int" where
  "kUpb_TypeToEncoded kUpb_FieldType_Double = 0"
| "kUpb_TypeToEncoded kUpb_FieldType_Float = 1"
| "kUpb_TypeToEncoded kUpb_FieldType_Int64 = 9"
| "kUpb_TypeToEncoded kUpb_FieldType_UInt64 = 10"
| "kUpb_TypeToEncoded kUpb_FieldType_Int32 = 6"
| "kUpb_TypeToEncoded kUpb_FieldType_Fixed64 = 3"
| "kUpb_TypeToEncoded kUpb_FieldType_Fixed32 = 2"
| "kUpb_TypeToEncoded kUpb_FieldType_Bool = 13"
| "kUpb_TypeToEncoded kUpb_FieldType_String = 15"
| "kUpb_TypeToEncoded kUpb_FieldType_Group = 16"
| "kUpb_TypeToEncoded kUpb_FieldType_Message = 17"
| "kUpb_TypeToEncoded kUpb_FieldType_Bytes = 14"
| "kUpb_TypeToEncoded kUpb_FieldType_UInt32 = 7"
| "kUpb_TypeToEncoded kUpb_FieldType_Enum = 12"
| "kUpb_TypeToEncoded kUpb_FieldType_SFixed32 = 4"
| "kUpb_TypeToEncoded kUpb_FieldType_SFixed64 = 5"
| "kUpb_TypeToEncoded kUpb_FieldType_SInt32 = 8"
| "kUpb_TypeToEncoded kUpb_FieldType_SInt64 = 11"

definition upb_MtDataEncoder_PutFieldType ::
  "nat \<Rightarrow> byte list \<Rightarrow> upb_FieldType \<Rightarrow> u64 \<Rightarrow> enc_fail + byte list" where
  "upb_MtDataEncoder_PutFieldType cap ptr type field_mod =
     (if field_mod AND kUpb_FieldModifier_IsClosedEnum \<noteq> 0 \<and> type \<noteq> kUpb_FieldType_Enum then Inl EncAssertFailed
      else
        let encoded_type = kUpb_TypeToEncoded type;
            encoded_type = (if field_mod AND kUpb_FieldModifier_IsClosedEnum \<noteq> 0 then 18 else encoded_type);
            encoded_type = (if field_mod AND kUpb_FieldModifier_IsRepeated \<noteq> 0 then encoded_type + 20 else encoded_type)
        in or_null (upb_MtDataEncoder_Put cap ptr encoded_type))"

definition upb_MtDataEncoder_MaybePutModifiers ::
  "nat \<Rightarrow> msg_state \<Rightarrow> byte list \<Rightarrow> upb_FieldType \<Rightarrow> u64 \<Rightarrow> enc_fail + byte list" where
  "upb_MtDataEncoder_MaybePutModifiers cap st ptr type field_mod =
     (let encoded_modifiers = 0;
          field_is_packed = (field_mod AND kUpb_FieldModifier_IsPacked \<noteq> 0);
          default_is_packed = (ms_msg_modifiers st AND kUpb_MessageModifier_DefaultIsPacked \<noteq> 0);
          encoded_modifiers =
            (if (field_mod AND kUpb_FieldModifier_IsRepeated \<noteq> 0 \<and> upb_FieldType_IsPackable type) \<and>
                field_is_packed \<noteq> default_is_packed
             then encoded_modifiers OR kUpb_EncodedFieldModifier_FlipPacked else encoded_modifiers);
          field_validates_utf8 = (field_mod AND kUpb_FieldModifier_ValidateUtf8 \<noteq> 0);
          message_validates_utf8 = (ms_msg_modifiers st AND kUpb_MessageModifier_ValidateUtf8 \<noteq> 0)
      in if type = kUpb_FieldType_String \<and> field_validates_utf8 \<noteq> message_validates_utf8 \<and> message_validates_utf8
         then Inl EncAssertFailed
         else
           let encoded_modifiers =
                 (if type = kUpb_FieldType_String \<and> field_validates_utf8 \<noteq> message_validates_utf8
                  then encoded_modifiers OR kUpb_EncodedFieldModifier_FlipValidateUtf8 else encoded_modifiers);
               encoded_modifiers =
                 (if field_mod AND kUpb_FieldModifier_IsProto3Singular \<noteq> 0
                  then encoded_modifiers OR kUpb_EncodedFieldModifier_IsProto3Singular else encoded_modifiers);
               encoded_modifiers =
                 (if field_mod AND kUpb_FieldModifier_IsRequired \<noteq> 0
                  then encoded_modifiers OR kUpb_EncodedFieldModifier_IsRequired else encoded_modifiers)
           in upb_MtDataEncoder_PutModifier cap ptr (ucast encoded_modifiers))"

definition upb_MtDataEncoder_PutField ::
  "nat \<Rightarrow> msg_state \<Rightarrow> byte list \<Rightarrow> upb_FieldType \<Rightarrow> u32 \<Rightarrow> u64 \<Rightarrow> enc_fail + msg_state \<times> byte list" where
  "upb_MtDataEncoder_PutField cap st ptr type field_num field_mod =
     bindE (upb_MtDataEncoder_MaybePutFieldSkip cap st ptr field_num) (\<lambda>(st, ptr).
     bindE (upb_MtDataEncoder_PutFieldType cap ptr type field_mod) (\<lambda>ptr.
     bindE (upb_MtDataEncoder_MaybePutModifiers cap st ptr type field_mod) (\<lambda>ptr. Inr (st, ptr))))"

definition upb_MtDataEncoder_EncodeExtension ::
  "nat \<Rightarrow> byte list \<Rightarrow> upb_FieldType \<Rightarrow> u32 \<Rightarrow> u64 \<Rightarrow> enc_fail + msg_state \<times> byte list" where
  "upb_MtDataEncoder_EncodeExtension cap ptr type field_num field_mod =
     (let st = \<lparr>ms_msg_modifiers = 0, ms_last_field_num = 0, ms_oneof_state = kUpb_OneofState_NotStarted\<rparr> in
      bindE (or_null (upb_MtDataEncoder_PutRaw cap ptr kUpb_EncodedVersion_ExtensionV1)) (\<lambda>ptr.
      upb_MtDataEncoder_PutField cap st ptr type field_num field_mod))"

definition upb_MtDataEncoder_EncodeMap ::
  "nat \<Rightarrow> byte list \<Rightarrow> upb_FieldType \<Rightarrow> upb_FieldType \<Rightarrow> u64 \<Rightarrow> u64 \<Rightarrow> enc_fail + msg_state \<times> byte list" where
  "upb_MtDataEncoder_EncodeMap cap ptr key_type value_type key_mod value_mod =
     (let st = \<lparr>ms_msg_modifiers = 0, ms_last_field_num = 0, ms_oneof_state = kUpb_OneofState_NotStarted\<rparr> in
      bindE (or_null (upb_MtDataEncoder_PutRaw cap ptr kUpb_EncodedVersion_MapV1)) (\<lambda>ptr.
      bindE (upb_MtDataEncoder_PutField cap st ptr key_type 1 key_mod) (\<lambda>(st, ptr).
      upb_MtDataEncoder_PutField cap st ptr value_type 2 value_mod)))"

definition upb_MtDataEncoder_EncodeMessageSet :: "nat \<Rightarrow> byte list \<Rightarrow> enc_fail + byte list" where
  "upb_MtDataEncoder_EncodeMessageSet cap ptr = or_null (upb_MtDataEncoder_PutRaw cap ptr kUpb_EncodedVersion_MessageSetV1)"

definition upb_MtDataEncoder_StartMessage :: "nat \<Rightarrow> byte list \<Rightarrow> u64 \<Rightarrow> enc_fail + msg_state \<times> byte list" where
  "upb_MtDataEncoder_StartMessage cap ptr msg_mod =
     (let st = \<lparr>ms_msg_modifiers = msg_mod, ms_last_field_num = 0, ms_oneof_state = kUpb_OneofState_NotStarted\<rparr> in
      bindE (or_null (upb_MtDataEncoder_PutRaw cap ptr kUpb_EncodedVersion_MessageV1)) (\<lambda>ptr.
      bindE (upb_MtDataEncoder_PutModifier cap ptr msg_mod) (\<lambda>ptr. Inr (st, ptr))))"

definition upb_MtDataEncoder_StartOneof :: "nat \<Rightarrow> msg_state \<Rightarrow> byte list \<Rightarrow> enc_fail + msg_state \<times> byte list" where
  "upb_MtDataEncoder_StartOneof cap st ptr =
     bindE
       (if ms_oneof_state st = kUpb_OneofState_NotStarted then
          or_null (upb_MtDataEncoder_Put cap ptr (upb_FromBase92 kUpb_EncodedValue_End))
        else or_null (upb_MtDataEncoder_Put cap ptr (upb_FromBase92 kUpb_EncodedValue_OneofSeparator))) (\<lambda>ptr.
     Inr (st\<lparr>ms_oneof_state := kUpb_OneofState_StartedOneof\<rparr>, ptr))"

definition upb_MtDataEncoder_PutOneofField ::
  "nat \<Rightarrow> msg_state \<Rightarrow> byte list \<Rightarrow> u32 \<Rightarrow> enc_fail + msg_state \<times> byte list" where
  "upb_MtDataEncoder_PutOneofField cap st ptr field_num =
     bindE
       (if ms_oneof_state st = kUpb_OneofState_EmittedOneofField then
          or_null (upb_MtDataEncoder_Put cap ptr (upb_FromBase92 kUpb_EncodedValue_FieldSeparator))
        else Inr ptr) (\<lambda>ptr.
     bindE (or_null (upb_MtDataEncoder_PutBase92Varint cap ptr field_num (upb_ToBase92 0) (upb_ToBase92 63))) (\<lambda>ptr.
     Inr (st\<lparr>ms_oneof_state := kUpb_OneofState_EmittedOneofField\<rparr>, ptr)))"

section \<open>Definitions of fields\<close>

datatype upb_Label = kUpb_Label_Optional | kUpb_Label_Required | kUpb_Label_Repeated

text \<open>
  \<open>upb_FieldDef\<close>: the three features are whether the encoding of a repeated field is PACKED, whether the
  presence is LEGACY\_REQUIRED and whether UTF-8 is to be verified; \<open>fd_enum_closed\<close> is \<open>upb_EnumDef_IsClosed\<close> of
  the subtype.
\<close>

record upb_FieldDef =
  fd_type :: upb_FieldType
  fd_number :: u32
  fd_label :: upb_Label
  fd_has_presence :: bool
  fd_packed :: bool
  fd_legacy_required :: bool
  fd_utf8_verify :: bool
  fd_enum_closed :: bool
  fd_is_extension :: bool
  fd_layout_index :: nat

definition upb_FieldDef_CType :: "upb_FieldDef \<Rightarrow> upb_CType" where
  "upb_FieldDef_CType f = upb_FieldType_CType (fd_type f)"

definition upb_FieldDef_IsRepeated :: "upb_FieldDef \<Rightarrow> bool" where
  "upb_FieldDef_IsRepeated f \<longleftrightarrow> fd_label f = kUpb_Label_Repeated"

definition upb_FieldDef_IsRequired :: "upb_FieldDef \<Rightarrow> bool" where
  "upb_FieldDef_IsRequired f \<longleftrightarrow> fd_legacy_required f"

definition upb_FieldDef_IsString :: "upb_FieldDef \<Rightarrow> bool" where
  "upb_FieldDef_IsString f \<longleftrightarrow> upb_FieldDef_CType f = kUpb_CType_String \<or> upb_FieldDef_CType f = kUpb_CType_Bytes"

definition upb_FieldDef_IsSubMessage :: "upb_FieldDef \<Rightarrow> bool" where
  "upb_FieldDef_IsSubMessage f \<longleftrightarrow> upb_FieldDef_CType f = kUpb_CType_Message"

definition upb_FieldDef_IsPrimitive :: "upb_FieldDef \<Rightarrow> bool" where
  "upb_FieldDef_IsPrimitive f \<longleftrightarrow> \<not> upb_FieldDef_IsString f \<and> \<not> upb_FieldDef_IsSubMessage f"

definition upb_FieldDef_IsPackable :: "upb_FieldDef \<Rightarrow> bool" where
  "upb_FieldDef_IsPackable f \<longleftrightarrow> upb_FieldDef_IsRepeated f \<and> upb_FieldDef_IsPrimitive f"

definition upb_FieldDef_IsPacked :: "upb_FieldDef \<Rightarrow> bool" where
  "upb_FieldDef_IsPacked f \<longleftrightarrow> upb_FieldDef_IsPackable f \<and> fd_packed f"

definition upb_FieldDef_IsClosedEnum :: "upb_FieldDef \<Rightarrow> bool" where
  "upb_FieldDef_IsClosedEnum f \<longleftrightarrow> (if fd_type f \<noteq> kUpb_FieldType_Enum then False else fd_enum_closed f)"

definition upb_FieldDef_ValidateUtf8 :: "upb_FieldDef \<Rightarrow> bool" where
  "upb_FieldDef_ValidateUtf8 f \<longleftrightarrow> (if fd_type f \<noteq> kUpb_FieldType_String then False else fd_utf8_verify f)"

definition upb_FieldDef_Modifiers :: "upb_FieldDef \<Rightarrow> u64" where
  "upb_FieldDef_Modifiers f =
     (let out = (if upb_FieldDef_IsPacked f then kUpb_FieldModifier_IsPacked else 0);
          out = (if upb_FieldDef_IsRepeated f then out OR kUpb_FieldModifier_IsRepeated
                 else if upb_FieldDef_IsRequired f then out OR kUpb_FieldModifier_IsRequired
                 else if \<not> fd_has_presence f then out OR kUpb_FieldModifier_IsProto3Singular
                 else out);
          out = (if upb_FieldDef_IsClosedEnum f then out OR kUpb_FieldModifier_IsClosedEnum else out);
          out = (if upb_FieldDef_ValidateUtf8 f then out OR kUpb_FieldModifier_ValidateUtf8 else out)
      in out)"

text \<open>
  The sorted pointers are indices into the array of fields, whose \<open>layout_index\<close> is set on the way. The numbers
  of the fields of a message are distinct, so that the order of \<open>qsort\<close> is determined.
\<close>

definition upb_FieldDefs_Sorted :: "(nat \<Rightarrow> bool) \<Rightarrow> upb_FieldDef list \<Rightarrow> (nat list \<times> upb_FieldDef list) option" where
  "upb_FieldDefs_Sorted alloc f =
     (if \<not> alloc (length f * 8) then None
      else
        let out = sort_key (\<lambda>i. fd_number (f ! i)) [0..<length f]
        in Some (out, foldl (\<lambda>f i. f[out ! i := (f ! (out ! i))\<lparr>fd_layout_index := i\<rparr>]) f [0..<length f]))"

definition upb_FieldDef_MiniDescriptorEncode :: "(nat \<Rightarrow> bool) \<Rightarrow> upb_FieldDef \<Rightarrow> enc_fail + byte list" where
  "upb_FieldDef_MiniDescriptorEncode alloc f =
     (if \<not> fd_is_extension f then Inl EncAssertFailed
      else
        case upb_DescState_Grow alloc upb_DescState_Init of
          None \<Rightarrow> Inl EncOutOfMemory
        | Some s \<Rightarrow>
            bindE (upb_MtDataEncoder_EncodeExtension (ds_bufsize s) (the (ds_buf s)) (fd_type f) (fd_number f)
              (upb_FieldDef_Modifiers f)) (\<lambda>(st, ptr). Inr ptr))"

section \<open>Definitions of messages\<close>

text \<open>
  \<open>upb_MessageDef\<close>: an item of \<open>mdef_oneofs\<close> is a real oneof, the list of its fields as indices into the array
  of fields.
\<close>

record upb_MessageDef =
  mdef_fields :: "upb_FieldDef list"
  mdef_oneofs :: "nat list list"
  mdef_ext_range_count :: nat
  mdef_is_sorted :: bool
  mdef_map_entry :: bool
  mdef_message_set_wire_format :: bool

fun DefaultIsPacked_loop :: "upb_FieldDef list \<Rightarrow> int \<Rightarrow> int \<Rightarrow> bool" where
  "DefaultIsPacked_loop [] packed unpacked = (packed > unpacked)"
| "DefaultIsPacked_loop (f # fs) packed unpacked =
     (if upb_FieldDef_IsPackable f then
        if upb_FieldDef_IsPacked f then DefaultIsPacked_loop fs (packed + 1) unpacked
        else DefaultIsPacked_loop fs packed (unpacked + 1)
      else DefaultIsPacked_loop fs packed unpacked)"

definition upb_MessageDef_DefaultIsPacked :: "upb_MessageDef \<Rightarrow> bool" where
  "upb_MessageDef_DefaultIsPacked m = DefaultIsPacked_loop (mdef_fields m) 0 0"

fun ValidateUtf8_loop :: "upb_FieldDef list \<Rightarrow> bool \<Rightarrow> bool" where
  "ValidateUtf8_loop [] has_string = has_string"
| "ValidateUtf8_loop (f # fs) has_string =
     (if \<not> upb_FieldDef_ValidateUtf8 f then False
      else ValidateUtf8_loop fs (if fd_type f = kUpb_FieldType_String then True else has_string))"

definition upb_MessageDef_ValidateUtf8 :: "upb_MessageDef \<Rightarrow> bool" where
  "upb_MessageDef_ValidateUtf8 m = ValidateUtf8_loop (mdef_fields m) False"

definition upb_MessageDef_Modifiers :: "upb_MessageDef \<Rightarrow> u64" where
  "upb_MessageDef_Modifiers m =
     (let out = 0;
          out = (if upb_MessageDef_DefaultIsPacked m then out OR kUpb_MessageModifier_DefaultIsPacked else out);
          out = (if upb_MessageDef_ValidateUtf8 m then out OR kUpb_MessageModifier_ValidateUtf8 else out);
          out = (if mdef_ext_range_count m \<noteq> 0 then out OR kUpb_MessageModifier_IsExtendable else out)
      in out)"

definition upb_MessageDef_EncodeMap :: "upb_DescState \<Rightarrow> upb_MessageDef \<Rightarrow> enc_fail + upb_DescState" where
  "upb_MessageDef_EncodeMap s m =
     (if length (mdef_fields m) \<noteq> 2 then Inl EncNotMapEntry
      else
        let key_field = mdef_fields m ! 0; val_field = mdef_fields m ! 1 in
        if fd_layout_index key_field \<noteq> 0 \<or> fd_layout_index val_field \<noteq> 1 then Inl EncAssertFailed
        else
          bindE (upb_MtDataEncoder_EncodeMap (ds_bufsize s) (the (ds_buf s)) (fd_type key_field) (fd_type val_field)
            (upb_FieldDef_Modifiers key_field) (upb_FieldDef_Modifiers val_field)) (\<lambda>(st, ptr).
          Inr (s\<lparr>ds_buf := Some ptr\<rparr>)))"

text \<open>The loops of \<open>EncodeMessage\<close>: over the fields in order, \<dots>\<close>

fun put_fields :: "(nat \<Rightarrow> bool) \<Rightarrow> upb_DescState \<Rightarrow> msg_state \<Rightarrow> upb_FieldDef list \<Rightarrow> enc_fail + upb_DescState \<times> msg_state" where
  "put_fields alloc s st [] = Inr (s, st)"
| "put_fields alloc s st (f # fs) =
     (case upb_DescState_Grow alloc s of
        None \<Rightarrow> Inl EncOutOfMemory
      | Some s \<Rightarrow>
          bindE (upb_MtDataEncoder_PutField (ds_bufsize s) st (the (ds_buf s)) (fd_type f) (fd_number f)
            (upb_FieldDef_Modifiers f)) (\<lambda>(st, ptr).
          put_fields alloc (s\<lparr>ds_buf := Some ptr\<rparr>) st fs))"

text \<open>\<dots> over the numbers of the fields of a oneof, \<dots>\<close>

fun put_oneof_fields :: "(nat \<Rightarrow> bool) \<Rightarrow> upb_DescState \<Rightarrow> msg_state \<Rightarrow> u32 list \<Rightarrow> enc_fail + upb_DescState \<times> msg_state" where
  "put_oneof_fields alloc s st [] = Inr (s, st)"
| "put_oneof_fields alloc s st (number # numbers) =
     (case upb_DescState_Grow alloc s of
        None \<Rightarrow> Inl EncOutOfMemory
      | Some s \<Rightarrow>
          bindE (upb_MtDataEncoder_PutOneofField (ds_bufsize s) st (the (ds_buf s)) number) (\<lambda>(st, ptr).
          put_oneof_fields alloc (s\<lparr>ds_buf := Some ptr\<rparr>) st numbers))"

text \<open>\<dots> and over the real oneofs.\<close>

fun put_oneofs :: "(nat \<Rightarrow> bool) \<Rightarrow> upb_DescState \<Rightarrow> msg_state \<Rightarrow> u32 list list \<Rightarrow> enc_fail + upb_DescState \<times> msg_state" where
  "put_oneofs alloc s st [] = Inr (s, st)"
| "put_oneofs alloc s st (numbers # oneofs) =
     (case upb_DescState_Grow alloc s of
        None \<Rightarrow> Inl EncOutOfMemory
      | Some s \<Rightarrow>
          bindE (upb_MtDataEncoder_StartOneof (ds_bufsize s) st (the (ds_buf s))) (\<lambda>(st, ptr).
          bindE (put_oneof_fields alloc (s\<lparr>ds_buf := Some ptr\<rparr>) st numbers) (\<lambda>(s, st).
          put_oneofs alloc s st oneofs)))"

text \<open>The result has the definition, whose layout indices have been set.\<close>

definition upb_MessageDef_EncodeMessage ::
  "(nat \<Rightarrow> bool) \<Rightarrow> upb_DescState \<Rightarrow> upb_MessageDef \<Rightarrow> enc_fail + upb_DescState \<times> upb_MessageDef" where
  "upb_MessageDef_EncodeMessage alloc s m =
     (case (if mdef_is_sorted m then Some ([0..<length (mdef_fields m)], mdef_fields m)
            else upb_FieldDefs_Sorted alloc (mdef_fields m)) of
        None \<Rightarrow> Inl EncOutOfMemory
      | Some (order, fs) \<Rightarrow>
          let m = m\<lparr>mdef_fields := fs\<rparr> in
          bindE (upb_MtDataEncoder_StartMessage (ds_bufsize s) (the (ds_buf s)) (upb_MessageDef_Modifiers m)) (\<lambda>(st, ptr).
          bindE (put_fields alloc (s\<lparr>ds_buf := Some ptr\<rparr>) st (map (\<lambda>i. fs ! i) order)) (\<lambda>(s, st).
          bindE (put_oneofs alloc s st (map (map (\<lambda>i. fd_number (fs ! i))) (mdef_oneofs m))) (\<lambda>(s, st).
          Inr (s, m)))))"

definition upb_MessageDef_EncodeMessageSet :: "upb_DescState \<Rightarrow> enc_fail + upb_DescState" where
  "upb_MessageDef_EncodeMessageSet s =
     bindE (upb_MtDataEncoder_EncodeMessageSet (ds_bufsize s) (the (ds_buf s))) (\<lambda>ptr. Inr (s\<lparr>ds_buf := Some ptr\<rparr>))"

definition upb_MessageDef_MiniDescriptorEncode ::
  "(nat \<Rightarrow> bool) \<Rightarrow> upb_MessageDef \<Rightarrow> enc_fail + byte list \<times> upb_MessageDef" where
  "upb_MessageDef_MiniDescriptorEncode alloc m =
     (case upb_DescState_Grow alloc upb_DescState_Init of
        None \<Rightarrow> Inl EncOutOfMemory
      | Some s \<Rightarrow>
          bindE
            (if mdef_map_entry m then bindE (upb_MessageDef_EncodeMap s m) (\<lambda>s. Inr (s, m))
             else if mdef_message_set_wire_format m then bindE (upb_MessageDef_EncodeMessageSet s) (\<lambda>s. Inr (s, m))
             else upb_MessageDef_EncodeMessage alloc s m) (\<lambda>(s, m).
          (case upb_DescState_Grow alloc s of
             None \<Rightarrow> Inl EncOutOfMemory
           | Some s \<Rightarrow> Inr (the (ds_buf s), m))))"

section \<open>From a definition to its table\<close>

text \<open>
  \<open>upb_MiniTable_BuildWithBuf\<close>: the buffer for the oneofs has a capacity from the start, left by the
  tables built before.
\<close>

definition upb_MiniTable_BuildWithBuf ::
  "(nat \<Rightarrow> bool) \<Rightarrow> mini_platform \<Rightarrow> nat \<Rightarrow> byte list \<Rightarrow> mt_error + upb_MiniTable" where
  "upb_MiniTable_BuildWithBuf alloc platform buf_size data =
     upb_MtDecoder_DoBuildMiniTableWithBuf alloc
       \<lparr>md_fields = [], md_field_count = 0, md_platform = platform, md_oneofs = [], md_oneofs_capacity = buf_size,
        md_rep_counts_offsets = (\<lambda>_. 0), md_is_extension = False, md_submsg_count = 0, md_subenum_count = 0,
        md_size = 0, md_ext = 0, md_dense_below = 0, md_required_count = 0\<rparr> data"

lemma Build_eq_BuildWithBuf: "upb_MiniTable_Build alloc platform data = upb_MiniTable_BuildWithBuf alloc platform 0 data"
  by (simp add: upb_MiniTable_Build_def upb_MiniTable_BuildWithBuf_def)

text \<open>A mini descriptor that cannot be made, or NULL in its place, is reported as out of memory.\<close>

definition upb_MessageDef_MakeMiniTable ::
  "(nat \<Rightarrow> bool) \<Rightarrow> mini_platform \<Rightarrow> nat \<Rightarrow> upb_MessageDef \<Rightarrow> mt_error + upb_MiniTable \<times> upb_MessageDef" where
  "upb_MessageDef_MakeMiniTable alloc platform scratch_size m =
     (case upb_MessageDef_MiniDescriptorEncode alloc m of
        Inl EncOutOfMemory \<Rightarrow> Inl MtOutOfMemory
      | Inl EncNotMapEntry \<Rightarrow> Inl MtOutOfMemory
      | Inl EncNull \<Rightarrow> Inl MtWriteToNull
      | Inl EncAssertFailed \<Rightarrow> Inl MtAssertFailed
      | Inr (desc, m) \<Rightarrow>
          bindE (upb_MiniTable_BuildWithBuf alloc platform scratch_size desc) (\<lambda>ret. Inr (ret, m)))"

text \<open>
  The assertions at the end of \<open>_upb_MessageDef_LinkMiniTable\<close>, over the fields of the message: the field of the
  table at the layout index has the type, the C type and the presence of the definition.
\<close>

definition LinkMiniTable_field_agrees :: "upb_MiniTable \<Rightarrow> upb_FieldDef \<Rightarrow> bool" where
  "LinkMiniTable_field_agrees layout f \<longleftrightarrow>
     fd_layout_index f < length (mt_fields layout) \<and>
     (let mt_f = mt_fields layout ! fd_layout_index f in
      fd_type f = upb_MiniTableField_Type mt_f \<and>
      upb_FieldDef_CType f = upb_MiniTableField_CType mt_f \<and>
      fd_has_presence f = upb_MiniTableField_HasPresence mt_f)"

definition LinkMiniTable_asserts :: "upb_MiniTable \<Rightarrow> upb_MessageDef \<Rightarrow> bool" where
  "LinkMiniTable_asserts layout m \<longleftrightarrow> list_all (LinkMiniTable_field_agrees layout) (mdef_fields m)"

end
