(* ===== verification/Mini_Text.thy ===== *)
theory Mini_Text
  imports Mini_Encode
begin

text \<open>
  The text of a message definition: what the encoder writes for it, as a function of the definition, and that
  it writes just this unless the arena refuses.
\<close>

section \<open>The text of a message definition\<close>

lemma IsPackable_type: "upb_FieldDef_IsPackable f \<longleftrightarrow> upb_FieldDef_IsRepeated f \<and> upb_FieldType_IsPackable (fd_type f)"
  unfolding upb_FieldDef_IsPackable_def upb_FieldDef_IsPrimitive_def upb_FieldDef_IsString_def
    upb_FieldDef_IsSubMessage_def upb_FieldDef_CType_def upb_FieldType_IsPackable_def
  by (cases "fd_type f") simp_all

lemma Modifiers_bits [simp]:
  "upb_FieldDef_Modifiers f AND 1 = 0 \<longleftrightarrow> \<not> upb_FieldDef_IsRepeated f"
  "upb_FieldDef_Modifiers f AND 2 = 0 \<longleftrightarrow> \<not> upb_FieldDef_IsPacked f"
  "upb_FieldDef_Modifiers f AND 4 = 0 \<longleftrightarrow> \<not> upb_FieldDef_IsClosedEnum f"
  "upb_FieldDef_Modifiers f AND 8 = 0 \<longleftrightarrow>
     upb_FieldDef_IsRepeated f \<or> upb_FieldDef_IsRequired f \<or> fd_has_presence f"
  "upb_FieldDef_Modifiers f AND 16 = 0 \<longleftrightarrow> upb_FieldDef_IsRepeated f \<or> \<not> upb_FieldDef_IsRequired f"
  "upb_FieldDef_Modifiers f AND 32 = 0 \<longleftrightarrow> \<not> upb_FieldDef_ValidateUtf8 f"
  by (simp_all add: upb_FieldDef_Modifiers_def)

text \<open>The character of a field's type and its modifiers, relative to the two defaults of the message.\<close>

definition type_digit :: "upb_FieldDef \<Rightarrow> int" where
  "type_digit f =
     (if upb_FieldDef_IsClosedEnum f then 18 else kUpb_TypeToEncoded (fd_type f)) + (if upb_FieldDef_IsRepeated f then 20 else 0)"

definition field_flags :: "bool \<Rightarrow> bool \<Rightarrow> upb_FieldDef \<Rightarrow> u32" where
  "field_flags packed utf8 f =
     (if upb_FieldDef_IsPackable f \<and> upb_FieldDef_IsPacked f \<noteq> packed then 1 else 0) OR
     (if fd_type f = kUpb_FieldType_String \<and> upb_FieldDef_ValidateUtf8 f \<noteq> utf8 then 8 else 0) OR
     (if upb_FieldDef_IsRepeated f \<or> upb_FieldDef_IsRequired f \<or> fd_has_presence f then 0 else 4) OR
     (if upb_FieldDef_IsRepeated f \<or> \<not> upb_FieldDef_IsRequired f then 0 else 2)"

definition field_text :: "bool \<Rightarrow> bool \<Rightarrow> u32 \<Rightarrow> upb_FieldDef \<Rightarrow> byte list" where
  "field_text packed utf8 l f =
     (if l + 1 = fd_number f then [] else skip_range.digits (fd_number f - l)) @
     upb_ToBase92 (type_digit f) #
     (if field_flags packed utf8 f = 0 then [] else modifier_range.digits (field_flags packed utf8 f))"

fun fields_text :: "bool \<Rightarrow> bool \<Rightarrow> u32 \<Rightarrow> upb_FieldDef list \<Rightarrow> byte list" where
  "fields_text packed utf8 l [] = []"
| "fields_text packed utf8 l (f # fs) = field_text packed utf8 l f @ fields_text packed utf8 (fd_number f) fs"

fun oneof_text :: "bool \<Rightarrow> u32 list \<Rightarrow> byte list" where
  "oneof_text emitted [] = []"
| "oneof_text emitted (n # ns) = (if emitted then [124] else []) @ oneof_range.digits n @ oneof_text True ns"

fun oneofs_text :: "bool \<Rightarrow> u32 list list \<Rightarrow> byte list" where
  "oneofs_text started [] = []"
| "oneofs_text started (ns # oneofs) = (if started then 126 else 94) # oneof_text False ns @ oneofs_text True oneofs"

lemma digits_length:
  "length (skip_range.digits v) \<le> 7" "length (oneof_range.digits v) \<le> 6" "v < 16 \<Longrightarrow> length (modifier_range.digits v) \<le> 1"
proof -
  have "unat v < 2 ^ 32" using unsigned_less [where ?'a = nat and w = v] by simp
  then show "length (skip_range.digits v) \<le> 7" "length (oneof_range.digits v) \<le> 6"
    using b92_digits_length [of 5 v 7 95] b92_digits_length [of 6 v 6 32] by simp_all
  show "length (modifier_range.digits v) \<le> 1" if "v < 16"
    using that b92_digits_length [of 4 v 1 76] by (simp add: word_less_nat_alt)
qed

lemma field_flags_less: "field_flags packed utf8 f < 16"
  by (simp add: field_flags_def)

lemma field_text_length: "length (field_text packed utf8 l f) \<le> 9"
  using digits_length(1) [of "fd_number f - l"] digits_length(3) [OF field_flags_less, of packed utf8 f]
  by (simp add: field_text_def)

section \<open>The encoder writes the text\<close>

text \<open>A result is good, or the arena has refused a request.\<close>

definition enc_or_oom :: "(nat \<Rightarrow> bool) \<Rightarrow> enc_fail + 'a \<Rightarrow> ('a \<Rightarrow> bool) \<Rightarrow> bool" where
  "enc_or_oom alloc r P \<longleftrightarrow> (case r of Inl e \<Rightarrow> e = EncOutOfMemory \<and> (\<exists>n. \<not> alloc n) | Inr x \<Rightarrow> P x)"

lemma enc_or_oom_simps [simp]:
  "enc_or_oom alloc (Inr x) P \<longleftrightarrow> P x"
  "enc_or_oom alloc (Inl e) P \<longleftrightarrow> e = EncOutOfMemory \<and> (\<exists>n. \<not> alloc n)"
  by (simp_all add: enc_or_oom_def)

lemma enc_or_oom_bind:
  "enc_or_oom alloc r P \<Longrightarrow> (\<And>x. P x \<Longrightarrow> enc_or_oom alloc (g x) Q) \<Longrightarrow> enc_or_oom alloc (bindE r g) Q"
  by (cases r) simp_all

lemma enc_or_oom_grow:
  assumes "ds_ok s b \<or> (s = upb_DescState_Init \<and> b = [])"
    and "\<And>s'. ds_ok s' b \<Longrightarrow> length b + 16 \<le> ds_bufsize s' \<Longrightarrow> ds_buf s' = Some b \<Longrightarrow> enc_or_oom alloc (g s') Q"
  shows "enc_or_oom alloc (case upb_DescState_Grow alloc s of None \<Rightarrow> Inl EncOutOfMemory | Some s \<Rightarrow> g s) Q"
  using Grow_ok [OF assms(1), of alloc] assms(2) by (auto simp: ds_ok_def split: option.splits)

lemma put_char: "length ptr < cap \<Longrightarrow> upb_MtDataEncoder_Put cap ptr ch = Some (ptr @ [upb_ToBase92 ch])"
  by (simp add: upb_MtDataEncoder_Put_def upb_MtDataEncoder_PutRaw_def)

lemma ucast_u32_u64: "ucast (ucast (v :: u32) :: u64) = v" "ucast v = (0 :: u64) \<longleftrightarrow> v = 0"
proof -
  show eq: "ucast (ucast (v :: u32) :: u64) = v"
    by (rule bit_word_eqI) (simp add: bit_ucast_iff)
  then show "ucast v = (0 :: u64) \<longleftrightarrow> v = 0" by (metis ucast_0)
qed

lemma PutModifier_text:
  "length ptr + 1 \<le> cap \<Longrightarrow> v < 16 \<Longrightarrow>
   upb_MtDataEncoder_PutModifier cap ptr (ucast v) = Inr (ptr @ (if v = 0 then [] else modifier_range.digits v))"
  using digits_length(3) [of v] modifier_range.written [of ptr cap v]
  by (simp add: upb_MtDataEncoder_PutModifier_def ucast_u32_u64)

lemma MaybePutModifiers_text:
  assumes "length ptr + 1 \<le> cap" and "ms_msg_modifiers st AND 2 \<noteq> 0 \<longleftrightarrow> packed" "ms_msg_modifiers st AND 1 \<noteq> 0 \<longleftrightarrow> utf8"
    and "utf8 \<and> fd_type f = kUpb_FieldType_String \<longrightarrow> upb_FieldDef_ValidateUtf8 f"
  shows "upb_MtDataEncoder_MaybePutModifiers cap st ptr (fd_type f) (upb_FieldDef_Modifiers f) =
    Inr (ptr @ (if field_flags packed utf8 f = 0 then [] else modifier_range.digits (field_flags packed utf8 f)))"
proof -
  have ok: "\<not> (fd_type f = kUpb_FieldType_String \<and> upb_FieldDef_ValidateUtf8 f \<noteq> utf8 \<and> utf8)" using assms(4) by auto
  have flags: "upb_MtDataEncoder_MaybePutModifiers cap st ptr (fd_type f) (upb_FieldDef_Modifiers f) =
    upb_MtDataEncoder_PutModifier cap ptr (ucast (field_flags packed utf8 f))"
    using ok assms(2,3) unfolding upb_MtDataEncoder_MaybePutModifiers_def field_flags_def Let_def
    by (cases "fd_type f = kUpb_FieldType_String"; cases utf8; cases packed) (simp_all add: IsPackable_type)
  show ?thesis
    unfolding flags by (rule PutModifier_text) (use assms(1) field_flags_less in simp_all)
qed

lemma closed_enum_type: "upb_FieldDef_IsClosedEnum f \<Longrightarrow> fd_type f = kUpb_FieldType_Enum"
  by (simp add: upb_FieldDef_IsClosedEnum_def split: if_splits)

lemma PutFieldType_text:
  "length ptr < cap \<Longrightarrow> upb_MtDataEncoder_PutFieldType cap ptr (fd_type f) (upb_FieldDef_Modifiers f) =
     Inr (ptr @ [upb_ToBase92 (type_digit f)])"
  by (cases "upb_FieldDef_IsClosedEnum f"; cases "upb_FieldDef_IsRepeated f")
    (auto simp: upb_MtDataEncoder_PutFieldType_def type_digit_def put_char Let_def dest: closed_enum_type)

lemma MaybePutFieldSkip_text:
  assumes "length ptr + 7 \<le> cap" and "ms_last_field_num st < num"
  shows "upb_MtDataEncoder_MaybePutFieldSkip cap st ptr num =
    Inr (st\<lparr>ms_last_field_num := num\<rparr>,
      ptr @ (if ms_last_field_num st + 1 = num then [] else skip_range.digits (num - ms_last_field_num st)))"
  using assms digits_length(1) [of "num - ms_last_field_num st"] skip_range.written [of ptr cap "num - ms_last_field_num st"]
  by (simp add: upb_MtDataEncoder_MaybePutFieldSkip_def Let_def not_le)

text \<open>The defaults that the encoder keeps, and when its assertion on UTF-8 holds for a field.\<close>

definition ms_defaults :: "msg_state \<Rightarrow> bool \<Rightarrow> bool \<Rightarrow> bool" where
  "ms_defaults st packed utf8 \<longleftrightarrow>
     (ms_msg_modifiers st AND 2 \<noteq> 0 \<longleftrightarrow> packed) \<and> (ms_msg_modifiers st AND 1 \<noteq> 0 \<longleftrightarrow> utf8)"

definition utf8_ok :: "bool \<Rightarrow> upb_FieldDef \<Rightarrow> bool" where
  "utf8_ok utf8 f \<longleftrightarrow> (utf8 \<and> fd_type f = kUpb_FieldType_String \<longrightarrow> upb_FieldDef_ValidateUtf8 f)"

lemma PutField_text:
  assumes "length ptr + 16 \<le> cap" and "ms_last_field_num st < fd_number f" and "ms_defaults st packed utf8" and "utf8_ok utf8 f"
  shows "upb_MtDataEncoder_PutField cap st ptr (fd_type f) (fd_number f) (upb_FieldDef_Modifiers f) =
    Inr (st\<lparr>ms_last_field_num := fd_number f\<rparr>, ptr @ field_text packed utf8 (ms_last_field_num st) f)"
proof -
  let ?skip = "if ms_last_field_num st + 1 = fd_number f then [] else skip_range.digits (fd_number f - ms_last_field_num st)"
  have len: "length ?skip \<le> 7" using digits_length(1) by simp
  have mods: "upb_MtDataEncoder_MaybePutModifiers cap (st\<lparr>ms_last_field_num := n\<rparr>) (ptr @ ?skip @ [c]) (fd_type f) (upb_FieldDef_Modifiers f) =
    Inr ((ptr @ ?skip @ [c]) @ (if field_flags packed utf8 f = 0 then [] else modifier_range.digits (field_flags packed utf8 f)))" for n c
    by (rule MaybePutModifiers_text) (use assms len in \<open>simp_all add: ms_defaults_def utf8_ok_def\<close>)
  show ?thesis
    using assms(1,2) len mods
    by (simp add: upb_MtDataEncoder_PutField_def MaybePutFieldSkip_text PutFieldType_text field_text_def del: if_split)
qed

lemma ds_ok_append: "ds_ok s b \<Longrightarrow> length b + 16 \<le> ds_bufsize s \<Longrightarrow> length cs \<le> 16 \<Longrightarrow> ds_ok (s\<lparr>ds_buf := Some (b @ cs)\<rparr>) (b @ cs)"
  by (simp add: ds_ok_def)

lemma put_fields_text:
  assumes "ds_ok s b" and "sorted_wrt (<) (ms_last_field_num st # map fd_number fs)"
    and "ms_defaults st packed utf8" and "list_all (utf8_ok utf8) fs"
  shows "enc_or_oom alloc (put_fields alloc s st fs) (\<lambda>(s', st').
    ds_ok s' (b @ fields_text packed utf8 (ms_last_field_num st) fs) \<and> ms_oneof_state st' = ms_oneof_state st)"
  using assms
proof (induction fs arbitrary: s st b)
  case (Cons f fs)
  show ?case
    unfolding put_fields.simps
  proof (rule enc_or_oom_grow)
    show "ds_ok s b \<or> (s = upb_DescState_Init \<and> b = [])" using Cons.prems(1) by blast
    fix s' assume s': "ds_ok s' b" "length b + 16 \<le> ds_bufsize s'" "ds_buf s' = Some b"
    let ?st = "st\<lparr>ms_last_field_num := fd_number f\<rparr>" and ?t = "field_text packed utf8 (ms_last_field_num st) f"
    have "enc_or_oom alloc (put_fields alloc (s'\<lparr>ds_buf := Some (b @ ?t)\<rparr>) ?st fs) (\<lambda>(s'', st').
      ds_ok s'' ((b @ ?t) @ fields_text packed utf8 (ms_last_field_num ?st) fs) \<and> ms_oneof_state st' = ms_oneof_state ?st)"
      by (rule Cons.IH) (use Cons.prems s' field_text_length [of packed utf8 "ms_last_field_num st" f] in
        \<open>auto simp: ms_defaults_def intro: ds_ok_append\<close>)
    then show "enc_or_oom alloc
        (bindE (upb_MtDataEncoder_PutField (ds_bufsize s') st (the (ds_buf s')) (fd_type f) (fd_number f) (upb_FieldDef_Modifiers f))
          (\<lambda>(st, ptr). put_fields alloc (s'\<lparr>ds_buf := Some ptr\<rparr>) st fs))
        (\<lambda>(s'', st'). ds_ok s'' (b @ fields_text packed utf8 (ms_last_field_num st) (f # fs)) \<and> ms_oneof_state st' = ms_oneof_state st)"
      using PutField_text [OF s'(2) _ Cons.prems(3), of f] Cons.prems(2,4) s'(3) by simp
  qed
qed simp

lemma PutOneofField_text:
  assumes "length ptr + 16 \<le> cap"
  shows "upb_MtDataEncoder_PutOneofField cap st ptr n =
    Inr (st\<lparr>ms_oneof_state := kUpb_OneofState_EmittedOneofField\<rparr>,
      ptr @ oneof_text (ms_oneof_state st = kUpb_OneofState_EmittedOneofField) [n])"
proof -
  have c: "upb_ToBase92 0 = 32" "upb_ToBase92 63 = 98" "upb_ToBase92 (upb_FromBase92 124) = 124" by code_simp+
  show ?thesis
    using assms digits_length(2) [of n] oneof_range.written [of ptr cap n] oneof_range.written [of "ptr @ [124]" cap n]
    by (simp add: upb_MtDataEncoder_PutOneofField_def put_char c)
qed

lemma oneof_text_length: "length (oneof_text e [n]) \<le> 7"
  using digits_length(2) [of n] by simp

lemma oneof_text_append: "oneof_text e (n # ns) = oneof_text e [n] @ oneof_text True ns"
  by simp

lemma put_oneof_fields_text:
  assumes "ds_ok s b"
  shows "enc_or_oom alloc (put_oneof_fields alloc s st ns) (\<lambda>(s', st').
    ds_ok s' (b @ oneof_text (ms_oneof_state st = kUpb_OneofState_EmittedOneofField) ns) \<and>
    (ms_oneof_state st' = kUpb_OneofState_NotStarted \<longrightarrow> ms_oneof_state st = kUpb_OneofState_NotStarted))"
  using assms
proof (induction ns arbitrary: s st b)
  case (Cons n ns)
  show ?case
    unfolding put_oneof_fields.simps
  proof (rule enc_or_oom_grow)
    show "ds_ok s b \<or> (s = upb_DescState_Init \<and> b = [])" using Cons.prems by blast
    fix s' assume s': "ds_ok s' b" "length b + 16 \<le> ds_bufsize s'" "ds_buf s' = Some b"
    let ?st = "st\<lparr>ms_oneof_state := kUpb_OneofState_EmittedOneofField\<rparr>"
    let ?t = "oneof_text (ms_oneof_state st = kUpb_OneofState_EmittedOneofField) [n]"
    have "ds_ok (s'\<lparr>ds_buf := Some (b @ ?t)\<rparr>) (b @ ?t)"
      by (rule ds_ok_append [OF s'(1,2)], rule le_trans [OF oneof_text_length]) simp
    from Cons.IH [OF this, of ?st] show "enc_or_oom alloc
        (bindE (upb_MtDataEncoder_PutOneofField (ds_bufsize s') st (the (ds_buf s')) n)
          (\<lambda>(st, ptr). put_oneof_fields alloc (s'\<lparr>ds_buf := Some ptr\<rparr>) st ns))
        (\<lambda>(s'', st'). ds_ok s'' (b @ oneof_text (ms_oneof_state st = kUpb_OneofState_EmittedOneofField) (n # ns)) \<and>
          (ms_oneof_state st' = kUpb_OneofState_NotStarted \<longrightarrow> ms_oneof_state st = kUpb_OneofState_NotStarted))"
      unfolding oneof_text_append [of _ n ns] PutOneofField_text [OF s'(2)] s'(3) option.sel
      by (auto simp: enc_or_oom_def split: sum.splits)
  qed
qed simp

lemma StartOneof_text:
  assumes "length ptr + 16 \<le> cap"
  shows "upb_MtDataEncoder_StartOneof cap st ptr =
    Inr (st\<lparr>ms_oneof_state := kUpb_OneofState_StartedOneof\<rparr>,
      ptr @ [if ms_oneof_state st \<noteq> kUpb_OneofState_NotStarted then 126 else 94])"
proof -
  have c: "upb_ToBase92 (upb_FromBase92 94) = 94" "upb_ToBase92 (upb_FromBase92 126) = 126" by code_simp+
  show ?thesis using assms by (simp add: upb_MtDataEncoder_StartOneof_def put_char c)
qed

lemma put_oneofs_text:
  assumes "ds_ok s b"
  shows "enc_or_oom alloc (put_oneofs alloc s st oneofs) (\<lambda>(s', st').
    ds_ok s' (b @ oneofs_text (ms_oneof_state st \<noteq> kUpb_OneofState_NotStarted) oneofs))"
  using assms
proof (induction oneofs arbitrary: s st b)
  case (Cons ns oneofs)
  show ?case
    unfolding put_oneofs.simps
  proof (rule enc_or_oom_grow)
    show "ds_ok s b \<or> (s = upb_DescState_Init \<and> b = [])" using Cons.prems by blast
    fix s' assume s': "ds_ok s' b" "length b + 16 \<le> ds_bufsize s'" "ds_buf s' = Some b"
    let ?st = "st\<lparr>ms_oneof_state := kUpb_OneofState_StartedOneof\<rparr>"
    let ?b = "b @ [if ms_oneof_state st \<noteq> kUpb_OneofState_NotStarted then 126 else 94]"
    have ok: "ds_ok (s'\<lparr>ds_buf := Some ?b\<rparr>) ?b" by (rule ds_ok_append [OF s'(1,2)]) simp
    have "enc_or_oom alloc (bindE (put_oneof_fields alloc (s'\<lparr>ds_buf := Some ?b\<rparr>) ?st ns) (\<lambda>(s, st). put_oneofs alloc s st oneofs))
      (\<lambda>(s'', st'). ds_ok s'' (?b @ oneof_text False ns @ oneofs_text True oneofs))"
    proof (rule enc_or_oom_bind [OF put_oneof_fields_text [OF ok]])
      fix x :: "upb_DescState \<times> msg_state"
      assume x: "case x of (s1, st1) \<Rightarrow>
          ds_ok s1 (?b @ oneof_text (ms_oneof_state ?st = kUpb_OneofState_EmittedOneofField) ns) \<and>
          (ms_oneof_state st1 = kUpb_OneofState_NotStarted \<longrightarrow> ms_oneof_state ?st = kUpb_OneofState_NotStarted)"
      obtain s1 st1 where [simp]: "x = (s1, st1)" by (cases x)
      from x have s1: "ds_ok s1 (?b @ oneof_text False ns)" "ms_oneof_state st1 \<noteq> kUpb_OneofState_NotStarted" by auto
      from Cons.IH [OF s1(1), of st1] s1(2) show "enc_or_oom alloc (case x of (s, st) \<Rightarrow> put_oneofs alloc s st oneofs)
        (\<lambda>(s'', st'). ds_ok s'' (?b @ oneof_text False ns @ oneofs_text True oneofs))" by simp
    qed
    then show "enc_or_oom alloc
        (bindE (upb_MtDataEncoder_StartOneof (ds_bufsize s') st (the (ds_buf s')))
          (\<lambda>(st, ptr). bindE (put_oneof_fields alloc (s'\<lparr>ds_buf := Some ptr\<rparr>) st ns) (\<lambda>(s, st). put_oneofs alloc s st oneofs)))
        (\<lambda>(s'', st'). ds_ok s'' (b @ oneofs_text (ms_oneof_state st \<noteq> kUpb_OneofState_NotStarted) (ns # oneofs)))"
      by (simp add: StartOneof_text [OF s'(2)] s'(3))
  qed
qed simp

text \<open>The order of the layout: the fields by number, each with its position as its layout index.\<close>

definition layout_order :: "upb_FieldDef list \<Rightarrow> upb_FieldDef list \<Rightarrow> bool" where
  "layout_order flds fs \<longleftrightarrow>
     set fs = set flds \<and> length fs = length flds \<and> map fd_layout_index fs = [0..<length fs] \<and> sorted_wrt (<) (map fd_number fs)"

definition with_layout_index :: "upb_FieldDef list \<Rightarrow> upb_FieldDef list \<Rightarrow> bool" where
  "with_layout_index flds flds' \<longleftrightarrow> list_all2 (\<lambda>f f'. \<exists>k. f' = f\<lparr>fd_layout_index := k\<rparr>) flds flds'"

lemma set_layout_indices:
  assumes "distinct out" and "set out \<subseteq> {..<length flds}" and "n \<le> length out"
  defines "r \<equiv> foldl (\<lambda>f i. f[out ! i := (f ! (out ! i))\<lparr>fd_layout_index := i\<rparr>]) flds [0..<n]"
  shows "length r = length flds" "\<And>j. j < n \<Longrightarrow> r ! (out ! j) = (flds ! (out ! j))\<lparr>fd_layout_index := j\<rparr>"
    "\<And>i. i \<notin> (!) out ` {..<n} \<Longrightarrow> r ! i = flds ! i"
proof -
  have "length r = length flds \<and> (\<forall>j<n. r ! (out ! j) = (flds ! (out ! j))\<lparr>fd_layout_index := j\<rparr>) \<and>
      (\<forall>i. i \<notin> (!) out ` {..<n} \<longrightarrow> r ! i = flds ! i)"
    unfolding r_def using assms(3)
  proof (induction n)
    case (Suc n)
    let ?r = "foldl (\<lambda>f i. f[out ! i := (f ! (out ! i))\<lparr>fd_layout_index := i\<rparr>]) flds [0..<n]"
    have n: "n < length out" using Suc.prems by simp
    have range: "out ! n < length flds" using assms(2) nth_mem [OF n] by auto
    have neq: "out ! j \<noteq> out ! n" if "j < n" for j
      using that n assms(1) by (simp add: nth_eq_iff_index_eq)
    have fresh: "out ! n \<notin> (!) out ` {..<n}"
    proof
      assume "out ! n \<in> (!) out ` {..<n}"
      then obtain j where "j < n" "out ! n = out ! j" by blast
      with neq [of j] show False by simp
    qed
    from Suc.IH n have IH: "length ?r = length flds" "\<forall>j<n. ?r ! (out ! j) = (flds ! (out ! j))\<lparr>fd_layout_index := j\<rparr>"
      "\<forall>i. i \<notin> (!) out ` {..<n} \<longrightarrow> ?r ! i = flds ! i" by auto
    show ?case
      using IH range neq fresh by (auto simp: less_Suc_eq lessThan_Suc nth_list_update)
  qed simp
  then show "length r = length flds" "\<And>j. j < n \<Longrightarrow> r ! (out ! j) = (flds ! (out ! j))\<lparr>fd_layout_index := j\<rparr>"
    "\<And>i. i \<notin> (!) out ` {..<n} \<Longrightarrow> r ! i = flds ! i" by blast+
qed

lemma FieldDefs_Sorted_order:
  assumes "upb_FieldDefs_Sorted alloc flds = Some (out, flds')" and "distinct (map fd_number flds)"
  shows "layout_order flds' (map (\<lambda>i. flds' ! i) out)" "with_layout_index flds flds'"
proof -
  let ?n = "length flds"
  have out: "out = sort_key (\<lambda>i. fd_number (flds ! i)) [0..<?n]"
    and flds': "flds' = foldl (\<lambda>f i. f[out ! i := (f ! (out ! i))\<lparr>fd_layout_index := i\<rparr>]) flds [0..<?n]"
    using assms(1) by (auto simp: upb_FieldDefs_Sorted_def Let_def split: if_splits)
  have perm: "distinct out" "set out = {..<?n}" "length out = ?n" by (auto simp: out)
  note r = set_layout_indices [OF perm(1) _ , of flds ?n, folded flds']
  have r1: "length flds' = ?n" and r2: "\<And>j. j < ?n \<Longrightarrow> flds' ! (out ! j) = (flds ! (out ! j))\<lparr>fd_layout_index := j\<rparr>"
    using r(1,2) perm by auto
  have idx: "\<exists>j<?n. out ! j = i" if "i < ?n" for i
    using that perm by (metis in_set_conv_nth lessThan_iff)
  have num: "fd_number (flds' ! i) = fd_number (flds ! i)" if "i < ?n" for i
    using idx [OF that] r2 by auto
  show "with_layout_index flds flds'"
    unfolding with_layout_index_def list_all2_conv_all_nth using r1 r2 idx by metis
  have nums: "map (\<lambda>i. fd_number (flds' ! i)) out = map (\<lambda>i. fd_number (flds ! i)) out"
    using num perm(2) by (intro map_cong) auto
  have "sorted (map (\<lambda>i. fd_number (flds ! i)) out)" unfolding out by (rule sorted_sort_key)
  moreover have "distinct (map (\<lambda>i. fd_number (flds ! i)) out)"
    using perm(1,2) inj_on_nth [OF assms(2), of "{..<?n}"] by (simp add: distinct_map inj_on_def)
  ultimately have "sorted_wrt (<) (map (\<lambda>i. fd_number (flds' ! i)) out)"
    unfolding nums strict_sorted_iff ..
  moreover have "set (map (\<lambda>i. flds' ! i) out) = set flds'"
    unfolding set_map perm(2) lessThan_atLeast0 using nth_image [of ?n flds'] r1 by simp
  moreover have "map (\<lambda>i. fd_layout_index (flds' ! i)) out = [0..<?n]"
    using perm(3) r2 by (intro nth_equalityI) auto
  ultimately show "layout_order flds' (map (\<lambda>i. flds' ! i) out)"
    using perm(3) r1 by (simp add: layout_order_def comp_def)
qed

text \<open>
  What the construction of the definitions has checked of a message that is neither a map entry nor a message
  set: the numbers are distinct and in range; the flag and the layout indices of a sorted message; a singular
  submessage has presence, as has what is required, and a repeated field has none; the fields of the oneofs
  are optional and each is in one oneof. A oneof without fields is not refused there, but by the builder.
\<close>

definition fielddef_ok :: "upb_FieldDef \<Rightarrow> bool" where
  "fielddef_ok f \<longleftrightarrow>
     0 < fd_number f \<and> fd_number f \<le> kUpb_MaxFieldNumber \<and>
     (upb_FieldDef_IsRepeated f \<longrightarrow> \<not> fd_has_presence f) \<and>
     (\<not> upb_FieldDef_IsRepeated f \<and> (upb_FieldDef_IsSubMessage f \<or> upb_FieldDef_IsRequired f) \<longrightarrow> fd_has_presence f)"

definition messagedef_ok :: "upb_MessageDef \<Rightarrow> bool" where
  "messagedef_ok m \<longleftrightarrow>
     \<not> mdef_map_entry m \<and> \<not> mdef_message_set_wire_format m \<and>
     list_all fielddef_ok (mdef_fields m) \<and> distinct (map fd_number (mdef_fields m)) \<and>
     (mdef_is_sorted m \<longrightarrow> sorted (map fd_number (mdef_fields m)) \<and>
        map fd_layout_index (mdef_fields m) = [0..<length (mdef_fields m)]) \<and>
     list_all (\<lambda>ns. ns \<noteq> []) (mdef_oneofs m) \<and> distinct (concat (mdef_oneofs m)) \<and>
     list_all (\<lambda>i. i < length (mdef_fields m) \<and> fd_has_presence (mdef_fields m ! i) \<and>
        \<not> upb_FieldDef_IsRepeated (mdef_fields m ! i) \<and> \<not> upb_FieldDef_IsRequired (mdef_fields m ! i))
       (concat (mdef_oneofs m))"

lemma message_Modifiers_bits [simp]:
  "upb_MessageDef_Modifiers m AND 1 = 0 \<longleftrightarrow> \<not> upb_MessageDef_ValidateUtf8 m"
  "upb_MessageDef_Modifiers m AND 2 = 0 \<longleftrightarrow> \<not> upb_MessageDef_DefaultIsPacked m"
  "upb_MessageDef_Modifiers m AND 4 = 0 \<longleftrightarrow> mdef_ext_range_count m = 0"
  by (simp_all add: upb_MessageDef_Modifiers_def)

definition message_flags :: "upb_MessageDef \<Rightarrow> u32" where
  "message_flags m =
     (if upb_MessageDef_DefaultIsPacked m then 2 else 0) OR (if upb_MessageDef_ValidateUtf8 m then 1 else 0) OR
     (if mdef_ext_range_count m \<noteq> 0 then 4 else 0)"

lemma Modifiers_flags: "upb_MessageDef_Modifiers m = ucast (message_flags m)" "message_flags m < 16"
  by (simp_all add: upb_MessageDef_Modifiers_def message_flags_def)

definition message_text :: "upb_MessageDef \<Rightarrow> upb_FieldDef list \<Rightarrow> byte list" where
  "message_text m fs =
     36 # (if message_flags m = 0 then [] else modifier_range.digits (message_flags m)) @
     fields_text (upb_MessageDef_DefaultIsPacked m) (upb_MessageDef_ValidateUtf8 m) 0 fs @
     oneofs_text False (map (map (\<lambda>i. fd_number (mdef_fields m ! i))) (mdef_oneofs m))"

lemma ValidateUtf8_loop_all: "ValidateUtf8_loop fs b \<Longrightarrow> list_all upb_FieldDef_ValidateUtf8 fs"
  by (induction fs b rule: ValidateUtf8_loop.induct) (auto split: if_splits)

lemma message_utf8_ok: "f \<in> set (mdef_fields m) \<Longrightarrow> utf8_ok (upb_MessageDef_ValidateUtf8 m) f"
  unfolding utf8_ok_def upb_MessageDef_ValidateUtf8_def by (metis ValidateUtf8_loop_all list_all_iff)

lemma StartMessage_text:
  assumes "16 \<le> cap"
  shows "upb_MtDataEncoder_StartMessage cap [] (upb_MessageDef_Modifiers m) =
    Inr (\<lparr>ms_msg_modifiers = upb_MessageDef_Modifiers m, ms_last_field_num = 0, ms_oneof_state = kUpb_OneofState_NotStarted\<rparr>,
      36 # (if message_flags m = 0 then [] else modifier_range.digits (message_flags m)))"
  using assms PutModifier_text [of "[36]" cap "message_flags m"] Modifiers_flags [of m]
  by (simp add: upb_MtDataEncoder_StartMessage_def upb_MtDataEncoder_PutRaw_def)

text \<open>The layout indices are set, and the fields in the order of the layout are written.\<close>

definition laid :: "upb_MessageDef \<Rightarrow> upb_MessageDef \<Rightarrow> upb_FieldDef list \<Rightarrow> bool" where
  "laid m m' fs \<longleftrightarrow>
     with_layout_index (mdef_fields m) (mdef_fields m') \<and> m' = m\<lparr>mdef_fields := mdef_fields m'\<rparr> \<and>
     layout_order (mdef_fields m') fs"

lemma with_layout_index_nth:
  "with_layout_index flds flds' \<Longrightarrow> i < length flds \<Longrightarrow> \<exists>k. flds' ! i = (flds ! i)\<lparr>fd_layout_index := k\<rparr>"
  by (simp add: with_layout_index_def list_all2_conv_all_nth)

lemma layout_fields:
  assumes "messagedef_ok m"
    and "(if mdef_is_sorted m then Some ([0..<length (mdef_fields m)], mdef_fields m)
          else upb_FieldDefs_Sorted alloc (mdef_fields m)) = Some (order, fs)"
  shows "laid m (m\<lparr>mdef_fields := fs\<rparr>) (map (\<lambda>i. fs ! i) order)"
proof (cases "mdef_is_sorted m")
  case True
  with assms have "fs = mdef_fields m" "order = [0..<length fs]" by auto
  moreover have "layout_order (mdef_fields m) (mdef_fields m)"
    using assms(1) True by (simp add: messagedef_ok_def layout_order_def strict_sorted_iff)
  moreover have "with_layout_index (mdef_fields m) (mdef_fields m)"
    unfolding with_layout_index_def by (rule list_all2_refl) (metis upb_FieldDef.surjective upb_FieldDef.update_convs(10))
  ultimately show ?thesis by (simp add: laid_def map_nth)
next
  case False
  with assms FieldDefs_Sorted_order [of alloc "mdef_fields m" order fs] show ?thesis
    by (auto simp: laid_def messagedef_ok_def)
qed

lemma laid_sorted:
  assumes "messagedef_ok m" and "laid m m' fs"
  shows "sorted_wrt (<) (0 # map fd_number fs)"
proof -
  have "0 < fd_number f" if f: "f \<in> set (mdef_fields m')" for f
  proof -
    obtain i where i: "i < length (mdef_fields m)" "f = mdef_fields m' ! i"
      using f assms(2) by (auto simp: laid_def with_layout_index_def in_set_conv_nth dest: list_all2_lengthD)
    with with_layout_index_nth [of "mdef_fields m" "mdef_fields m'" i] assms show ?thesis
      by (auto simp: laid_def messagedef_ok_def fielddef_ok_def list_all_length)
  qed
  then show ?thesis using assms(2) by (auto simp: laid_def layout_order_def)
qed

lemma EncodeMessage_text:
  assumes ok: "messagedef_ok m" and s: "ds_ok s []" "16 \<le> ds_bufsize s" "ds_buf s = Some []"
  shows "enc_or_oom alloc (upb_MessageDef_EncodeMessage alloc s m) (\<lambda>(s', m'). \<exists>fs. laid m m' fs \<and> ds_ok s' (message_text m' fs))"
proof (cases "if mdef_is_sorted m then Some ([0..<length (mdef_fields m)], mdef_fields m)
          else upb_FieldDefs_Sorted alloc (mdef_fields m)")
  case None
  then show ?thesis by (auto simp: upb_MessageDef_EncodeMessage_def upb_FieldDefs_Sorted_def Let_def split: if_splits)
next
  case (Some p)
  obtain order flds where p: "p = (order, flds)" by (cases p)
  let ?m = "m\<lparr>mdef_fields := flds\<rparr>" and ?fs = "map (\<lambda>i. flds ! i) order"
  let ?st = "\<lparr>ms_msg_modifiers = upb_MessageDef_Modifiers ?m, ms_last_field_num = 0, ms_oneof_state = kUpb_OneofState_NotStarted\<rparr>"
  let ?b = "36 # (if message_flags ?m = 0 then [] else modifier_range.digits (message_flags ?m))"
  let ?oneofs = "map (map (\<lambda>i. fd_number (flds ! i))) (mdef_oneofs m)"
  have laid: "laid m ?m ?fs" using layout_fields [OF ok] Some by (simp only: p)
  have b: "ds_ok (s\<lparr>ds_buf := Some ?b\<rparr>) ?b"
    using s digits_length(3) [OF Modifiers_flags(2), of ?m] by (auto simp: ds_ok_def)
  have utf8: "list_all (utf8_ok (upb_MessageDef_ValidateUtf8 ?m)) ?fs"
    using laid message_utf8_ok [of _ ?m] by (auto simp: laid_def layout_order_def list_all_iff)
  have defaults: "ms_defaults ?st (upb_MessageDef_DefaultIsPacked ?m) (upb_MessageDef_ValidateUtf8 ?m)"
    by (simp add: ms_defaults_def)
  have "enc_or_oom alloc (put_fields alloc (s\<lparr>ds_buf := Some ?b\<rparr>) ?st ?fs) (\<lambda>(s', st').
      ds_ok s' (?b @ fields_text (upb_MessageDef_DefaultIsPacked ?m) (upb_MessageDef_ValidateUtf8 ?m) 0 ?fs) \<and>
      ms_oneof_state st' = kUpb_OneofState_NotStarted)"
    using put_fields_text [OF b _ defaults utf8] laid_sorted [OF ok laid] by simp
  then have "enc_or_oom alloc
      (bindE (put_fields alloc (s\<lparr>ds_buf := Some ?b\<rparr>) ?st ?fs) (\<lambda>(s, st). bindE (put_oneofs alloc s st ?oneofs) (\<lambda>(s, st). Inr (s, ?m))))
      (\<lambda>(s', m'). \<exists>fs. laid m m' fs \<and> ds_ok s' (message_text m' fs))"
  proof (rule enc_or_oom_bind, clarsimp)
    fix s1 and st1 :: msg_state
    assume s1: "ds_ok s1 (36 # (if message_flags ?m = 0 then [] else modifier_range.digits (message_flags ?m)) @
        fields_text (upb_MessageDef_DefaultIsPacked ?m) (upb_MessageDef_ValidateUtf8 ?m) 0 ?fs)"
      and st1: "ms_oneof_state st1 = kUpb_OneofState_NotStarted"
    show "enc_or_oom alloc (bindE (put_oneofs alloc s1 st1 ?oneofs) (\<lambda>(s, st). Inr (s, ?m)))
        (\<lambda>(s', m'). \<exists>fs. laid m m' fs \<and> ds_ok s' (message_text m' fs))"
      by (rule enc_or_oom_bind [OF put_oneofs_text [OF s1]]) (use laid st1 in \<open>auto simp: message_text_def intro!: exI [of _ ?fs]\<close>)
  qed
  then show ?thesis
    using Some p s by (simp add: upb_MessageDef_EncodeMessage_def StartMessage_text Let_def del: if_split)
qed

lemma MiniDescriptorEncode_text:
  assumes ok: "messagedef_ok m"
  shows "enc_or_oom alloc (upb_MessageDef_MiniDescriptorEncode alloc m) (\<lambda>(s, m'). \<exists>fs. laid m m' fs \<and> s = message_text m' fs)"
proof -
  have no: "\<not> mdef_map_entry m" "\<not> mdef_message_set_wire_format m" using ok by (auto simp: messagedef_ok_def)
  show ?thesis
    unfolding upb_MessageDef_MiniDescriptorEncode_def if_not_P [OF no(1)] if_not_P [OF no(2)]
  proof (rule enc_or_oom_grow, force)
    fix s assume s: "ds_ok s []" "length [] + 16 \<le> ds_bufsize s" "ds_buf s = Some []"
    show "enc_or_oom alloc (bindE (upb_MessageDef_EncodeMessage alloc s m) (\<lambda>(s, m).
          case upb_DescState_Grow alloc s of None \<Rightarrow> Inl EncOutOfMemory | Some s \<Rightarrow> Inr (the (ds_buf s), m)))
        (\<lambda>(s, m'). \<exists>fs. laid m m' fs \<and> s = message_text m' fs)"
    proof (rule enc_or_oom_bind [OF EncodeMessage_text [OF ok s(1) _ s(3)]], use s in simp, clarify)
      fix s1 m' fs assume "laid m m' fs" and s1: "ds_ok s1 (message_text m' fs)"
      then show "enc_or_oom alloc (case upb_DescState_Grow alloc s1 of None \<Rightarrow> Inl EncOutOfMemory | Some s \<Rightarrow> Inr (the (ds_buf s), m'))
          (\<lambda>(s, m'). \<exists>fs. laid m m' fs \<and> s = message_text m' fs)"
        by (intro enc_or_oom_grow) auto
    qed
  qed
qed

end
