(* ===== verification/Mini_Roundtrip.thy ===== *)
theory Mini_Roundtrip
  imports Mini_Text
begin

text \<open>
  The parser reads the text of a message definition back: each field with its number, type and mode and the
  presence class of its definition, and the lists of the oneofs.
\<close>

section \<open>The field that is read for a definition\<close>

text \<open>The representation of a value, the mode without the flags, and the mode with them.\<close>

definition pointer_rep :: "mini_platform \<Rightarrow> upb_FieldRep" where
  "pointer_rep p = (case p of kUpb_MiniTablePlatform_32Bit \<Rightarrow> kUpb_FieldRep_4Byte | _ \<Rightarrow> kUpb_FieldRep_8Byte)"

definition encoded_type :: "upb_FieldDef \<Rightarrow> int" where
  "encoded_type f = (if upb_FieldDef_IsClosedEnum f then 18 else kUpb_TypeToEncoded (fd_type f))"

definition base_mode :: "mini_platform \<Rightarrow> upb_FieldDef \<Rightarrow> byte" where
  "base_mode p f =
     (if upb_FieldDef_IsRepeated f then 1 OR push_bit 6 (rep_number (pointer_rep p))
      else if encoded_type f = 16 \<or> encoded_type f = 17 then 2 OR push_bit 6 (rep_number (pointer_rep p))
      else 2 OR push_bit 6 (rep_number (kUpb_EncodedToFieldRep ! nat (encoded_type f))))"

definition mode_of :: "byte \<Rightarrow> bool \<Rightarrow> bool \<Rightarrow> byte" where
  "mode_of b packed alternate = (b OR (if alternate then 16 else 0)) OR (if packed then 4 else 0)"

text \<open>An open enum is stored as an alternate integer, a string that is not validated as alternate bytes.\<close>

definition is_alternate :: "bool \<Rightarrow> upb_FieldDef \<Rightarrow> bool" where
  "is_alternate utf8 f \<longleftrightarrow>
     (fd_type f = kUpb_FieldType_Enum \<and> \<not> upb_FieldDef_IsClosedEnum f) \<or> (fd_type f = kUpb_FieldType_String \<and> \<not> utf8)"

definition stored_type :: "bool \<Rightarrow> upb_FieldDef \<Rightarrow> upb_FieldType" where
  "stored_type utf8 f =
     (if fd_type f = kUpb_FieldType_Enum \<and> \<not> upb_FieldDef_IsClosedEnum f then kUpb_FieldType_Int32
      else if fd_type f = kUpb_FieldType_String \<and> \<not> utf8 then kUpb_FieldType_Bytes
      else fd_type f)"

definition presence_class :: "upb_FieldDef \<Rightarrow> u16" where
  "presence_class f =
     (if upb_FieldDef_IsRepeated f then kNoPresence
      else if upb_FieldDef_IsRequired f then kRequiredPresence
      else if fd_has_presence f then kHasbitPresence else kNoPresence)"

definition field_read :: "mini_platform \<Rightarrow> upb_FieldDef \<Rightarrow> u16 \<Rightarrow> upb_MiniTableField" where
  "field_read p f sub =
     \<lparr>mtf_number = fd_number f, mtf_offset = presence_class f, mtf_presence = 0, mtf_submsg_index = sub,
      mtf_descriptortype = stored_type (upb_FieldDef_ValidateUtf8 f) f,
      mtf_mode = mode_of (base_mode p f) (upb_FieldDef_IsPacked f) (is_alternate (upb_FieldDef_ValidateUtf8 f) f)\<rparr>"

lemma encoded_type_range: "0 \<le> encoded_type f" "encoded_type f < 19"
  unfolding encoded_type_def by (cases "fd_type f", simp_all)+

lemma type_digit_encoded: "type_digit f = encoded_type f + (if upb_FieldDef_IsRepeated f then 20 else 0)"
  by (simp add: type_digit_def encoded_type_def)

lemma encoded_type_back: "kUpb_EncodedToType ! nat (encoded_type f) = fd_type f"
  unfolding encoded_type_def kUpb_EncodedToType_def by (cases "fd_type f") (auto dest: closed_enum_type)

lemma encoded_type_open_enum: "encoded_type f = 12 \<longleftrightarrow> fd_type f = kUpb_FieldType_Enum \<and> \<not> upb_FieldDef_IsClosedEnum f"
  unfolding encoded_type_def by (cases "fd_type f") (auto dest: closed_enum_type)

lemma base_mode_values:
  "base_mode p f \<in> (if upb_FieldDef_IsRepeated f then {1, 65, 129, 193} else {2, 66, 130, 194})"
proof -
  have r: "rep_number r = 0 \<or> rep_number r = 1 \<or> rep_number r = 2 \<or> rep_number r = 3" for r
    by (cases r) (simp_all add: rep_number_def)
  show ?thesis
    unfolding base_mode_def using r [of "pointer_rep p"] r [of "kUpb_EncodedToFieldRep ! nat (encoded_type f)"] by auto
qed

lemma mode_of_bits:
  assumes "b \<in> {1, 65, 129, 193} \<or> b \<in> {2, 66, 130, 194}"
  shows "mode_of b packed alternate AND 1 = b AND 1" "mode_of b packed alternate AND 3 = b AND 3"
    "mode_of b packed alternate XOR 4 = mode_of b (\<not> packed) alternate"
    "mode_of b packed alternate AND 16 = 0 \<longleftrightarrow> \<not> alternate" "mode_of b packed True AND NOT 16 = mode_of b packed False"
    "mode_of b packed alternate AND 4 = 0 \<longleftrightarrow> \<not> packed" "mode_of b packed alternate AND 8 = 0"
  using assms by (cases packed; cases alternate; auto simp: mode_of_def)+

lemma base_mode_bits:
  "mode_of (base_mode p f) packed alternate AND 1 = 0 \<longleftrightarrow> \<not> upb_FieldDef_IsRepeated f"
  "mode_of (base_mode p f) packed alternate XOR 4 = mode_of (base_mode p f) (\<not> packed) alternate"
  "mode_of (base_mode p f) packed alternate AND 16 = 0 \<longleftrightarrow> \<not> alternate"
  "mode_of (base_mode p f) packed True AND NOT 16 = mode_of (base_mode p f) packed False"
  "mode_of (base_mode p f) packed alternate AND 4 = 0 \<longleftrightarrow> \<not> packed"
  "mode_of (base_mode p f) packed alternate AND 8 = 0"
  "mode_of (base_mode p f) packed alternate AND 3 = (if upb_FieldDef_IsRepeated f then 1 else 2)"
proof -
  have v: "base_mode p f \<in> {1, 65, 129, 193} \<or> base_mode p f \<in> {2, 66, 130, 194}"
    using base_mode_values [of p f] by (cases "upb_FieldDef_IsRepeated f") simp_all
  have a: "base_mode p f AND 1 = 0 \<longleftrightarrow> \<not> upb_FieldDef_IsRepeated f" "base_mode p f AND 3 = (if upb_FieldDef_IsRepeated f then 1 else 2)"
    using base_mode_values [of p f] by (auto split: if_splits)
  show "mode_of (base_mode p f) packed alternate AND 1 = 0 \<longleftrightarrow> \<not> upb_FieldDef_IsRepeated f"
    "mode_of (base_mode p f) packed alternate XOR 4 = mode_of (base_mode p f) (\<not> packed) alternate"
    "mode_of (base_mode p f) packed alternate AND 16 = 0 \<longleftrightarrow> \<not> alternate"
    "mode_of (base_mode p f) packed True AND NOT 16 = mode_of (base_mode p f) packed False"
    "mode_of (base_mode p f) packed alternate AND 4 = 0 \<longleftrightarrow> \<not> packed"
    "mode_of (base_mode p f) packed alternate AND 8 = 0"
    "mode_of (base_mode p f) packed alternate AND 3 = (if upb_FieldDef_IsRepeated f then 1 else 2)"
    by (simp_all add: mode_of_bits [OF v, simplified] a)
qed

lemma stored_type_packable: "upb_FieldType_IsPackable (stored_type utf8 f) = upb_FieldType_IsPackable (fd_type f)"
  by (auto simp: stored_type_def upb_FieldType_IsPackable_def)

lemma stored_type_sub:
  "stored_type utf8 f = kUpb_FieldType_Message \<longleftrightarrow> fd_type f = kUpb_FieldType_Message"
  "stored_type utf8 f = kUpb_FieldType_Group \<longleftrightarrow> fd_type f = kUpb_FieldType_Group"
  by (auto simp: stored_type_def)

section \<open>One field\<close>

text \<open>The field before its modifiers are read: packed and validated as the message says.\<close>

definition field_set :: "mini_platform \<Rightarrow> bool \<Rightarrow> bool \<Rightarrow> upb_FieldDef \<Rightarrow> u16 \<Rightarrow> upb_MiniTableField" where
  "field_set p packed utf8 f sub =
     \<lparr>mtf_number = fd_number f, mtf_offset = (if upb_FieldDef_IsRepeated f then kNoPresence else kHasbitPresence),
      mtf_presence = 0, mtf_submsg_index = sub, mtf_descriptortype = stored_type utf8 f,
      mtf_mode = mode_of (base_mode p f) (upb_FieldDef_IsPackable f \<and> packed) (is_alternate utf8 f)\<rparr>"

lemma field_set_packable: "upb_MtDecoder_FieldIsPackable (field_set p packed utf8 f sub) \<longleftrightarrow> upb_FieldDef_IsPackable f"
  by (simp add: upb_MtDecoder_FieldIsPackable_def field_set_def base_mode_bits stored_type_packable IsPackable_type)

lemma type_digit_char:
  "upb_FromBase92 (upb_ToBase92 (type_digit f)) = type_digit f"
  "upb_ToBase92 (type_digit f) \<ge> upb_ToBase92 20 \<longleftrightarrow> upb_FieldDef_IsRepeated f"
  "sint (upb_ToBase92 (type_digit f)) \<le> 73"
proof -
  have all: "list_all (\<lambda>d. (upb_ToBase92 d \<ge> upb_ToBase92 20 \<longleftrightarrow> d \<ge> 20) \<and> sint (upb_ToBase92 d) \<le> 73) [0..38]"
    by code_simp
  have "0 \<le> type_digit f" "type_digit f \<le> 38" "20 \<le> type_digit f \<longleftrightarrow> upb_FieldDef_IsRepeated f"
    using encoded_type_range [of f] by (simp_all add: type_digit_encoded)
  with all show "upb_ToBase92 (type_digit f) \<ge> upb_ToBase92 20 \<longleftrightarrow> upb_FieldDef_IsRepeated f"
    "sint (upb_ToBase92 (type_digit f)) \<le> 73" by (simp_all add: list_all_iff)
  show "upb_FromBase92 (upb_ToBase92 (type_digit f)) = type_digit f"
    by (rule upb_FromBase92_ToBase92) (use encoded_type_range [of f] in \<open>simp_all add: type_digit_encoded\<close>)
qed

lemma SetField_field_set:
  assumes "mm AND 2 \<noteq> 0 \<longleftrightarrow> packed" and "mm AND 1 \<noteq> 0 \<longleftrightarrow> utf8"
  shows "\<exists>a b sub. upb_MiniTable_SetField d (upb_ToBase92 (type_digit f)) (new_field (fd_number f)) mm =
    Inr (d\<lparr>md_submsg_count := a, md_subenum_count := b\<rparr>, field_set (md_platform d) packed utf8 f sub)"
proof -
  let ?p = "md_platform d"
  let ?t = "\<lparr>mtf_number = fd_number f, mtf_offset = (if upb_FieldDef_IsRepeated f then kNoPresence else kHasbitPresence),
      mtf_presence = 0, mtf_submsg_index = 0, mtf_descriptortype = kUpb_FieldType_Double, mtf_mode = base_mode ?p f\<rparr>"
  note range = encoded_type_range [of f]
  have set: "upb_MiniTable_SetField d (upb_ToBase92 (type_digit f)) (new_field (fd_number f)) mm =
    upb_MiniTable_SetTypeAndSub d ?t (fd_type f) mm (fd_type f = kUpb_FieldType_Enum \<and> \<not> upb_FieldDef_IsClosedEnum f)"
    unfolding upb_MiniTable_SetField_def type_digit_char Let_def pointer_rep_def [symmetric]
    using range
    by (auto simp: new_field_def type_digit_encoded base_mode_def encoded_type_back encoded_type_open_enum)
  have m: "mode_of (base_mode ?p f) False alt = base_mode ?p f OR (if alt then 16 else 0)"
    "mode_of (base_mode ?p f) packed alt = mode_of (base_mode ?p f) False alt OR (if packed then 4 else 0)" for alt packed
    by (simp_all add: mode_of_def)
  let ?t' = "?t\<lparr>mtf_descriptortype := stored_type utf8 f, mtf_mode := mode_of (base_mode ?p f) False (is_alternate utf8 f)\<rparr>"
  have pk: "upb_MtDecoder_FieldIsPackable ?t' \<longleftrightarrow> upb_FieldDef_IsPackable f"
    by (simp add: upb_MtDecoder_FieldIsPackable_def base_mode_bits stored_type_packable IsPackable_type)
  have t': "(if upb_MtDecoder_FieldIsPackable ?t' \<and> packed then ?t'\<lparr>mtf_mode := mtf_mode ?t' OR kUpb_LabelFlags_IsPacked\<rparr> else ?t') =
    field_set ?p packed utf8 f 0"
    unfolding pk field_set_def by (cases "upb_FieldDef_IsPackable f"; cases packed) (simp_all add: m(2) [of "True"])
  have "upb_MiniTable_SetTypeAndSub d ?t (fd_type f) mm (fd_type f = kUpb_FieldType_Enum \<and> \<not> upb_FieldDef_IsClosedEnum f) =
     (let type = stored_type utf8 f; t = field_set ?p packed utf8 f 0 in
        if type = kUpb_FieldType_Message \<or> type = kUpb_FieldType_Group then
             Inr (d\<lparr>md_submsg_count := md_submsg_count d + 1\<rparr>, t\<lparr>mtf_submsg_index := md_submsg_count d\<rparr>)
           else if type = kUpb_FieldType_Enum then
             Inr (d\<lparr>md_subenum_count := md_subenum_count d + 1\<rparr>, t\<lparr>mtf_submsg_index := md_subenum_count d\<rparr>)
           else Inr (d, t\<lparr>mtf_submsg_index := kUpb_NoSub\<rparr>))"
    unfolding upb_MiniTable_SetTypeAndSub_def t' [symmetric] using assms
    by (auto simp: stored_type_def is_alternate_def m(1) Let_def)
  note res = this [unfolded Let_def]
  have upd: "(field_set ?p packed utf8 f 0)\<lparr>mtf_submsg_index := x\<rparr> = field_set ?p packed utf8 f x" for x
    by (simp add: field_set_def)
  have d: "d = d\<lparr>md_submsg_count := md_submsg_count d, md_subenum_count := md_subenum_count d\<rparr>"
    "d\<lparr>md_submsg_count := x\<rparr> = d\<lparr>md_submsg_count := x, md_subenum_count := md_subenum_count d\<rparr>"
    "d\<lparr>md_subenum_count := x\<rparr> = d\<lparr>md_submsg_count := md_submsg_count d, md_subenum_count := x\<rparr>" for x
    by simp_all
  show ?thesis
    unfolding set res upd
    by (cases "stored_type utf8 f = kUpb_FieldType_Message \<or> stored_type utf8 f = kUpb_FieldType_Group";
        cases "stored_type utf8 f = kUpb_FieldType_Enum")
      (simp_all only: if_True if_False simp_thms sum.inject prod.inject, (metis d)+)
qed

lemma field_flags_bits [simp]:
  "field_flags packed utf8 f AND 1 = 0 \<longleftrightarrow> \<not> (upb_FieldDef_IsPackable f \<and> upb_FieldDef_IsPacked f \<noteq> packed)"
  "field_flags packed utf8 f AND 8 = 0 \<longleftrightarrow> \<not> (fd_type f = kUpb_FieldType_String \<and> upb_FieldDef_ValidateUtf8 f \<noteq> utf8)"
  "field_flags packed utf8 f AND 4 = 0 \<longleftrightarrow> upb_FieldDef_IsRepeated f \<or> upb_FieldDef_IsRequired f \<or> fd_has_presence f"
  "field_flags packed utf8 f AND 2 = 0 \<longleftrightarrow> upb_FieldDef_IsRepeated f \<or> \<not> upb_FieldDef_IsRequired f"
  by (simp_all add: field_flags_def)

text \<open>Its modifiers turn it into the field of the definition.\<close>

lemma ModifyField_field_read:
  assumes ok: "fielddef_ok f" and utf8: "utf8_ok utf8 f"
  shows "upb_MtDecoder_ModifyField (field_flags packed utf8 f) (field_set p packed utf8 f sub) = Inr (field_read p f sub)"
proof -
  let ?t = "field_set p packed utf8 f sub"
  let ?t1 = "?t\<lparr>mtf_mode := mode_of (base_mode p f) (upb_FieldDef_IsPacked f) (is_alternate utf8 f)\<rparr>"
  let ?t2 = "?t1\<lparr>mtf_descriptortype := stored_type (upb_FieldDef_ValidateUtf8 f) f,
    mtf_mode := mode_of (base_mode p f) (upb_FieldDef_IsPacked f) (is_alternate (upb_FieldDef_ValidateUtf8 f) f)\<rparr>"
  have one: "(if field_flags packed utf8 f AND 1 \<noteq> 0 then
        if \<not> upb_MtDecoder_FieldIsPackable ?t then Inl (MtCannotFlipPacked (mtf_number ?t))
        else Inr (?t\<lparr>mtf_mode := mtf_mode ?t XOR kUpb_LabelFlags_IsPacked\<rparr>)
      else Inr ?t) = Inr ?t1"
    by (auto simp: field_set_packable) (auto simp: field_set_def base_mode_bits upb_FieldDef_IsPacked_def)
  have two: "(if field_flags packed utf8 f AND 8 \<noteq> 0 then
        if mtf_descriptortype ?t1 \<noteq> kUpb_FieldType_Bytes \<or> mtf_mode ?t1 AND kUpb_LabelFlags_IsAlternate = 0
        then Inl (MtCannotFlipUtf8 (mtf_number ?t1))
        else Inr (?t1\<lparr>mtf_descriptortype := kUpb_FieldType_String, mtf_mode := mtf_mode ?t1 AND NOT kUpb_LabelFlags_IsAlternate\<rparr>)
      else Inr ?t1) = Inr ?t2"
    using utf8
    by (auto simp: utf8_ok_def field_set_def base_mode_bits [simplified] is_alternate_def stored_type_def)
  have off: "mtf_offset ?t2 = (if upb_FieldDef_IsRepeated f then kNoPresence else kHasbitPresence)"
    by (simp add: field_set_def)
  have sub: "upb_MiniTableField_IsSubMessage ?t2 \<longleftrightarrow> upb_FieldDef_IsSubMessage f"
    unfolding upb_MiniTableField_IsSubMessage_def upb_FieldDef_IsSubMessage_def upb_FieldDef_CType_def
    by (cases "fd_type f") (simp_all add: stored_type_def)
  show ?thesis
    unfolding upb_MtDecoder_ModifyField_def one bindE_simps two Let_def off sub
    using ok
    by (auto simp: field_read_def field_set_def presence_class_def fielddef_ok_def)
qed

section \<open>The fields of a message\<close>

text \<open>What the parser knows of the defaults of the message; a bit of \<open>md_ext\<close> is set for good.\<close>

definition parser_defaults :: "u32 \<Rightarrow> bool \<Rightarrow> bool \<Rightarrow> upb_MtDecoder \<Rightarrow> bool" where
  "parser_defaults mm packed utf8 d \<longleftrightarrow>
     (mm AND 2 \<noteq> 0 \<longleftrightarrow> packed) \<and> (mm AND 1 \<noteq> 0 \<longleftrightarrow> utf8) \<and> (mm AND 4 \<noteq> 0 \<longrightarrow> md_ext d OR 1 = md_ext d)"

lemma type_char_ends: "skip_range.ends_varint (upb_ToBase92 (type_digit f) # cs)"
  using type_digit_char(3) [of f] by (simp add: skip_range.ends_varint_def)

lemma skip_char:
  assumes "skip_range.digits v = c # cs"
  shows "\<not> sint c \<le> sint kUpb_EncodedValue_MaxField"
    "\<not> (sint kUpb_EncodedValue_MinModifier \<le> sint c \<and> sint c \<le> sint kUpb_EncodedValue_MaxModifier)"
    "c \<noteq> kUpb_EncodedValue_End" "sint kUpb_EncodedValue_MinSkip \<le> sint c \<and> sint c \<le> sint kUpb_EncodedValue_MaxSkip"
proof -
  have "95 \<le> sint c" "sint c \<le> 126" using skip_range.hd_digits(2,3) [of v] assms by simp_all
  then show "\<not> sint c \<le> sint kUpb_EncodedValue_MaxField"
    "\<not> (sint kUpb_EncodedValue_MinModifier \<le> sint c \<and> sint c \<le> sint kUpb_EncodedValue_MaxModifier)"
    "c \<noteq> kUpb_EncodedValue_End" "sint kUpb_EncodedValue_MinSkip \<le> sint c \<and> sint c \<le> sint kUpb_EncodedValue_MaxSkip"
    by auto
qed

lemma modifier_char:
  assumes "modifier_range.digits v = c # cs"
  shows "\<not> sint c \<le> sint kUpb_EncodedValue_MaxField"
    "sint kUpb_EncodedValue_MinModifier \<le> sint c \<and> sint c \<le> sint kUpb_EncodedValue_MaxModifier"
proof -
  have "76 \<le> sint c" "sint c \<le> 91" using modifier_range.hd_digits(2,3) [of v] assms by simp_all
  then show "\<not> sint c \<le> sint kUpb_EncodedValue_MaxField"
    "sint kUpb_EncodedValue_MinModifier \<le> sint c \<and> sint c \<le> sint kUpb_EncodedValue_MaxModifier" by auto
qed

text \<open>A skip sets the number that comes next.\<close>

lemma parse_skip:
  assumes "skip_range.ends_varint rest" and "l < num"
  shows "mt_parse_loop alloc d ((if l + 1 = num then [] else skip_range.digits (num - l)) @ rest) mm l nd =
    mt_parse_loop alloc (if l + 1 = num \<or> \<not> nd then d else set_dense_below d) rest mm (num - 1) (nd \<and> l + 1 = num)"
proof (cases "l + 1 = num")
  case True
  then show ?thesis by auto
next
  case False
  obtain c cs where c: "skip_range.digits (num - l) = c # cs"
    using b92_digits_nonempty by (cases "skip_range.digits (num - l)") auto
  have read: "upb_Base92_DecodeVarint (cs @ rest) c kUpb_EncodedValue_MinSkip kUpb_EncodedValue_MaxSkip = Some (rest, num - l)"
    using skip_range.read_written [OF assms(1), of "num - l"] c by simp
  show ?thesis
    using False skip_char [OF c] read by (auto simp: c Let_def)
qed

text \<open>The type of a field and its modifiers, for the first field of an extension too.\<close>

lemma parse_type:
  assumes d: "parser_defaults mm packed utf8 d" "\<not> md_is_extension d \<or> md_fields d = []"
    and f: "fielddef_ok f" "utf8_ok utf8 f" and rest: "modifier_range.ends_varint rest"
  shows "\<exists>a b sub. mt_parse_loop alloc d (upb_ToBase92 (type_digit f) #
      (if field_flags packed utf8 f = 0 then [] else modifier_range.digits (field_flags packed utf8 f)) @ rest) mm (fd_number f - 1) nd =
    mt_parse_loop alloc (d\<lparr>md_fields := md_fields d @ [field_read (md_platform d) f sub], md_field_count := md_field_count d + 1,
      md_submsg_count := a, md_subenum_count := b\<rparr>) rest mm (fd_number f) nd"
proof -
  let ?n = "fd_number f" and ?ff = "field_flags packed utf8 f" and ?p = "md_platform d"
  let ?d = "d\<lparr>md_field_count := md_field_count d + 1\<rparr>"
  let ?m = "if ?ff = 0 then [] else modifier_range.digits ?ff"
  from SetField_field_set [of mm packed utf8 ?d f] d(1) obtain a b sub where
    set: "upb_MiniTable_SetField ?d (upb_ToBase92 (type_digit f)) (new_field ?n) mm =
      Inr (?d\<lparr>md_submsg_count := a, md_subenum_count := b\<rparr>, field_set ?p packed utf8 f sub)"
    by (auto simp: parser_defaults_def)
  let ?d1 = "\<lambda>t. ?d\<lparr>md_submsg_count := a, md_subenum_count := b, md_fields := md_fields d @ [t]\<rparr>"
  have num: "\<not> (?n = 0 \<or> ?n > kUpb_MaxFieldNumber \<and> \<not> md_is_extension d)" "?n - 1 + 1 = ?n"
    using f(1) by (auto simp: fielddef_ok_def)
  have ch: "sint (upb_ToBase92 (type_digit f)) \<le> sint kUpb_EncodedValue_MaxField" using type_digit_char(3) [of f] by simp
  have step: "mt_parse_loop alloc d (upb_ToBase92 (type_digit f) # ?m @ rest) mm (?n - 1) nd =
    mt_parse_loop alloc (?d1 (field_set ?p packed utf8 f sub)) (?m @ rest) mm ?n nd"
    using d(2) num ch set by (auto simp: Let_def)
  have "mt_parse_loop alloc (?d1 (field_set ?p packed utf8 f sub)) (?m @ rest) mm ?n nd =
    mt_parse_loop alloc (?d1 (field_read ?p f sub)) rest mm ?n nd"
  proof (cases "?ff = 0")
    case True
    have "upb_MtDecoder_ModifyField 0 (field_set ?p packed utf8 f sub) = Inr (field_set ?p packed utf8 f sub)"
      by (simp add: upb_MtDecoder_ModifyField_def)
    with ModifyField_field_read [OF f, of packed ?p sub] True show ?thesis by simp
  next
    case False
    obtain c cs where c: "modifier_range.digits ?ff = c # cs"
      using b92_digits_nonempty by (cases "modifier_range.digits ?ff") auto
    have read: "upb_Base92_DecodeVarint (cs @ rest) c kUpb_EncodedValue_MinModifier kUpb_EncodedValue_MaxModifier = Some (rest, ?ff)"
      using modifier_range.read_written [OF rest, of ?ff] c by simp
    have mods: "upb_MtDecoder_ParseModifier (?d1 (field_set ?p packed utf8 f sub)) (cs @ rest) c mm =
      Inr (?d1 (field_read ?p f sub), rest, mm)"
      using ModifyField_field_read [OF f, of packed ?p sub] by (simp add: upb_MtDecoder_ParseModifier_def read update_last_def)
    have ext: "(if mm AND 4 \<noteq> 0 then (?d1 (field_read ?p f sub))\<lparr>md_ext := md_ext (?d1 (field_read ?p f sub)) OR 1\<rparr>
        else ?d1 (field_read ?p f sub)) = ?d1 (field_read ?p f sub)"
      using d(1) by (auto simp: parser_defaults_def)
    show ?thesis
      using False modifier_char [OF c] mods ext by (simp add: c del: if_split)
  qed
  note steps = trans [OF step this]
  have "?d1 (field_read ?p f sub) = d\<lparr>md_fields := md_fields d @ [field_read ?p f sub], md_field_count := md_field_count d + 1,
      md_submsg_count := a, md_subenum_count := b\<rparr>" by simp
  with steps show ?thesis by (intro exI [of _ a] exI [of _ b] exI [of _ sub]) (simp only:)
qed

text \<open>
  The dense prefix: fields numbered from 1 on. As long as no skip has been read, that is all of them.
\<close>

definition dense_ok :: "upb_MtDecoder \<Rightarrow> u32 \<Rightarrow> bool \<Rightarrow> bool" where
  "dense_ok d l nd \<longleftrightarrow>
     fields_counted d \<and> (\<forall>i<unat (md_dense_below d). unat (mtf_number (md_fields d ! i)) = Suc i) \<and>
     (nd \<longrightarrow> (\<forall>i<length (md_fields d). unat (mtf_number (md_fields d ! i)) = Suc i) \<and> unat l = length (md_fields d))"

lemma dense_ok_skip:
  assumes "dense_ok d l nd"
  shows "dense_ok (if b \<or> \<not> nd then d else set_dense_below d) l (nd \<and> b)"
  using assms unat_ucast_byte_le [of "md_field_count d"]
  by (auto simp: dense_ok_def fields_counted_def set_dense_below_def)

lemma dense_ok_field:
  assumes "dense_ok d l nd" and "length (md_fields d) < 65535" and "nd \<longrightarrow> l + 1 = num" and "mtf_number t = num" and "l < num"
  shows "dense_ok (d\<lparr>md_fields := md_fields d @ [t], md_field_count := md_field_count d + 1, md_submsg_count := a,
    md_subenum_count := b\<rparr>) num nd"
proof -
  have "unat (md_field_count d + 1) = Suc (length (md_fields d))"
    using assms(1,2) by (simp add: dense_ok_def fields_counted_def unat_word_ariths)
  moreover have "nd \<Longrightarrow> unat num = Suc (unat l)"
    using assms(3,5) unatSuc [of l] word_not_simps(1) [of l] by (metis add.commute)
  ultimately show ?thesis
    using assms by (auto simp: dense_ok_def fields_counted_def nth_append less_Suc_eq)
qed

definition fields_read :: "mini_platform \<Rightarrow> upb_FieldDef list \<Rightarrow> upb_MiniTableField list \<Rightarrow> bool" where
  "fields_read p fs ts \<longleftrightarrow> list_all2 (\<lambda>f t. \<exists>sub. t = field_read p f sub) fs ts"

lemma fields_text_ends: "modifier_range.ends_varint (fields_text packed utf8 l fs @ rest)" if "fs = [] \<longrightarrow> modifier_range.ends_varint rest"
proof (cases fs)
  case Nil
  with that show ?thesis by simp
next
  case (Cons f fs)
  show ?thesis
  proof (cases "l + 1 = fd_number f")
    case True
    then show ?thesis using type_digit_char(3) [of f] Cons
      by (simp add: field_text_def modifier_range.ends_varint_def)
  next
    case False
    obtain c cs where c: "skip_range.digits (fd_number f - l) = c # cs"
      using b92_digits_nonempty by (cases "skip_range.digits (fd_number f - l)") auto
    with False skip_char(4) [OF c] Cons show ?thesis by (simp add: field_text_def modifier_range.ends_varint_def)
  qed
qed

lemma field_read_number [simp]: "mtf_number (field_read p f sub) = fd_number f"
  by (simp add: field_read_def)

lemma parse_fields:
  assumes "parser_defaults mm packed utf8 d" and "\<not> md_is_extension d" and "list_all (\<lambda>f. fielddef_ok f \<and> utf8_ok utf8 f) fs"
    and "sorted_wrt (<) (l # map fd_number fs)" and "dense_ok d l nd" and "length (md_fields d) + length fs \<le> 65535"
    and "modifier_range.ends_varint rest"
  shows "\<exists>d' l' nd' ts a b c e. mt_parse_loop alloc d (fields_text packed utf8 l fs @ rest) mm l nd = mt_parse_loop alloc d' rest mm l' nd' \<and>
    d' = d\<lparr>md_fields := md_fields d @ ts, md_field_count := c, md_submsg_count := a, md_subenum_count := b, md_dense_below := e\<rparr> \<and>
    fields_read (md_platform d) fs ts \<and> dense_ok d' l' nd'"
  using assms
proof (induction fs arbitrary: d l nd)
  case Nil
  show ?case
    by (rule exI [of _ d], rule exI [of _ l], rule exI [of _ nd], rule exI [of _ "[]"], rule exI [of _ "md_submsg_count d"],
        rule exI [of _ "md_subenum_count d"], rule exI [of _ "md_field_count d"], rule exI [of _ "md_dense_below d"])
      (use Nil.prems(5) in \<open>simp add: fields_read_def\<close>)
next
  case (Cons f fs)
  let ?n = "fd_number f" and ?ff = "field_flags packed utf8 f"
  let ?skip = "if l + 1 = ?n then [] else skip_range.digits (?n - l)" and ?m = "if ?ff = 0 then [] else modifier_range.digits ?ff"
  let ?rest = "fields_text packed utf8 ?n fs @ rest"
  let ?d1 = "if l + 1 = ?n \<or> \<not> nd then d else set_dense_below d" and ?nd1 = "nd \<and> l + 1 = ?n"
  have lt: "l < ?n" using Cons.prems(4) by simp
  have d1: "md_fields ?d1 = md_fields d" "md_platform ?d1 = md_platform d" "md_is_extension ?d1 = md_is_extension d"
    "parser_defaults mm packed utf8 ?d1" "dense_ok ?d1 l ?nd1"
    using Cons.prems(1) dense_ok_skip [OF Cons.prems(5)] by (auto simp: set_dense_below_def parser_defaults_def)
  have chars: "fields_text packed utf8 l (f # fs) @ rest = ?skip @ upb_ToBase92 (type_digit f) # ?m @ ?rest"
    by (simp add: field_text_def)
  have skip: "mt_parse_loop alloc d (fields_text packed utf8 l (f # fs) @ rest) mm l nd =
    mt_parse_loop alloc ?d1 (upb_ToBase92 (type_digit f) # ?m @ ?rest) mm (?n - 1) ?nd1"
    unfolding chars by (rule parse_skip [OF type_char_ends lt])
  have f: "fielddef_ok f" "utf8_ok utf8 f" using Cons.prems(3) by simp_all
  have ends: "modifier_range.ends_varint ?rest" by (rule fields_text_ends) (use Cons.prems(7) in simp)
  have ext: "\<not> md_is_extension ?d1 \<or> md_fields ?d1 = []" using Cons.prems(2) d1(3) by simp
  from parse_type [OF d1(4) ext f ends, of alloc ?nd1] obtain a b sub where
    type: "mt_parse_loop alloc ?d1 (upb_ToBase92 (type_digit f) # ?m @ ?rest) mm (?n - 1) ?nd1 =
      mt_parse_loop alloc (?d1\<lparr>md_fields := md_fields ?d1 @ [field_read (md_platform ?d1) f sub],
        md_field_count := md_field_count ?d1 + 1, md_submsg_count := a, md_subenum_count := b\<rparr>) ?rest mm ?n ?nd1" by blast
  define d2 where "d2 = ?d1\<lparr>md_fields := md_fields ?d1 @ [field_read (md_platform ?d1) f sub],
        md_field_count := md_field_count ?d1 + 1, md_submsg_count := a, md_subenum_count := b\<rparr>"
  have dense: "dense_ok d2 ?n ?nd1"
    unfolding d2_def by (rule dense_ok_field [OF d1(5)]) (use Cons.prems(6) lt d1(1) in simp_all)
  have d2: "parser_defaults mm packed utf8 d2" "\<not> md_is_extension d2" "md_platform d2 = md_platform d"
    "md_fields d2 = md_fields d @ [field_read (md_platform d) f sub]"
    using d1 Cons.prems(2) by (simp_all add: d2_def parser_defaults_def)
  obtain d' l' nd' ts a' b' c' e' where
    IH: "mt_parse_loop alloc d2 ?rest mm ?n ?nd1 = mt_parse_loop alloc d' rest mm l' nd'"
    "d' = d2\<lparr>md_fields := md_fields d2 @ ts, md_field_count := c', md_submsg_count := a', md_subenum_count := b', md_dense_below := e'\<rparr>"
    "fields_read (md_platform d2) fs ts" "dense_ok d' l' nd'"
    using Cons.IH [OF d2(1,2) _ _ dense] Cons.prems(3,4,6,7) d2(4) by fastforce
  have "d' = d\<lparr>md_fields := md_fields d @ (field_read (md_platform d) f sub # ts), md_field_count := c', md_submsg_count := a',
      md_subenum_count := b', md_dense_below := e'\<rparr>"
    unfolding IH(2) d2(4) by (simp add: d2_def set_dense_below_def)
  moreover have "fields_read (md_platform d) (f # fs) (field_read (md_platform d) f sub # ts)"
    using IH(3) d2(3) by (auto simp: fields_read_def)
  moreover have "mt_parse_loop alloc d (fields_text packed utf8 l (f # fs) @ rest) mm l nd = mt_parse_loop alloc d' rest mm l' nd'"
    using skip type IH(1) by (simp only: d2_def)
  ultimately show ?case using IH(4) by blast
qed

section \<open>The oneofs of a message\<close>

definition mt_or_oom :: "(nat \<Rightarrow> bool) \<Rightarrow> mt_error + 'a \<Rightarrow> ('a \<Rightarrow> bool) \<Rightarrow> bool" where
  "mt_or_oom alloc r P \<longleftrightarrow> (case r of Inl e \<Rightarrow> e = MtOutOfMemory \<and> (\<exists>n. \<not> alloc n) | Inr x \<Rightarrow> P x)"

lemma mt_or_oom_simps [simp]:
  "mt_or_oom alloc (Inr x) P \<longleftrightarrow> P x"
  "mt_or_oom alloc (Inl e) P \<longleftrightarrow> e = MtOutOfMemory \<and> (\<exists>n. \<not> alloc n)"
  by (simp_all add: mt_or_oom_def)

lemma mt_or_oom_bind:
  "mt_or_oom alloc r P \<Longrightarrow> (\<And>x. r = Inr x \<Longrightarrow> P x \<Longrightarrow> mt_or_oom alloc (g x) Q) \<Longrightarrow> mt_or_oom alloc (bindE r g) Q"
  by (cases r) simp_all

lemma mt_or_oom_mono: "mt_or_oom alloc r P \<Longrightarrow> (\<And>x. P x \<Longrightarrow> Q x) \<Longrightarrow> mt_or_oom alloc r Q"
  by (cases r) simp_all

text \<open>The steps change the offsets of the fields and the list of the oneofs only.\<close>

definition no_oneofs :: "upb_MtDecoder \<Rightarrow> upb_MtDecoder" where
  "no_oneofs d = d\<lparr>md_fields := map (\<lambda>t. t\<lparr>mtf_offset := 0\<rparr>) (md_fields d), md_oneofs := [], md_oneofs_capacity := 0,
     md_rep_counts_offsets := (\<lambda>_. 0)\<rparr>"

lemma no_oneofs_fields: "no_oneofs d = no_oneofs d' \<Longrightarrow> map (\<lambda>t. t\<lparr>mtf_offset := 0\<rparr>) (md_fields d) = map (\<lambda>t. t\<lparr>mtf_offset := 0\<rparr>) (md_fields d')"
  by (drule arg_cong [where f = md_fields]) (simp add: no_oneofs_def)

lemma no_oneofs_length: "no_oneofs d = no_oneofs d' \<Longrightarrow> length (md_fields d) = length (md_fields d')"
  by (metis length_map no_oneofs_fields)

lemma no_oneofs_nth:
  assumes "no_oneofs d = no_oneofs d'" and "j < length (md_fields d)"
  shows "md_fields d' ! j = (md_fields d ! j)\<lparr>mtf_offset := mtf_offset (md_fields d' ! j)\<rparr>"
proof -
  have "(md_fields d ! j)\<lparr>mtf_offset := 0\<rparr> = (md_fields d' ! j)\<lparr>mtf_offset := 0\<rparr>"
    using no_oneofs_fields [OF assms(1)] no_oneofs_length [OF assms(1)] assms(2) by (metis nth_map)
  then show ?thesis by (cases "md_fields d ! j"; cases "md_fields d' ! j") simp
qed

lemma no_oneofs_same:
  assumes "no_oneofs d = no_oneofs d'"
  shows "md_field_count d' = md_field_count d" "md_platform d' = md_platform d" "md_dense_below d' = md_dense_below d"
    "md_ext d' = md_ext d" "md_is_extension d' = md_is_extension d"
  using assms by (cases d; cases d'; simp add: no_oneofs_def)+

lemma sorted_table:
  assumes "dense_ok d l nd" and "sorted_wrt (<) (map mtf_number (md_fields d))"
  shows "mt_sorted (md_table d [] kUpb_ExtMode_NonExtendable)"
  using assms by (auto simp: mt_sorted_def md_table_def dense_ok_def fields_counted_def)

lemma sorted_table_cong:
  assumes "no_oneofs d = no_oneofs d'"
  shows "mt_sorted (md_table d' [] kUpb_ExtMode_NonExtendable) = mt_sorted (md_table d [] kUpb_ExtMode_NonExtendable)"
proof -
  note len = no_oneofs_length [OF assms] and same = no_oneofs_same [OF assms]
  have num: "mtf_number (md_fields d' ! i) = mtf_number (md_fields d ! i)" if "i < length (md_fields d)" for i
    using no_oneofs_nth [OF assms that] by (metis upb_MiniTableField.select_convs(1) upb_MiniTableField.surjective upb_MiniTableField.update_convs(2))
  have "map mtf_number (take n (md_fields d')) = map mtf_number (take n (md_fields d))" for n
    using len num by (intro nth_equalityI) auto
  then show ?thesis
    unfolding mt_sorted_def md_table_def same
    using len num by (auto simp del: take_map)
qed

lemma oneof_char:
  assumes "oneof_range.digits v = c # cs"
  shows "c \<noteq> kUpb_EncodedValue_FieldSeparator" "c \<noteq> kUpb_EncodedValue_OneofSeparator"
proof -
  have "sint c \<le> 98" using oneof_range.hd_digits(3) [of v] assms by simp
  then show "c \<noteq> kUpb_EncodedValue_FieldSeparator" "c \<noteq> kUpb_EncodedValue_OneofSeparator" by auto
qed

text \<open>A number in a oneof hangs its field on the list of the oneof.\<close>

lemma DecodeOneofField_member:
  assumes srt: "mt_sorted (md_table d [] kUpb_ExtMode_NonExtendable)" and inv: "parse_inv p d css it cur"
    and j: "j < length (md_fields d)" "mtf_number (md_fields d ! j) = n" "mtf_offset (md_fields d ! j) = kHasbitPresence"
    and small: "length (md_fields d) \<le> 65532" and c: "oneof_range.digits n = c # cs" and rest: "oneof_range.ends_varint rest"
  shows "\<exists>it'. upb_MtDecoder_DecodeOneofField d (cs @ rest) c it =
      Inr (d\<lparr>md_fields := (md_fields d)[j := (md_fields d ! j)\<lparr>mtf_offset := fst it\<rparr>]\<rparr>, rest, it') \<and>
    parse_inv p (d\<lparr>md_fields := (md_fields d)[j := (md_fields d ! j)\<lparr>mtf_offset := fst it\<rparr>]\<rparr>) css it' (j # cur)"
proof -
  have fc: "unat (md_field_count d) = length (md_fields d)" and p: "md_platform d = p"
    using inv by (auto simp: parse_inv_def fields_counted_def)
  have find: "upb_MiniTable_FindFieldByNumber (md_table d [] kUpb_ExtMode_NonExtendable) n = Some j"
    using FindFieldByNumber_iff [OF srt] j(1,2) by (simp add: md_table_def fc)
  have read: "upb_Base92_DecodeVarint (cs @ rest) c kUpb_EncodedValue_MinOneofField kUpb_EncodedValue_MaxOneofField = Some (rest, n)"
    using oneof_range.read_written [OF rest, of n] c by simp
  let ?d = "d\<lparr>md_fields := (md_fields d)[j := (md_fields d ! j)\<lparr>mtf_offset := fst it\<rparr>]\<rparr>"
  let ?r = "upb_MiniTableField_GetRep (md_fields d ! j)"
  let ?it = "(of_nat j + kOneofBase, if larger_rep p ?r (snd it) then ?r else snd it)"
  have dec: "upb_MtDecoder_DecodeOneofField d (cs @ rest) c it = Inr (?d, rest, ?it)"
    using rep_align_order [of p ?r "snd it"] j(3)
    by (auto simp: upb_MtDecoder_DecodeOneofField_def read find p larger_rep_def Let_def)
  from DecodeOneofField_inv(1) [OF dec inv small] obtain k where k: "parse_inv p ?d css ?it (k # cur)" by blast
  then have chain: "of_nat j + kOneofBase = of_nat k + kOneofBase" "k + 3 < 65535"
    by (simp_all add: parse_inv_def oneofs_wf_def)
  have "j + 3 < 65535" using j(1) small by simp
  from unat_oneof_link [OF this] unat_oneof_link [OF chain(2)] have "j = k" unfolding chain(1) by simp
  with dec k show ?thesis by blast
qed

lemma oneof_text_ends:
  assumes "oneof_range.ends_varint rest"
  shows "oneof_range.ends_varint (oneof_text True ns @ rest)"
  using assms by (cases ns) (simp_all add: oneof_range.ends_varint_def)

lemma no_oneofs_update: "j < length (md_fields d) \<Longrightarrow>
   no_oneofs (d\<lparr>md_fields := (md_fields d)[j := (md_fields d ! j)\<lparr>mtf_offset := x\<rparr>]\<rparr>) = no_oneofs d"
  by (simp add: no_oneofs_def map_update) (metis list_update_id nth_map)

text \<open>The members of a oneof that is being read, and what the steps leave alone.\<close>

lemma decode_members:
  assumes "mt_sorted (md_table d [] kUpb_ExtMode_NonExtendable)" and "parse_inv p d css it cur"
    and "list_all (\<lambda>j. j < length (md_fields d) \<and> mtf_offset (md_fields d ! j) = kHasbitPresence) js" and "distinct js"
    and "length (md_fields d) \<le> 65532" and "oneof_range.ends_varint rest"
  shows "\<exists>d' it'. decode_oneofs_loop alloc d (oneof_text e (map (\<lambda>j. mtf_number (md_fields d ! j)) js) @ rest) it =
      decode_oneofs_loop alloc d' rest it' \<and>
    parse_inv p d' css it' (rev js @ cur) \<and> no_oneofs d' = no_oneofs d \<and>
    (\<forall>j<length (md_fields d). j \<notin> set js \<longrightarrow> md_fields d' ! j = md_fields d ! j)"
  using assms
proof (induction js arbitrary: d it cur e)
  case Nil
  then show ?case by (intro exI [of _ d] exI [of _ it]) simp
next
  case (Cons j js)
  let ?n = "mtf_number (md_fields d ! j)" and ?ns = "map (\<lambda>j. mtf_number (md_fields d ! j)) js"
  let ?d = "d\<lparr>md_fields := (md_fields d)[j := (md_fields d ! j)\<lparr>mtf_offset := fst it\<rparr>]\<rparr>"
  obtain c cs where c: "oneof_range.digits ?n = c # cs" using b92_digits_nonempty by (cases "oneof_range.digits ?n") auto
  have j: "j < length (md_fields d)" "mtf_offset (md_fields d ! j) = kHasbitPresence" "j \<notin> set js" using Cons.prems(3,4) by auto
  obtain it' where dec: "upb_MtDecoder_DecodeOneofField d (cs @ oneof_text True ?ns @ rest) c it = Inr (?d, oneof_text True ?ns @ rest, it')"
    and inv: "parse_inv p ?d css it' (j # cur)"
    using DecodeOneofField_member [OF Cons.prems(1,2) j(1) refl j(2) Cons.prems(5) c oneof_text_ends [OF Cons.prems(6), of ?ns]] by blast
  have other: "?d = d\<lparr>md_fields := md_fields ?d\<rparr>" "no_oneofs ?d = no_oneofs d" using no_oneofs_update [OF j(1)] by simp_all
  have nums: "map (\<lambda>k. mtf_number (md_fields ?d ! k)) js = ?ns"
    using j(1) by (auto simp: nth_list_update)
  have srt: "mt_sorted (md_table ?d [] kUpb_ExtMode_NonExtendable)" using sorted_table_cong [OF other(2)] Cons.prems(1) by simp
  have js: "list_all (\<lambda>k. k < length (md_fields ?d) \<and> mtf_offset (md_fields ?d ! k) = kHasbitPresence) js"
    using Cons.prems(3) j(3) by (auto simp: list_all_iff nth_list_update)
  have small: "distinct js" "length (md_fields ?d) \<le> 65532" using Cons.prems(4,5) by simp_all
  obtain d' it'' where IH: "decode_oneofs_loop alloc ?d (oneof_text True (map (\<lambda>k. mtf_number (md_fields ?d ! k)) js) @ rest) it' =
      decode_oneofs_loop alloc d' rest it''" "parse_inv p d' css it'' (rev js @ j # cur)" "no_oneofs d' = no_oneofs ?d"
      "\<forall>k<length (md_fields ?d). k \<notin> set js \<longrightarrow> md_fields d' ! k = md_fields ?d ! k"
    using Cons.IH [OF srt inv js small(1,2) Cons.prems(6), of True] by blast
  have first: "decode_oneofs_loop alloc d (oneof_text e (map (\<lambda>j. mtf_number (md_fields d ! j)) (j # js)) @ rest) it =
      decode_oneofs_loop alloc ?d (oneof_text True ?ns @ rest) it'"
    using oneof_char [OF c] dec by (simp add: c)
  show ?case
    by (rule exI [of _ d'], rule exI [of _ it'']) (use first IH(1) [unfolded nums] IH(2-4) other(2) j(1) in \<open>auto simp only: rev.simps append.assoc append.simps\<close>; simp)
qed

text \<open>All the oneofs: each complete one is pushed, and the last by the caller.\<close>

lemma PushOneof_member:
  assumes "parse_inv p d css it cur" and "cur \<noteq> []"
  shows "mt_or_oom alloc (upb_MtDecoder_PushOneof alloc d it) (\<lambda>d'. (\<forall>r. parse_inv p d' (css @ [cur]) (kUpb_OneOfLayoutItem_IndexSentinel, r) []) \<and>
    no_oneofs d' = no_oneofs d \<and> md_fields d' = md_fields d)"
proof (cases "upb_MtDecoder_PushOneof alloc d it")
  case (Inl e)
  have "fst it \<noteq> kUpb_OneOfLayoutItem_IndexSentinel"
  proof -
    obtain j js where "cur = j # js" using assms(2) by (cases cur) auto
    then have "fst it = of_nat j + kOneofBase" "j + 3 < 65535"
      using assms(1) by (simp_all add: parse_inv_def oneofs_wf_def)
    then show ?thesis using oneof_link_not_sentinel by simp
  qed
  with Inl show ?thesis by (auto simp: upb_MtDecoder_PushOneof_def Let_def split: if_splits)
next
  case (Inr d')
  have "oneofs_wf p (md_fields d) (md_oneofs d) css it cur" "oneofs_counted d" using assms(1) by (auto simp: parse_inv_def)
  from PushOneof_wf(4) [OF Inr this] have "no_oneofs d' = no_oneofs d" by (auto simp: no_oneofs_def)
  with PushOneof_inv [OF Inr assms(1)] Inr show ?thesis by simp
qed

definition members_ok :: "upb_MtDecoder \<Rightarrow> nat list list \<Rightarrow> bool" where
  "members_ok d jss \<longleftrightarrow> list_all (\<lambda>js. js \<noteq> []) jss \<and> distinct (concat jss) \<and>
     list_all (\<lambda>j. j < length (md_fields d) \<and> mtf_offset (md_fields d ! j) = kHasbitPresence) (concat jss)"

definition member_numbers :: "upb_MtDecoder \<Rightarrow> nat list list \<Rightarrow> u32 list list" where
  "member_numbers d jss = map (map (\<lambda>j. mtf_number (md_fields d ! j))) jss"

lemma oneofs_text_ends: "oneof_range.ends_varint (oneofs_text True nss)"
  by (cases nss) (simp_all add: oneof_range.ends_varint_def)

lemma member_numbers_cong:
  assumes "no_oneofs d = no_oneofs d'" and "list_all (\<lambda>j. j < length (md_fields d)) (concat jss)"
  shows "member_numbers d' jss = member_numbers d jss"
proof -
  have "mtf_number (md_fields d' ! j) = mtf_number (md_fields d ! j)" if "js \<in> set jss" "j \<in> set js" for js j
    using no_oneofs_nth [OF assms(1), of j] assms(2) that
    by (metis (no_types, lifting) UN_I list_all_iff set_concat upb_MiniTableField.select_convs(1) upb_MiniTableField.surjective upb_MiniTableField.update_convs(2))
  then show ?thesis by (auto simp: member_numbers_def)
qed

lemma decode_oneofs_members:
  assumes "mt_sorted (md_table d [] kUpb_ExtMode_NonExtendable)" and "parse_inv p d css it []"
    and "members_ok d (js # jss)" and "length (md_fields d) \<le> 65532"
  shows "mt_or_oom alloc
    (bindE (decode_oneofs_loop alloc d (oneof_text False (map (\<lambda>j. mtf_number (md_fields d ! j)) js) @ oneofs_text True (member_numbers d jss)) it)
      (\<lambda>(d, it). upb_MtDecoder_PushOneof alloc d it))
    (\<lambda>d'. (\<forall>r. parse_inv p d' (css @ map rev (js # jss)) (kUpb_OneOfLayoutItem_IndexSentinel, r) []) \<and> no_oneofs d' = no_oneofs d \<and>
      (\<forall>j<length (md_fields d). j \<notin> set (concat (js # jss)) \<longrightarrow> md_fields d' ! j = md_fields d ! j))"
  using assms
proof (induction jss arbitrary: d css it js)
  case Nil
  have js: "list_all (\<lambda>j. j < length (md_fields d) \<and> mtf_offset (md_fields d ! j) = kHasbitPresence) js" "distinct js" "js \<noteq> []"
    using Nil.prems(3) by (auto simp: members_ok_def)
  from decode_members [OF Nil.prems(1,2) js(1,2) Nil.prems(4) oneofs_text_ends, of alloc False "[]"] obtain d1 it1 where
    d1: "decode_oneofs_loop alloc d (oneof_text False (map (\<lambda>j. mtf_number (md_fields d ! j)) js) @ oneofs_text True []) it = Inr (d1, it1)"
    "parse_inv p d1 css it1 (rev js)" "no_oneofs d1 = no_oneofs d"
    "\<forall>j<length (md_fields d). j \<notin> set js \<longrightarrow> md_fields d1 ! j = md_fields d ! j" by auto
  from PushOneof_member [OF d1(2), of alloc] js(3) have push: "mt_or_oom alloc (upb_MtDecoder_PushOneof alloc d1 it1)
    (\<lambda>d'. (\<forall>r. parse_inv p d' (css @ [rev js]) (kUpb_OneOfLayoutItem_IndexSentinel, r) []) \<and> no_oneofs d' = no_oneofs d1 \<and> md_fields d' = md_fields d1)"
    by simp
  show ?case
    using mt_or_oom_mono [OF push] d1 by (simp add: member_numbers_def)
next
  case (Cons js' jss)
  let ?rest = "oneofs_text True (member_numbers d (js' # jss))"
  have js: "list_all (\<lambda>j. j < length (md_fields d) \<and> mtf_offset (md_fields d ! j) = kHasbitPresence) js" "distinct js" "js \<noteq> []"
    using Cons.prems(3) by (auto simp: members_ok_def)
  from decode_members [OF Cons.prems(1,2) js(1,2) Cons.prems(4) oneofs_text_ends, of alloc False "member_numbers d (js' # jss)"] obtain d1 it1 where
    d1: "decode_oneofs_loop alloc d (oneof_text False (map (\<lambda>j. mtf_number (md_fields d ! j)) js) @ ?rest) it = decode_oneofs_loop alloc d1 ?rest it1"
    "parse_inv p d1 css it1 (rev js)" "no_oneofs d1 = no_oneofs d"
    "\<forall>j<length (md_fields d). j \<notin> set js \<longrightarrow> md_fields d1 ! j = md_fields d ! j" by auto
  from PushOneof_member [OF d1(2), of alloc] js(3) have push: "mt_or_oom alloc (upb_MtDecoder_PushOneof alloc d1 it1)
    (\<lambda>d'. (\<forall>r. parse_inv p d' (css @ [rev js]) (kUpb_OneOfLayoutItem_IndexSentinel, r) []) \<and> no_oneofs d' = no_oneofs d1 \<and> md_fields d' = md_fields d1)"
    by simp
  let ?Q = "\<lambda>d'. (\<forall>r. parse_inv p d' (css @ map rev (js # js' # jss)) (kUpb_OneOfLayoutItem_IndexSentinel, r) []) \<and> no_oneofs d' = no_oneofs d \<and>
      (\<forall>j<length (md_fields d). j \<notin> set (concat (js # js' # jss)) \<longrightarrow> md_fields d' ! j = md_fields d ! j)"
  have rest: "?rest = 126 # oneof_text False (map (\<lambda>j. mtf_number (md_fields d ! j)) js') @ oneofs_text True (member_numbers d jss)"
    by (simp add: member_numbers_def)
  have "mt_or_oom alloc (bindE (upb_MtDecoder_PushOneof alloc d1 it1) (\<lambda>d2.
      bindE (decode_oneofs_loop alloc d2 (oneof_text False (map (\<lambda>j. mtf_number (md_fields d ! j)) js') @ oneofs_text True (member_numbers d jss))
        (kUpb_OneOfLayoutItem_IndexSentinel, snd it1)) (\<lambda>(d, it). upb_MtDecoder_PushOneof alloc d it))) ?Q"
  proof (rule mt_or_oom_bind [OF push])
    fix d2 assume d2: "(\<forall>r. parse_inv p d2 (css @ [rev js]) (kUpb_OneOfLayoutItem_IndexSentinel, r) []) \<and> no_oneofs d2 = no_oneofs d1 \<and> md_fields d2 = md_fields d1"
    then have no: "no_oneofs d = no_oneofs d2" using d1(3) by simp
    have len: "length (md_fields d2) = length (md_fields d)" using no_oneofs_length [OF no] by simp
    have same: "md_fields d2 ! j = md_fields d ! j" if "j \<in> set (concat (js' # jss))" for j
    proof -
      have "j < length (md_fields d)" using Cons.prems(3) that by (auto simp: members_ok_def list_all_iff)
      moreover have "set js \<inter> set (concat (js' # jss)) = {}"
        using Cons.prems(3) unfolding members_ok_def concat.simps(2) [of js] distinct_append by blast
      ultimately show ?thesis using d1(4) d2 that by auto
    qed
    have ok: "members_ok d2 (js' # jss)"
      using Cons.prems(3) same len by (auto simp: members_ok_def list_all_iff)
    have nums: "map (\<lambda>j. mtf_number (md_fields d ! j)) js' = map (\<lambda>j. mtf_number (md_fields d2 ! j)) js'"
      "member_numbers d jss = member_numbers d2 jss"
      using same by (auto simp: member_numbers_def intro!: map_cong) metis
    have srt: "mt_sorted (md_table d2 [] kUpb_ExtMode_NonExtendable)" using sorted_table_cong [OF no] Cons.prems(1) by simp
    have d2': "parse_inv p d2 (css @ [rev js]) (kUpb_OneOfLayoutItem_IndexSentinel, snd it1) []" "length (md_fields d2) \<le> 65532"
      using d2 len Cons.prems(4) by simp_all
    show "mt_or_oom alloc (bindE (decode_oneofs_loop alloc d2 (oneof_text False (map (\<lambda>j. mtf_number (md_fields d ! j)) js') @
        oneofs_text True (member_numbers d jss)) (kUpb_OneOfLayoutItem_IndexSentinel, snd it1)) (\<lambda>(d, it). upb_MtDecoder_PushOneof alloc d it)) ?Q"
      unfolding nums by (rule mt_or_oom_mono [OF Cons.IH [OF srt d2'(1) ok d2'(2)]]) (use d1(4) d2 no len in auto)
  qed
  then show ?case unfolding d1(1) unfolding rest by (simp add: bindE_assoc)
qed

section \<open>The whole message\<close>

text \<open>
  What the string says of a message with the fields \<open>fs\<close> in the order of the layout and the oneofs \<open>jss\<close>, whose
  members are positions in \<open>fs\<close>: a field that is in no oneof keeps its presence class.
\<close>

definition reads_fields :: "mini_platform \<Rightarrow> upb_FieldDef list \<Rightarrow> nat list list \<Rightarrow> upb_MiniTableField list \<Rightarrow> bool" where
  "reads_fields p fs jss flds \<longleftrightarrow>
     length flds = length fs \<and>
     (\<forall>j<length fs. \<exists>sub x. flds ! j = (field_read p (fs ! j) sub)\<lparr>mtf_offset := x\<rparr> \<and>
        (j \<notin> set (concat jss) \<longrightarrow> x = presence_class (fs ! j)))"

definition reads_message :: "mini_platform \<Rightarrow> upb_FieldDef list \<Rightarrow> nat list list \<Rightarrow> upb_MtDecoder \<Rightarrow> bool" where
  "reads_message p fs jss d \<longleftrightarrow> parsed p d (map rev jss) \<and> reads_fields p fs jss (md_fields d)"

definition oneofs_of :: "upb_FieldDef list \<Rightarrow> nat list list \<Rightarrow> bool" where
  "oneofs_of fs jss \<longleftrightarrow>
     list_all (\<lambda>js. js \<noteq> []) jss \<and> distinct (concat jss) \<and>
     list_all (\<lambda>j. j < length fs \<and> presence_class (fs ! j) = kHasbitPresence) (concat jss)"

lemma presence_class_low: "presence_class f < kOneofBase"
  by (simp add: presence_class_def word_less_nat_alt)

lemma field_read_offset [simp]: "mtf_offset (field_read p f sub) = presence_class f"
  by (simp add: field_read_def)

lemma fields_read_nth:
  "fields_read p fs ts \<Longrightarrow> length ts = length fs"
  "fields_read p fs ts \<Longrightarrow> j < length fs \<Longrightarrow> \<exists>sub. ts ! j = field_read p (fs ! j) sub"
  by (auto simp: fields_read_def list_all2_conv_all_nth)

lemma fields_read_numbers: "fields_read p fs ts \<Longrightarrow> map mtf_number ts = map fd_number fs"
  using fields_read_nth [of p fs ts] by (intro nth_equalityI) (simp, fastforce)

text \<open>The oneofs at the end of the string.\<close>

lemma read_oneofs:
  assumes d: "md_platform d = p" "md_oneofs d = []" "\<forall>r. md_rep_counts_offsets d r = 0" "\<not> md_is_extension d" "dense_ok d l nd"
    and fs: "fields_read p fs (md_fields d)" "sorted_wrt (<) (map fd_number fs)" "length fs \<le> 65532" and jss: "oneofs_of fs jss"
  shows "mt_or_oom alloc (mt_parse_loop alloc d (oneofs_text False (map (map (\<lambda>j. fd_number (fs ! j))) jss)) mm l nd)
    (\<lambda>(d', ptr, nd'). ptr = [] \<and> md_ext d' = md_ext d \<and> reads_message p fs jss d')"
proof -
  note nth = fields_read_nth [OF fs(1)]
  have low: "mtf_offset f < kOneofBase" if "f \<in> set (md_fields d)" for f
    using that nth presence_class_low by (metis field_read_offset in_set_conv_nth)
  have parsed: "parsed p d []" using d low by (simp add: parsed_Nil dense_ok_def)
  show ?thesis
  proof (cases jss)
    case Nil
    have "\<exists>sub x. md_fields d ! j = (field_read p (fs ! j) sub)\<lparr>mtf_offset := x\<rparr> \<and> x = presence_class (fs ! j)" if j: "j < length fs" for j
    proof -
      obtain sub where "md_fields d ! j = field_read p (fs ! j) sub" using nth(2) [OF j] by blast
      then show ?thesis by (intro exI [of _ sub] exI [of _ "presence_class (fs ! j)"]) (simp add: field_read_def)
    qed
    with Nil parsed nth(1) show ?thesis by (simp add: reads_message_def reads_fields_def)
  next
    case (Cons js rest)
    have srt: "mt_sorted (md_table d [] kUpb_ExtMode_NonExtendable)"
      by (rule sorted_table [OF d(5)]) (use fields_read_numbers [OF fs(1)] fs(2) in simp)
    have num: "mtf_number (md_fields d ! j) = fd_number (fs ! j)" "mtf_offset (md_fields d ! j) = presence_class (fs ! j)"
      if "j < length fs" for j using nth(2) [OF that] by auto
    have ok: "members_ok d (js # rest)"
      using jss num nth(1) by (auto simp: oneofs_of_def members_ok_def Cons list_all_iff)
    have nums: "map (\<lambda>j. fd_number (fs ! j)) js = map (\<lambda>j. mtf_number (md_fields d ! j)) js"
      "map (map (\<lambda>j. fd_number (fs ! j))) rest = member_numbers d rest"
    proof -
      have "mtf_number (md_fields d ! j) = fd_number (fs ! j)" if "j \<in> set (concat jss)" for j
        using jss num(1) that by (simp only: oneofs_of_def list_all_iff)
      then show "map (\<lambda>j. fd_number (fs ! j)) js = map (\<lambda>j. mtf_number (md_fields d ! j)) js"
        "map (map (\<lambda>j. fd_number (fs ! j))) rest = member_numbers d rest"
        unfolding Cons member_numbers_def by (auto intro!: map_cong) metis
    qed
    have len: "length (md_fields d) \<le> 65532" using nth(1) fs(3) by simp
    note res = decode_oneofs_members [OF srt parsed [unfolded parsed_def] ok len, of alloc]
    have "mt_or_oom alloc (upb_MtDecoder_DecodeOneofs alloc d (oneof_text False (map (\<lambda>j. fd_number (fs ! j)) js) @
        oneofs_text True (map (map (\<lambda>j. fd_number (fs ! j))) rest)))
      (\<lambda>d'. md_ext d' = md_ext d \<and> reads_message p fs jss d')"
      unfolding upb_MtDecoder_DecodeOneofs_def nums
    proof (rule mt_or_oom_mono [OF res])
      fix d' assume d': "(\<forall>r. parse_inv p d' ([] @ map rev (js # rest)) (kUpb_OneOfLayoutItem_IndexSentinel, r) []) \<and> no_oneofs d' = no_oneofs d \<and>
        (\<forall>j<length (md_fields d). j \<notin> set (concat (js # rest)) \<longrightarrow> md_fields d' ! j = md_fields d ! j)"
      then have no: "no_oneofs d = no_oneofs d'" by simp
      have "\<exists>sub x. md_fields d' ! j = (field_read p (fs ! j) sub)\<lparr>mtf_offset := x\<rparr> \<and> (j \<notin> set (concat jss) \<longrightarrow> x = presence_class (fs ! j))"
        if j: "j < length fs" for j
      proof -
        obtain sub where sub: "md_fields d ! j = field_read p (fs ! j) sub" using nth(2) [OF j] by blast
        have "md_fields d' ! j = (field_read p (fs ! j) sub)\<lparr>mtf_offset := mtf_offset (md_fields d' ! j)\<rparr>"
          using no_oneofs_nth [OF no, of j] j nth(1) sub by simp
        moreover have "j \<notin> set (concat jss) \<longrightarrow> mtf_offset (md_fields d' ! j) = presence_class (fs ! j)"
          using d' j nth(1) num(2) [OF j] Cons by auto
        ultimately show ?thesis by blast
      qed
      then show "md_ext d' = md_ext d \<and> reads_message p fs jss d'"
        using d' no_oneofs_length [OF no] no_oneofs_same(4) [OF no] nth(1) Cons by (simp add: reads_message_def reads_fields_def parsed_def)
    qed
    then have "mt_or_oom alloc (bindE (upb_MtDecoder_DecodeOneofs alloc d (oneof_text False (map (\<lambda>j. fd_number (fs ! j)) js) @
        oneofs_text True (map (map (\<lambda>j. fd_number (fs ! j))) rest))) (\<lambda>d. Inr (d, [], nd)))
      (\<lambda>(d', ptr, nd'). ptr = [] \<and> md_ext d' = md_ext d \<and> reads_message p fs jss d')"
      by (rule mt_or_oom_bind) simp
    then show ?thesis using d(4) by (simp add: Cons)
  qed
qed

end
