(* ===== verification/Mini_Definition.thy ===== *)
theory Mini_Definition
  imports Mini_Roundtrip
begin

text \<open>
  From a message definition to its table: the parse of the whole mini descriptor, the passes that lay the
  message out, and the table that \<open>_upb_MessageDef_MakeMiniTable\<close> returns for the definition.
\<close>

section \<open>The positions of the members of the oneofs\<close>

definition layout_oneofs :: "upb_MessageDef \<Rightarrow> nat list list" where
  "layout_oneofs m = map (map (\<lambda>i. fd_layout_index (mdef_fields m ! i))) (mdef_oneofs m)"

lemma layout_order_nth:
  assumes "layout_order flds fs" and "f \<in> set flds"
  shows "fd_layout_index f < length fs" "fs ! fd_layout_index f = f"
proof -
  have "f \<in> set fs" using assms by (simp add: layout_order_def)
  then obtain k where k: "k < length fs" "f = fs ! k" by (auto simp: in_set_conv_nth)
  have "fd_layout_index (fs ! k) = k"
    using assms(1) k(1) by (metis add.left_neutral layout_order_def length_map nth_map nth_upt)
  with k show "fd_layout_index f < length fs" "fs ! fd_layout_index f = f" by simp_all
qed

text \<open>Only the layout index differs.\<close>

lemma fielddef_ok_index [simp]:
  "fielddef_ok (f\<lparr>fd_layout_index := k\<rparr>) = fielddef_ok f"
  "upb_FieldDef_IsRepeated (f\<lparr>fd_layout_index := k\<rparr>) = upb_FieldDef_IsRepeated f"
  "upb_FieldDef_IsRequired (f\<lparr>fd_layout_index := k\<rparr>) = upb_FieldDef_IsRequired f"
  by (simp_all add: fielddef_ok_def upb_FieldDef_IsRepeated_def upb_FieldDef_IsRequired_def upb_FieldDef_IsSubMessage_def
      upb_FieldDef_CType_def)

lemma laid_field:
  assumes "laid m m' fs" and "i < length (mdef_fields m)"
  obtains k where "mdef_fields m' ! i = (mdef_fields m ! i)\<lparr>fd_layout_index := k\<rparr>" "length (mdef_fields m') = length (mdef_fields m)"
  using assms with_layout_index_nth [of "mdef_fields m" "mdef_fields m'" i]
  by (auto simp: laid_def with_layout_index_def dest: list_all2_lengthD)

lemma laid_length: "laid m m' fs \<Longrightarrow> length (mdef_fields m') = length (mdef_fields m) \<and> length fs = length (mdef_fields m)"
  by (auto simp: laid_def with_layout_index_def layout_order_def dest: list_all2_lengthD)

lemma laid_oneofs: "laid m m' fs \<Longrightarrow> mdef_oneofs m' = mdef_oneofs m"
  unfolding laid_def by (metis upb_MessageDef.select_convs(2) upb_MessageDef.surjective upb_MessageDef.update_convs(1))

lemma laid_position:
  assumes "laid m m' fs" and "i < length (mdef_fields m)"
  shows "fd_layout_index (mdef_fields m' ! i) < length fs" "fs ! fd_layout_index (mdef_fields m' ! i) = mdef_fields m' ! i"
proof -
  have "mdef_fields m' ! i \<in> set (mdef_fields m')" using assms laid_length by simp
  with assms(1) layout_order_nth [of "mdef_fields m'" fs "mdef_fields m' ! i"]
  show "fd_layout_index (mdef_fields m' ! i) < length fs" "fs ! fd_layout_index (mdef_fields m' ! i) = mdef_fields m' ! i"
    by (auto simp: laid_def)
qed

lemma laid_ok:
  assumes "messagedef_ok m" and "laid m m' fs" and "f \<in> set fs"
  shows "fielddef_ok f" "utf8_ok (upb_MessageDef_ValidateUtf8 m') f"
proof -
  have f: "f \<in> set (mdef_fields m')" using assms(2,3) by (auto simp: laid_def layout_order_def)
  then show "utf8_ok (upb_MessageDef_ValidateUtf8 m') f" by (rule message_utf8_ok)
  obtain i where i: "i < length (mdef_fields m)" "f = mdef_fields m' ! i"
    using f laid_length [OF assms(2)] by (auto simp: in_set_conv_nth)
  obtain k where "f = (mdef_fields m ! i)\<lparr>fd_layout_index := k\<rparr>" using laid_field [OF assms(2) i(1)] i(2) by metis
  with assms(1) i(1) show "fielddef_ok f" by (simp add: messagedef_ok_def list_all_length)
qed

lemma laid_layout_oneofs:
  assumes ok: "messagedef_ok m" and laid: "laid m m' fs"
  shows "oneofs_of fs (layout_oneofs m')"
    "map (map (\<lambda>i. fd_number (mdef_fields m' ! i))) (mdef_oneofs m') = map (map (\<lambda>j. fd_number (fs ! j))) (layout_oneofs m')"
    "inj_on (\<lambda>i. fd_layout_index (mdef_fields m' ! i)) (set (concat (mdef_oneofs m')))"
proof -
  let ?pos = "\<lambda>i. fd_layout_index (mdef_fields m' ! i)"
  have mem: "i < length (mdef_fields m)" "presence_class (mdef_fields m' ! i) = kHasbitPresence"
    if "i \<in> set (concat (mdef_oneofs m'))" for i
  proof -
    have i: "i \<in> set (concat (mdef_oneofs m))" using that laid_oneofs [OF laid] by simp
    then show "i < length (mdef_fields m)" using ok by (simp only: messagedef_ok_def list_all_iff)
    then obtain k where "mdef_fields m' ! i = (mdef_fields m ! i)\<lparr>fd_layout_index := k\<rparr>" using laid_field [OF laid] by metis
    moreover have "fd_has_presence (mdef_fields m ! i)" "\<not> upb_FieldDef_IsRepeated (mdef_fields m ! i)"
      "\<not> upb_FieldDef_IsRequired (mdef_fields m ! i)"
      using ok i by (simp_all only: messagedef_ok_def list_all_iff simp_thms)
    ultimately show "presence_class (mdef_fields m' ! i) = kHasbitPresence"
      by (simp add: presence_class_def)
  qed
  have num: "fd_number (mdef_fields m' ! i) = fd_number (mdef_fields m ! i)" if "i < length (mdef_fields m)" for i
    using laid_field [OF laid that] by (metis upb_FieldDef.select_convs(2) upb_FieldDef.surjective upb_FieldDef.update_convs(10))
  show inj: "inj_on ?pos (set (concat (mdef_oneofs m')))"
  proof (rule inj_onI)
    fix i j assume i: "i \<in> set (concat (mdef_oneofs m'))" and j: "j \<in> set (concat (mdef_oneofs m'))" and eq: "?pos i = ?pos j"
    have "mdef_fields m' ! i = mdef_fields m' ! j"
      using laid_position(2) [OF laid mem(1) [OF i]] laid_position(2) [OF laid mem(1) [OF j]] eq by metis
    then have "fd_number (mdef_fields m ! i) = fd_number (mdef_fields m ! j)" using num mem(1) i j by metis
    moreover have "distinct (map fd_number (mdef_fields m))" using ok by (simp add: messagedef_ok_def)
    ultimately show "i = j" using mem(1) [OF i] mem(1) [OF j] by (simp add: distinct_conv_nth) metis
  qed
  have concat_eq: "concat (layout_oneofs m') = map ?pos (concat (mdef_oneofs m'))"
    by (simp add: layout_oneofs_def map_concat)
  have "list_all (\<lambda>js. js \<noteq> []) (layout_oneofs m')" "distinct (concat (mdef_oneofs m'))"
    using ok laid_oneofs [OF laid] by (auto simp: messagedef_ok_def layout_oneofs_def list_all_iff)
  moreover have "list_all (\<lambda>j. j < length fs \<and> presence_class (fs ! j) = kHasbitPresence) (concat (layout_oneofs m'))"
    unfolding concat_eq list_all_iff set_map using laid_position [OF laid] mem by (metis (no_types, lifting) imageE)
  ultimately show "oneofs_of fs (layout_oneofs m')"
    unfolding oneofs_of_def concat_eq distinct_map using inj by blast
  have "fd_number (mdef_fields m' ! i) = fd_number (fs ! ?pos i)" if "i \<in> set (concat (mdef_oneofs m'))" for i
    using laid_position(2) [OF laid mem(1) [OF that]] by simp
  then show "map (map (\<lambda>i. fd_number (mdef_fields m' ! i))) (mdef_oneofs m') = map (map (\<lambda>j. fd_number (fs ! j))) (layout_oneofs m')"
    by (auto simp: layout_oneofs_def)
qed

section \<open>Parsing the string\<close>

lemma oneofs_text_start: "modifier_range.ends_varint (oneofs_text False nss)"
  by (cases nss) (simp_all add: modifier_range.ends_varint_def)

text \<open>The modifiers of the message come first.\<close>

definition message_ext :: "upb_MessageDef \<Rightarrow> byte" where
  "message_ext m = (if mdef_ext_range_count m \<noteq> 0 then 1 else 0)"

lemma message_flags_bits [simp]:
  "message_flags m AND 1 = 0 \<longleftrightarrow> \<not> upb_MessageDef_ValidateUtf8 m"
  "message_flags m AND 2 = 0 \<longleftrightarrow> \<not> upb_MessageDef_DefaultIsPacked m"
  "message_flags m AND 4 = 0 \<longleftrightarrow> mdef_ext_range_count m = 0"
  by (simp_all add: message_flags_def)

lemma parse_message_modifiers:
  assumes d: "md_fields d = []" "\<not> md_is_extension d" "md_ext d = 0" and rest: "modifier_range.ends_varint rest"
  shows "mt_parse_loop alloc d ((if message_flags m = 0 then [] else modifier_range.digits (message_flags m)) @ rest) 0 l nd =
    mt_parse_loop alloc (d\<lparr>md_ext := message_ext m\<rparr>) rest (message_flags m) l nd"
proof (cases "message_flags m = 0")
  case True
  then have "mdef_ext_range_count m = 0" using message_flags_bits(3) [of m] by simp
  with True d(3) show ?thesis by (cases d) (simp add: message_ext_def)
next
  case False
  obtain c cs where c: "modifier_range.digits (message_flags m) = c # cs"
    using b92_digits_nonempty by (cases "modifier_range.digits (message_flags m)") auto
  have read: "upb_Base92_DecodeVarint (cs @ rest) c kUpb_EncodedValue_MinModifier kUpb_EncodedValue_MaxModifier = Some (rest, message_flags m)"
    using modifier_range.read_written [OF rest, of "message_flags m"] c by simp
  have mods: "upb_MtDecoder_ParseModifier d (cs @ rest) c 0 = Inr (d, rest, message_flags m)"
    using d by (simp add: upb_MtDecoder_ParseModifier_def read)
  have ext: "(if message_flags m AND 4 \<noteq> 0 then d\<lparr>md_ext := md_ext d OR 1\<rparr> else d) = d\<lparr>md_ext := message_ext m\<rparr>"
    using d(3) by (cases d) (auto simp: message_ext_def)
  show ?thesis using False modifier_char [OF c] mods ext by (simp add: c)
qed

lemma parse_message_text:
  assumes ok: "messagedef_ok m" and laid: "laid m m' fs" and small: "length fs \<le> 65532"
    and d: "md_platform d = p" "md_fields d = []" "md_field_count d = 0" "md_oneofs d = []" "md_rep_counts_offsets d = (\<lambda>_. 0)"
      "\<not> md_is_extension d" "md_ext d = 0" "md_dense_below d = 0"
  shows "mt_or_oom alloc (mt_parse_loop alloc d (tl (message_text m' fs)) 0 0 True)
    (\<lambda>(d', ptr, nd'). ptr = [] \<and> md_ext d' = message_ext m' \<and> reads_message p fs (layout_oneofs m') d')"
proof -
  let ?packed = "upb_MessageDef_DefaultIsPacked m'" and ?utf8 = "upb_MessageDef_ValidateUtf8 m'" and ?mm = "message_flags m'"
  let ?oneofs = "oneofs_text False (map (map (\<lambda>j. fd_number (fs ! j))) (layout_oneofs m'))"
  let ?d = "d\<lparr>md_ext := message_ext m'\<rparr>"
  have ends: "modifier_range.ends_varint (fields_text ?packed ?utf8 0 fs @ ?oneofs)"
    by (rule fields_text_ends) (simp add: oneofs_text_start)
  have start: "mt_parse_loop alloc d (tl (message_text m' fs)) 0 0 True =
    mt_parse_loop alloc ?d (fields_text ?packed ?utf8 0 fs @ ?oneofs) ?mm 0 True"
    using parse_message_modifiers [OF d(2,6,7) ends, of alloc m' 0 True]
    unfolding message_text_def laid_layout_oneofs(2) [OF ok laid] list.sel .
  have defaults: "parser_defaults ?mm ?packed ?utf8 ?d" by (simp add: parser_defaults_def message_ext_def)
  have fields: "list_all (\<lambda>f. fielddef_ok f \<and> utf8_ok ?utf8 f) fs" using laid_ok [OF ok laid] by (simp add: list_all_iff)
  have dense: "dense_ok ?d 0 True" using d by (simp add: dense_ok_def fields_counted_def)
  have ext: "\<not> md_is_extension ?d" using d by simp
  have srt: "sorted_wrt (<) (0 # map fd_number fs)" by (rule laid_sorted [OF ok laid])
  from parse_fields [OF defaults ext fields srt dense _ oneofs_text_start] d(2) small
  obtain d' l' nd' ts a b c e where
    run: "mt_parse_loop alloc ?d (fields_text ?packed ?utf8 0 fs @ ?oneofs) ?mm 0 True = mt_parse_loop alloc d' ?oneofs ?mm l' nd'"
    and d': "d' = ?d\<lparr>md_fields := md_fields ?d @ ts, md_field_count := c, md_submsg_count := a, md_subenum_count := b, md_dense_below := e\<rparr>"
    and ts: "fields_read (md_platform ?d) fs ts" and dense': "dense_ok d' l' nd'" by fastforce
  have "mt_or_oom alloc (mt_parse_loop alloc d' ?oneofs ?mm l' nd')
    (\<lambda>(d'', ptr, nd''). ptr = [] \<and> md_ext d'' = md_ext d' \<and> reads_message p fs (layout_oneofs m') d'')"
    by (rule read_oneofs [OF _ _ _ _ dense' _ _ small laid_layout_oneofs(1) [OF ok laid]])
      (use d ts srt in \<open>simp_all add: d'\<close>)
  then show ?thesis unfolding start run by (simp add: d')
qed

lemma reads_fields_cong:
  assumes "reads_fields p fs jss flds" and "list_all2 (\<lambda>t t'. t'\<lparr>mtf_submsg_index := 0\<rparr> = t\<lparr>mtf_submsg_index := 0\<rparr>) flds flds'"
  shows "reads_fields p fs jss flds'"
  unfolding reads_fields_def
proof (intro conjI allI impI)
  show len: "length flds' = length fs" using assms by (auto simp: reads_fields_def dest: list_all2_lengthD)
  fix j assume j: "j < length fs"
  obtain sub x where "flds ! j = (field_read p (fs ! j) sub)\<lparr>mtf_offset := x\<rparr>" "j \<notin> set (concat jss) \<longrightarrow> x = presence_class (fs ! j)"
    using assms(1) j unfolding reads_fields_def by blast
  moreover have "(flds' ! j)\<lparr>mtf_submsg_index := 0\<rparr> = (flds ! j)\<lparr>mtf_submsg_index := 0\<rparr>"
    using assms(2) j len by (simp add: list_all2_conv_all_nth)
  then obtain s where "flds' ! j = (flds ! j)\<lparr>mtf_submsg_index := s\<rparr>"
    by (cases "flds ! j"; cases "flds' ! j") simp
  ultimately show "\<exists>sub x. flds' ! j = (field_read p (fs ! j) sub)\<lparr>mtf_offset := x\<rparr> \<and> (j \<notin> set (concat jss) \<longrightarrow> x = presence_class (fs ! j))"
    by (intro exI [of _ s] exI [of _ x]) (simp add: field_read_def)
qed

lemma AllocateSubs_reads:
  assumes "reads_message p fs jss d"
  shows "mt_or_oom alloc (upb_MtDecoder_AllocateSubs alloc d) (\<lambda>(d', subs). reads_message p fs jss d' \<and> md_ext d' = md_ext d)"
proof (cases "upb_MtDecoder_AllocateSubs alloc d")
  case (Inl e)
  then show ?thesis by (auto simp: upb_MtDecoder_AllocateSubs_def Let_def split: if_splits)
next
  case (Inr r)
  obtain d' subs where r: "r = (d', subs)" by (cases r)
  have parsed: "parsed p d' (map rev jss)"
    using AllocateSubs_parsed(1) [OF Inr [unfolded r]] assms by (simp add: reads_message_def)
  have "list_all2 (\<lambda>t t'. t'\<lparr>mtf_submsg_index := 0\<rparr> = t\<lparr>mtf_submsg_index := 0\<rparr>) (md_fields d) (md_fields d')"
    using Inr r
    by (auto simp: upb_MtDecoder_AllocateSubs_def Let_def list_all2_conv_all_nth nth_append split: if_splits)
  with parsed assms Inr r show ?thesis
    by (auto simp: reads_message_def upb_MtDecoder_AllocateSubs_def Let_def intro: reads_fields_cong split: if_splits)
qed

lemma set_dense_below_ext [simp]: "md_ext (set_dense_below d) = md_ext d"
  by (simp add: set_dense_below_def)

lemma set_dense_below_reads: "reads_message p fs jss d \<Longrightarrow> reads_message p fs jss (set_dense_below d)"
  using set_dense_below_parsed by (auto simp: reads_message_def set_dense_below_def)

lemma ParseMessage_text:
  assumes ok: "messagedef_ok m" and laid: "laid m m' fs" and small: "length fs \<le> 65532" "length (tl (message_text m' fs)) < 2 ^ 60"
    and d: "md_platform d = p" "md_oneofs d = []" "md_rep_counts_offsets d = (\<lambda>_. 0)" "\<not> md_is_extension d" "md_ext d = 0" "md_dense_below d = 0"
  shows "mt_or_oom alloc (upb_MtDecoder_ParseMessage alloc d (tl (message_text m' fs)))
    (\<lambda>(d', subs). reads_message p fs (layout_oneofs m') d' \<and> md_ext d' = message_ext m')"
proof -
  let ?s = "tl (message_text m' fs)" and ?Q = "\<lambda>d'. reads_message p fs (layout_oneofs m') d' \<and> md_ext d' = message_ext m'"
  let ?d = "d\<lparr>md_fields := [], md_field_count := 0, md_submsg_count := 0, md_subenum_count := 0\<rparr>"
  have "mt_or_oom alloc (mt_parse_loop alloc ?d ?s 0 0 True)
    (\<lambda>(d', ptr, nd'). ptr = [] \<and> md_ext d' = message_ext m' \<and> reads_message p fs (layout_oneofs m') d')"
    by (rule parse_message_text [OF ok laid small(1)]) (use d in simp_all)
  then have "mt_or_oom alloc (upb_MtDecoder_Parse alloc ?d ?s) (\<lambda>(d', ptr). ?Q d')"
    unfolding upb_MtDecoder_Parse_def using d(4)
    by (auto intro!: mt_or_oom_bind set_dense_below_reads)
  then have "mt_or_oom alloc (bindE (upb_MtDecoder_Parse alloc ?d ?s) (\<lambda>(d, ptr). upb_MtDecoder_AllocateSubs alloc d)) (\<lambda>(d', subs). ?Q d')"
    by (rule mt_or_oom_bind) (auto intro: mt_or_oom_mono [OF AllocateSubs_reads])
  then show ?thesis
    using small(2) by (auto simp: upb_MtDecoder_ParseMessage_def sizeof_upb_MiniTableField_def Let_def)
qed

section \<open>The layout\<close>

text \<open>The number, the stored type and the mode of a field are those that were read.\<close>

definition field_core :: "upb_MiniTableField \<Rightarrow> u32 \<times> upb_FieldType \<times> byte" where
  "field_core t = (mtf_number t, mtf_descriptortype t, mtf_mode t)"

interpretation field_kept: layout_independent field_core
  by unfold_locales (simp_all add: field_core_def)

definition core_of :: "mini_platform \<Rightarrow> upb_FieldDef \<Rightarrow> u32 \<times> upb_FieldType \<times> byte" where
  "core_of p f = (fd_number f, stored_type (upb_FieldDef_ValidateUtf8 f) f,
     mode_of (base_mode p f) (upb_FieldDef_IsPacked f) (is_alternate (upb_FieldDef_ValidateUtf8 f) f))"

lemma reads_fields_core: "reads_fields p fs jss flds \<Longrightarrow> map field_core flds = map (core_of p) fs"
proof (rule nth_equalityI)
  fix j assume r: "reads_fields p fs jss flds" and "j < length (map field_core flds)"
  then have j: "j < length fs" "j < length flds" by (simp_all add: reads_fields_def)
  then obtain sub x where "flds ! j = (field_read p (fs ! j) sub)\<lparr>mtf_offset := x\<rparr>"
    using r unfolding reads_fields_def by blast
  with j show "map field_core flds ! j = map (core_of p) fs ! j"
    by (simp add: field_core_def core_of_def field_read_def)
qed (simp add: reads_fields_def)

text \<open>A oneof's fields have an offset that is a link, the others their presence class.\<close>

lemma reads_message_offsets:
  assumes "reads_message p fs jss d" and "oneofs_of fs jss" and "i < length fs"
  shows "i \<in> set (concat jss) \<longleftrightarrow> in_oneof (md_fields d ! i)"
    "i \<notin> set (concat jss) \<Longrightarrow> mtf_offset (md_fields d ! i) = presence_class (fs ! i)"
    "i \<in> set (concat jss) \<Longrightarrow> presence_class (fs ! i) = kHasbitPresence"
proof -
  have wf: "oneofs_wf p (md_fields d) (md_oneofs d) (map rev jss) (kUpb_OneOfLayoutItem_IndexSentinel, kUpb_FieldRep_1Byte) []"
    and len: "length (md_fields d) = length fs"
    using assms(1) by (auto simp: reads_message_def reads_fields_def parsed_def parse_inv_def)
  have "set (concat (map rev jss) @ []) = set (concat jss)" by auto
  with wf len assms(3) show "i \<in> set (concat jss) \<longleftrightarrow> in_oneof (md_fields d ! i)"
    unfolding oneofs_wf_def by (metis (no_types, lifting))
  show "mtf_offset (md_fields d ! i) = presence_class (fs ! i)" if "i \<notin> set (concat jss)"
    using assms(1,3) that unfolding reads_message_def reads_fields_def by (metis upb_MiniTableField.select_convs(2) upb_MiniTableField.surjective upb_MiniTableField.update_convs(2))
  show "presence_class (fs ! i) = kHasbitPresence" if "i \<in> set (concat jss)"
    using assms(2) that by (simp only: oneofs_of_def list_all_iff)
qed

definition required_fields :: "upb_FieldDef list \<Rightarrow> nat" where
  "required_fields fs = length (filter (\<lambda>f. \<not> upb_FieldDef_IsRepeated f \<and> upb_FieldDef_IsRequired f) fs)"

lemma required_class: "presence_class f = kRequiredPresence \<longleftrightarrow> \<not> upb_FieldDef_IsRepeated f \<and> upb_FieldDef_IsRequired f"
  by (simp add: presence_class_def)

lemma length_filter_nth_cong:
  "length xs = length ys \<Longrightarrow> (\<And>i. i < length xs \<Longrightarrow> P (xs ! i) = Q (ys ! i)) \<Longrightarrow> length (filter P xs) = length (filter Q ys)"
proof (induction xs ys rule: list_induct2)
  case (Cons x xs y ys)
  from Cons.prems [of 0] Cons.prems [of "Suc _"] Cons.IH show ?case by auto
qed simp

lemma reads_message_required:
  assumes "reads_message p fs jss d" and "oneofs_of fs jss"
  shows "class_count kRequiredPresence (md_fields d) = required_fields fs"
  unfolding required_fields_def
proof (rule length_filter_nth_cong)
  show len: "length (md_fields d) = length fs" using assms(1) by (simp add: reads_message_def reads_fields_def)
  fix i assume "i < length (md_fields d)"
  then have i: "i < length fs" using len by simp
  note off = reads_message_offsets [OF assms i]
  show "(mtf_offset (md_fields d ! i) = kRequiredPresence) = (\<not> upb_FieldDef_IsRepeated (fs ! i) \<and> upb_FieldDef_IsRequired (fs ! i))"
    unfolding required_class [symmetric]
    using off by (cases "i \<in> set (concat jss)") (auto simp: word_le_nat_alt)
qed

lemma AssignHasbits_fails:
  assumes "upb_MtDecoder_AssignHasbits d = Inl e" and "fields_counted d"
  shows "e = MtTooManyRequired \<and> 64 < class_count kRequiredPresence (md_fields d)"
proof -
  obtain fs h where r: "assign_required (md_fields d) 63 = (fs, h)" by fastforce
  from assign_required_spec [OF r] have "h = 63 + class_count kRequiredPresence (md_fields d)" by simp
  then show ?thesis
    using assms r by (auto simp: upb_MtDecoder_AssignHasbits_def kUpb_Reserved_Hasbits_def kUpb_Reserved_Hasbytes_def
        fields_counted_def Let_def split: prod.splits if_splits)
qed

text \<open>
  The presence of the fields after the layout: positive for a hasbit, zero without presence, and for the fields
  of a oneof negative and the same exactly within the oneof.
\<close>

definition presence_laid :: "upb_FieldDef list \<Rightarrow> nat list list \<Rightarrow> upb_MiniTableField list \<Rightarrow> bool" where
  "presence_laid fs jss flds \<longleftrightarrow>
     (\<forall>i<length fs. if i \<in> set (concat jss) then mtf_presence (flds ! i) < 0
        else if presence_class (fs ! i) = kNoPresence then mtf_presence (flds ! i) = 0 else 0 < mtf_presence (flds ! i)) \<and>
     (\<forall>js\<in>set jss. \<forall>js'\<in>set jss. \<forall>i\<in>set js. \<forall>j\<in>set js'. mtf_presence (flds ! i) = mtf_presence (flds ! j) \<longleftrightarrow> js = js')"

lemma case_slots_apart:
  assumes ok: "regions_ok p UNIV b (count_list (all_requests d)) lo hi" and k: "k < length (md_oneofs d)" "l < length (md_oneofs d)"
    and eq: "slot_pos p b (all_requests d) (case_slot_index d k) = slot_pos p b (all_requests d) (case_slot_index d l)"
  shows "k = l"
proof (rule ccontr)
  let ?S = "slot_bytes p b (all_requests d)"
  assume "k \<noteq> l"
  then have "case_slot_index d k \<noteq> case_slot_index d l" by (simp add: case_slot_index_def)
  moreover have len: "case_slot_index d k < length (all_requests d)" "case_slot_index d l < length (all_requests d)"
    using all_requests_index(2) k Suc_lessD by blast+
  ultimately have "?S (case_slot_index d k) \<inter> ?S (case_slot_index d l) = {}" using slot_bytes_disjoint [OF ok len] by blast
  moreover have "slot_pos p b (all_requests d) (case_slot_index d k) \<in> ?S (case_slot_index d k)"
    "slot_pos p b (all_requests d) (case_slot_index d l) \<in> ?S (case_slot_index d l)"
    by (simp_all add: slot_bytes_def)
  ultimately show False using eq by auto
qed

lemma concat_disjoint:
  "distinct (concat xss) \<Longrightarrow> k < length xss \<Longrightarrow> l < length xss \<Longrightarrow> x \<in> set (xss ! k) \<Longrightarrow> x \<in> set (xss ! l) \<Longrightarrow> k = l"
proof (induction xss arbitrary: k l)
  case (Cons xs xss)
  have "x \<in> set (concat xss)" if "x \<in> set (xss ! n)" "n < length xss" for n using that by auto
  with Cons show ?case by (cases k; cases l) (auto simp del: set_concat)
qed simp

lemma presence_of_layout:
  assumes inv: "layout_inv p b d css flds lo hi" and css: "css = map rev jss" and len: "length flds = length fs"
    and jss: "distinct (concat jss)" "list_all (\<lambda>j. j < length fs) (concat jss)"
    and one: "\<And>i. i < length fs \<Longrightarrow> i \<in> set (concat jss) \<longleftrightarrow> in_oneof (md_fields d ! i)"
    and off: "\<And>i. i < length fs \<Longrightarrow> i \<notin> set (concat jss) \<Longrightarrow> mtf_offset (md_fields d ! i) = presence_class (fs ! i)"
  shows "presence_laid fs jss flds"
proof -
  let ?pos = "\<lambda>k. slot_pos p b (all_requests d) (case_slot_index d k)"
  have ok: "regions_ok p UNIV b (count_list (all_requests d)) lo hi" using inv by (auto simp: layout_inv_def)
  have items: "length (md_oneofs d) = length jss" using inv css by (auto simp: layout_inv_def oneofs_wf_def dest: list_all2_lengthD)
  have member: "mtf_presence (flds ! i) = - int (?pos k) - 1" if k: "k < length jss" "i \<in> set (jss ! k)" for i k
  proof -
    have all: "i \<in> set (concat jss)" using k by auto
    then have i: "i < length fs" using jss(2) by (simp only: list_all_iff)
    from inv i [folded len] show ?thesis
    proof (cases rule: layout_field_cases)
      case single
      with one [OF i] all show ?thesis by simp
    next
      case (member l)
      have "i \<in> set (jss ! l)" "l < length jss" using member(1,8) css items by auto
      with concat_disjoint [OF jss(1) k(1)] k(2) member(4) show ?thesis by metis
    qed
  qed
  show ?thesis
    unfolding presence_laid_def
  proof (intro conjI allI impI ballI)
    fix i assume i: "i < length fs"
    show "if i \<in> set (concat jss) then mtf_presence (flds ! i) < 0
        else if presence_class (fs ! i) = kNoPresence then mtf_presence (flds ! i) = 0 else 0 < mtf_presence (flds ! i)"
    proof (cases "i \<in> set (concat jss)")
      case True
      then obtain k where "k < length jss" "i \<in> set (jss ! k)" by (auto simp: in_set_conv_nth [of _ jss])
      from member [OF this] True show ?thesis by simp
    next
      case False
      from inv i [folded len] show ?thesis
      proof (cases rule: layout_field_cases)
        case single
        with off [OF i False] False hasbit_index_ge [of "md_fields d" i] show ?thesis by simp
      next
        case (member l)
        with one [OF i] False show ?thesis by simp
      qed
    qed
  next
    fix js js' i j assume "js \<in> set jss" "js' \<in> set jss" and ij: "i \<in> set js" "j \<in> set js'"
    then obtain k l where k: "k < length jss" "js = jss ! k" and l: "l < length jss" "js' = jss ! l"
      by (auto simp: in_set_conv_nth [of _ jss])
    have "mtf_presence (flds ! i) = mtf_presence (flds ! j) \<longleftrightarrow> ?pos k = ?pos l"
      using member [of k i] member [of l j] k l ij by simp
    also have "\<dots> \<longleftrightarrow> k = l" using case_slots_apart [OF ok, of k l] k l items by auto
    also have "\<dots> \<longleftrightarrow> js = js'" using concat_disjoint [OF jss(1), of k l i] k l ij by auto
    finally show "mtf_presence (flds ! i) = mtf_presence (flds ! j) \<longleftrightarrow> js = js'" .
  qed
qed

section \<open>The table of a definition\<close>

lemma fields_text_length:
  "length fs \<le> length (fields_text packed utf8 l fs)" "length (fields_text packed utf8 l fs) \<le> 9 * length fs"
proof -
  have one: "1 \<le> length (field_text packed utf8 l f)" for l f by (simp add: field_text_def)
  show "length fs \<le> length (fields_text packed utf8 l fs)"
  proof (induction fs arbitrary: l)
    case (Cons f fs)
    show ?case using one [of l f] Cons [of "fd_number f"] by simp
  qed simp
  show "length (fields_text packed utf8 l fs) \<le> 9 * length fs"
  proof (induction fs arbitrary: l)
    case (Cons f fs)
    show ?case using field_text_length [of packed utf8 l f] Cons [of "fd_number f"] by simp
  qed simp
qed

lemma oneof_text_bound: "length (oneof_text e ns) \<le> 7 * length ns"
proof (induction ns arbitrary: e)
  case (Cons n ns)
  show ?case using digits_length(2) [of n] Cons [of True] by simp
qed simp

lemma oneofs_text_length:
  "length nss \<le> length (oneofs_text b nss)" "length (oneofs_text b nss) \<le> length nss + 7 * length (concat nss)"
proof -
  show "length nss \<le> length (oneofs_text b nss)"
  proof (induction nss arbitrary: b)
    case (Cons ns nss)
    show ?case using Cons [of True] by simp
  qed simp
  show "length (oneofs_text b nss) \<le> length nss + 7 * length (concat nss)"
  proof (induction nss arbitrary: b)
    case (Cons ns nss)
    show ?case using oneof_text_bound [of False ns] Cons [of True] by simp
  qed simp
qed

lemma message_text_length:
  assumes "messagedef_ok m" and "laid m m' fs"
  shows "length fs + length (layout_oneofs m') \<le> length (tl (message_text m' fs))"
    "length (message_text m' fs) \<le> 2 + 17 * length (mdef_fields m)"
proof -
  let ?nss = "map (map (\<lambda>i. fd_number (mdef_fields m' ! i))) (mdef_oneofs m')"
  note len = laid_length [OF assms(2)] and one = laid_oneofs [OF assms(2)]
  have mods: "length (if message_flags m' = 0 then [] else modifier_range.digits (message_flags m')) \<le> 1"
    using digits_length(3) [OF Modifiers_flags(2), of m'] by simp
  have nss: "length ?nss = length (mdef_oneofs m)" "length (concat ?nss) = length (concat (mdef_oneofs m))"
    by (simp_all add: one map_concat [symmetric])
  have "set (concat (mdef_oneofs m)) \<subseteq> {..<length (mdef_fields m)}" "distinct (concat (mdef_oneofs m))"
    using assms(1) by (auto simp: messagedef_ok_def list_all_iff)
  then have c: "length (concat (mdef_oneofs m)) \<le> length (mdef_fields m)"
    by (metis card_lessThan card_mono distinct_card finite_lessThan)
  have "\<forall>xs\<in>set (mdef_oneofs m). xs \<noteq> []" using assms(1) by (simp add: messagedef_ok_def list_all_iff)
  then have "length (mdef_oneofs m) \<le> length (concat (mdef_oneofs m))" by (rule length_le_concat)
  with c have o: "length (oneofs_text False ?nss) \<le> 8 * length (mdef_fields m)"
    using oneofs_text_length(2) [of False ?nss] nss by linarith
  show "length (message_text m' fs) \<le> 2 + 17 * length (mdef_fields m)"
    using mods o fields_text_length(2) [of "upb_MessageDef_DefaultIsPacked m'" "upb_MessageDef_ValidateUtf8 m'" 0 fs] len
    unfolding message_text_def list.size(4) length_append by linarith
  have "length (layout_oneofs m') \<le> length (oneofs_text False ?nss)"
    using oneofs_text_length(1) [of ?nss False] by (simp add: layout_oneofs_def)
  then show "length fs + length (layout_oneofs m') \<le> length (tl (message_text m' fs))"
    using fields_text_length(1) [of fs "upb_MessageDef_DefaultIsPacked m'" "upb_MessageDef_ValidateUtf8 m'" 0]
    unfolding message_text_def list.sel length_append by linarith
qed

text \<open>What the table has of the definition, and when there is none.\<close>

definition table_of :: "mini_platform \<Rightarrow> upb_MessageDef \<Rightarrow> upb_FieldDef list \<Rightarrow> upb_MiniTable \<Rightarrow> bool" where
  "table_of p m fs t \<longleftrightarrow>
     map field_core (mt_fields t) = map (core_of p) fs \<and>
     mt_ext t = (if mdef_ext_range_count m \<noteq> 0 then kUpb_ExtMode_Extendable else kUpb_ExtMode_NonExtendable) \<and>
     unat (mt_required_count t) = required_fields fs \<and>
     (length fs + length (mdef_oneofs m) \<le> 2000 \<longrightarrow> 0 < mt_size t \<and> mt_size t \<le> 32768) \<and>
     (0 < mt_size t \<and> mt_size t \<le> 32768 \<longrightarrow> presence_laid fs (layout_oneofs m) (mt_fields t))"

definition build_refused :: "(nat \<Rightarrow> bool) \<Rightarrow> upb_FieldDef list \<Rightarrow> nat \<Rightarrow> mt_error \<Rightarrow> bool" where
  "build_refused alloc fs k e \<longleftrightarrow>
     e \<in> {MtOutOfMemory, MtWriteToNull} \<and> (\<exists>n. \<not> alloc n) \<or> e = MtTooManyRequired \<and> 64 < required_fields fs \<or>
     e = MtTooLarge \<and> 4000 < length fs + k"

text \<open>The passes after the parse.\<close>

lemma passes_of_message:
  assumes ok: "messagedef_ok m" and laid: "laid m m' fs" and read: "reads_message p fs (layout_oneofs m') d"
    and small: "length fs + length (layout_oneofs m') \<le> 65532"
  shows "case bindE (upb_MtDecoder_AssignHasbits d) (\<lambda>d. bindE (upb_MtDecoder_CalculateAlignments d) upb_MtDecoder_AssignOffsets) of
      Inl e \<Rightarrow> e = MtTooManyRequired \<and> 64 < required_fields fs \<or> e = MtTooLarge \<and> 4000 < length fs + length (layout_oneofs m')
    | Inr d3 \<Rightarrow> md_ext d3 = md_ext d \<and> unat (md_size d3) mod 8 = 0 \<and>
        (\<forall>subs. md_ext d = message_ext m' \<longrightarrow> table_of p m' fs (md_table d3 subs (ext_mode (md_ext d3))))"
proof -
  let ?jss = "layout_oneofs m'"
  note oneofs = laid_layout_oneofs(1) [OF ok laid]
  have parsed: "parsed p d (map rev ?jss)" and flds: "reads_fields p fs ?jss (md_fields d)" using read by (auto simp: reads_message_def)
  have fc: "fields_counted d" and items: "length (md_oneofs d) = length ?jss" and len: "length (md_fields d) = length fs"
    using parsed flds by (auto simp: parsed_def parse_inv_def oneofs_wf_def reads_fields_def dest: list_all2_lengthD)
  have small': "length (md_fields d) + length (md_oneofs d) \<le> 65532" using small items len by simp
  note required = reads_message_required [OF read oneofs]
  show ?thesis
  proof (cases "upb_MtDecoder_AssignHasbits d")
    case (Inl e)
    with AssignHasbits_fails [OF Inl fc] required show ?thesis by simp
  next
    case hb: (Inr d1)
    show ?thesis
    proof (cases "upb_MtDecoder_CalculateAlignments d1")
      case (Inl e)
      with message_size(1) [OF parsed small' hb] hb items len show ?thesis by simp
    next
      case calc: (Inr d2)
      obtain d3 b lo hi where off: "upb_MtDecoder_AssignOffsets d2 = Inr d3" "md_size d3 = of_nat (upb_align_up hi 8)" "hi \<le> 65535"
        "md_fields d3 = take (unat (md_field_count d3)) (md_fields d3)"
        "hi \<le> 32768 \<longrightarrow> layout_inv p b d2 (map rev ?jss) (md_fields d3) lo hi"
        using message_layout [OF parsed small' hb calc] by blast
      obtain fs1 where d1: "d1 = d\<lparr>md_required_count := of_nat (class_count kRequiredPresence (md_fields d)), md_fields := fs1,
          md_size := of_nat (hasbit_bytes (md_fields d))\<rparr>" "length fs1 = length (md_fields d)"
          "\<forall>i<length (md_fields d). fs1 ! i = with_presence (md_fields d) i"
        using AssignHasbits_spec(2) [OF hb fc] by blast
      have d2: "md_fields d2 = fs1" "md_ext d2 = md_ext d" "md_required_count d2 = md_required_count d1"
        using calc d1(1) by (auto simp: upb_MtDecoder_CalculateAlignments_def Let_def split: if_splits prod.splits)
      have d3: "md_ext d3 = md_ext d2" "md_required_count d3 = md_required_count d2"
        using off(1) by (auto simp: upb_MtDecoder_AssignOffsets_def bindE_Inr_conv Let_def split: prod.splits)
      have fc1: "fields_counted d1" by (rule field_kept.AssignHasbits(2) [OF hb fc])
      then have fc2: "fields_counted d2" using CalculateAlignments_types [OF calc] by (simp add: fields_counted_def)
      have core: "map field_core (md_fields d3) = map (core_of p) fs"
        using field_kept.AssignOffsets(1) [OF off(1) fc2] field_kept.AssignHasbits(1) [OF hb fc] CalculateAlignments_types [OF calc]
          reads_fields_core [OF flds] by simp
      have len3: "length (md_fields d3) = length fs" using core by (rule map_eq_imp_length_eq)
      have rc: "unat (md_required_count d3) = required_fields fs"
        using AssignHasbits_spec(1) [OF hb fc] required by (simp add: d3 d2 d1(1) unat_of_nat)
      have same: "mtf_offset (md_fields d2 ! i) = mtf_offset (md_fields d ! i)" if "i < length fs" for i
        using d1(3) that len d2(1) by (simp add: with_presence_def)
      have cls: "i \<in> set (concat ?jss) \<longleftrightarrow> in_oneof (md_fields d2 ! i)"
        "i \<notin> set (concat ?jss) \<Longrightarrow> mtf_offset (md_fields d2 ! i) = presence_class (fs ! i)" if "i < length fs" for i
        unfolding same [OF that] by (fact reads_message_offsets(1,2) [OF read oneofs that])+
      have jss: "distinct (concat ?jss)" "list_all (\<lambda>j. j < length fs) (concat ?jss)"
        using oneofs by (auto simp: oneofs_of_def list_all_iff)
      have pres: "presence_laid fs ?jss (md_fields d3)" if hi: "hi \<le> 32768"
        by (rule presence_of_layout [OF off(5) [rule_format, OF hi] refl len3 jss])
          (fact cls)+
      have bound: "hi \<le> 32768" if "0 < md_size d3" "md_size d3 \<le> 32768"
        using align_up_8_exact [OF off(3)] upb_align_up_bounds [of 8 hi] that off(2) by (simp add: word_le_nat_alt)
      have size: "0 < md_size d3 \<and> md_size d3 \<le> 32768" if "length fs + length ?jss \<le> 2000"
      proof -
        have "md_size d3 = of_nat (upb_align_up (unat (md_size d2)) 8)"
          using off(1) by (auto simp: upb_MtDecoder_AssignOffsets_def bindE_Inr_conv Let_def split: prod.splits)
        moreover have "8 \<le> unat (md_size d2)" "unat (md_size d2) \<le> 32700"
          using message_size(2) [OF parsed small' hb calc] that items len by simp_all
        ultimately show ?thesis
          using upb_align_up_bounds [of 8 "unat (md_size d2)"] by (simp add: word_less_nat_alt word_le_nat_alt unat_of_nat)
      qed
      have "unat (md_size d3) mod 8 = 0" unfolding off(2) by (rule unat_align_up_mod_8)
      moreover have "table_of p m' fs (md_table d3 subs (ext_mode (md_ext d3)))" if ext: "md_ext d = message_ext m'" for subs
        using core rc pres bound off(4) ext size
        by (simp add: table_of_def md_table_def d3 d2 message_ext_def ext_mode_def layout_oneofs_def)
      ultimately show ?thesis using hb calc off(1) d3(1) d2(2) by simp
    qed
  qed
qed

lemma BuildWithBuf_text:
  assumes ok: "messagedef_ok m" and laid: "laid m m' fs" and small: "length (mdef_fields m) \<le> 3800"
  shows "case upb_MiniTable_BuildWithBuf alloc p cap (message_text m' fs) of Inl e \<Rightarrow> build_refused alloc fs (length (mdef_oneofs m)) e | Inr t \<Rightarrow> table_of p m' fs t"
proof -
  let ?s = "tl (message_text m' fs)"
  let ?d = "\<lparr>md_fields = [], md_field_count = 0, md_platform = p, md_oneofs = [], md_oneofs_capacity = cap,
        md_rep_counts_offsets = (\<lambda>_. 0), md_is_extension = False, md_submsg_count = 0, md_subenum_count = 0,
        md_size = of_nat kUpb_Reserved_Hasbytes, md_ext = 0, md_dense_below = 0, md_required_count = 0\<rparr>"
  have s: "message_text m' fs = 36 # ?s" by (simp add: message_text_def)
  note len = message_text_length [OF ok laid]
  have bounds: "length fs \<le> 65532" "length ?s < 2 ^ 60" "length fs + length (layout_oneofs m') \<le> 65532"
    using len small by simp_all
  have parse: "mt_or_oom alloc (upb_MtDecoder_ParseMessage alloc ?d ?s)
    (\<lambda>(d', subs). reads_message p fs (layout_oneofs m') d' \<and> md_ext d' = message_ext m')"
    by (rule ParseMessage_text [OF ok laid bounds(1,2)]) simp_all
  have build: "upb_MiniTable_BuildWithBuf alloc p cap (message_text m' fs) =
    bindE (upb_MtDecoder_ParseMessage alloc ?d ?s) (\<lambda>(d, subs).
    bindE (bindE (upb_MtDecoder_AssignHasbits d) (\<lambda>d. bindE (upb_MtDecoder_CalculateAlignments d) upb_MtDecoder_AssignOffsets)) (\<lambda>d.
      if \<not> alloc sizeof_upb_MiniTable then Inl MtWriteToNull
      else if unat (md_size d) mod 8 \<noteq> 0 then Inl MtAssertFailed
      else Inr (md_table d subs (ext_mode (md_ext d)))))"
    unfolding upb_MiniTable_BuildWithBuf_def upb_MtDecoder_DoBuildMiniTableWithBuf_def
    by (subst s) (simp add: Let_def bindE_assoc split_def cong: if_cong)
  show ?thesis
  proof (cases "upb_MtDecoder_ParseMessage alloc ?d ?s")
    case (Inl e)
    with parse show ?thesis by (simp add: build build_refused_def)
  next
    case (Inr r)
    obtain d subs where r: "r = (d, subs)" by (cases r)
    with parse Inr have d: "reads_message p fs (layout_oneofs m') d" "md_ext d = message_ext m'" by simp_all
    note passes = passes_of_message [OF ok laid d(1) bounds(3)]
    show ?thesis
    proof (cases "bindE (upb_MtDecoder_AssignHasbits d) (\<lambda>d. bindE (upb_MtDecoder_CalculateAlignments d) upb_MtDecoder_AssignOffsets)")
      case (Inl e)
      with passes Inr r laid_oneofs [OF laid] show ?thesis by (simp add: build build_refused_def layout_oneofs_def)
    next
      case (Inr d3)
      with passes \<open>upb_MtDecoder_ParseMessage alloc ?d ?s = Inr r\<close> r d(2) show ?thesis
        by (auto simp: build build_refused_def)
    qed
  qed
qed

text \<open>The field of a table that a definition describes.\<close>

definition field_described :: "upb_MiniTable \<Rightarrow> upb_FieldDef \<Rightarrow> bool" where
  "field_described t f \<longleftrightarrow>
     fd_layout_index f < length (mt_fields t) \<and>
     (let g = mt_fields t ! fd_layout_index f in
      mtf_number g = fd_number f \<and> upb_MiniTableField_Type g = fd_type f \<and>
      upb_MiniTableField_IsArray g = upb_FieldDef_IsRepeated f \<and> upb_MiniTableField_IsScalar g = (\<not> upb_FieldDef_IsRepeated f) \<and>
      upb_MiniTableField_IsPacked g = upb_FieldDef_IsPacked f \<and>
      upb_MiniTableField_IsClosedEnum g = upb_FieldDef_IsClosedEnum f \<and> \<not> upb_MiniTableField_IsExtension g \<and>
      (fd_type f = kUpb_FieldType_String \<longrightarrow> (mtf_descriptortype g = kUpb_FieldType_String) = upb_FieldDef_ValidateUtf8 f))"

lemma stored_type_cases:
  "upb_FieldDef_IsClosedEnum f \<longleftrightarrow> stored_type utf8 f = kUpb_FieldType_Enum"
  unfolding stored_type_def using closed_enum_type [of f] by auto

lemma core_described:
  assumes "field_core g = core_of p f"
  shows "mtf_number g = fd_number f" "upb_MiniTableField_Type g = fd_type f"
    "upb_MiniTableField_IsArray g = upb_FieldDef_IsRepeated f" "upb_MiniTableField_IsScalar g = (\<not> upb_FieldDef_IsRepeated f)"
    "upb_MiniTableField_IsPacked g = upb_FieldDef_IsPacked f" "upb_MiniTableField_IsClosedEnum g = upb_FieldDef_IsClosedEnum f"
    "\<not> upb_MiniTableField_IsExtension g"
    "fd_type f = kUpb_FieldType_String \<Longrightarrow> (mtf_descriptortype g = kUpb_FieldType_String) = upb_FieldDef_ValidateUtf8 f"
proof -
  let ?utf8 = "upb_FieldDef_ValidateUtf8 f"
  have g: "mtf_number g = fd_number f" "mtf_descriptortype g = stored_type ?utf8 f"
    "mtf_mode g = mode_of (base_mode p f) (upb_FieldDef_IsPacked f) (is_alternate ?utf8 f)"
    using assms by (simp_all add: field_core_def core_of_def)
  show "mtf_number g = fd_number f" by (rule g(1))
  show "upb_MiniTableField_Type g = fd_type f"
    by (auto simp: upb_MiniTableField_Type_def upb_MiniTableField_IsAlternate_def g base_mode_bits stored_type_def is_alternate_def Let_def)
  show "upb_MiniTableField_IsArray g = upb_FieldDef_IsRepeated f" "upb_MiniTableField_IsScalar g = (\<not> upb_FieldDef_IsRepeated f)"
    by (simp_all add: upb_MiniTableField_IsArray_def upb_MiniTableField_IsScalar_def upb_MiniTableField_Mode_def g base_mode_bits)
  show "upb_MiniTableField_IsPacked g = upb_FieldDef_IsPacked f" "\<not> upb_MiniTableField_IsExtension g"
    by (simp_all add: upb_MiniTableField_IsPacked_def upb_MiniTableField_IsExtension_def g base_mode_bits)
  show "upb_MiniTableField_IsClosedEnum g = upb_FieldDef_IsClosedEnum f"
    using stored_type_cases [of f ?utf8] by (simp add: upb_MiniTableField_IsClosedEnum_def g)
  show "(mtf_descriptortype g = kUpb_FieldType_String) = ?utf8" if "fd_type f = kUpb_FieldType_String"
    using that by (simp add: g stored_type_def)
qed

lemma table_described:
  assumes "table_of p m' fs t" and "layout_order (mdef_fields m') fs" and "f \<in> set (mdef_fields m')"
  shows "field_described t f" "field_core (mt_fields t ! fd_layout_index f) = core_of p f"
proof -
  note pos = layout_order_nth [OF assms(2,3)]
  have core: "map field_core (mt_fields t) = map (core_of p) fs" using assms(1) by (simp add: table_of_def)
  then have len: "length (mt_fields t) = length fs" by (rule map_eq_imp_length_eq)
  show c: "field_core (mt_fields t ! fd_layout_index f) = core_of p f"
    using arg_cong [OF core, of "\<lambda>xs. xs ! fd_layout_index f"] pos len by simp
  show "field_described t f"
    unfolding field_described_def Let_def using core_described [OF c] pos len by simp
qed

lemma laid_required:
  assumes "messagedef_ok m" and "laid m m' fs"
  shows "required_fields fs = required_fields (mdef_fields m)"
proof -
  let ?P = "\<lambda>f. \<not> upb_FieldDef_IsRepeated f \<and> upb_FieldDef_IsRequired f"
  note len = laid_length [OF assms(2)]
  have order: "set fs = set (mdef_fields m')" "sorted_wrt (<) (map fd_number fs)"
    using assms(2) by (auto simp: laid_def layout_order_def)
  have nums: "map fd_number (mdef_fields m') = map fd_number (mdef_fields m)"
  proof (rule nth_equalityI)
    fix i assume "i < length (map fd_number (mdef_fields m'))"
    then have i: "i < length (mdef_fields m)" using len by simp
    from laid_field [OF assms(2) i] len i show "map fd_number (mdef_fields m') ! i = map fd_number (mdef_fields m) ! i"
      by (metis length_map nth_map upb_FieldDef.select_convs(2) upb_FieldDef.surjective upb_FieldDef.update_convs(10))
  qed (use len in simp)
  have "distinct (map fd_number fs)" using order(2) by (simp add: strict_sorted_iff)
  then have d1: "distinct fs" by (simp add: distinct_map)
  have "distinct (map fd_number (mdef_fields m'))" unfolding nums using assms(1) by (simp add: messagedef_ok_def)
  then have d2: "distinct (mdef_fields m')" by (simp add: distinct_map)
  have "required_fields fs = required_fields (mdef_fields m')"
    unfolding required_fields_def distinct_length_filter [OF d1] distinct_length_filter [OF d2] order(1) ..
  also have "\<dots> = required_fields (mdef_fields m)"
    unfolding required_fields_def
  proof (rule length_filter_nth_cong)
    fix i assume "i < length (mdef_fields m')"
    then have i: "i < length (mdef_fields m)" using len by simp
    obtain k where "mdef_fields m' ! i = (mdef_fields m ! i)\<lparr>fd_layout_index := k\<rparr>" using laid_field [OF assms(2) i] by blast
    then show "?P (mdef_fields m' ! i) = ?P (mdef_fields m ! i)" by simp
  qed (use len in simp)
  finally show ?thesis .
qed

lemma MakeMiniTable_text:
  assumes ok: "messagedef_ok m" and small: "length (mdef_fields m) \<le> 3800"
  shows "case upb_MessageDef_MakeMiniTable alloc p cap m of
      Inl e \<Rightarrow> build_refused alloc (mdef_fields m) (length (mdef_oneofs m)) e
    | Inr (t, m') \<Rightarrow> \<exists>fs. laid m m' fs \<and> table_of p m' fs t"
proof (cases "upb_MessageDef_MiniDescriptorEncode alloc m")
  case (Inl e)
  with MiniDescriptorEncode_text [OF ok, of alloc] show ?thesis
    by (simp add: upb_MessageDef_MakeMiniTable_def build_refused_def)
next
  case (Inr r)
  obtain s m' where r: "r = (s, m')" by (cases r)
  with Inr MiniDescriptorEncode_text [OF ok, of alloc] obtain fs where fs: "laid m m' fs" "s = message_text m' fs" by auto
  with BuildWithBuf_text [OF ok fs(1) small, of alloc p cap] Inr r laid_required [OF ok fs(1)] laid_length [OF fs(1)] show ?thesis
    by (auto simp: upb_MessageDef_MakeMiniTable_def build_refused_def split: sum.splits)
qed

text \<open>The field of the table for the field \<open>i\<close> of the definition, and the presence that the layout gives it.\<close>

definition laid_field_of :: "upb_MiniTable \<Rightarrow> upb_MessageDef \<Rightarrow> nat \<Rightarrow> upb_MiniTableField" where
  "laid_field_of t m i = mt_fields t ! fd_layout_index (mdef_fields m ! i)"

lemma presence_agrees:
  assumes "fielddef_ok f"
  shows "presence_class f = kNoPresence \<longleftrightarrow> \<not> fd_has_presence f"
  using assms by (auto simp: fielddef_ok_def presence_class_def)

lemma table_presence:
  assumes ok: "messagedef_ok m" and laid: "laid m m' fs" and t: "table_of p m' fs t"
    and size: "0 < mt_size t" "mt_size t \<le> 32768" and f: "f \<in> set (mdef_fields m')"
  shows "fd_has_presence f \<longleftrightarrow> mtf_presence (mt_fields t ! fd_layout_index f) \<noteq> 0"
proof -
  let ?j = "fd_layout_index f"
  have order: "layout_order (mdef_fields m') fs" using laid by (simp add: laid_def)
  note pos = layout_order_nth [OF order f]
  have "f \<in> set fs" using pos nth_mem by metis
  then have fok: "fielddef_ok f" by (rule laid_ok(1) [OF ok laid])
  have pres: "if ?j \<in> set (concat (layout_oneofs m')) then mtf_presence (mt_fields t ! ?j) < 0
      else if presence_class f = kNoPresence then mtf_presence (mt_fields t ! ?j) = 0 else 0 < mtf_presence (mt_fields t ! ?j)"
    using t size pos unfolding table_of_def presence_laid_def by metis
  show ?thesis
  proof (cases "?j \<in> set (concat (layout_oneofs m'))")
    case True
    then have "presence_class (fs ! ?j) = kHasbitPresence"
      using laid_layout_oneofs(1) [OF ok laid] by (simp only: oneofs_of_def list_all_iff)
    then show ?thesis using pres True presence_agrees [OF fok] pos(2) by simp
  next
    case False
    with pres presence_agrees [OF fok] show ?thesis by (simp split: if_splits)
  qed
qed

lemma table_oneofs:
  assumes ok: "messagedef_ok m" and laid: "laid m m' fs" and t: "table_of p m' fs t"
    and size: "0 < mt_size t" "mt_size t \<le> 32768"
    and ns: "ns \<in> set (mdef_oneofs m)" "ns' \<in> set (mdef_oneofs m)" and ij: "i \<in> set ns" "j \<in> set ns'"
  shows "upb_MiniTableField_IsInOneof (laid_field_of t m' i)"
    "mtf_presence (laid_field_of t m' i) = mtf_presence (laid_field_of t m' j) \<longleftrightarrow> ns = ns'"
proof -
  let ?pos = "\<lambda>i. fd_layout_index (mdef_fields m' ! i)"
  note eq = laid_oneofs [OF laid] and oneofs = laid_layout_oneofs [OF ok laid]
  have jss: "map ?pos ns \<in> set (layout_oneofs m')" "map ?pos ns' \<in> set (layout_oneofs m')"
    using ns eq by (auto simp: layout_oneofs_def)
  have mem: "?pos i \<in> set (concat (layout_oneofs m'))"
    unfolding set_concat by (rule UN_I [OF jss(1)]) (use ij(1) in simp)
  then have "?pos i < length fs" using oneofs(1) by (simp only: oneofs_of_def list_all_iff)
  with t size mem show "upb_MiniTableField_IsInOneof (laid_field_of t m' i)"
    unfolding table_of_def presence_laid_def upb_MiniTableField_IsInOneof_def laid_field_of_def by metis
  have shared: "\<forall>js\<in>set (layout_oneofs m'). \<forall>js'\<in>set (layout_oneofs m'). \<forall>i\<in>set js. \<forall>j\<in>set js'.
      mtf_presence (mt_fields t ! i) = mtf_presence (mt_fields t ! j) \<longleftrightarrow> js = js'"
    using t size unfolding table_of_def presence_laid_def by blast
  have sub: "set ns \<subseteq> set (concat (mdef_oneofs m'))" "set ns' \<subseteq> set (concat (mdef_oneofs m'))" using ns eq by auto
  have "mtf_presence (laid_field_of t m' i) = mtf_presence (laid_field_of t m' j) \<longleftrightarrow> map ?pos ns = map ?pos ns'"
    unfolding laid_field_of_def
    by (rule shared [THEN bspec, OF jss(1), THEN bspec, OF jss(2), THEN bspec, THEN bspec]) (use ij in simp_all)
  also have "\<dots> \<longleftrightarrow> ns = ns'"
    by (rule inj_on_map_eq_map [OF inj_on_subset [OF oneofs(3)]]) (use sub in blast)
  finally show "mtf_presence (laid_field_of t m' i) = mtf_presence (laid_field_of t m' j) \<longleftrightarrow> ns = ns'" .
qed

section \<open>Properties\<close>

text \<open>
  The modifier of the whole message is lost with the first field that is not a string: such a field does not
  validate UTF-8, so that the text marks the strings of a mixed message one by one.
\<close>

lemma ValidateUtf8_only_strings:
  "upb_MessageDef_ValidateUtf8 m \<Longrightarrow> f \<in> set (mdef_fields m) \<Longrightarrow> fd_type f = kUpb_FieldType_String"
  unfolding upb_MessageDef_ValidateUtf8_def
  by (drule ValidateUtf8_loop_all) (auto simp: list_all_iff upb_FieldDef_ValidateUtf8_def split: if_splits)

text \<open>A small message: a oneof of a validated string and an open enum, a packed repeated field and a required one, not in order.\<close>

definition sample_field :: "u32 \<Rightarrow> upb_FieldType \<Rightarrow> upb_FieldDef" where
  "sample_field number type = \<lparr>fd_type = type, fd_number = number, fd_label = kUpb_Label_Optional, fd_has_presence = True,
     fd_packed = False, fd_legacy_required = False, fd_utf8_verify = True, fd_enum_closed = False, fd_is_extension = False,
     fd_layout_index = 0\<rparr>"

definition sample_message :: upb_MessageDef where
  "sample_message = \<lparr>mdef_fields = [sample_field 9 kUpb_FieldType_String, sample_field 1 kUpb_FieldType_Enum,
       (sample_field 3 kUpb_FieldType_SInt64)\<lparr>fd_label := kUpb_Label_Repeated, fd_has_presence := False, fd_packed := True\<rparr>,
       (sample_field 2 kUpb_FieldType_Double)\<lparr>fd_label := kUpb_Label_Required, fd_legacy_required := True\<rparr>],
     mdef_oneofs = [[0, 1]], mdef_ext_range_count = 1, mdef_is_sorted = False, mdef_map_entry = False, mdef_message_set_wire_format = False\<rparr>"

lemma sample_ok: "messagedef_ok sample_message" "length (mdef_fields sample_message) \<le> 3800"
  by (simp_all add: sample_message_def sample_field_def messagedef_ok_def fielddef_ok_def upb_FieldDef_IsRepeated_def
      upb_FieldDef_IsRequired_def upb_FieldDef_IsSubMessage_def upb_FieldDef_CType_def kUpb_MaxFieldNumber_def)

lemma sample_required: "required_fields (mdef_fields sample_message) = 1"
  by (simp add: sample_message_def sample_field_def required_fields_def upb_FieldDef_IsRepeated_def upb_FieldDef_IsRequired_def)

lemma sample_made:
  "\<exists>t m'. upb_MessageDef_MakeMiniTable (\<lambda>_. True) kUpb_MiniTablePlatform_64Bit 4 sample_message = Inr (t, m')"
  using MakeMiniTable_text [OF sample_ok, of "\<lambda>_. True" kUpb_MiniTablePlatform_64Bit 4] sample_required
  by (auto simp: build_refused_def sample_message_def split: sum.splits)



text \<open>
  C6: up to 2000 fields and oneofs, the assertions that \<open>_upb_MessageDef_LinkMiniTable\<close> ends with hold of the table
  and the definition it was made from: type, C type and presence agree. The members of a oneof share its
  case, and no two oneofs share one.
\<close>

theorem LinkMiniTable_asserts_hold:
  assumes "messagedef_ok m" and "length (mdef_fields m) + length (mdef_oneofs m) \<le> 2000"
    and "upb_MessageDef_MakeMiniTable alloc p cap m = Inr (t, m')"
  shows "LinkMiniTable_asserts t m' \<and>
    (\<forall>ns\<in>set (mdef_oneofs m). \<forall>ns'\<in>set (mdef_oneofs m). \<forall>i\<in>set ns. \<forall>j\<in>set ns'.
       upb_MiniTableField_IsInOneof (laid_field_of t m' i) \<and>
       (mtf_presence (laid_field_of t m' i) = mtf_presence (laid_field_of t m' j) \<longleftrightarrow> ns = ns'))"
proof -
  from MakeMiniTable_text [OF assms(1), of alloc p cap] assms obtain fs where laid: "laid m m' fs" and t: "table_of p m' fs t"
    by auto
  have order: "layout_order (mdef_fields m') fs" using laid by (simp add: laid_def)
  have size: "0 < mt_size t" "mt_size t \<le> 32768"
    using t assms(2) laid_length [OF laid] laid_oneofs [OF laid] by (auto simp: table_of_def)
  have "LinkMiniTable_field_agrees t f" if f: "f \<in> set (mdef_fields m')" for f
    using table_described(1) [OF t order f] table_presence [OF assms(1) laid t size f]
    by (simp add: LinkMiniTable_field_agrees_def field_described_def Let_def upb_FieldDef_CType_def
        upb_MiniTableField_CType_def upb_MiniTableField_HasPresence_def)
  then show ?thesis
    using table_oneofs [OF assms(1) laid t size] by (auto simp: LinkMiniTable_asserts_def list_all_iff)
qed

theorem LinkMiniTable_asserts_hold_witness:
  "\<exists>t m'. upb_MessageDef_MakeMiniTable (\<lambda>_. True) kUpb_MiniTablePlatform_64Bit 4 sample_message = Inr (t, m') \<and>
     LinkMiniTable_asserts t m' \<and> mtf_presence (laid_field_of t m' 0) = mtf_presence (laid_field_of t m' 1)"
proof -
  obtain t m' where made: "upb_MessageDef_MakeMiniTable (\<lambda>_. True) kUpb_MiniTablePlatform_64Bit 4 sample_message = Inr (t, m')"
    using sample_made by blast
  have few: "length (mdef_fields sample_message) + length (mdef_oneofs sample_message) \<le> 2000"
    and oneof: "[0, 1] \<in> set (mdef_oneofs sample_message)"
    by (simp_all add: sample_message_def)
  note agree = LinkMiniTable_asserts_hold [OF sample_ok(1) few made]
  have "mtf_presence (laid_field_of t m' 0) = mtf_presence (laid_field_of t m' 1)"
    by (rule agree [THEN conjunct2, THEN bspec, OF oneof, THEN bspec, OF oneof, THEN bspec, THEN bspec,
        THEN conjunct2, THEN iffD2]) simp_all
  with made agree [THEN conjunct1] show ?thesis by (intro exI conjI)
qed

end
