(* ===== verification/Hash_Table.thy ===== *)
theory Hash_Table
  imports Arena Base92
begin

text \<open>
  The base table of \<open>upb/hash/common.c\<close>: chained scatter with Brent's variation. The entries lie in
  one array; an entry that hashes to a bucket is in the chain that starts there. The theory models
  the operations on the array, with pointers to entries as indices, and shows that they refine a
  finite map.
\<close>

section \<open>Tables\<close>

type_synonym upb_value = u64

text \<open>
  An entry. A key is an integer or the bytes of a size-prefixed string; the empty key, all bits
  zero, is \<open>None\<close>.
\<close>

record 'k upb_tabent =
  ent_val :: upb_value
  ent_key :: "'k option"
  ent_next :: "nat option"

record 'k upb_table =
  tab_entries :: "'k upb_tabent list"
  tab_count :: u32
  tab_mask :: u32

type_synonym 'k hashfunc = "'k option \<Rightarrow> u32"
type_synonym 'k eqlfunc = "'k option \<Rightarrow> 'k \<Rightarrow> bool"

definition zero_entry :: "'k upb_tabent" where
  "zero_entry = \<lparr>ent_val = 0, ent_key = None, ent_next = None\<rparr>"

definition upb_table_size :: "'k upb_table \<Rightarrow> u32" where
  "upb_table_size t = tab_mask t + 1"

definition upb_tabent_isempty :: "'k upb_tabent \<Rightarrow> bool" where
  "upb_tabent_isempty e \<longleftrightarrow> ent_key e = None"

function upb_popcnt32 :: "u32 \<Rightarrow> nat" where
  "upb_popcnt32 i = (if i = 0 then 0 else unat (i AND 1) + upb_popcnt32 (drop_bit 1 i))"
  by pat_completeness auto
termination
  by (relation "measure unat") (simp_all del: drop_bit_eq_div add: unat_drop_bit_less)

declare upb_popcnt32.simps [simp del]

definition upb_log2_table_size :: "'k upb_table \<Rightarrow> nat" where
  "upb_log2_table_size t = upb_popcnt32 (tab_mask t)"

definition upb_getentry :: "'k upb_table \<Rightarrow> u32 \<Rightarrow> nat" where
  "upb_getentry t hash = unat (hash AND tab_mask t)"

definition isfull :: "'k upb_table \<Rightarrow> bool" where
  "isfull t \<longleftrightarrow> (let size = upb_table_size t in tab_count t = size - drop_bit 3 size)"

definition sizeof_upb_tabent :: nat where
  "sizeof_upb_tabent = 24"

text \<open>\<open>init\<close>: the table when it returns true, and the arena.\<close>

definition table_init :: "nat \<Rightarrow> upb_Arena \<Rightarrow> 'k upb_table option \<times> upb_Arena" where
  "table_init size_lg2 a =
     (if size_lg2 \<ge> 32 then (None, a)
      else
        let t = \<lparr>tab_entries = [], tab_count = 0, tab_mask = push_bit size_lg2 1 - 1\<rparr>;
            n = unat (upb_table_size t);
            bytes = n * sizeof_upb_tabent
        in if n > (2 ^ 64 - 1) div sizeof_upb_tabent then (None, a)
           else if bytes > 0 then
             (case upb_Arena_Malloc a bytes of
                (None, a) \<Rightarrow> (None, a)
              | (Some _, a) \<Rightarrow> (Some (t\<lparr>tab_entries := replicate n zero_entry\<rparr>), a))
           else (Some t, a))"

definition emptyent :: "'k upb_table \<Rightarrow> nat \<Rightarrow> nat option" where
  "emptyent t e =
     find (\<lambda>i. upb_tabent_isempty (tab_entries t ! i))
       ([Suc e..<unat (upb_table_size t)] @ [0..<unat (upb_table_size t)])"

text \<open>
  Following a chain. The outer \<open>None\<close> is a chain longer than the table, on which the loop of the
  code would not end.
\<close>

fun findentry_loop :: "nat \<Rightarrow> 'k upb_tabent list \<Rightarrow> 'k eqlfunc \<Rightarrow> 'k \<Rightarrow> nat \<Rightarrow> nat option option" where
  "findentry_loop 0 es eql key e = None"
| "findentry_loop (Suc n) es eql key e =
     (if eql (ent_key (es ! e)) key then Some (Some e)
      else
        (case ent_next (es ! e) of
           None \<Rightarrow> Some None
         | Some e \<Rightarrow> findentry_loop n es eql key e))"

definition findentry :: "'k upb_table \<Rightarrow> 'k \<Rightarrow> u32 \<Rightarrow> 'k eqlfunc \<Rightarrow> nat option option" where
  "findentry t key hash eql =
     (if tab_count t = 0 then Some None
      else
        let e = upb_getentry t hash in
        if upb_tabent_isempty (tab_entries t ! e) then Some None
        else findentry_loop (length (tab_entries t)) (tab_entries t) eql key e)"

definition table_lookup :: "'k upb_table \<Rightarrow> 'k \<Rightarrow> u32 \<Rightarrow> 'k eqlfunc \<Rightarrow> upb_value option option" where
  "table_lookup t key hash eql =
     map_option (map_option (\<lambda>e. ent_val (tab_entries t ! e))) (findentry t key hash eql)"

text \<open>\<open>while (chain->next != mainpos_e)\<close>; \<open>None\<close> when the chain ends or does not.\<close>

fun evict_loop :: "nat \<Rightarrow> 'k upb_tabent list \<Rightarrow> nat \<Rightarrow> nat \<Rightarrow> nat option" where
  "evict_loop 0 es mainpos chain = None"
| "evict_loop (Suc n) es mainpos chain =
     (if ent_next (es ! chain) = Some mainpos then Some chain
      else
        (case ent_next (es ! chain) of
           None \<Rightarrow> None
         | Some chain \<Rightarrow> evict_loop n es mainpos chain))"

text \<open>
  \<open>insert\<close>; \<open>None\<close> where an assertion fails: no empty entry, or a broken chain. The assertions about the key
  before and after are the lemma \<open>table_insert_asserts\<close>.
\<close>

definition table_insert ::
  "'k upb_table \<Rightarrow> 'k option \<Rightarrow> upb_value \<Rightarrow> u32 \<Rightarrow> 'k hashfunc \<Rightarrow> 'k upb_table option" where
  "table_insert t tabkey val hash hashfunc =
     (let t = t\<lparr>tab_count := tab_count t + 1\<rparr>;
          mainpos = upb_getentry t hash;
          es = tab_entries t
      in if upb_tabent_isempty (es ! mainpos) then
           Some (t\<lparr>tab_entries := es[mainpos := \<lparr>ent_val = val, ent_key = tabkey, ent_next = None\<rparr>]\<rparr>)
         else
           (case emptyent t mainpos of
              None \<Rightarrow> None
            | Some new_e \<Rightarrow>
                let chain = upb_getentry t (hashfunc (ent_key (es ! mainpos))) in
                if chain = mainpos then
                  let es = es[new_e := (es ! new_e)\<lparr>ent_next := ent_next (es ! mainpos)\<rparr>];
                      es = es[mainpos := (es ! mainpos)\<lparr>ent_next := Some new_e\<rparr>]
                  in Some (t\<lparr>tab_entries := es[new_e := (es ! new_e)\<lparr>ent_key := tabkey, ent_val := val\<rparr>]\<rparr>)
                else
                  let es = es[new_e := es ! mainpos] in
                  (case evict_loop (length es) es mainpos chain of
                     None \<Rightarrow> None
                   | Some chain \<Rightarrow>
                       let es = es[chain := (es ! chain)\<lparr>ent_next := Some new_e\<rparr>]
                       in Some (t\<lparr>tab_entries :=
                            es[mainpos := \<lparr>ent_val = val, ent_key = tabkey, ent_next = None\<rparr>]\<rparr>))))"

text \<open>\<open>while (chain->next && !eql(chain->next->key, key))\<close>\<close>

fun rm_loop :: "nat \<Rightarrow> 'k upb_tabent list \<Rightarrow> 'k eqlfunc \<Rightarrow> 'k \<Rightarrow> nat \<Rightarrow> nat option" where
  "rm_loop 0 es eql key chain = None"
| "rm_loop (Suc n) es eql key chain =
     (case ent_next (es ! chain) of
        None \<Rightarrow> Some chain
      | Some e \<Rightarrow> if eql (ent_key (es ! e)) key then Some chain else rm_loop n es eql key e)"

text \<open>\<open>rm\<close>: the removed value, if there was one, and the table.\<close>

definition table_rm ::
  "'k upb_table \<Rightarrow> 'k \<Rightarrow> u32 \<Rightarrow> 'k eqlfunc \<Rightarrow> (upb_value option \<times> 'k upb_table) option" where
  "table_rm t key hash eql =
     (let chain = upb_getentry t hash; es = tab_entries t in
      if upb_tabent_isempty (es ! chain) then Some (None, t)
      else if eql (ent_key (es ! chain)) key then
        let t = t\<lparr>tab_count := tab_count t - 1\<rparr>; val = ent_val (es ! chain) in
        (case ent_next (es ! chain) of
           Some move \<Rightarrow>
             let es = es[chain := es ! move]
             in Some (Some val, t\<lparr>tab_entries := es[move := (es ! move)\<lparr>ent_key := None\<rparr>]\<rparr>)
         | None \<Rightarrow>
             Some (Some val, t\<lparr>tab_entries := es[chain := (es ! chain)\<lparr>ent_key := None\<rparr>]\<rparr>))
      else
        (case rm_loop (length es) es eql key chain of
           None \<Rightarrow> None
         | Some chain \<Rightarrow>
             (case ent_next (es ! chain) of
                None \<Rightarrow> Some (None, t)
              | Some r \<Rightarrow>
                  let val = ent_val (es ! r);
                      es = es[r := (es ! r)\<lparr>ent_key := None\<rparr>]
                  in Some (Some val, t\<lparr>tab_count := tab_count t - 1,
                       tab_entries := es[chain := (es ! chain)\<lparr>ent_next := ent_next (es ! r)\<rparr>]\<rparr>))))"

lemma unat_Suc_below: "(x :: u64) < ucast (w :: u32) \<Longrightarrow> unat (x + 1) = Suc (unat x)"
proof -
  assume "x < ucast w"
  then have "unat x < unat w" by (simp add: word_less_nat_alt unat_ucast_u32)
  then have "unat x + unat (1 :: u64) < 2 ^ LENGTH(64)"
    using unsigned_less [where ?'a = nat and w = w] by simp
  then show ?thesis using unat_add_lem [of x 1] by simp
qed

text \<open>\<open>next\<close> and \<open>begin\<close>, on \<open>size_t\<close>: \<open>-1\<close> starts, \<open>SIZE_MAX - 1\<close> is the end.\<close>

function table_next :: "'k upb_table \<Rightarrow> u64 \<Rightarrow> u64" where
  "table_next t i =
     (let i = i + 1 in
      if i \<ge> ucast (upb_table_size t) then - 2
      else if upb_tabent_isempty (tab_entries t ! unat i) then table_next t i else i)"
  by pat_completeness auto
termination
proof (relation "measure (\<lambda>(t, i). unat (upb_table_size t) - unat (i + 1))")
  fix t :: "'k upb_table" and i x :: u64
  assume x: "x = i + 1" "\<not> x \<ge> ucast (upb_table_size t)"
  then have lt: "x < ucast (upb_table_size t)" by simp
  then have "unat x < unat (upb_table_size t)" by (simp add: word_less_nat_alt unat_ucast_u32)
  moreover note unat_Suc_below [OF lt]
  ultimately show "((t, x), (t, i)) \<in> measure (\<lambda>(t, i). unat (upb_table_size t) - unat (i + 1))"
    using x(1) by simp
qed simp

declare table_next.simps [simp del]

definition table_begin :: "'k upb_table \<Rightarrow> u64" where
  "table_begin t = table_next t (- 1)"

section \<open>Chains\<close>

text \<open>
  The structure behind a table, apart from its representation: \<open>kv\<close> gives the key and value at an
  index, \<open>nxt\<close> the index after it. The entries of a bucket, and only they, are linked from its head.
\<close>

fun linked_to :: "(nat \<Rightarrow> nat option) \<Rightarrow> nat list \<Rightarrow> nat option \<Rightarrow> bool" where
  "linked_to nxt [] e = True"
| "linked_to nxt (i # c) e = (nxt i = (case c of [] \<Rightarrow> e | j # _ \<Rightarrow> Some j) \<and> linked_to nxt c e)"

lemma linked_to_append:
  "linked_to nxt (xs @ ys) e \<longleftrightarrow> linked_to nxt xs (if ys = [] then e else Some (hd ys)) \<and> linked_to nxt ys e"
  by (induction xs) (auto split: list.split)

lemma linked_to_upd: "m \<notin> set c \<Longrightarrow> linked_to (nxt(m := x)) c e = linked_to nxt c e"
  by (induction c) auto

lemma linked_to_cong: "(\<And>i. i \<in> set c \<Longrightarrow> nxt' i = nxt i) \<Longrightarrow> linked_to nxt' c e = linked_to nxt c e"
  by (induction c) auto

definition bucket :: "('k \<Rightarrow> nat) \<Rightarrow> (nat \<Rightarrow> ('k \<times> 'v) option) \<Rightarrow> nat \<Rightarrow> nat set" where
  "bucket pos kv p = {i. \<exists>k v. kv i = Some (k, v) \<and> pos k = p}"

definition chain :: "('k \<Rightarrow> nat) \<Rightarrow> (nat \<Rightarrow> ('k \<times> 'v) option) \<Rightarrow> (nat \<Rightarrow> nat option) \<Rightarrow> nat \<Rightarrow> nat list \<Rightarrow> bool" where
  "chain pos kv nxt p c \<longleftrightarrow> linked_to nxt c None \<and> distinct c \<and> set c = bucket pos kv p \<and> (c = [] \<or> hd c = p)"

definition scatter :: "('k \<Rightarrow> nat) \<Rightarrow> nat \<Rightarrow> (nat \<Rightarrow> ('k \<times> 'v) option) \<Rightarrow> (nat \<Rightarrow> nat option) \<Rightarrow> bool" where
  "scatter pos n kv nxt \<longleftrightarrow> dom kv \<subseteq> {..<n} \<and> (\<forall>k. pos k < n) \<and>
     (\<forall>i j k v w. kv i = Some (k, v) \<longrightarrow> kv j = Some (k, w) \<longrightarrow> i = j) \<and> (\<forall>p. \<exists>c. chain pos kv nxt p c)"

lemma scatterI:
  "dom kv \<subseteq> {..<n} \<Longrightarrow> (\<And>k. pos k < n) \<Longrightarrow>
    (\<And>i j k v w. kv i = Some (k, v) \<Longrightarrow> kv j = Some (k, w) \<Longrightarrow> i = j) \<Longrightarrow>
    (\<And>p. \<exists>c. chain pos kv nxt p c) \<Longrightarrow> scatter pos n kv nxt"
  unfolding scatter_def by blast

lemma scatter_dom: "scatter pos n kv nxt \<Longrightarrow> dom kv \<subseteq> {..<n}" "scatter pos n kv nxt \<Longrightarrow> pos k < n"
  by (simp_all add: scatter_def)

lemma scatter_chain: "scatter pos n kv nxt \<Longrightarrow> \<exists>c. chain pos kv nxt p c"
  by (simp add: scatter_def)

lemma scatter_unique: "scatter pos n kv nxt \<Longrightarrow> kv i = Some (k, v) \<Longrightarrow> kv j = Some (k, w) \<Longrightarrow> i = j"
  unfolding scatter_def by blast

lemma chain_length:
  assumes "scatter pos n kv nxt" and "chain pos kv nxt p c"
  shows "length c \<le> n"
proof -
  have "set c \<subseteq> {..<n}" using assms by (auto simp: scatter_def chain_def bucket_def)
  then have "card (set c) \<le> n" using card_mono [of "{..<n}" "set c"] by simp
  moreover have "distinct c" using assms(2) by (simp add: chain_def)
  ultimately show ?thesis by (simp only: distinct_card)
qed

text \<open>The head of a bucket that holds a key is an entry of that bucket.\<close>

lemma chain_head_foreign:
  assumes "chain pos kv nxt p c" and "kv p = None \<or> (\<exists>k v. kv p = Some (k, v) \<and> pos k \<noteq> p)"
  shows "c = []"
proof (rule ccontr)
  assume "c \<noteq> []"
  with assms(1) have "p \<in> set c" by (metis chain_def hd_in_set)
  then have "p \<in> bucket pos kv p" using assms(1) by (simp add: chain_def)
  with assms(2) show False by (auto simp: bucket_def)
qed

lemma chain_other:
  assumes "chain pos kv nxt p c" and "bucket pos kv' p = bucket pos kv p" and "\<And>i. i \<in> bucket pos kv p \<Longrightarrow> nxt' i = nxt i"
  shows "chain pos kv' nxt' p c"
proof -
  have "linked_to nxt' c None = linked_to nxt c None"
    by (rule linked_to_cong, rule assms(3)) (use assms(1) in \<open>simp add: chain_def\<close>)
  with assms show ?thesis by (simp add: chain_def)
qed

text \<open>A new entry at the empty head of its bucket.\<close>

lemma scatter_insert_head:
  assumes s: "scatter pos n kv nxt" and k: "\<And>i v. kv i \<noteq> Some (k, v)" and m: "pos k = m" "kv m = None"
  shows "scatter pos n (kv(m \<mapsto> (k, v))) (nxt(m := None))"
proof -
  have "\<exists>c. chain pos (kv(m \<mapsto> (k, v))) (nxt(m := None)) p c" for p
  proof (cases "p = m")
    case True
    from scatter_chain [OF s] obtain c where "chain pos kv nxt m c" by blast
    with chain_head_foreign [OF this] m(2) have "bucket pos kv m = {}" by (auto simp: chain_def)
    with m have "bucket pos (kv(m \<mapsto> (k, v))) m = {m}" by (auto simp: bucket_def)
    then have "chain pos (kv(m \<mapsto> (k, v))) (nxt(m := None)) m [m]" by (simp add: chain_def)
    with True show ?thesis by blast
  next
    case False
    from scatter_chain [OF s] obtain c where c: "chain pos kv nxt p c" by blast
    have "bucket pos (kv(m \<mapsto> (k, v))) p = bucket pos kv p" using False m by (auto simp: bucket_def)
    moreover have "m \<notin> bucket pos kv p" using m by (simp add: bucket_def)
    ultimately show ?thesis using chain_other [OF c] by (metis fun_upd_apply)
  qed
  moreover have "m < n" using s m(1) by (auto simp: scatter_def)
  ultimately show ?thesis using s k unfolding scatter_def by (auto split: if_splits)
qed

text \<open>A new entry behind the head of its bucket.\<close>

lemma scatter_insert_behind:
  assumes s: "scatter pos n kv nxt" and k: "\<And>i v. kv i \<noteq> Some (k, v)"
    and m: "pos k = m" "kv m = Some (k0, v0)" "pos k0 = m" and e: "e < n" "kv e = None"
  shows "scatter pos n (kv(e \<mapsto> (k, v))) (nxt(e := nxt m, m := Some e))"
proof -
  have em: "e \<noteq> m" using m e by auto
  have "\<exists>c. chain pos (kv(e \<mapsto> (k, v))) (nxt(e := nxt m, m := Some e)) p c" for p
  proof (cases "p = m")
    case True
    from scatter_chain [OF s] obtain c where c: "chain pos kv nxt m c" by blast
    have "m \<in> set c" using c m by (auto simp: chain_def bucket_def)
    with c obtain cs where cs: "c = m # cs" by (cases c) (auto simp: chain_def)
    have "e \<notin> bucket pos kv m" using e by (simp add: bucket_def)
    then have e': "e \<notin> set cs" "m \<notin> set cs" using c cs by (auto simp: chain_def)
    have "bucket pos (kv(e \<mapsto> (k, v))) m = insert e (bucket pos kv m)" using m e by (auto simp: bucket_def)
    then have "chain pos (kv(e \<mapsto> (k, v))) (nxt(e := nxt m, m := Some e)) m (m # e # cs)"
      using c cs e' em linked_to_upd [of m cs "nxt(e := nxt m)" "Some e" None] linked_to_upd [of e cs nxt "nxt m" None]
      by (auto simp: chain_def fun_upd_twist)
    with True show ?thesis by blast
  next
    case False
    from scatter_chain [OF s] obtain c where c: "chain pos kv nxt p c" by blast
    have "bucket pos (kv(e \<mapsto> (k, v))) p = bucket pos kv p" using False m e by (auto simp: bucket_def)
    moreover have "m \<notin> bucket pos kv p" "e \<notin> bucket pos kv p" using False m e by (auto simp: bucket_def)
    ultimately have "chain pos (kv(e \<mapsto> (k, v))) (nxt(e := nxt m, m := Some e)) p c"
      by (intro chain_other [OF c]) auto
    then show ?thesis by blast
  qed
  then show ?thesis using s k e unfolding scatter_def by (auto split: if_splits)
qed

text \<open>Evicting an entry of another bucket: it moves to \<open>e\<close>, its predecessor \<open>q\<close> is linked to \<open>e\<close>.\<close>

lemma scatter_evict:
  assumes s: "scatter pos n kv nxt" and k: "\<And>i v. kv i \<noteq> Some (k, v)"
    and m: "pos k = m" "kv m = Some (k0, v0)" "pos k0 \<noteq> m" and e: "e < n" "kv e = None"
    and c: "chain pos kv nxt (pos k0) (xs @ q # m # ys)"
  shows "scatter pos n (kv(e \<mapsto> (k0, v0), m \<mapsto> (k, v))) (nxt(e := nxt m, q := Some e, m := None))"
proof -
  let ?kv = "kv(e \<mapsto> (k0, v0), m \<mapsto> (k, v))" and ?nxt = "nxt(e := nxt m, q := Some e, m := None)"
  have em: "e \<noteq> m" using m e by auto
  have mem: "set (xs @ q # m # ys) = bucket pos kv (pos k0)" using c by (simp add: chain_def)
  have "e \<notin> bucket pos kv (pos k0)" using e by (simp add: bucket_def)
  then have e': "e \<notin> set xs" "e \<noteq> q" "e \<notin> set ys" using mem by auto
  have "\<exists>c. chain pos ?kv ?nxt p c" for p
  proof -
    consider "p = m" | "p = pos k0" | "p \<noteq> m" "p \<noteq> pos k0" by blast
    then show ?thesis
    proof cases
      case 1
      from scatter_chain [OF s] obtain d where "chain pos kv nxt m d" by blast
      with chain_head_foreign [OF this] m have "bucket pos kv m = {}" by (auto simp: chain_def)
      with m em have "bucket pos ?kv m = {m}" by (auto simp: bucket_def)
      then have "chain pos ?kv ?nxt m [m]" by (simp add: chain_def)
      with 1 show ?thesis by blast
    next
      case 2
      have "bucket pos ?kv (pos k0) = insert e (bucket pos kv (pos k0) - {m})"
        using m em by (auto simp: bucket_def)
      moreover have d: "distinct (xs @ q # m # ys)" using c by (simp add: chain_def)
      ultimately have "set (xs @ q # e # ys) = bucket pos ?kv (pos k0)" using mem by auto
      moreover have "linked_to ?nxt (xs @ q # e # ys) None"
        using c d e' em unfolding chain_def linked_to_append
        by (auto simp: linked_to_upd)
      moreover have "hd (xs @ q # e # ys) = pos k0" using c unfolding chain_def by (cases xs) auto
      ultimately have "chain pos ?kv ?nxt (pos k0) (xs @ q # e # ys)" using d e' by (simp add: chain_def)
      with 2 show ?thesis by blast
    next
      case 3
      from scatter_chain [OF s] obtain d where d: "chain pos kv nxt p d" by blast
      have "bucket pos ?kv p = bucket pos kv p" using 3 m e by (auto simp: bucket_def)
      moreover have "m \<notin> bucket pos kv p" "e \<notin> bucket pos kv p" using 3 m e by (auto simp: bucket_def)
      moreover have "q \<in> bucket pos kv (pos k0)" using mem by auto
      then have "q \<notin> bucket pos kv p" using 3 by (auto simp: bucket_def)
      ultimately have "chain pos ?kv ?nxt p d" by (intro chain_other [OF d]) auto
      then show ?thesis by blast
    qed
  qed
  moreover have "i = j" if ij: "?kv i = Some (k', v')" "?kv j = Some (k', w')" for i j k' v' w'
  proof -
    have old: "kv (if i = e then m else i) = Some (k', v') \<and> (i \<noteq> m \<longrightarrow> k' \<noteq> k)"
      if "?kv i = Some (k', v')" "i \<noteq> m" for i v'
      using that m(2) k by (auto split: if_splits)
    show ?thesis
    proof (cases "i = m \<or> j = m")
      case True
      then have "k' = k" using ij by auto
      with old ij show ?thesis by metis
    next
      case False
      with scatter_unique [OF s] old [OF ij(1)] old [OF ij(2)]
      have "(if i = e then m else i) = (if j = e then m else j)" by blast
      with False show ?thesis by (auto split: if_splits)
    qed
  qed
  moreover have "m < n" using scatter_dom(2) [OF s] m(1) by blast
  then have "dom ?kv \<subseteq> {..<n}" using scatter_dom(1) [OF s] e by simp
  ultimately show ?thesis using scatter_dom(2) [OF s] by (intro scatterI) blast+
qed

text \<open>Removing the head of a chain: the next entry, if there is one, moves to the head.\<close>

lemma scatter_remove_last:
  assumes s: "scatter pos n kv nxt" and c: "chain pos kv nxt p [p]"
  shows "scatter pos n (kv(p := None)) nxt"
proof -
  have "\<exists>c. chain pos (kv(p := None)) nxt r c" for r
  proof (cases "r = p")
    case True
    have "bucket pos kv p = {p}" using c by (auto simp: chain_def)
    then have "bucket pos (kv(p := None)) p = {}" by (auto simp: bucket_def)
    then have "chain pos (kv(p := None)) nxt p []" by (simp add: chain_def)
    with True show ?thesis by blast
  next
    case False
    from scatter_chain [OF s] obtain d where d: "chain pos kv nxt r d" by blast
    have "p \<in> bucket pos kv p" using c by (auto simp: chain_def)
    then have "bucket pos (kv(p := None)) r = bucket pos kv r" using False by (auto simp: bucket_def)
    then show ?thesis using chain_other [OF d] by blast
  qed
  then show ?thesis using s unfolding scatter_def by (auto split: if_splits)
qed

lemma scatter_remove_head:
  assumes s: "scatter pos n kv nxt" and c: "chain pos kv nxt p (p # m # ys)"
  shows "scatter pos n (kv(p := kv m, m := None)) (nxt(p := nxt m))"
proof -
  let ?kv = "kv(p := kv m, m := None)"
  have mem: "insert p (insert m (set ys)) = bucket pos kv p" using c by (simp add: chain_def)
  have d: "distinct (p # m # ys)" using c by (simp add: chain_def)
  have "m \<in> bucket pos kv p" using mem by auto
  then obtain k v where m: "kv m = Some (k, v)" "pos k = p" by (auto simp: bucket_def)
  have "\<exists>c. chain pos ?kv (nxt(p := nxt m)) r c" for r
  proof (cases "r = p")
    case True
    have "bucket pos ?kv p = bucket pos kv p - {m}" using m d mem by (auto simp: bucket_def)
    then have "set (p # ys) = bucket pos ?kv p" using mem d by auto
    moreover have "linked_to (nxt(p := nxt m)) (p # ys) None"
    proof -
      have "p \<notin> set ys" "linked_to nxt (m # ys) None" using c d by (simp_all add: chain_def)
      then show ?thesis by (simp add: linked_to_upd)
    qed
    moreover have "distinct (p # ys)" using d by simp
    ultimately have "chain pos ?kv (nxt(p := nxt m)) p (p # ys)"
      unfolding chain_def by (metis list.distinct(1) list.sel(1))
    with True show ?thesis by blast
  next
    case False
    from scatter_chain [OF s] obtain e where e: "chain pos kv nxt r e" by blast
    have pm: "p \<in> bucket pos kv p" "m \<in> bucket pos kv p" using mem by auto
    then have "bucket pos ?kv r = bucket pos kv r" using False m by (auto simp: bucket_def)
    moreover have "p \<notin> bucket pos kv r" using pm False by (auto simp: bucket_def)
    ultimately show ?thesis using chain_other [OF e] by (metis fun_upd_apply)
  qed
  moreover have "i = j" if ij: "?kv i = Some (k', v')" "?kv j = Some (k', w')" for i j k' v' w'
  proof -
    have old: "i \<noteq> m \<and> kv (if i = p then m else i) = Some (k', v')" if "?kv i = Some (k', v')" for i v'
      using that by (auto split: if_splits)
    from scatter_unique [OF s] old [OF ij(1)] old [OF ij(2)]
    have "(if i = p then m else i) = (if j = p then m else j)" by blast
    with old [OF ij(1)] old [OF ij(2)] show ?thesis by (auto split: if_splits)
  qed
  moreover have "p \<in> bucket pos kv p" using mem by auto
  then have "p \<in> dom kv" by (auto simp: bucket_def)
  then have "dom ?kv \<subseteq> {..<n}" using scatter_dom(1) [OF s] by (auto split: if_splits)
  ultimately show ?thesis using scatter_dom(2) [OF s] by (intro scatterI) blast+
qed

lemma scatter_remove_behind:
  assumes s: "scatter pos n kv nxt" and c: "chain pos kv nxt p (xs @ q # r # ys)"
  shows "scatter pos n (kv(r := None)) (nxt(q := nxt r))"
proof -
  have mem: "set (xs @ q # r # ys) = bucket pos kv p" using c by (simp add: chain_def)
  have d: "distinct (xs @ q # r # ys)" using c by (simp add: chain_def)
  have "\<exists>c. chain pos (kv(r := None)) (nxt(q := nxt r)) t c" for t
  proof (cases "t = p")
    case True
    have "bucket pos (kv(r := None)) p = bucket pos kv p - {r}" by (auto simp: bucket_def)
    then have "set (xs @ q # ys) = bucket pos (kv(r := None)) p" using mem d by auto
    moreover have "linked_to (nxt(q := nxt r)) (xs @ q # ys) None"
      using c d unfolding chain_def linked_to_append by (auto simp: linked_to_upd)
    moreover have "hd (xs @ q # ys) = p" using c unfolding chain_def by (cases xs) auto
    ultimately have "chain pos (kv(r := None)) (nxt(q := nxt r)) p (xs @ q # ys)" using d by (simp add: chain_def)
    with True show ?thesis by blast
  next
    case False
    from scatter_chain [OF s] obtain e where e: "chain pos kv nxt t e" by blast
    have qr: "q \<in> bucket pos kv p" "r \<in> bucket pos kv p" using mem by auto
    then have "bucket pos (kv(r := None)) t = bucket pos kv t" using False by (auto simp: bucket_def)
    moreover have "q \<notin> bucket pos kv t" using qr False by (auto simp: bucket_def)
    ultimately show ?thesis using chain_other [OF e] by (metis fun_upd_apply)
  qed
  then show ?thesis using s unfolding scatter_def by (auto split: if_splits)
qed

section \<open>Tables as maps\<close>

definition entry_kv :: "'k upb_tabent list \<Rightarrow> nat \<Rightarrow> ('k \<times> upb_value) option" where
  "entry_kv es i = (if i < length es then map_option (\<lambda>k. (k, ent_val (es ! i))) (ent_key (es ! i)) else None)"

definition entry_next :: "'k upb_tabent list \<Rightarrow> nat \<Rightarrow> nat option" where
  "entry_next es i = (if i < length es then ent_next (es ! i) else None)"

definition main_pos :: "'k hashfunc \<Rightarrow> u32 \<Rightarrow> 'k \<Rightarrow> nat" where
  "main_pos hashfunc msk k = unat (hashfunc (Some k) AND msk)"

text \<open>
  The invariant: a power of two entries, linked as above, as many of them full as the count says,
  and not more of those than the load factor allows.
\<close>

definition table_inv :: "'k hashfunc \<Rightarrow> 'k upb_table \<Rightarrow> bool" where
  "table_inv hashfunc t \<longleftrightarrow>
     (\<exists>lg<32. tab_mask t = push_bit lg 1 - 1 \<and> length (tab_entries t) = 2 ^ lg) \<and>
     scatter (main_pos hashfunc (tab_mask t)) (length (tab_entries t)) (entry_kv (tab_entries t)) (entry_next (tab_entries t)) \<and>
     unat (tab_count t) = card (dom (entry_kv (tab_entries t))) \<and>
     unat (tab_count t) \<le> length (tab_entries t) - length (tab_entries t) div 8"

text \<open>The map of a table: each key has at most one entry.\<close>

lemma find_SomeD: "find P xs = Some x \<Longrightarrow> x \<in> set xs \<and> P x"
  by (auto simp: find_Some_iff)

definition table_map :: "'k upb_table \<Rightarrow> 'k \<Rightarrow> upb_value option" where
  "table_map t k =
     map_option (\<lambda>i. ent_val (tab_entries t ! i))
       (find (\<lambda>i. ent_key (tab_entries t ! i) = Some k) [0..<length (tab_entries t)])"

lemma entry_kv_iff: "entry_kv es i = Some (k, v) \<longleftrightarrow> i < length es \<and> ent_key (es ! i) = Some k \<and> ent_val (es ! i) = v"
  by (auto simp: entry_kv_def)

lemma entry_kv_None: "entry_kv es i = None \<longleftrightarrow> i < length es \<longrightarrow> ent_key (es ! i) = None"
  by (auto simp: entry_kv_def)

lemma table_map_iff:
  assumes "scatter pos n (entry_kv (tab_entries t)) nxt"
  shows "table_map t k = Some v \<longleftrightarrow> (\<exists>i. entry_kv (tab_entries t) i = Some (k, v))"
proof
  assume "table_map t k = Some v"
  then show "\<exists>i. entry_kv (tab_entries t) i = Some (k, v)"
    unfolding table_map_def entry_kv_iff by (auto simp: find_Some_iff)
next
  assume "\<exists>i. entry_kv (tab_entries t) i = Some (k, v)"
  then obtain i where i: "entry_kv (tab_entries t) i = Some (k, v)" by blast
  then have "i \<in> set [0..<length (tab_entries t)]" "ent_key (tab_entries t ! i) = Some k" by (auto simp: entry_kv_iff)
  then obtain j where j: "find (\<lambda>i. ent_key (tab_entries t ! i) = Some k) [0..<length (tab_entries t)] = Some j"
    by (cases "find (\<lambda>i. ent_key (tab_entries t ! i) = Some k) [0..<length (tab_entries t)]")
      (auto simp: find_None_iff)
  then have "j < length (tab_entries t)" "ent_key (tab_entries t ! j) = Some k" by (auto simp: find_Some_iff)
  then have "entry_kv (tab_entries t) j = Some (k, ent_val (tab_entries t ! j))" by (simp add: entry_kv_iff)
  from scatter_unique [OF assms this i] j i show "table_map t k = Some v"
    by (simp add: table_map_def entry_kv_iff)
qed

lemma table_map_None:
  assumes "scatter pos n (entry_kv (tab_entries t)) nxt"
  shows "table_map t k = None \<longleftrightarrow> (\<forall>i v. entry_kv (tab_entries t) i \<noteq> Some (k, v))"
  using table_map_iff [OF assms, of k] by (metis option.exhaust option.distinct(1))

lemma table_map_eqI:
  assumes "scatter pos n (entry_kv (tab_entries t)) nxt"
    and "\<And>k v. (\<exists>i. entry_kv (tab_entries t) i = Some (k, v)) \<longleftrightarrow> m k = Some v"
  shows "table_map t = m"
proof
  fix k
  show "table_map t k = m k"
    using table_map_iff [OF assms(1), of k] assms(2) [of k] by (metis option.exhaust)
qed

section \<open>Looking up\<close>

lemma entry_kv_update:
  "i < length es \<Longrightarrow> entry_kv (es[i := e]) = (entry_kv es)(i := map_option (\<lambda>k. (k, ent_val e)) (ent_key e))"
  by (auto simp: entry_kv_def fun_eq_iff)

lemma entry_next_update: "i < length es \<Longrightarrow> entry_next (es[i := e]) = (entry_next es)(i := ent_next e)"
  by (auto simp: entry_next_def fun_eq_iff)

lemma entry_next_nth: "i < length es \<Longrightarrow> ent_next (es ! i) = entry_next es i"
  by (simp add: entry_next_def)

lemma table_inv_scatter:
  "table_inv hf t \<Longrightarrow> scatter (main_pos hf (tab_mask t)) (length (tab_entries t)) (entry_kv (tab_entries t)) (entry_next (tab_entries t))"
  by (simp add: table_inv_def)

lemma unat_push_bit_1: "lg < 32 \<Longrightarrow> unat (push_bit lg 1 :: u32) = 2 ^ lg"
proof -
  assume "lg < 32"
  then have "(2 :: nat) ^ lg < 2 ^ 32" by (intro power_strict_increasing) simp_all
  then have "unat (of_nat (2 ^ lg) :: u32) = 2 ^ lg" by (simp only: unat_of_nat) (simp add: take_bit_nat_eq_self)
  then show ?thesis by (simp add: push_bit_eq_mult)
qed

lemma table_inv_size:
  assumes "table_inv hf t"
  shows "unat (upb_table_size t) = length (tab_entries t)" "0 < length (tab_entries t)" "length (tab_entries t) < 2 ^ 32"
proof -
  from assms obtain lg where lg: "lg < 32" "tab_mask t = push_bit lg 1 - 1" "length (tab_entries t) = 2 ^ lg"
    by (auto simp: table_inv_def)
  have "upb_table_size t = push_bit lg 1" by (simp add: upb_table_size_def lg)
  moreover have "unat (push_bit lg 1 :: u32) = 2 ^ lg" by (rule unat_push_bit_1) (rule lg(1))
  ultimately show "unat (upb_table_size t) = length (tab_entries t)" using lg by simp
  show "0 < length (tab_entries t)" using lg by simp
  show "length (tab_entries t) < 2 ^ 32" unfolding lg(3) using lg(1) by (intro power_strict_increasing) simp_all
qed

lemma chain_entries:
  assumes "scatter pos (length es) (entry_kv es) nxt" and "chain pos (entry_kv es) nxt p c" and "i \<in> set c"
  shows "i < length es" "\<exists>k. ent_key (es ! i) = Some k \<and> pos k = p"
proof -
  have "i \<in> bucket pos (entry_kv es) p" using assms(2,3) by (simp add: chain_def)
  then show "i < length es" "\<exists>k. ent_key (es ! i) = Some k \<and> pos k = p" by (auto simp: bucket_def entry_kv_iff)
qed

text \<open>A bucket with entries has one of them at its head.\<close>

lemma scatter_head_own:
  assumes s: "scatter pos n kv nxt" and p: "p = pos k" and i: "kv i = Some (k, v)" and h: "kv p = Some (k', v')"
  shows "pos k' = p"
proof (rule ccontr)
  assume "pos k' \<noteq> p"
  from scatter_chain [OF s] obtain c where c: "chain pos kv nxt p c" by blast
  with chain_head_foreign [OF c] h \<open>pos k' \<noteq> p\<close> have "bucket pos kv p = {}" by (simp add: chain_def)
  with i p show False by (auto simp: bucket_def)
qed

lemma scatter_head_empty:
  assumes s: "scatter pos n kv nxt" and p: "p = pos k" and i: "kv i = Some (k, v)"
  shows "kv p \<noteq> None"
proof
  assume "kv p = None"
  from scatter_chain [OF s] obtain c where c: "chain pos kv nxt p c" by blast
  with chain_head_foreign [OF c] \<open>kv p = None\<close> have "bucket pos kv p = {}" by (simp add: chain_def)
  with i p show False by (auto simp: bucket_def)
qed

lemma scatter_split:
  assumes "scatter pos n kv nxt" and "kv i = Some (k, v)"
  shows "\<exists>xs ys. chain pos kv nxt (pos k) (xs @ i # ys)"
proof -
  from scatter_chain [OF assms(1)] obtain c where c: "chain pos kv nxt (pos k) c" by blast
  then have "i \<in> set c" using assms(2) by (auto simp: chain_def bucket_def)
  then obtain xs ys where "c = xs @ i # ys" by (auto simp: in_set_conv_decomp)
  with c show ?thesis by blast
qed

text \<open>What the operations need of a pair of a hash function and a comparison.\<close>

locale hash_keys =
  fixes hashfunc :: "'k hashfunc" and eql :: "'k eqlfunc"
  assumes eql_iff: "eql (Some k) k' \<longleftrightarrow> k = k'"
begin

lemma findentry_loop_chain:
  assumes "linked_to (entry_next es) (e # c) None" and "\<And>i. i \<in> set (e # c) \<Longrightarrow> i < length es \<and> ent_key (es ! i) \<noteq> None"
    and "length (e # c) \<le> fuel"
  shows "findentry_loop fuel es eql key e = Some (find (\<lambda>i. ent_key (es ! i) = Some key) (e # c))"
  using assms
proof (induction c arbitrary: e fuel)
  case Nil
  then obtain f where "fuel = Suc f" by (cases fuel) auto
  with Nil show ?case by (auto simp: eql_iff entry_next_nth)
next
  case (Cons j c)
  obtain f where f: "fuel = Suc f" using Cons.prems(3) by (cases fuel) auto
  obtain k where k: "ent_key (es ! e) = Some k" using Cons.prems(2) [of e] by auto
  have "ent_next (es ! e) = Some j" using Cons.prems(1,2) by (simp add: entry_next_nth)
  with Cons.IH [of j f] Cons.prems k f show ?case by (simp add: eql_iff)
qed

lemma findentry_ok:
  assumes inv: "table_inv hashfunc t"
  obtains i v where "findentry t k (hashfunc (Some k)) eql = Some (Some i)" "entry_kv (tab_entries t) i = Some (k, v)"
  | "findentry t k (hashfunc (Some k)) eql = Some None" "\<And>i v. entry_kv (tab_entries t) i \<noteq> Some (k, v)"
proof -
  note s = table_inv_scatter [OF inv]
  let ?es = "tab_entries t" and ?pos = "main_pos hashfunc (tab_mask t)"
  define p where "p = ?pos k"
  have p: "upb_getentry t (hashfunc (Some k)) = p" by (simp add: p_def main_pos_def upb_getentry_def)
  have pn: "p < length ?es" using scatter_dom(2) [OF s] p_def by simp
  show ?thesis
  proof (cases "tab_count t = 0 \<or> upb_tabent_isempty (?es ! p)")
    case True
    have "entry_kv ?es i \<noteq> Some (k, v)" for i v
    proof
      assume a: "entry_kv ?es i = Some (k, v)"
      have "finite (dom (entry_kv ?es))" using scatter_dom(1) [OF s] finite_subset by blast
      with a have "card (dom (entry_kv ?es)) \<noteq> 0" by auto
      then have "tab_count t \<noteq> 0" using inv by (auto simp: table_inv_def)
      with True have "entry_kv ?es p = None" by (simp add: upb_tabent_isempty_def entry_kv_None)
      with scatter_head_empty [OF s p_def a] show False by simp
    qed
    with True show ?thesis using that(2) by (auto simp: findentry_def Let_def p)
  next
    case False
    then obtain k' where k': "ent_key (?es ! p) = Some k'" by (auto simp: upb_tabent_isempty_def)
    then have kv: "entry_kv ?es p = Some (k', ent_val (?es ! p))" using pn by (simp add: entry_kv_iff)
    from scatter_split [OF s kv] obtain xs ys where c: "chain ?pos (entry_kv ?es) (entry_next ?es) (?pos k') (xs @ p # ys)"
      by blast
    have es: "i < length ?es \<and> ent_key (?es ! i) \<noteq> None" if "i \<in> set (p # ys)" for i
      using chain_entries [OF s c, of i] that by auto
    have "linked_to (entry_next ?es) (p # ys) None" using c by (simp add: chain_def linked_to_append)
    moreover have "length (p # ys) \<le> length ?es" using chain_length [OF s c] by simp
    ultimately have find: "findentry t k (hashfunc (Some k)) eql = Some (find (\<lambda>i. ent_key (?es ! i) = Some k) (p # ys))"
      using False findentry_loop_chain [OF _ es] by (simp add: findentry_def Let_def p del: find.simps)
    show ?thesis
    proof (cases "find (\<lambda>i. ent_key (?es ! i) = Some k) (p # ys)")
      case (Some i)
      from find_SomeD [OF this] have "i \<in> set (p # ys)" "ent_key (?es ! i) = Some k" by blast+
      with es [of i] find Some that(1) [of i "ent_val (?es ! i)"] show ?thesis by (simp add: entry_kv_iff)
    next
      case None
      have "entry_kv ?es i \<noteq> Some (k, v)" for i v
      proof
        assume a: "entry_kv ?es i = Some (k, v)"
        then have "ent_key (?es ! i) = Some k" by (simp add: entry_kv_iff)
        moreover from None have "\<forall>j \<in> set (p # ys). ent_key (?es ! j) \<noteq> Some k"
          unfolding find_None_iff by blast
        ultimately have "i \<notin> set (p # ys)" by blast
        have k'p: "?pos k' = p" using scatter_head_own [OF s p_def a kv] .
        have "distinct (xs @ p # ys)" "hd (xs @ p # ys) = p" using c k'p by (auto simp: chain_def)
        then have xs: "xs = []" by (cases xs) auto
        have "i \<in> bucket ?pos (entry_kv ?es) p" using a by (simp add: bucket_def p_def)
        also have "bucket ?pos (entry_kv ?es) p = set (p # ys)" using c unfolding chain_def k'p xs by simp
        finally show False using \<open>i \<notin> set (p # ys)\<close> by contradiction
      qed
      with find None that(2) show ?thesis by simp
    qed
  qed
qed

lemma table_lookup_map:
  assumes "table_inv hashfunc t"
  shows "table_lookup t k (hashfunc (Some k)) eql = Some (table_map t k)"
proof -
  note s = table_inv_scatter [OF assms]
  show ?thesis
  proof (cases rule: findentry_ok [OF assms, where k = k])
    case (1 i v)
    then have "table_map t k = Some v" using table_map_iff [OF s] by blast
    with 1 show ?thesis by (simp add: table_lookup_def entry_kv_iff)
  next
    case 2
    then have "table_map t k = None" using table_map_None [OF s] by blast
    with 2 show ?thesis by (simp add: table_lookup_def)
  qed
qed

end

section \<open>Inserting\<close>

lemma emptyent_ok:
  assumes "table_inv hf t" and "unat (tab_count t) < length (tab_entries t)"
  obtains e where "emptyent t m = Some e" "e < length (tab_entries t)" "entry_kv (tab_entries t) e = None"
proof -
  let ?es = "tab_entries t" and ?n = "length (tab_entries t)"
  let ?P = "\<lambda>i. upb_tabent_isempty (?es ! i)" and ?xs = "[Suc m..<?n] @ [0..<?n]"
  have eq: "emptyent t m = find ?P ?xs" by (simp add: emptyent_def table_inv_size [OF assms(1)])
  have "dom (entry_kv ?es) \<noteq> {..<?n}"
  proof
    assume "dom (entry_kv ?es) = {..<?n}"
    then have "card (dom (entry_kv ?es)) = ?n" by simp
    with assms show False by (simp add: table_inv_def)
  qed
  moreover have "dom (entry_kv ?es) \<subseteq> {..<?n}" by (rule scatter_dom(1) [OF table_inv_scatter [OF assms(1)]])
  ultimately obtain i where i: "i < ?n" "entry_kv ?es i = None" by auto
  then have "?P i" "i \<in> set ?xs" by (auto simp: upb_tabent_isempty_def entry_kv_None)
  then have "find ?P ?xs \<noteq> None" unfolding find_None_iff by blast
  then obtain e where e: "find ?P ?xs = Some e" by blast
  from find_SomeD [OF this] have "e < ?n" "?P e" by auto
  with e eq that show ?thesis by (simp add: upb_tabent_isempty_def entry_kv_None)
qed

lemma evict_loop_chain:
  assumes "linked_to (entry_next es) (xs @ q # m # ys) None" and "distinct (xs @ q # m # ys)"
    and "\<And>i. i \<in> set (xs @ q # m # ys) \<Longrightarrow> i < length es" and "length xs < fuel"
  shows "evict_loop fuel es m (hd (xs @ [q])) = Some q"
  using assms
proof (induction xs arbitrary: fuel)
  case Nil
  then obtain f where "fuel = Suc f" by (cases fuel) auto
  with Nil show ?case by (simp add: entry_next_nth)
next
  case (Cons x xs)
  then obtain f where f: "fuel = Suc f" by (cases fuel) auto
  have "ent_next (es ! x) = Some (hd (xs @ [q]))" "hd (xs @ [q]) \<noteq> m"
    using Cons.prems by (cases xs; simp add: entry_next_nth)+
  with Cons f show ?case by simp
qed

text \<open>A table after its entries changed so that they hold one more pair.\<close>

lemma table_added:
  assumes inv: "table_inv hf t" and load: "unat (tab_count t) + 1 \<le> length (tab_entries t) - length (tab_entries t) div 8"
    and len: "length es = length (tab_entries t)"
    and s: "scatter (main_pos hf (tab_mask t)) (length (tab_entries t)) (entry_kv es) (entry_next es)"
    and cont: "\<And>k' v'. (\<exists>i. entry_kv es i = Some (k', v')) \<longleftrightarrow> k' = k \<and> v' = v \<or> (\<exists>i. entry_kv (tab_entries t) i = Some (k', v'))"
    and fresh: "table_map t k = None"
    and card: "card (dom (entry_kv es)) = Suc (card (dom (entry_kv (tab_entries t))))"
  shows "table_inv hf (t\<lparr>tab_count := tab_count t + 1, tab_entries := es\<rparr>)"
    "table_map (t\<lparr>tab_count := tab_count t + 1, tab_entries := es\<rparr>) = (table_map t)(k \<mapsto> v)"
proof -
  let ?t = "t\<lparr>tab_count := tab_count t + 1, tab_entries := es\<rparr>"
  have "unat (tab_count t) + 1 < 2 ^ 32" using load table_inv_size(3) [OF inv] by linarith
  then have "unat (tab_count t) + unat (1 :: u32) < 2 ^ LENGTH(32)" by simp
  then have "unat (tab_count t + 1) = Suc (unat (tab_count t))" using unat_add_lem [of "tab_count t" 1] by simp
  with inv load len s card show "table_inv hf ?t" by (simp add: table_inv_def)
  note sc = table_inv_scatter [OF inv]
  show "table_map ?t = (table_map t)(k \<mapsto> v)"
  proof (rule table_map_eqI)
    show "scatter (main_pos hf (tab_mask t)) (length (tab_entries t)) (entry_kv (tab_entries ?t)) (entry_next es)"
      using s by simp
    show "(\<exists>i. entry_kv (tab_entries ?t) i = Some (k', v')) \<longleftrightarrow> ((table_map t)(k \<mapsto> v)) k' = Some v'" for k' v'
      using cont [of k' v'] table_map_iff [OF sc, of k' v'] fresh by auto
  qed
qed

lemma ex_evict:
  assumes "kv m = Some x" and "kv e = None" and "e \<noteq> m"
  shows "(\<exists>i. (kv(e \<mapsto> x, m \<mapsto> y)) i = Some z) \<longleftrightarrow> z = y \<or> (\<exists>i. kv i = Some z)"
proof (cases "z = y")
  case False
  have "(kv(e \<mapsto> x, m \<mapsto> y)) (if i = m then e else i) = Some z" if "kv i = Some z" for i
    using assms that by auto
  then have "(\<exists>i. kv i = Some z) \<Longrightarrow> (\<exists>i. (kv(e \<mapsto> x, m \<mapsto> y)) i = Some z)" by blast
  moreover have "kv i = Some z \<or> kv m = Some z" if "(kv(e \<mapsto> x, m \<mapsto> y)) i = Some z" for i
    using assms that False by (auto split: if_splits)
  ultimately show ?thesis using False by blast
qed auto

lemma card_dom_insert: "finite (dom f) \<Longrightarrow> f i = None \<Longrightarrow> card (dom (f(i \<mapsto> x))) = Suc (card (dom f))"
  by (simp add: domIff)

context hash_keys
begin

lemma table_insert_ok:
  assumes inv: "table_inv hashfunc t" and fresh: "table_map t k = None"
    and load: "unat (tab_count t) + 1 \<le> length (tab_entries t) - length (tab_entries t) div 8"
  obtains t' where "table_insert t (Some k) v (hashfunc (Some k)) hashfunc = Some t'" "table_inv hashfunc t'"
    "table_map t' = (table_map t)(k \<mapsto> v)" "tab_count t' = tab_count t + 1" "tab_mask t' = tab_mask t"
proof -
  note s = table_inv_scatter [OF inv]
  let ?es = "tab_entries t" and ?pos = "main_pos hashfunc (tab_mask t)" and ?n = "length (tab_entries t)"
  let ?kv = "entry_kv ?es" and ?nx = "entry_next ?es"
  define m where "m = ?pos k"
  have m: "upb_getentry t' (hashfunc (Some k)) = m" if "tab_mask t' = tab_mask t" for t' :: "'k upb_table"
    using that by (simp add: m_def main_pos_def upb_getentry_def)
  have mn: "m < ?n" using scatter_dom(2) [OF s] m_def by simp
  have fresh': "?kv i \<noteq> Some (k, v)" for i v using table_map_None [OF s] fresh by blast
  have fin: "finite (dom ?kv)" using scatter_dom(1) [OF s] finite_subset by blast
  note result = that
  have add: ?thesis
    if "length es = ?n" "scatter ?pos ?n (entry_kv es) (entry_next es)"
      "\<And>k' v'. (\<exists>i. entry_kv es i = Some (k', v')) \<longleftrightarrow> k' = k \<and> v' = v \<or> (\<exists>i. ?kv i = Some (k', v'))"
      "card (dom (entry_kv es)) = Suc (card (dom ?kv))"
      "table_insert t (Some k) v (hashfunc (Some k)) hashfunc = Some (t\<lparr>tab_count := tab_count t + 1, tab_entries := es\<rparr>)"
    for es
    using table_added [OF inv load that(1-3) fresh that(4)] that(5)
    by (intro result [of "t\<lparr>tab_count := tab_count t + 1, tab_entries := es\<rparr>"]) simp_all
  show ?thesis
  proof (cases "upb_tabent_isempty (?es ! m)")
    case True
    let ?e = "\<lparr>ent_val = v, ent_key = Some k, ent_next = None\<rparr>"
    have e: "?kv m = None" using True by (simp add: upb_tabent_isempty_def entry_kv_None)
    have upd: "entry_kv (?es[m := ?e]) = ?kv(m \<mapsto> (k, v))" "entry_next (?es[m := ?e]) = ?nx(m := None)"
      using mn by (simp_all add: entry_kv_update entry_next_update)
    show ?thesis
    proof (rule add [of "?es[m := ?e]"])
      show "scatter ?pos ?n (entry_kv (?es[m := ?e])) (entry_next (?es[m := ?e]))"
        unfolding upd using scatter_insert_head [OF s fresh' _ e] m_def by simp
      show "(\<exists>i. entry_kv (?es[m := ?e]) i = Some (k', v')) \<longleftrightarrow> k' = k \<and> v' = v \<or> (\<exists>i. ?kv i = Some (k', v'))" for k' v'
        unfolding upd using e by auto (metis option.distinct(1))
      show "card (dom (entry_kv (?es[m := ?e]))) = Suc (card (dom ?kv))"
        unfolding upd by (rule card_dom_insert [OF fin e])
    qed (use True m in \<open>simp_all add: table_insert_def Let_def\<close>)
  next
    case False
    then obtain k0 where k0: "ent_key (?es ! m) = Some k0" by (auto simp: upb_tabent_isempty_def)
    define v0 where "v0 = ent_val (?es ! m)"
    have kvm: "?kv m = Some (k0, v0)" using k0 mn by (simp add: entry_kv_iff v0_def)
    have "unat (tab_count t) < ?n" using load by linarith
    from emptyent_ok [OF inv this] obtain e where e: "emptyent t m = Some e" "e < ?n" "?kv e = None" by blast
    have em: "e \<noteq> m" using e kvm by auto
    have e1: "emptyent (t\<lparr>tab_count := c\<rparr>) m = Some e" for c using e by (simp add: emptyent_def upb_table_size_def)
    have g: "upb_getentry (t\<lparr>tab_count := c\<rparr>) (hashfunc (Some k0)) = ?pos k0" for c
      by (simp add: main_pos_def upb_getentry_def)
    show ?thesis
    proof (cases "?pos k0 = m")
      case True
      let ?es1 = "?es[e := (?es ! e)\<lparr>ent_next := ent_next (?es ! m)\<rparr>]"
      let ?es2 = "?es1[m := (?es1 ! m)\<lparr>ent_next := Some e\<rparr>]"
      let ?es3 = "?es2[e := (?es2 ! e)\<lparr>ent_key := Some k, ent_val := v\<rparr>]"
      have upd: "entry_kv ?es3 = ?kv(e \<mapsto> (k, v))" "entry_next ?es3 = ?nx(e := ?nx m, m := Some e)"
        using mn e em kvm k0 by (auto simp: fun_eq_iff entry_kv_def entry_next_def nth_list_update v0_def)
      show ?thesis
      proof (rule add [of ?es3])
        show "scatter ?pos ?n (entry_kv ?es3) (entry_next ?es3)"
          unfolding upd using scatter_insert_behind [OF s fresh' _ kvm True e(2,3)] m_def by simp
        show "(\<exists>i. entry_kv ?es3 i = Some (k', v')) \<longleftrightarrow> k' = k \<and> v' = v \<or> (\<exists>i. ?kv i = Some (k', v'))" for k' v'
          unfolding upd using e by auto (metis option.distinct(1))
        show "card (dom (entry_kv ?es3)) = Suc (card (dom ?kv))" unfolding upd by (rule card_dom_insert [OF fin e(3)])
      qed (use False True m k0 e1 g in \<open>simp_all add: table_insert_def Let_def\<close>)
    next
      case pos: False
      from scatter_split [OF s kvm] obtain zs ys where c0: "chain ?pos ?kv ?nx (?pos k0) (zs @ m # ys)" by blast
      have "hd (zs @ m # ys) = ?pos k0" using c0 by (auto simp: chain_def)
      with pos have "zs \<noteq> []" by auto
      then obtain xs q where zs: "zs = xs @ [q]" by (cases zs rule: rev_cases) auto
      have c: "chain ?pos ?kv ?nx (?pos k0) (xs @ q # m # ys)" using c0 by (simp add: zs)
      have hd: "hd (xs @ [q]) = ?pos k0" using c unfolding chain_def by (cases xs) auto
      have mem: "i < ?n" "i \<noteq> e" if "i \<in> set (xs @ q # m # ys)" for i
        using chain_entries [OF s c that] e by (auto simp: entry_kv_None)
      have d: "distinct (xs @ q # m # ys)" using c by (simp add: chain_def)
      let ?es1 = "?es[e := ?es ! m]"
      let ?es2 = "?es1[q := (?es1 ! q)\<lparr>ent_next := Some e\<rparr>]"
      let ?es3 = "?es2[m := \<lparr>ent_val = v, ent_key = Some k, ent_next = None\<rparr>]"
      have q: "q < ?n" "q \<noteq> e" "q \<noteq> m" using mem [of q] d by auto
      have nx1: "entry_next ?es1 = ?nx(e := ?nx m)" using e mn by (simp add: entry_next_update entry_next_nth)
      have "linked_to (entry_next ?es1) (xs @ q # m # ys) None"
        unfolding nx1 using c mem by (subst linked_to_upd) (auto simp: chain_def)
      moreover have "length xs < ?n" using chain_length [OF s c] by simp
      ultimately have ev: "evict_loop ?n ?es1 m (?pos k0) = Some q"
        using evict_loop_chain [of ?es1 xs q m ys ?n] d mem hd by auto
      have upd: "entry_kv ?es3 = ?kv(e \<mapsto> (k0, v0), m \<mapsto> (k, v))"
        "entry_next ?es3 = ?nx(e := ?nx m, q := Some e, m := None)"
        using mn e em k0 q by (auto simp: fun_eq_iff entry_kv_def entry_next_def nth_list_update v0_def)
      show ?thesis
      proof (rule add [of ?es3])
        show "scatter ?pos ?n (entry_kv ?es3) (entry_next ?es3)"
          unfolding upd using scatter_evict [OF s fresh' _ kvm pos e(2,3) c] m_def by simp
        show "(\<exists>i. entry_kv ?es3 i = Some (k', v')) \<longleftrightarrow> k' = k \<and> v' = v \<or> (\<exists>i. ?kv i = Some (k', v'))" for k' v'
          unfolding upd ex_evict [OF kvm e(3) em] by auto
        have "dom (?kv(e \<mapsto> (k0, v0), m \<mapsto> (k, v))) = insert e (dom ?kv)" using kvm by auto
        then show "card (dom (entry_kv ?es3)) = Suc (card (dom ?kv))" unfolding upd using fin e by (simp add: domIff)
      qed (use False pos m k0 e1 g ev in \<open>simp_all add: table_insert_def Let_def\<close>)
    qed
  qed
qed

end

section \<open>Removing\<close>

lemma table_removed:
  assumes inv: "table_inv hf t" and len: "length es = length (tab_entries t)"
    and s: "scatter (main_pos hf (tab_mask t)) (length (tab_entries t)) (entry_kv es) (entry_next es)"
    and cont: "\<And>k' v'. (\<exists>i. entry_kv es i = Some (k', v')) \<longleftrightarrow> k' \<noteq> k \<and> (\<exists>i. entry_kv (tab_entries t) i = Some (k', v'))"
    and card: "card (dom (entry_kv (tab_entries t))) = Suc (card (dom (entry_kv es)))"
  shows "table_inv hf (t\<lparr>tab_count := tab_count t - 1, tab_entries := es\<rparr>)"
    "table_map (t\<lparr>tab_count := tab_count t - 1, tab_entries := es\<rparr>) = (table_map t)(k := None)"
proof -
  let ?t = "t\<lparr>tab_count := tab_count t - 1, tab_entries := es\<rparr>"
  have c: "unat (tab_count t) = Suc (card (dom (entry_kv es)))" using inv card by (simp add: table_inv_def)
  then have "1 \<le> tab_count t" by (simp add: word_le_nat_alt)
  then have "unat (tab_count t - 1) = card (dom (entry_kv es))" using c by (simp add: unat_sub)
  with inv len s c show "table_inv hf ?t" by (simp add: table_inv_def)
  note sc = table_inv_scatter [OF inv]
  show "table_map ?t = (table_map t)(k := None)"
  proof (rule table_map_eqI)
    show "scatter (main_pos hf (tab_mask t)) (length (tab_entries t)) (entry_kv (tab_entries ?t)) (entry_next es)"
      using s by simp
    show "(\<exists>i. entry_kv (tab_entries ?t) i = Some (k', v')) \<longleftrightarrow> ((table_map t)(k := None)) k' = Some v'" for k' v'
      using cont [of k' v'] table_map_iff [OF sc, of k' v'] by auto
  qed
qed

lemma card_dom_remove: "finite (dom f) \<Longrightarrow> f i = Some x \<Longrightarrow> card (dom f) = Suc (card (dom (f(i := None))))"
  using card_Suc_Diff1 [of "dom f" i] by (auto simp: domI)

lemma ex_remove:
  assumes "kv r = Some (k, v)" and "\<And>j w. kv j = Some (k, w) \<Longrightarrow> j = r"
  shows "(\<exists>i. (kv(r := None)) i = Some (k', v')) \<longleftrightarrow> k' \<noteq> k \<and> (\<exists>i. kv i = Some (k', v'))"
proof -
  have upd: "(kv(r := None)) i = Some z \<longleftrightarrow> i \<noteq> r \<and> kv i = Some z" for i z by simp
  show ?thesis unfolding upd using assms by (metis option.inject prod.inject)
qed

lemma ex_move:
  assumes "kv m = Some x" and "kv p = Some (k, v)" and "p \<noteq> m" and "\<And>j w. kv j = Some (k, w) \<Longrightarrow> j = p"
  shows "(\<exists>i. (kv(p := kv m, m := None)) i = Some (k', v')) \<longleftrightarrow> k' \<noteq> k \<and> (\<exists>i. kv i = Some (k', v'))"
proof -
  have key: "i = p \<longleftrightarrow> k' = k" if "kv i = Some (k', v')" for i
  proof
    show "i = p \<Longrightarrow> k' = k" using assms(2) that by simp
    show "k' = k \<Longrightarrow> i = p" using assms(4) [of i v'] that by simp
  qed
  have to: "(kv(p := kv m, m := None)) (if i = m then p else i) = Some (k', v')" if "kv i = Some (k', v')" "k' \<noteq> k" for i
  proof -
    have "i \<noteq> p" using key [OF that(1)] that(2) by blast
    with assms(3) that(1) show ?thesis by (cases "i = m") simp_all
  qed
  have from_new: "kv (if i = p then m else i) = Some (k', v') \<and> (if i = p then m else i) \<noteq> p"
    if "(kv(p := kv m, m := None)) i = Some (k', v')" for i
    using assms(3) that by (auto split: if_splits)
  show ?thesis
  proof
    assume "\<exists>i. (kv(p := kv m, m := None)) i = Some (k', v')"
    then obtain i where "(kv(p := kv m, m := None)) i = Some (k', v')" by blast
    from from_new [OF this] key show "k' \<noteq> k \<and> (\<exists>i. kv i = Some (k', v'))" by blast
  qed (use to in blast)
qed

context hash_keys
begin

lemma rm_loop_chain:
  assumes "linked_to (entry_next es) (e # c) None" and "\<And>i. i \<in> set (e # c) \<Longrightarrow> i < length es \<and> ent_key (es ! i) \<noteq> None"
    and "length (e # c) \<le> fuel"
  shows "\<exists>xs q. rm_loop fuel es eql key e = Some q \<and>
    ((\<exists>r ys. e # c = xs @ q # r # ys \<and> ent_next (es ! q) = Some r \<and> ent_key (es ! r) = Some key) \<or>
     (e # c = xs @ [q] \<and> ent_next (es ! q) = None \<and> (\<forall>i \<in> set c. ent_key (es ! i) \<noteq> Some key)))"
  using assms
proof (induction c arbitrary: e fuel)
  case Nil
  then obtain f where "fuel = Suc f" by (cases fuel) auto
  with Nil have "rm_loop fuel es eql key e = Some e" "ent_next (es ! e) = None" by (simp_all add: entry_next_nth)
  then show ?case by (intro exI [of _ "[]"] exI [of _ e]) simp
next
  case (Cons j c)
  obtain f where f: "fuel = Suc f" using Cons.prems(3) by (cases fuel) auto
  have j: "ent_next (es ! e) = Some j" using Cons.prems(1,2) by (simp add: entry_next_nth)
  obtain k where k: "ent_key (es ! j) = Some k" using Cons.prems(2) [of j] by auto
  show ?case
  proof (cases "k = key")
    case True
    with f j k have "rm_loop fuel es eql key e = Some e" by (simp add: eql_iff)
    with True j k show ?thesis by (intro exI [of _ "[]"] exI [of _ e]) auto
  next
    case False
    with f j k have step: "rm_loop fuel es eql key e = rm_loop f es eql key j" by (simp add: eql_iff)
    have "\<exists>xs q. rm_loop f es eql key j = Some q \<and>
      ((\<exists>r ys. j # c = xs @ q # r # ys \<and> ent_next (es ! q) = Some r \<and> ent_key (es ! r) = Some key) \<or>
       (j # c = xs @ [q] \<and> ent_next (es ! q) = None \<and> (\<forall>i \<in> set c. ent_key (es ! i) \<noteq> Some key)))"
      by (rule Cons.IH) (use Cons.prems f in auto)
    then obtain xs q where q: "rm_loop f es eql key j = Some q"
      "(\<exists>r ys. j # c = xs @ q # r # ys \<and> ent_next (es ! q) = Some r \<and> ent_key (es ! r) = Some key) \<or>
       (j # c = xs @ [q] \<and> ent_next (es ! q) = None \<and> (\<forall>i \<in> set c. ent_key (es ! i) \<noteq> Some key))" by blast
    show ?thesis unfolding step
      by (intro exI [of _ "e # xs"] exI [of _ q] conjI q(1)) (use q(2) False k in auto)
  qed
qed

lemma table_rm_ok:
  assumes inv: "table_inv hashfunc t"
  obtains t' where "table_rm t k (hashfunc (Some k)) eql = Some (table_map t k, t')" "table_inv hashfunc t'"
    "table_map t' = (table_map t)(k := None)" "tab_mask t' = tab_mask t"
proof -
  note s = table_inv_scatter [OF inv]
  note result = that
  let ?es = "tab_entries t" and ?pos = "main_pos hashfunc (tab_mask t)" and ?n = "length (tab_entries t)"
  let ?kv = "entry_kv ?es" and ?nx = "entry_next ?es"
  define p where "p = ?pos k"
  have p: "upb_getentry t (hashfunc (Some k)) = p" by (simp add: p_def main_pos_def upb_getentry_def)
  have pn: "p < ?n" using scatter_dom(2) [OF s] p_def by simp
  have fin: "finite (dom ?kv)" using scatter_dom(1) [OF s] finite_subset by blast
  have absent: ?thesis if "table_rm t k (hashfunc (Some k)) eql = Some (None, t)" "\<And>i v. ?kv i \<noteq> Some (k, v)"
  proof -
    have "table_map t k = None" using that(2) table_map_None [OF s] by blast
    with that(1) result [of t] inv show ?thesis by (simp add: fun_upd_idem)
  qed
  have found: ?thesis
    if "?kv i = Some (k, v)" "length es = ?n" "scatter ?pos ?n (entry_kv es) (entry_next es)"
      "\<And>k' v'. (\<exists>i. entry_kv es i = Some (k', v')) \<longleftrightarrow> k' \<noteq> k \<and> (\<exists>i. ?kv i = Some (k', v'))"
      "card (dom ?kv) = Suc (card (dom (entry_kv es)))"
      "table_rm t k (hashfunc (Some k)) eql = Some (Some v, t\<lparr>tab_count := tab_count t - 1, tab_entries := es\<rparr>)"
    for es i v
  proof -
    have "table_map t k = Some v" using table_map_iff [OF s] that(1) by blast
    with table_removed [OF inv that(2-5)] that(6) show ?thesis
      by (intro result [of "t\<lparr>tab_count := tab_count t - 1, tab_entries := es\<rparr>"]) auto
  qed
  show ?thesis
  proof (cases "ent_key (?es ! p)")
    case None
    then have "?kv p = None" by (simp add: entry_kv_None)
    with None show ?thesis using scatter_head_empty [OF s p_def]
      by (intro absent) (auto simp: table_rm_def Let_def p upb_tabent_isempty_def)
  next
    case (Some k')
    define v' where "v' = ent_val (?es ! p)"
    have kv: "?kv p = Some (k', v')" using Some pn by (simp add: entry_kv_iff v'_def)
    from scatter_split [OF s kv] obtain zs c where c: "chain ?pos ?kv ?nx (?pos k') (zs @ p # c)" by blast
    have mem: "i < ?n \<and> ent_key (?es ! i) \<noteq> None" if "i \<in> set (p # c)" for i
      using chain_entries [OF s c, of i] that by auto
    have d: "distinct (p # c)" using c by (simp add: chain_def)
    have link: "linked_to ?nx (p # c) None" using c by (simp add: chain_def linked_to_append)
    have len: "length (p # c) \<le> ?n" using chain_length [OF s c] by simp
    have own: "zs = []" "?pos k' = p" if "?kv i = Some (k, v)" for i v
    proof -
      show "?pos k' = p" using scatter_head_own [OF s p_def that kv] .
      then have "distinct (zs @ p # c)" "hd (zs @ p # c) = p" using c by (auto simp: chain_def)
      then show "zs = []" by (cases zs) auto
    qed
    have one: "j = i" if "?kv i = Some (k, v)" "?kv j = Some (k, w)" for i j v w
      using scatter_unique [OF s that] by simp
    have ne: "\<not> upb_tabent_isempty (?es ! p)" using Some by (simp add: upb_tabent_isempty_def)
    show ?thesis
    proof (cases "k' = k")
      case True
      note kv = kv [unfolded True] and c' = c [unfolded own [OF kv [unfolded True]] append_Nil]
      show ?thesis
      proof (cases c)
        case Nil
        then have nx: "ent_next (?es ! p) = None" using link pn by (simp add: entry_next_nth)
        let ?es' = "?es[p := (?es ! p)\<lparr>ent_key := None\<rparr>]"
        have upd: "entry_kv ?es' = ?kv(p := None)" "entry_next ?es' = ?nx"
          using pn by (auto simp: entry_kv_update entry_next_update entry_next_nth)
        show ?thesis
        proof (rule found [OF kv, of ?es'])
          show "scatter ?pos ?n (entry_kv ?es') (entry_next ?es')"
            unfolding upd using scatter_remove_last [OF s] c' Nil by simp
          show "(\<exists>i. entry_kv ?es' i = Some (k', v')) \<longleftrightarrow> k' \<noteq> k \<and> (\<exists>i. ?kv i = Some (k', v'))" for k' v'
            unfolding upd by (rule ex_remove [where kv = ?kv, OF kv]) (rule one [OF kv])
          show "card (dom ?kv) = Suc (card (dom (entry_kv ?es')))" unfolding upd by (rule card_dom_remove [OF fin kv])
        qed (use ne Some True p nx v'_def in \<open>simp_all add: table_rm_def Let_def eql_iff\<close>)
      next
        case (Cons m ys)
        have nx: "ent_next (?es ! p) = Some m" using link pn Cons by (simp add: entry_next_nth)
        have mn: "m < ?n" "p \<noteq> m" using mem [of m] d Cons by auto
        obtain x where x: "?kv m = Some x" using mem [of m] Cons by (auto simp: entry_kv_def)
        let ?es1 = "?es[p := ?es ! m]"
        let ?es' = "?es1[m := (?es1 ! m)\<lparr>ent_key := None\<rparr>]"
        have upd: "entry_kv ?es' = ?kv(p := ?kv m, m := None)" "entry_next ?es' = ?nx(p := ?nx m)"
          using pn mn by (auto simp: fun_eq_iff entry_kv_def entry_next_def nth_list_update)
        show ?thesis
        proof (rule found [OF kv, of ?es'])
          show "scatter ?pos ?n (entry_kv ?es') (entry_next ?es')"
            unfolding upd using scatter_remove_head [OF s] c' Cons by simp
          show "(\<exists>i. entry_kv ?es' i = Some (k', v')) \<longleftrightarrow> k' \<noteq> k \<and> (\<exists>i. ?kv i = Some (k', v'))" for k' v'
            unfolding upd by (rule ex_move [where kv = ?kv, OF x kv mn(2)]) (rule one [OF kv])
          have "dom (?kv(p := ?kv m, m := None)) = dom (?kv(m := None))" using kv x mn by auto
          then show "card (dom ?kv) = Suc (card (dom (entry_kv ?es')))"
            unfolding upd using card_dom_remove [OF fin x] by simp
        qed (use ne Some True p nx v'_def in \<open>simp_all add: table_rm_def Let_def eql_iff\<close>)
      qed
    next
      case False
      from rm_loop_chain [OF link mem len, of k] obtain xs q where q: "rm_loop ?n ?es eql k p = Some q"
        "(\<exists>r ys. p # c = xs @ q # r # ys \<and> ent_next (?es ! q) = Some r \<and> ent_key (?es ! r) = Some k) \<or>
         (p # c = xs @ [q] \<and> ent_next (?es ! q) = None \<and> (\<forall>i \<in> set c. ent_key (?es ! i) \<noteq> Some k))" by blast
      from q(2) show ?thesis
      proof (elim disjE exE conjE)
        fix r ys
        assume r: "p # c = xs @ q # r # ys" "ent_next (?es ! q) = Some r" "ent_key (?es ! r) = Some k"
        define v where "v = ent_val (?es ! r)"
        have "r \<in> set (p # c)" "q \<in> set (p # c)" unfolding r(1) by simp_all
        then have rn: "r < ?n" "q < ?n" using mem by blast+
        have qr: "q \<noteq> r" using d unfolding r(1) by simp
        have kvr: "?kv r = Some (k, v)" using r rn by (simp add: entry_kv_iff v_def)
        let ?es1 = "?es[r := (?es ! r)\<lparr>ent_key := None\<rparr>]"
        let ?es' = "?es1[q := (?es1 ! q)\<lparr>ent_next := ent_next (?es1 ! r)\<rparr>]"
        have upd: "entry_kv ?es' = ?kv(r := None)" "entry_next ?es' = ?nx(q := ?nx r)"
          using rn qr by (auto simp: fun_eq_iff entry_kv_def entry_next_def nth_list_update)
        have ch: "chain ?pos ?kv ?nx p (xs @ q # r # ys)" using c own [OF kvr] r(1) by simp
        show ?thesis
        proof (rule found [OF kvr, of ?es'])
          show "scatter ?pos ?n (entry_kv ?es') (entry_next ?es')"
            unfolding upd by (rule scatter_remove_behind [OF s ch])
          show "(\<exists>i. entry_kv ?es' i = Some (k', v')) \<longleftrightarrow> k' \<noteq> k \<and> (\<exists>i. ?kv i = Some (k', v'))" for k' v'
            unfolding upd by (rule ex_remove [where kv = ?kv, OF kvr]) (rule one [OF kvr])
          show "card (dom ?kv) = Suc (card (dom (entry_kv ?es')))" unfolding upd by (rule card_dom_remove [OF fin kvr])
        qed (use ne Some False p q(1) r v_def in \<open>simp_all add: table_rm_def Let_def eql_iff\<close>)
      next
        assume no: "ent_next (?es ! q) = None" "\<forall>i \<in> set c. ent_key (?es ! i) \<noteq> Some k"
        have "?kv i \<noteq> Some (k, v)" for i v
        proof
          assume a: "?kv i = Some (k, v)"
          have "i \<in> bucket ?pos ?kv (?pos k')" using a own(2) [OF a] by (auto simp: bucket_def p_def)
          also have "\<dots> = set (p # c)" using c unfolding chain_def own(1) [OF a] append_Nil by blast
          finally show False using no(2) a Some False by (auto simp: entry_kv_iff)
        qed
        then show ?thesis using ne Some False p q(1) no(1)
          by (intro absent) (simp_all add: table_rm_def Let_def eql_iff)
      qed
    qed
  qed
qed

end

section \<open>Initializing, filling and enumerating\<close>

lemma isfull_iff:
  assumes "table_inv hf t"
  shows "isfull t \<longleftrightarrow> unat (tab_count t) = length (tab_entries t) - length (tab_entries t) div 8"
proof -
  note n = table_inv_size [OF assms]
  let ?s = "upb_table_size t"
  have d: "unat (drop_bit 3 ?s) = length (tab_entries t) div 8" unfolding unat_drop_bit n(1) by simp
  then have "drop_bit 3 ?s \<le> ?s" unfolding word_le_nat_alt d n(1) by simp
  then have "unat (?s - drop_bit 3 ?s) = length (tab_entries t) - length (tab_entries t) div 8"
    by (simp only: unat_sub d n)
  then show ?thesis unfolding isfull_def Let_def by (metis word_unat_eq_iff)
qed

lemma entry_kv_zero [simp]: "entry_kv (replicate n zero_entry) = (\<lambda>_. None)"
  by (auto simp: entry_kv_def zero_entry_def)

lemma scatter_empty: "(\<And>k. pos k < n) \<Longrightarrow> scatter pos n (\<lambda>_. None) nxt"
  by (auto simp: scatter_def chain_def bucket_def intro!: exI [of _ "[]"])

lemma main_pos_less: "main_pos hf (push_bit lg 1 - 1) k < 2 ^ lg" if "lg < 32"
proof -
  have "push_bit lg 1 - 1 = (mask lg :: u32)" by (simp add: mask_eq_exp_minus_1 push_bit_eq_mult)
  then have "hf (Some k) AND (push_bit lg 1 - 1) = take_bit lg (hf (Some k))" by (simp add: take_bit_eq_mask)
  then show ?thesis by (simp add: main_pos_def unsigned_take_bit_eq)
qed

lemma table_init_eq:
  assumes "table_init lg a = (Some t, a')"
  shows "lg < 32" "t = \<lparr>tab_entries = replicate (2 ^ lg) zero_entry, tab_count = 0, tab_mask = push_bit lg 1 - 1\<rparr>"
proof -
  from assms show lg: "lg < 32" by (simp add: table_init_def split: if_splits)
  then have n: "unat (push_bit lg 1 :: u32) = 2 ^ lg" by (rule unat_push_bit_1)
  from assms lg n show "t = \<lparr>tab_entries = replicate (2 ^ lg) zero_entry, tab_count = 0, tab_mask = push_bit lg 1 - 1\<rparr>"
    by (auto simp: table_init_def upb_table_size_def Let_def sizeof_upb_tabent_def split: if_splits option.splits prod.splits)
qed

lemma table_init_ok:
  assumes "table_init lg a = (Some t, a')"
  shows "table_inv hf t" "table_map t = Map.empty" "length (tab_entries t) = 2 ^ lg" "tab_count t = 0"
    "tab_mask t = push_bit lg 1 - 1" "lg < 32"
proof -
  note lg = table_init_eq(1) [OF assms] and t = table_init_eq(2) [OF assms]
  have "scatter (main_pos hf (push_bit lg 1 - 1)) (2 ^ lg) (\<lambda>_. None) (entry_next (replicate (2 ^ lg) zero_entry))"
    using main_pos_less [OF lg] by (rule scatter_empty)
  with lg show "table_inv hf t" by (auto simp: table_inv_def t)
  show "table_map t = Map.empty" by (auto simp: table_map_def t zero_entry_def find_None_iff fun_eq_iff)
qed (use table_init_eq [OF assms] in simp_all)

lemma table_init_None:
  assumes "table_init lg a = (None, a')" and "lg < 32"
  shows "arena_refuses a"
proof -
  have n: "unat (push_bit lg 1 :: u32) = 2 ^ lg" using assms(2) by (rule unat_push_bit_1)
  have "(2 :: nat) ^ lg \<le> 2 ^ 32" using assms(2) by (intro power_increasing) simp_all
  then have "\<not> (2 :: nat) ^ lg > (2 ^ 64 - 1) div sizeof_upb_tabent" by (simp add: sizeof_upb_tabent_def)
  with assms n show ?thesis
    by (auto simp: table_init_def upb_table_size_def Let_def sizeof_upb_tabent_def
        intro: arena_refuses_Malloc split: option.splits prod.splits)
qed

text \<open>\<open>next\<close> finds the next full entry.\<close>

lemma table_next_eq:
  assumes n: "unat (upb_table_size t) = length (tab_entries t)" and i: "unat (i + 1) \<le> length (tab_entries t)"
  shows "table_next t i =
    (case find (\<lambda>j. \<not> upb_tabent_isempty (tab_entries t ! j)) [unat (i + 1)..<length (tab_entries t)] of
       None \<Rightarrow> - 2 | Some j \<Rightarrow> of_nat j)"
  using assms
proof (induction t i rule: table_next.induct)
  case (1 t i)
  let ?n = "length (tab_entries t)"
  have ge: "ucast (upb_table_size t) \<le> i + 1 \<longleftrightarrow> ?n \<le> unat (i + 1)"
    by (simp only: word_le_nat_alt unat_ucast_u32 1(2))
  show ?case
  proof (cases "?n \<le> unat (i + 1)")
    case True
    then show ?thesis using ge by (subst table_next.simps) (simp add: Let_def)
  next
    case False
    have "?n < 2 ^ 32" using unsigned_less [where ?'a = nat and w = "upb_table_size t"] 1(2) by simp
    with False have "unat (i + 1) + unat (1 :: u64) < 2 ^ LENGTH(64)" by simp
    then have s: "unat (i + 1 + 1) = Suc (unat (i + 1))" using unat_add_lem [of "i + 1" 1] by simp
    have r: "[unat (i + 1)..<?n] = unat (i + 1) # [Suc (unat (i + 1))..<?n]" using False by (simp add: upt_conv_Cons)
    show ?thesis
    proof (cases "upb_tabent_isempty (tab_entries t ! unat (i + 1))")
      case True
      with False ge have "table_next t i = table_next t (i + 1)"
        by (subst table_next.simps) (simp add: Let_def)
      with 1(1) [OF refl _ True] False ge s 1(2) True r show ?thesis by simp
    next
      case ne: False
      with False ge have "table_next t i = i + 1" by (subst table_next.simps) (simp add: Let_def)
      with ne r show ?thesis by simp
    qed
  qed
qed

lemma table_next_advances: "table_next t i < ucast (upb_table_size t) \<Longrightarrow> i + 1 \<le> table_next t i"
proof (induction t i rule: table_next.induct)
  case (1 t i)
  show ?case
  proof (cases "i + 1 \<ge> ucast (upb_table_size t) \<or> \<not> upb_tabent_isempty (tab_entries t ! unat (i + 1))")
    case True
    have "\<not> (- 2 :: u64) < ucast (upb_table_size t)"
      using unsigned_less [where ?'a = nat and w = "upb_table_size t"] by (simp add: word_less_nat_alt unat_ucast_u32)
    with True 1(2) have "table_next t i = i + 1" by (subst table_next.simps, subst (asm) table_next.simps) (auto simp: Let_def split: if_splits)
    then show ?thesis by simp
  next
    case False
    then have eq: "table_next t i = table_next t (i + 1)" by (subst table_next.simps) (simp add: Let_def)
    have lt: "i + 1 < ucast (upb_table_size t)" using False by (simp add: not_le)
    have "i + 1 + 1 \<le> table_next t (i + 1)" using 1 False eq by simp
    moreover have "i + 1 \<le> i + 1 + 1" using unat_Suc_below [OF lt] by (simp add: word_le_nat_alt)
    ultimately show ?thesis unfolding eq by simp
  qed
qed

lemma popcnt_mask: "lg \<le> 32 \<Longrightarrow> upb_popcnt32 (push_bit lg 1 - 1) = lg"
proof -
  have "upb_popcnt32 (mask n) = n" if "n \<le> 32" for n
    using that
  proof (induction n)
    case 0
    show ?case by (subst upb_popcnt32.simps) simp
  next
    case (Suc n)
    have b0: "bit (mask (Suc n) :: u32) 0" by (simp add: bit_mask_iff)
    then have "mask (Suc n) \<noteq> (0 :: u32)" by auto
    moreover have "mask (Suc n) AND 1 = (1 :: u32)" using b0 by (simp add: and_one_eq mod_2_eq_odd bit_0)
    moreover have "drop_bit 1 (mask (Suc n)) = (mask n :: u32)"
      using Suc.prems by (auto intro!: bit_word_eqI simp: bit_simps)
    ultimately show ?case using Suc by (subst upb_popcnt32.simps) simp
  qed
  moreover have "push_bit lg 1 - 1 = (mask lg :: u32)" by (simp add: mask_eq_exp_minus_1 push_bit_eq_mult)
  ultimately show "lg \<le> 32 \<Longrightarrow> upb_popcnt32 (push_bit lg 1 - 1) = lg" by simp
qed

text \<open>The loops that fill a larger table with the entries of an old one.\<close>

function rehash :: "'k hashfunc \<Rightarrow> 'k upb_table \<Rightarrow> 'k upb_table \<Rightarrow> u64 \<Rightarrow> 'k upb_table option" where
  "rehash hashfunc t new_table i =
     (let i = table_next t i in
      if i \<ge> ucast (upb_table_size t) then Some new_table
      else
        let e = tab_entries t ! unat i in
        (case table_insert new_table (ent_key e) (ent_val e) (hashfunc (ent_key e)) hashfunc of
           None \<Rightarrow> None
         | Some new_table \<Rightarrow> rehash hashfunc t new_table i))"
  by pat_completeness auto
termination
proof (relation "measure (\<lambda>(h, t, n, i). unat (upb_table_size t) - unat (i + 1))")
  fix h :: "'k hashfunc" and t n n' :: "'k upb_table" and i x :: u64
  assume x: "x = table_next t i" "\<not> x \<ge> ucast (upb_table_size t)"
  then have lt: "x < ucast (upb_table_size t)" by simp
  then have "unat x < unat (upb_table_size t)" by (simp add: word_less_nat_alt unat_ucast_u32)
  moreover note unat_Suc_below [OF lt]
  moreover have "table_next t i < ucast (upb_table_size t)" using x by simp
  from table_next_advances [OF this] have "unat (i + 1) \<le> unat x" by (simp add: x(1) word_le_nat_alt)
  ultimately show "((h, t, n', x), (h, t, n, i)) \<in> measure (\<lambda>(h, t, n, i). unat (upb_table_size t) - unat (i + 1))"
    by simp
qed simp

declare rehash.simps [simp del]

lemma find_upt_Some:
  "find P [m..<n] = Some j \<Longrightarrow> m \<le> j \<and> j < n \<and> P j \<and> (\<forall>i. m \<le> i \<longrightarrow> i < j \<longrightarrow> \<not> P i)"
proof -
  assume "find P [m..<n] = Some j"
  then obtain l where l: "l < n - m" "P (m + l)" "j = m + l" "\<forall>k<l. \<not> P (m + k)"
    by (auto simp: find_Some_iff)
  have "\<not> P i" if "m \<le> i" "i < j" for i
    using l(4) [rule_format, of "i - m"] l(3) that by simp
  with l show ?thesis by auto
qed

text \<open>What \<open>next\<close> answers in a table that satisfies the invariant.\<close>

lemma table_next_cases:
  assumes inv: "table_inv hf t" and i: "unat (i + 1) \<le> length (tab_entries t)"
  obtains j where "table_next t i = of_nat j" "unat (of_nat j :: u64) = j" "unat ((of_nat j :: u64) + 1) = Suc j"
    "unat (i + 1) \<le> j" "j < length (tab_entries t)"
    "ent_key (tab_entries t ! j) \<noteq> None" "\<And>l. unat (i + 1) \<le> l \<Longrightarrow> l < j \<Longrightarrow> entry_kv (tab_entries t) l = None"
    "table_next t i < ucast (upb_table_size t)"
  | "table_next t i \<ge> ucast (upb_table_size t)" "\<And>l. unat (i + 1) \<le> l \<Longrightarrow> entry_kv (tab_entries t) l = None"
proof -
  note n = table_inv_size [OF inv]
  note eq = table_next_eq [OF n(1) i]
  show ?thesis
  proof (cases "find (\<lambda>j. \<not> upb_tabent_isempty (tab_entries t ! j)) [unat (i + 1)..<length (tab_entries t)]")
    case None
    then have "\<forall>l. unat (i + 1) \<le> l \<longrightarrow> l < length (tab_entries t) \<longrightarrow> upb_tabent_isempty (tab_entries t ! l)"
      by (auto simp: find_None_iff)
    moreover have "unat (- 2 :: u64) = 2 ^ 64 - 2" by simp
    then have "table_next t i \<ge> ucast (upb_table_size t)" using eq None n
      by (simp add: word_le_nat_alt unat_ucast_u32)
    ultimately show ?thesis using that(2) by (auto simp: entry_kv_None upb_tabent_isempty_def)
  next
    case (Some j)
    note j = find_upt_Some [OF Some]
    have u: "unat (of_nat j :: u64) = j" using j n by (simp add: unat_of_nat take_bit_nat_eq_self)
    then have "unat (of_nat j :: u64) + unat (1 :: u64) < 2 ^ LENGTH(64)" using j n by simp
    then have "unat ((of_nat j :: u64) + 1) = Suc j" using unat_add_lem [of "of_nat j" "1 :: u64"] u by simp
    moreover have "table_next t i < ucast (upb_table_size t)" using eq Some u j n
      by (simp add: word_less_nat_alt unat_ucast_u32)
    ultimately show ?thesis using that(1) [of j] eq Some u j
      by (auto simp: entry_kv_None upb_tabent_isempty_def)
  qed
qed

context hash_keys
begin

lemma rehash_ok:
  assumes inv: "table_inv hashfunc t"
    and "table_inv hashfunc new" and "unat (i + 1) \<le> length (tab_entries t)"
    and "\<And>k v. table_map new k = Some v \<longleftrightarrow> (\<exists>j < unat (i + 1). entry_kv (tab_entries t) j = Some (k, v))"
    and "unat (tab_count new) = card (dom (entry_kv (tab_entries t)) \<inter> {..<unat (i + 1)})"
    and "length (tab_entries new) = n" and room: "unat (tab_count t) \<le> n - n div 8"
  shows "\<exists>new'. rehash hashfunc t new i = Some new' \<and> table_inv hashfunc new' \<and> table_map new' = table_map t \<and>
    tab_count new' = tab_count t \<and> tab_mask new' = tab_mask new"
  using assms(2-6)
proof (induction "length (tab_entries t) - unat (i + 1)" arbitrary: new i rule: less_induct)
  case less
  note s = table_inv_scatter [OF inv]
  let ?es = "tab_entries t" and ?s = "unat (i + 1)"
  have fin: "finite (dom (entry_kv ?es))" using scatter_dom(1) [OF s] finite_subset by blast
  have count: "unat (tab_count t) = card (dom (entry_kv ?es))" using inv by (simp add: table_inv_def)
  show ?case
  proof (cases rule: table_next_cases [OF inv less.prems(2)])
    case (1 j)
    from 1(6) obtain k where k: "ent_key (?es ! j) = Some k" by auto
    define v where "v = ent_val (?es ! j)"
    have kv: "entry_kv ?es j = Some (k, v)" using k 1(5) by (simp add: entry_kv_iff v_def)
    have below: "(\<exists>l < Suc j. entry_kv ?es l = Some (k', v')) \<longleftrightarrow>
        k' = k \<and> v' = v \<or> (\<exists>l < ?s. entry_kv ?es l = Some (k', v'))" for k' v'
    proof -
      have "l < ?s \<or> l = j" if "l < Suc j" "entry_kv ?es l = Some (k', v')" for l
        using 1(7) [of l] that by (metis less_Suc_eq not_le option.distinct(1))
      moreover have "l < Suc j" if "l < ?s" for l using that 1(4) by simp
      moreover have "j < Suc j" by simp
      ultimately show ?thesis using kv by (metis option.inject prod.inject)
    qed
    have fresh: "table_map new k = None"
    proof -
      have "table_map new k \<noteq> Some w" for w
      proof
        assume "table_map new k = Some w"
        then obtain l where l: "l < ?s" "entry_kv ?es l = Some (k, w)" using less.prems(3) by blast
        from scatter_unique [OF s l(2) kv] l(1) 1(4) show False by simp
      qed
      then show ?thesis by (cases "table_map new k") auto
    qed
    have dom: "dom (entry_kv ?es) \<inter> {..<Suc j} = insert j (dom (entry_kv ?es) \<inter> {..<?s})"
    proof (intro set_eqI iffI)
      fix l
      assume l: "l \<in> dom (entry_kv ?es) \<inter> {..<Suc j}"
      then have "\<not> (?s \<le> l \<and> l < j)" using 1(7) [of l] by auto
      with l show "l \<in> insert j (dom (entry_kv ?es) \<inter> {..<?s})" by auto
    qed (use kv 1(4) in auto)
    have card: "card (dom (entry_kv ?es) \<inter> {..<Suc j}) = Suc (unat (tab_count new))"
      unfolding dom using fin 1(4) less.prems(4) by simp
    have "card (dom (entry_kv ?es) \<inter> {..<Suc j}) \<le> unat (tab_count t)"
      unfolding count using fin by (intro card_mono) auto
    with card room less.prems(5)
    have load: "unat (tab_count new) + 1 \<le> length (tab_entries new) - length (tab_entries new) div 8" by simp
    from table_insert_ok [OF less.prems(1) fresh load, of v] obtain new' where new':
      "table_insert new (Some k) v (hashfunc (Some k)) hashfunc = Some new'" "table_inv hashfunc new'"
      "table_map new' = (table_map new)(k \<mapsto> v)" "tab_count new' = tab_count new + 1" "tab_mask new' = tab_mask new"
      by blast
    have step: "rehash hashfunc t new i = rehash hashfunc t new' (of_nat j)"
    proof -
      have "\<not> ucast (upb_table_size t) \<le> (of_nat j :: u64)" using 1(8) unfolding 1(1) by (simp add: not_le)
      with new'(1) k show ?thesis by (subst rehash.simps) (simp add: Let_def 1(1,2) v_def)
    qed
    have len: "length (tab_entries new') = n"
    proof -
      have "upb_table_size new' = upb_table_size new" by (simp add: upb_table_size_def new'(5))
      with table_inv_size(1) [OF new'(2)] table_inv_size(1) [OF less.prems(1)] less.prems(5) show ?thesis by simp
    qed
    have cnt: "unat (tab_count new') = card (dom (entry_kv ?es) \<inter> {..<Suc j})"
    proof -
      have "unat (tab_count new) + 1 < 2 ^ 32" using load table_inv_size(3) [OF less.prems(1)] by linarith
      then have "unat (tab_count new) + unat (1 :: u32) < 2 ^ LENGTH(32)" by simp
      then show ?thesis unfolding card new'(4) using unat_add_lem [of "tab_count new" 1] by simp
    qed
    have "\<exists>new''. rehash hashfunc t new' (of_nat j) = Some new'' \<and> table_inv hashfunc new'' \<and> table_map new'' = table_map t \<and>
      tab_count new'' = tab_count t \<and> tab_mask new'' = tab_mask new'"
    proof (rule less.hyps)
      show "length ?es - unat (of_nat j + 1 :: u64) < length ?es - ?s" unfolding 1(3) using 1(4,5) by simp
      show "unat (of_nat j + 1 :: u64) \<le> length ?es" unfolding 1(3) using 1(5) by simp
      show "table_map new' k' = Some v' \<longleftrightarrow> (\<exists>l < unat (of_nat j + 1 :: u64). entry_kv ?es l = Some (k', v'))" for k' v'
        unfolding 1(3) below new'(3) using less.prems(3) [of k' v'] fresh by auto
      show "unat (tab_count new') = card (dom (entry_kv ?es) \<inter> {..<unat (of_nat j + 1 :: u64)})" unfolding 1(3) by (rule cnt)
    qed (rule new' len)+
    with step new'(5) show ?thesis by simp
  next
    case 2
    then have "rehash hashfunc t new i = Some new" by (subst rehash.simps) (simp add: Let_def)
    moreover have "table_map new = table_map t"
    proof
      fix k
      have "table_map new k = Some v \<longleftrightarrow> table_map t k = Some v" for v
        using less.prems(3) [of k v] table_map_iff [OF s, of k v] 2(2) by (metis not_le option.distinct(1))
      then show "table_map new k = table_map t k" by (metis option.exhaust)
    qed
    moreover have "dom (entry_kv ?es) \<inter> {..<?s} = dom (entry_kv ?es)" using 2(2) by (force simp: not_le)
    then have "tab_count new = tab_count t" using less.prems(4) count by (metis word_unat_eq_iff)
    ultimately show ?thesis using less.prems(1) by simp
  qed
qed

text \<open>A new table of twice the size holds the same map, and has room.\<close>

lemma table_grow_ok:
  assumes inv: "table_inv hashfunc t" and i: "table_init (upb_log2_table_size t + 1) a = (Some new, a')"
  shows "\<exists>new'. rehash hashfunc t new (- 1) = Some new' \<and> table_inv hashfunc new' \<and> table_map new' = table_map t \<and>
    tab_count new' = tab_count t \<and> length (tab_entries new') = 2 * length (tab_entries t) \<and>
    unat (tab_count new') + 1 \<le> length (tab_entries new') - length (tab_entries new') div 8"
proof -
  note new = table_init_ok(1) [OF i, where hf = hashfunc] table_init_ok(2-) [OF i]
  from inv obtain lg where lg: "lg < 32" "tab_mask t = push_bit lg 1 - 1" "length (tab_entries t) = 2 ^ lg"
    by (auto simp: table_inv_def)
  have "upb_log2_table_size t = lg" unfolding upb_log2_table_size_def lg(2) by (rule popcnt_mask) (use lg in simp)
  with new(3) have n: "length (tab_entries new) = 2 * length (tab_entries t)" by (simp add: lg(3))
  have c: "unat (tab_count t) \<le> length (tab_entries t) - length (tab_entries t) div 8" using inv by (simp add: table_inv_def)
  have room: "unat (tab_count t) + 1 \<le> length (tab_entries new) - length (tab_entries new) div 8"
    using c table_inv_size(2) [OF inv] unfolding n by linarith
  have "\<exists>new'. rehash hashfunc t new (- 1) = Some new' \<and> table_inv hashfunc new' \<and> table_map new' = table_map t \<and>
    tab_count new' = tab_count t \<and> tab_mask new' = tab_mask new"
    by (rule rehash_ok [OF inv new(1) _ _ _ refl]) (use room new(2,4) in simp_all)
  then obtain new' where r: "rehash hashfunc t new (- 1) = Some new'" "table_inv hashfunc new'"
    "table_map new' = table_map t" "tab_count new' = tab_count t" "tab_mask new' = tab_mask new" by blast
  have "length (tab_entries new') = length (tab_entries new)"
    using table_inv_size(1) [OF r(2)] table_inv_size(1) [OF new(1)] r(5) by (simp add: upb_table_size_def)
  with r room n show ?thesis by simp
qed

end

end
