(* ===== verification/Key_Table.thy ===== *)
theory Key_Table
  imports Hash_Table
begin

text \<open>
  What the tables of strings and of integers share above the base table: making room before an insertion,
  the enumeration of the entries, and the interface through which a map uses either of them.
\<close>

section \<open>Room for an insertion\<close>

definition entries_needed_for :: "nat \<Rightarrow> nat" where
  "entries_needed_for expected_size = expected_size + 1 + expected_size div 7"

text \<open>The assertion of \<open>_upb_entries_needed_for\<close>, and those of \<open>insert\<close> about the key before and after.\<close>

lemma entries_needed_for_enough: "expected \<le> entries_needed_for expected - entries_needed_for expected div 8"
proof -
  define q r where "q = expected div 7" and "r = expected mod 7"
  then have e: "expected = 7 * q + r" "r < 7" by simp_all
  have "entries_needed_for expected = 8 * q + (r + 1)" using e by (simp add: entries_needed_for_def)
  moreover have "(8 * q + (r + 1)) div 8 = q" using e(2) by simp
  ultimately show ?thesis using e(1) by simp
qed

context hash_keys
begin

lemma table_insert_asserts:
  assumes inv: "table_inv hashfunc t" and fresh: "table_map t k = None"
    and ins: "table_insert t (Some k) v (hashfunc (Some k)) hashfunc = Some t'" "table_inv hashfunc t'"
      "table_map t' = (table_map t)(k \<mapsto> v)"
  shows "findentry t k (hashfunc (Some k)) eql = Some None"
    "\<exists>i. findentry t' k (hashfunc (Some k)) eql = Some (Some i) \<and> ent_key (tab_entries t' ! i) = Some k \<and> ent_val (tab_entries t' ! i) = v"
proof -
  show "findentry t k (hashfunc (Some k)) eql = Some None"
  proof (cases rule: findentry_ok [OF inv, of k])
    case (1 i w)
    then have "table_map t k = Some w" using table_map_iff [OF table_inv_scatter [OF inv]] by blast
    with fresh show ?thesis by simp
  qed
  show "\<exists>i. findentry t' k (hashfunc (Some k)) eql = Some (Some i) \<and> ent_key (tab_entries t' ! i) = Some k \<and> ent_val (tab_entries t' ! i) = v"
  proof (cases rule: findentry_ok [OF ins(2), of k])
    case (1 i w)
    then have "table_map t' k = Some w" using table_map_iff [OF table_inv_scatter [OF ins(2)]] by blast
    with ins(3) 1 show ?thesis by (simp add: entry_kv_iff)
  next
    case 2
    then have "table_map t' k = None" using table_map_None [OF table_inv_scatter [OF ins(2)]] by blast
    with ins(3) show ?thesis by simp
  qed
qed

end

lemma table_grow_init:
  assumes "table_inv hf t" and "table_init (upb_log2_table_size t + 1) a = (None, a')" and "length (tab_entries t) < 2 ^ 31"
  shows "arena_refuses a"
proof -
  from assms(1) obtain lg where lg: "lg < 32" "tab_mask t = push_bit lg 1 - 1" "length (tab_entries t) = 2 ^ lg"
    by (auto simp: table_inv_def)
  have "upb_log2_table_size t = lg" unfolding upb_log2_table_size_def lg(2) by (rule popcnt_mask) (use lg in simp)
  moreover have "lg < 31" using assms(3) unfolding lg(3) by (rule power_less_imp_less_exp [rotated]) simp
  ultimately show ?thesis using table_init_None [OF assms(2)] by simp
qed

lemma table_init_arena: "table_init lg a = (t, a') \<Longrightarrow> arena_refuses a' = arena_refuses a"
  by (auto simp: table_init_def Let_def dest: arena_Malloc_same split: if_splits option.splits prod.splits)

text \<open>Making room before an insertion: the same map, with a free entry.\<close>

context hash_keys
begin

lemma table_room:
  assumes inv: "table_inv hashfunc t"
  obtains t' a' where "(if isfull t then
        (case table_init (upb_log2_table_size t + 1) a of
           (None, a) \<Rightarrow> Some (False, t, a)
         | (Some new_table, a) \<Rightarrow>
             (case rehash hashfunc t new_table (- 1) of None \<Rightarrow> None | Some t \<Rightarrow> Some (True, t, a)))
      else Some (True, t, a)) = Some (True, t', a')"
      "table_inv hashfunc t'" "table_map t' = table_map t"
      "unat (tab_count t') + 1 \<le> length (tab_entries t') - length (tab_entries t') div 8"
      "arena_refuses a' = arena_refuses a" "tab_count t' = tab_count t"
      "length (tab_entries t') = length (tab_entries t) \<or>
       length (tab_entries t') = 2 * length (tab_entries t) \<and> isfull t"
  | a' where "(if isfull t then
        (case table_init (upb_log2_table_size t + 1) a of
           (None, a) \<Rightarrow> Some (False, t, a)
         | (Some new_table, a) \<Rightarrow>
             (case rehash hashfunc t new_table (- 1) of None \<Rightarrow> None | Some t \<Rightarrow> Some (True, t, a)))
      else Some (True, t, a)) = Some (False, t, a')" "arena_refuses a \<or> \<not> length (tab_entries t) < 2 ^ 31"
      "arena_refuses a' = arena_refuses a"
proof (cases "isfull t")
  case False
  have "unat (tab_count t) \<le> length (tab_entries t) - length (tab_entries t) div 8" using inv by (simp add: table_inv_def)
  moreover have "unat (tab_count t) \<noteq> length (tab_entries t) - length (tab_entries t) div 8"
    using False isfull_iff [OF inv] by simp
  ultimately show ?thesis using False inv by (intro that(1) [of t a]) simp_all
next
  case True
  show ?thesis
  proof (cases "fst (table_init (upb_log2_table_size t + 1) a) :: 'k upb_table option")
    case None
    then obtain a1 where i: "table_init (upb_log2_table_size t + 1) a = (None :: 'k upb_table option, a1)"
      by (cases "table_init (upb_log2_table_size t + 1) a :: 'k upb_table option \<times> upb_Arena") auto
    with True table_grow_init [OF inv i] table_init_arena [OF i] show ?thesis by (intro that(2) [of a1]) auto
  next
    case (Some new)
    then obtain a1 where i: "table_init (upb_log2_table_size t + 1) a = (Some new, a1)"
      by (cases "table_init (upb_log2_table_size t + 1) a :: 'k upb_table option \<times> upb_Arena") auto
    from table_grow_ok [OF inv i] obtain t' where t':
      "rehash hashfunc t new (- 1) = Some t'" "table_inv hashfunc t'" "table_map t' = table_map t"
      "tab_count t' = tab_count t" "length (tab_entries t') = 2 * length (tab_entries t)"
      "unat (tab_count t') + 1 \<le> length (tab_entries t') - length (tab_entries t') div 8" by blast
    show ?thesis
      by (rule that(1) [of t' a1]) (use True i t' table_init_arena [OF i] in simp_all)
  qed
qed

end

lemma table_insert_size:
  "table_insert t key v h hf = Some t' \<Longrightarrow>
    tab_count t' = tab_count t + 1 \<and> length (tab_entries t') = length (tab_entries t)"
  by (auto simp: table_insert_def Let_def split: if_splits option.splits)

section \<open>Writing a value\<close>

lemma scatter_set_value:
  assumes s: "scatter pos n kv nxt" and i: "kv i = Some (k, w)"
  shows "scatter pos n (kv(i \<mapsto> (k, v))) nxt"
proof (rule scatterI)
  let ?kv = "kv(i \<mapsto> (k, v))"
  have b: "bucket pos ?kv p = bucket pos kv p" for p using i by (auto simp: bucket_def)
  show "\<exists>c. chain pos ?kv nxt p c" for p using scatter_chain [OF s, of p] unfolding chain_def b .
  show "dom ?kv \<subseteq> {..<n}" using scatter_dom(1) [OF s] i by auto
  show "pos l < n" for l by (rule scatter_dom(2) [OF s])
  fix a b l x y
  assume "?kv a = Some (l, x)" "?kv b = Some (l, y)"
  then have "\<exists>x. kv a = Some (l, x)" "\<exists>y. kv b = Some (l, y)" using i by (auto split: if_splits)
  then show "a = b" using scatter_unique [OF s] by blast
qed

lemma table_set_value_ok:
  assumes inv: "table_inv hf t" and i: "entry_kv (tab_entries t) i = Some (k, w)"
  shows "table_inv hf (t\<lparr>tab_entries := (tab_entries t)[i := (tab_entries t ! i)\<lparr>ent_val := v\<rparr>]\<rparr>)"
    "table_map (t\<lparr>tab_entries := (tab_entries t)[i := (tab_entries t ! i)\<lparr>ent_val := v\<rparr>]\<rparr>) = (table_map t)(k \<mapsto> v)"
proof -
  let ?es = "tab_entries t" let ?es' = "?es[i := (?es ! i)\<lparr>ent_val := v\<rparr>]" let ?t = "t\<lparr>tab_entries := ?es'\<rparr>"
  have n: "i < length ?es" "ent_key (?es ! i) = Some k" using i by (simp_all add: entry_kv_iff)
  have kv: "entry_kv ?es' = (entry_kv ?es)(i \<mapsto> (k, v))" using n by (simp add: entry_kv_update)
  have nxt: "entry_next ?es' = entry_next ?es" using n by (auto simp: entry_next_update entry_next_nth)
  note s = scatter_set_value [OF table_inv_scatter [OF inv] i, of v]
  have "dom (entry_kv ?es') = dom (entry_kv ?es)" unfolding kv using i by auto
  then show "table_inv hf ?t" using inv s kv nxt by (simp add: table_inv_def)
  have u: "entry_kv ?es j = Some (k, x) \<Longrightarrow> j = i" for j x by (rule scatter_unique [OF table_inv_scatter [OF inv] _ i])
  have "(\<exists>j. entry_kv (tab_entries ?t) j = Some (l, x)) \<longleftrightarrow> ((table_map t)(k \<mapsto> v)) l = Some x" for l x
  proof (cases "l = k")
    case True
    then show ?thesis using u by (auto simp: kv split: if_splits)
  next
    case False
    then have "entry_kv ?es' j = Some (l, x) \<longleftrightarrow> entry_kv ?es j = Some (l, x)" for j using i by (auto simp: kv)
    with False show ?thesis using table_map_iff [OF table_inv_scatter [OF inv], of l x] by simp
  qed
  moreover have "scatter (main_pos hf (tab_mask t)) (length ?es) (entry_kv (tab_entries ?t)) (entry_next ?es)"
    using s kv by simp
  ultimately show "table_map ?t = (table_map t)(k \<mapsto> v)" by (intro table_map_eqI) blast+
qed

section \<open>The entries in order\<close>

text \<open>The pairs that \<open>next\<close> visits after an index.\<close>

function table_iterate :: "'k upb_table \<Rightarrow> u64 \<Rightarrow> ('k \<times> upb_value) list" where
  "table_iterate t iter =
     (let i = table_next t iter in
      if i < ucast (upb_table_size t) then
        (the (ent_key (tab_entries t ! unat i)), ent_val (tab_entries t ! unat i)) # table_iterate t i
      else [])"
  by pat_completeness auto
termination
proof (relation "measure (\<lambda>(t, i). unat (upb_table_size t) - unat (i + 1))")
  fix t :: "'k upb_table" and iter j
  assume j: "j = table_next t iter" "j < ucast (upb_table_size t)"
  then have "unat j < unat (upb_table_size t)" by (simp add: word_less_nat_alt unat_ucast_u32)
  moreover have "iter + 1 \<le> j" using table_next_advances [of t iter] j by simp
  ultimately show "((t, j), (t, iter)) \<in> measure (\<lambda>(t, i). unat (upb_table_size t) - unat (i + 1))"
    using unat_Suc_below [OF j(2)] by (simp add: word_le_nat_alt)
qed simp

declare table_iterate.simps [simp del]

lemma table_iterate_ok:
  assumes inv: "table_inv hf t" and "unat (iter + 1) \<le> length (tab_entries t)"
  shows "distinct (map fst (table_iterate t iter)) \<and>
    (\<forall>k v. (k, v) \<in> set (table_iterate t iter) \<longleftrightarrow>
       (\<exists>j. unat (iter + 1) \<le> j \<and> entry_kv (tab_entries t) j = Some (k, v)))"
  using assms(2)
proof (induction "length (tab_entries t) - unat (iter + 1)" arbitrary: iter rule: less_induct)
  case less
  let ?es = "tab_entries t" and ?s = "unat (iter + 1)"
  show ?case
  proof (cases rule: table_next_cases [OF inv less.prems])
    case (1 j)
    from 1(6) obtain k where k: "ent_key (?es ! j) = Some k" by auto
    define v where "v = ent_val (?es ! j)"
    have kv: "entry_kv ?es j = Some (k, v)" using k 1(5) by (simp add: entry_kv_iff v_def)
    have step: "table_iterate t iter = (k, v) # table_iterate t (of_nat j)"
      by (subst table_iterate.simps) (use 1(8) k in \<open>simp add: Let_def 1(1,2) v_def\<close>)
    have IH: "distinct (map fst (table_iterate t (of_nat j))) \<and>
      (\<forall>k v. (k, v) \<in> set (table_iterate t (of_nat j)) \<longleftrightarrow>
         (\<exists>l. unat (of_nat j + 1 :: u64) \<le> l \<and> entry_kv ?es l = Some (k, v)))"
      by (rule less.hyps) (use 1(3,4,5) in auto)
    have split: "(\<exists>l. ?s \<le> l \<and> entry_kv ?es l = Some z) \<longleftrightarrow> z = (k, v) \<or> (\<exists>l. Suc j \<le> l \<and> entry_kv ?es l = Some z)" for z
    proof
      assume "\<exists>l. ?s \<le> l \<and> entry_kv ?es l = Some z"
      then obtain l where l: "?s \<le> l" "entry_kv ?es l = Some z" by blast
      then have "\<not> l < j" using 1(7) [of l] by auto
      then consider "l = j" | "Suc j \<le> l" by linarith
      then show "z = (k, v) \<or> (\<exists>l. Suc j \<le> l \<and> entry_kv ?es l = Some z)" using l kv by cases auto
    next
      assume "z = (k, v) \<or> (\<exists>l. Suc j \<le> l \<and> entry_kv ?es l = Some z)"
      then show "\<exists>l. ?s \<le> l \<and> entry_kv ?es l = Some z"
      proof
        assume "\<exists>l. Suc j \<le> l \<and> entry_kv ?es l = Some z"
        then obtain l where "Suc j \<le> l" "entry_kv ?es l = Some z" by blast
        with 1(4) show ?thesis by (intro exI [of _ l]) simp
      qed (use kv 1(4) in blast)
    qed
    have "k \<notin> fst ` set (table_iterate t (of_nat j))"
    proof
      assume "k \<in> fst ` set (table_iterate t (of_nat j))"
      then obtain w where "(k, w) \<in> set (table_iterate t (of_nat j))" by auto
      with IH obtain l where l: "Suc j \<le> l" "entry_kv ?es l = Some (k, w)" unfolding 1(3) by blast
      from scatter_unique [OF table_inv_scatter [OF inv] l(2) kv] l(1) show False by simp
    qed
    then show ?thesis using IH unfolding step 1(3) split by auto
  next
    case 2
    have "table_iterate t iter = []"
      by (subst table_iterate.simps) (use 2(1) in \<open>simp add: Let_def not_less\<close>)
    then show ?thesis using 2(2) by auto
  qed
qed

lemma map_eqI: "(\<And>k v. f k = Some v \<longleftrightarrow> g k = Some v) \<Longrightarrow> f = g"
proof
  fix k
  assume "\<And>k v. f k = Some v \<longleftrightarrow> g k = Some v"
  then show "f k = g k" by (metis option.exhaust)
qed

section \<open>The interface of a table of keys\<close>

text \<open>
  What the string and the integer tables promise to a map: a lookup answers what the abstract map
  holds, a removal and an insertion change it at one key. An insertion that fails leaves it as it
  was; it fails only when the arena refuses, or when the key or the table has outgrown its size.
\<close>

locale map_table =
  fixes inv :: "'t \<Rightarrow> bool" and contents :: "'t \<Rightarrow> 'k \<Rightarrow> upb_value option"
    and lookup :: "'t \<Rightarrow> 'k \<Rightarrow> upb_value option option"
    and del :: "'t \<Rightarrow> 'k \<Rightarrow> (upb_value option \<times> 't) option"
    and put :: "'t \<Rightarrow> 'k \<Rightarrow> upb_value \<Rightarrow> upb_Arena \<Rightarrow> (bool \<times> 't \<times> upb_Arena) option"
    and fits :: "'t \<Rightarrow> 'k \<Rightarrow> bool"
  assumes lookup_law: "inv t \<Longrightarrow> lookup t k = Some (contents t k)"
    and remove_law: "inv t \<Longrightarrow> \<exists>t'. del t k = Some (contents t k, t') \<and> inv t' \<and> contents t' = (contents t)(k := None) \<and>
      (\<forall>k'. fits t k' \<longrightarrow> fits t' k')"
    and insert_law: "inv t \<Longrightarrow> contents t k = None \<Longrightarrow> \<exists>ok t' a'. put t k v a = Some (ok, t', a') \<and> inv t' \<and>
      contents t' = (if ok then (contents t)(k \<mapsto> v) else contents t) \<and> (ok \<or> arena_refuses a \<or> \<not> fits t k)"

text \<open>A map replaces an entry by removing it first.\<close>

definition table_replace ::
  "('t \<Rightarrow> 'k \<Rightarrow> (upb_value option \<times> 't) option) \<Rightarrow>
   ('t \<Rightarrow> 'k \<Rightarrow> upb_value \<Rightarrow> upb_Arena \<Rightarrow> (bool \<times> 't \<times> upb_Arena) option) \<Rightarrow>
   't \<Rightarrow> 'k \<Rightarrow> upb_value \<Rightarrow> upb_Arena \<Rightarrow> (bool \<times> bool \<times> 't \<times> upb_Arena) option" where
  "table_replace del put t k v a =
     (case del t k of
        None \<Rightarrow> None
      | Some (old, t) \<Rightarrow>
          (case put t k v a of
             None \<Rightarrow> None
           | Some (ok, t, a) \<Rightarrow> Some (ok, old \<noteq> None, t, a)))"

context map_table
begin

lemma replace_ok:
  assumes "inv t"
  obtains ok t' a' where "table_replace del put t k v a = Some (ok, contents t k \<noteq> None, t', a')" "inv t'"
    "contents t' = (contents t)(k := if ok then Some v else None)" "ok \<or> arena_refuses a \<or> \<not> fits t k"
proof -
  from remove_law [OF assms, of k] obtain t1 where t1: "del t k = Some (contents t k, t1)" "inv t1"
    "contents t1 = (contents t)(k := None)" "\<forall>k'. fits t k' \<longrightarrow> fits t1 k'" by blast
  then have "contents t1 k = None" by simp
  from insert_law [OF t1(2) this, of v a] obtain ok t2 a2 where t2: "put t1 k v a = Some (ok, t2, a2)" "inv t2"
    "contents t2 = (if ok then (contents t1)(k \<mapsto> v) else contents t1)" "ok \<or> arena_refuses a \<or> \<not> fits t1 k" by blast
  then have "ok \<or> arena_refuses a \<or> \<not> fits t k" using t1(4) by blast
  with t1 t2 that [of ok t2 a2] show ?thesis by (simp add: table_replace_def)
qed

end

end
