(* ===== verification/Str_Table.thy ===== *)
theory Str_Table
  imports Key_Table
begin

text \<open>
  \<open>upb_strtable\<close> of \<open>upb/hash/common.c\<close> and \<open>str_table.h\<close>: the hash table of strings, with its hash
  function. It provides the interface of a table of keys.
\<close>

section \<open>Wyhash\<close>

definition UnalignedLoad64 :: "byte list \<Rightarrow> u64" where
  "UnalignedLoad64 p = le_u64 (take 8 p)"

definition UnalignedLoad32 :: "byte list \<Rightarrow> u32" where
  "UnalignedLoad32 p = ucast (le_u64 (take 4 p))"

text \<open>The product of two words: its low and its high half.\<close>

definition upb_umul128 :: "u64 \<Rightarrow> u64 \<Rightarrow> u64 \<times> u64" where
  "upb_umul128 v0 v1 = (let p = (ucast v0 :: 128 word) * ucast v1 in (ucast p, ucast (drop_bit 64 p)))"

definition WyhashMix :: "u64 \<Rightarrow> u64 \<Rightarrow> u64" where
  "WyhashMix v0 v1 = (case upb_umul128 v0 v1 of (low, high) \<Rightarrow> low XOR high)"

text \<open>The pointer into the data is the list of the bytes from there on, \<open>len\<close> its length.\<close>

definition wyhash_chunk64 :: "u64 list \<Rightarrow> byte list \<Rightarrow> u64 \<Rightarrow> u64 \<Rightarrow> u64 \<times> u64" where
  "wyhash_chunk64 salt ptr current duplicated =
     (let a = UnalignedLoad64 ptr; b = UnalignedLoad64 (drop 8 ptr);
          c = UnalignedLoad64 (drop 16 ptr); d = UnalignedLoad64 (drop 24 ptr);
          e = UnalignedLoad64 (drop 32 ptr); f = UnalignedLoad64 (drop 40 ptr);
          g = UnalignedLoad64 (drop 48 ptr); h = UnalignedLoad64 (drop 56 ptr);
          cs0 = WyhashMix (a XOR salt ! 1) (b XOR current);
          cs1 = WyhashMix (c XOR salt ! 2) (d XOR current);
          ds0 = WyhashMix (e XOR salt ! 3) (f XOR duplicated);
          ds1 = WyhashMix (g XOR salt ! 4) (h XOR duplicated)
      in (cs0 XOR cs1, ds0 XOR ds1))"

function wyhash_loop64 :: "u64 list \<Rightarrow> byte list \<Rightarrow> u64 \<Rightarrow> u64 \<Rightarrow> byte list \<times> u64 \<times> u64" where
  "wyhash_loop64 salt ptr current duplicated =
     (if length ptr > 64 then
        (case wyhash_chunk64 salt ptr current duplicated of
           (current, duplicated) \<Rightarrow> wyhash_loop64 salt (drop 64 ptr) current duplicated)
      else (ptr, current, duplicated))"
  by pat_completeness auto
termination
  by (relation "measure (\<lambda>(s, ptr, c, d). length ptr)") auto

declare wyhash_loop64.simps [simp del]

function wyhash_loop16 :: "u64 list \<Rightarrow> byte list \<Rightarrow> u64 \<Rightarrow> byte list \<times> u64" where
  "wyhash_loop16 salt ptr current =
     (if length ptr > 16 then
        let a = UnalignedLoad64 ptr; b = UnalignedLoad64 (drop 8 ptr)
        in wyhash_loop16 salt (drop 16 ptr) (WyhashMix (a XOR salt ! 1) (b XOR current))
      else (ptr, current))"
  by pat_completeness auto
termination
  by (relation "measure (\<lambda>(s, ptr, c). length ptr)") auto

declare wyhash_loop16.simps [simp del]

definition Wyhash :: "byte list \<Rightarrow> u64 \<Rightarrow> u64 list \<Rightarrow> u64" where
  "Wyhash data seed salt =
     (let starting_length = of_nat (length data);
          current = seed XOR salt ! 0;
          (ptr, current) =
            (if length data > 64 then
               (case wyhash_loop64 salt data current current of
                  (ptr, current, duplicated) \<Rightarrow> (ptr, current XOR duplicated))
             else (data, current));
          (ptr, current) = wyhash_loop16 salt ptr current;
          len = length ptr;
          (a, b) =
            (if len > 8 then (UnalignedLoad64 ptr, UnalignedLoad64 (drop (len - 8) ptr))
             else if len > 3 then (ucast (UnalignedLoad32 ptr), ucast (UnalignedLoad32 (drop (len - 4) ptr)))
             else if len > 0 then
               (push_bit 16 (ucast (ptr ! 0)) OR push_bit 8 (ucast (ptr ! (len div 2))) OR ucast (ptr ! (len - 1)), 0)
             else (0, 0));
          w = WyhashMix (a XOR salt ! 1) (b XOR current);
          z = salt ! 1 XOR starting_length
      in WyhashMix w z)"

definition kWyhashSalt :: "u64 list" where
  "kWyhashSalt = [0x243F6A8885A308D3, 0x13198A2E03707344, 0xA4093822299F31D0, 0x082EFA98EC4E6C89, 0x452821E638D01377]"

definition upb_Hash :: "byte list \<Rightarrow> u64 \<Rightarrow> u32" where
  "upb_Hash p seed = ucast (Wyhash p seed kWyhashSalt)"

text \<open>The seed is the address of a variable: an argument.\<close>

definition strhash :: "u64 \<Rightarrow> byte list hashfunc" where
  "strhash seed key = upb_Hash (case key of None \<Rightarrow> [] | Some s \<Rightarrow> s) seed"

definition streql :: "byte list eqlfunc" where
  "streql k1 k2 = (k1 = Some k2)"

section \<open>The string table\<close>

type_synonym upb_strtable = "byte list upb_table"

text \<open>\<open>upb_SizePrefixString_Copy\<close>: the size, the bytes and a NUL, in the arena.\<close>

definition upb_SizePrefixString_Copy :: "byte list \<Rightarrow> upb_Arena \<Rightarrow> byte list option \<times> upb_Arena" where
  "upb_SizePrefixString_Copy s a =
     (if length s > 2 ^ 32 - 1 then (None, a)
      else
        (case upb_Arena_Malloc a (4 + length s + 1) of
           (None, a) \<Rightarrow> (None, a)
         | (Some _, a) \<Rightarrow> (Some s, a)))"

definition upb_strtable_init :: "nat \<Rightarrow> upb_Arena \<Rightarrow> upb_strtable option \<times> upb_Arena" where
  "upb_strtable_init expected_size a = table_init (upb_Log2Ceiling (int (entries_needed_for expected_size))) a"

definition table_clear :: "'k upb_table \<Rightarrow> 'k upb_table" where
  "table_clear t = t\<lparr>tab_count := 0, tab_entries := replicate (unat (upb_table_size t)) zero_entry\<rparr>"

definition upb_strtable_clear :: "upb_strtable \<Rightarrow> upb_strtable" where
  "upb_strtable_clear t = table_clear t"

text \<open>
  The outer \<open>None\<close> is a failed assertion, as in \<open>insert\<close>; the result is the boolean the code returns,
  the table and the arena.
\<close>

definition upb_strtable_resize ::
  "u64 \<Rightarrow> upb_strtable \<Rightarrow> nat \<Rightarrow> upb_Arena \<Rightarrow> (bool \<times> upb_strtable \<times> upb_Arena) option" where
  "upb_strtable_resize seed t size_lg2 a =
     (case table_init size_lg2 a of
        (None, a) \<Rightarrow> Some (False, t, a)
      | (Some new_table, a) \<Rightarrow>
          (case rehash (strhash seed) t new_table (- 1) of
             None \<Rightarrow> None
           | Some t \<Rightarrow> Some (True, t, a)))"

definition upb_strtable_insert ::
  "u64 \<Rightarrow> upb_strtable \<Rightarrow> byte list \<Rightarrow> upb_value \<Rightarrow> upb_Arena \<Rightarrow> (bool \<times> upb_strtable \<times> upb_Arena) option" where
  "upb_strtable_insert seed t k v a =
     (case (if isfull t then upb_strtable_resize seed t (upb_log2_table_size t + 1) a else Some (True, t, a)) of
        None \<Rightarrow> None
      | Some (False, t, a) \<Rightarrow> Some (False, t, a)
      | Some (True, t, a) \<Rightarrow>
          (case upb_SizePrefixString_Copy k a of
             (None, a) \<Rightarrow> Some (False, t, a)
           | (Some str, a) \<Rightarrow>
               (case table_insert t (Some str) v (strhash seed (Some k)) (strhash seed) of
                  None \<Rightarrow> None
                | Some t \<Rightarrow> Some (True, t, a))))"

definition upb_strtable_lookup2 :: "u64 \<Rightarrow> upb_strtable \<Rightarrow> byte list \<Rightarrow> upb_value option option" where
  "upb_strtable_lookup2 seed t key = table_lookup t key (strhash seed (Some key)) streql"

definition upb_strtable_remove2 ::
  "u64 \<Rightarrow> upb_strtable \<Rightarrow> byte list \<Rightarrow> (upb_value option \<times> upb_strtable) option" where
  "upb_strtable_remove2 seed t key = table_rm t key (strhash seed (Some key)) streql"

section \<open>Iteration\<close>

text \<open>\<open>upb_strtable_next2\<close>: the entry at the next index, and the iterator.\<close>

definition upb_strtable_next2 :: "upb_strtable \<Rightarrow> u64 \<Rightarrow> (byte list \<times> upb_value \<times> u64) option" where
  "upb_strtable_next2 t iter =
     (let tab_idx = table_next t iter in
      if tab_idx < ucast (upb_table_size t) then
        let ent = tab_entries t ! unat tab_idx
        in Some (the (ent_key ent), ent_val ent, tab_idx)
      else None)"

definition upb_strtable_done :: "upb_strtable \<Rightarrow> u64 \<Rightarrow> bool" where
  "upb_strtable_done t index \<longleftrightarrow>
     index \<ge> ucast (upb_table_size t) \<or> upb_tabent_isempty (tab_entries t ! unat index)"

definition upb_strtable_iter_key :: "upb_strtable \<Rightarrow> u64 \<Rightarrow> byte list" where
  "upb_strtable_iter_key t index = the (ent_key (tab_entries t ! unat index))"

definition upb_strtable_iter_value :: "upb_strtable \<Rightarrow> u64 \<Rightarrow> upb_value" where
  "upb_strtable_iter_value t index = ent_val (tab_entries t ! unat index)"

text \<open>\<open>removeiter\<close>: the first entry that points to the removed one is taken for its predecessor.\<close>

definition table_removeiter :: "'k upb_table \<Rightarrow> nat \<Rightarrow> 'k upb_table" where
  "table_removeiter t i =
     (let es = tab_entries t;
          prev = find (\<lambda>e. ent_next (es ! e) = Some i) [0..<unat (upb_table_size t)];
          es = (case prev of None \<Rightarrow> es | Some p \<Rightarrow> es[p := (es ! p)\<lparr>ent_next := ent_next (es ! i)\<rparr>])
      in t\<lparr>tab_count := tab_count t - 1,
           tab_entries := es[i := (es ! i)\<lparr>ent_key := None, ent_next := None\<rparr>]\<rparr>)"

definition upb_strtable_removeiter :: "upb_strtable \<Rightarrow> u64 \<Rightarrow> upb_strtable" where
  "upb_strtable_removeiter t iter = table_removeiter t (unat iter)"

definition upb_strtable_setentryvalue :: "upb_strtable \<Rightarrow> u64 \<Rightarrow> upb_value \<Rightarrow> upb_strtable" where
  "upb_strtable_setentryvalue t iter v =
     t\<lparr>tab_entries := (tab_entries t)[unat iter := (tab_entries t ! unat iter)\<lparr>ent_val := v\<rparr>]\<rparr>"

section \<open>The string table is a map\<close>

text \<open>In the next lemmas the seed is arbitrary but fixed.\<close>

lemma streql_keys: "hash_keys streql"
  by unfold_locales (simp add: streql_def)

interpretation str: hash_keys "strhash seed" streql for seed
  by (rule streql_keys)

abbreviation "strtable_inv seed \<equiv> table_inv (strhash seed)"

definition strtable_fits :: "upb_strtable \<Rightarrow> byte list \<Rightarrow> bool" where
  "strtable_fits t k \<longleftrightarrow> length k < 2 ^ 32 \<and> length (tab_entries t) < 2 ^ 31"

lemma strtable_insert_ok:
  assumes inv: "strtable_inv seed t" and fresh: "table_map t k = None"
  shows "\<exists>ok t' a'. upb_strtable_insert seed t k v a = Some (ok, t', a') \<and> strtable_inv seed t' \<and>
    table_map t' = (if ok then (table_map t)(k \<mapsto> v) else table_map t) \<and> (ok \<or> arena_refuses a \<or> \<not> strtable_fits t k)"
proof (cases rule: str.table_room [OF inv, of a, folded upb_strtable_resize_def])
  case (1 t1 a1)
  show ?thesis
  proof (cases "fst (upb_SizePrefixString_Copy k a1)")
    case None
    then obtain a2 where c: "upb_SizePrefixString_Copy k a1 = (None, a2)" by (cases "upb_SizePrefixString_Copy k a1") auto
    then have "arena_refuses a1 \<or> \<not> length k < 2 ^ 32"
      by (auto simp: upb_SizePrefixString_Copy_def dest: arena_refuses_Malloc split: if_splits option.splits prod.splits)
    with c 1 inv show ?thesis by (simp add: upb_strtable_insert_def strtable_fits_def) blast
  next
    case (Some s)
    then obtain a2 where c: "upb_SizePrefixString_Copy k a1 = (Some k, a2)"
      by (cases "upb_SizePrefixString_Copy k a1")
        (auto simp: upb_SizePrefixString_Copy_def split: if_splits option.splits prod.splits)
    have "table_map t1 k = None" using fresh 1 by simp
    from str.table_insert_ok [OF 1(2) this 1(4), of v] obtain t2 where
      "table_insert t1 (Some k) v (strhash seed (Some k)) (strhash seed) = Some t2" "strtable_inv seed t2"
      "table_map t2 = (table_map t1)(k \<mapsto> v)" by blast
    with c 1 show ?thesis by (simp add: upb_strtable_insert_def) blast
  qed
next
  case 2
  with inv show ?thesis by (simp add: upb_strtable_insert_def strtable_fits_def) blast
qed

interpretation strtab: map_table "strtable_inv seed" table_map "upb_strtable_lookup2 seed" "upb_strtable_remove2 seed"
  "upb_strtable_insert seed" strtable_fits for seed
proof
  fix t :: upb_strtable and k :: "byte list" and v a
  assume inv: "strtable_inv seed t"
  show "upb_strtable_lookup2 seed t k = Some (table_map t k)"
    unfolding upb_strtable_lookup2_def by (rule str.table_lookup_map [OF inv])
  from str.table_rm_ok [OF inv, of k] obtain t' where t': "table_rm t k (strhash seed (Some k)) streql = Some (table_map t k, t')"
    "strtable_inv seed t'" "table_map t' = (table_map t)(k := None)" "tab_mask t' = tab_mask t" by blast
  moreover have "length (tab_entries t') = length (tab_entries t)"
    using table_inv_size(1) [OF t'(2)] table_inv_size(1) [OF inv] t'(4) by (simp add: upb_table_size_def)
  ultimately show "\<exists>t'. upb_strtable_remove2 seed t k = Some (table_map t k, t') \<and> strtable_inv seed t' \<and>
      table_map t' = (table_map t)(k := None) \<and> (\<forall>k'. strtable_fits t k' \<longrightarrow> strtable_fits t' k')"
    by (auto simp: upb_strtable_remove2_def strtable_fits_def)
  assume "table_map t k = None"
  then show "\<exists>ok t' a'. upb_strtable_insert seed t k v a = Some (ok, t', a') \<and> strtable_inv seed t' \<and>
      table_map t' = (if ok then (table_map t)(k \<mapsto> v) else table_map t) \<and> (ok \<or> arena_refuses a \<or> \<not> strtable_fits t k)"
    by (rule strtable_insert_ok [OF inv])
qed

text \<open>The loop over a table that the header describes: every call of \<open>next2\<close> gives one more pair.\<close>

lemma strtable_next2_advances:
  assumes "upb_strtable_next2 t iter = Some (key, val, j)"
  shows "unat (upb_table_size t) - unat (j + 1) < unat (upb_table_size t) - unat (iter + 1)"
proof -
  from assms have j: "j = table_next t iter" "j < ucast (upb_table_size t)"
    by (auto simp: upb_strtable_next2_def Let_def split: if_splits)
  then have "unat j < unat (upb_table_size t)" by (simp add: word_less_nat_alt unat_ucast_u32)
  moreover have "iter + 1 \<le> j" using table_next_advances [of t iter] j by simp
  ultimately show ?thesis using unat_Suc_below [OF j(2)] by (simp add: word_le_nat_alt)
qed

function strtable_iterate :: "upb_strtable \<Rightarrow> u64 \<Rightarrow> (byte list \<times> upb_value) list" where
  "strtable_iterate t iter =
     (case upb_strtable_next2 t iter of
        None \<Rightarrow> []
      | Some (key, val, iter) \<Rightarrow> (key, val) # strtable_iterate t iter)"
  by pat_completeness auto
termination
  by (relation "measure (\<lambda>(t, i). unat (upb_table_size t) - unat (i + 1))")
    (auto dest: strtable_next2_advances)

declare strtable_iterate.simps [simp del]

lemma strtable_iterate_eq: "strtable_iterate t iter = table_iterate t iter"
  by (induction t iter rule: strtable_iterate.induct)
    (subst strtable_iterate.simps, subst table_iterate.simps, simp add: upb_strtable_next2_def Let_def)

lemma strtable_init_example:
  "upb_strtable_init 6 arena_unlimited =
     (Some \<lparr>tab_entries = replicate 8 zero_entry, tab_count = 0, tab_mask = 7\<rparr>, arena_unlimited\<lparr>arena_requests := 1\<rparr>)"
proof -
  have "upb_Log2Ceiling 7 = 3" by (simp add: upb_Log2Ceiling_def Log2Ceiling_loop.simps)
  then show ?thesis
    by (simp add: upb_strtable_init_def entries_needed_for_def table_init_def upb_table_size_def sizeof_upb_tabent_def
      upb_Arena_Malloc_def arena_unlimited_def Let_def push_bit_eq_mult)
qed

lemma strtable_example:
  obtains t where "fst (upb_strtable_init 6 arena_unlimited) = Some t" "strtable_inv seed t" "table_map t = Map.empty"
    "length (tab_entries t) = 8"
proof (rule that)
  note i = table_init_ok [OF strtable_init_example [unfolded upb_strtable_init_def]]
  show "fst (upb_strtable_init 6 arena_unlimited) = Some \<lparr>tab_entries = replicate 8 zero_entry, tab_count = 0, tab_mask = 7\<rparr>"
    by (simp add: strtable_init_example)
qed (use table_init_ok [OF strtable_init_example [unfolded upb_strtable_init_def]] in simp_all)

text \<open>Iterating visits every entry once. The loop over \<open>upb_strtable_next2\<close> from the begin iterator
  ends, and gives each key of the table's map exactly once with its value.\<close>

lemma strtable_iterates_map:
  assumes "strtable_inv seed t"
  shows "distinct (map fst (strtable_iterate t (- 1))) \<and> map_of (strtable_iterate t (- 1)) = table_map t"
proof -
  have it: "distinct (map fst (strtable_iterate t (- 1))) \<and>
    (\<forall>k v. (k, v) \<in> set (strtable_iterate t (- 1)) \<longleftrightarrow> (\<exists>j. entry_kv (tab_entries t) j = Some (k, v)))"
    unfolding strtable_iterate_eq using table_iterate_ok [OF assms, of "- 1"] by simp
  have "map_of (strtable_iterate t (- 1)) k = Some v \<longleftrightarrow> table_map t k = Some v" for k v
    using it table_map_iff [OF table_inv_scatter [OF assms], of k v] by simp
  then have "map_of (strtable_iterate t (- 1)) = table_map t" by (rule map_eqI)
  with it show ?thesis by blast
qed

section \<open>Properties\<close>

text \<open>C35: the string table is a map. From any table in its invariant, with chains that share one array, a
  lookup answers what the table's map holds, a removal takes exactly that key out, and an insertion of a
  new key adds it whether its bucket is empty, starts its own chain or is occupied by an entry of another
  chain that has to move; a table that is full is rebuilt with the same map. No assertion of the code
  fails and no chain is endless. An insertion fails, and then changes nothing, only when the arena
  refuses, the key has 4 GB, or the table is at its largest size.\<close>

theorem strtable_refines_map:
  assumes "strtable_inv seed t"
  shows "upb_strtable_lookup2 seed t k = Some (table_map t k) \<and>
    (\<exists>t'. upb_strtable_remove2 seed t k = Some (table_map t k, t') \<and> strtable_inv seed t' \<and>
      table_map t' = (table_map t)(k := None)) \<and>
    (table_map t k \<noteq> None \<or> (\<exists>ok t' a'. upb_strtable_insert seed t k v a = Some (ok, t', a') \<and>
      strtable_inv seed t' \<and> table_map t' = (if ok then (table_map t)(k \<mapsto> v) else table_map t) \<and>
      (ok \<or> arena_refuses a \<or> 2 ^ 32 \<le> length k \<or> 2 ^ 31 \<le> length (tab_entries t))))"
proof (intro conjI)
  show "upb_strtable_lookup2 seed t k = Some (table_map t k)" by (rule strtab.lookup_law [OF assms])
  show "\<exists>t'. upb_strtable_remove2 seed t k = Some (table_map t k, t') \<and> strtable_inv seed t' \<and>
      table_map t' = (table_map t)(k := None)"
    using strtab.remove_law [OF assms, of k] by blast
  show "table_map t k \<noteq> None \<or> (\<exists>ok t' a'. upb_strtable_insert seed t k v a = Some (ok, t', a') \<and>
      strtable_inv seed t' \<and> table_map t' = (if ok then (table_map t)(k \<mapsto> v) else table_map t) \<and>
      (ok \<or> arena_refuses a \<or> 2 ^ 32 \<le> length k \<or> 2 ^ 31 \<le> length (tab_entries t)))"
  proof (cases "table_map t k")
    case None
    have "\<not> strtable_fits t k \<longleftrightarrow> 2 ^ 32 \<le> length k \<or> 2 ^ 31 \<le> length (tab_entries t)"
      unfolding strtable_fits_def by (simp only: de_Morgan_conj not_less)
    with strtab.insert_law [OF assms None, of v a] show ?thesis by simp
  qed simp
qed

lemma strtable_refines_map_witness:
  "\<exists>t. fst (upb_strtable_init 6 arena_unlimited) = Some t \<and> upb_strtable_lookup2 7 t [97] = Some None \<and>
    (\<exists>t' a'. upb_strtable_insert 7 t [97] 5 arena_unlimited = Some (True, t', a') \<and> table_map t' = [[97] \<mapsto> 5])"
proof -
  obtain t where t: "fst (upb_strtable_init 6 arena_unlimited) = Some t" "strtable_inv 7 t" "table_map t = Map.empty"
    "length (tab_entries t) = 8" by (rule strtable_example)
  from strtable_refines_map [OF t(2), of "[97]" 5 arena_unlimited] t show ?thesis by auto
qed

end
