(* ===== verification/Int_Table.thy ===== *)
theory Int_Table
  imports Key_Table
begin

text \<open>
  \<open>upb_inttable\<close> of \<open>upb/hash/common.c\<close> and \<open>int_table.h\<close>: small keys lie in an array with a presence
  mask, the others in the base table.
\<close>

section \<open>The table\<close>

record upb_inttable =
  it_t :: "u64 upb_table"
  it_array :: "upb_value list"
  it_presence :: "byte list"
  it_array_size :: u32
  it_array_count :: u32

definition upb_inthash :: "u64 \<Rightarrow> u32" where
  "upb_inthash key = ucast key XOR ucast (drop_bit 32 key)"

text \<open>The empty key is the number 0.\<close>

definition key_num :: "u64 option \<Rightarrow> u64" where
  "key_num key = (case key of None \<Rightarrow> 0 | Some n \<Rightarrow> n)"

definition num_key :: "u64 \<Rightarrow> u64 option" where
  "num_key n = (if n = 0 then None else Some n)"

definition inthash :: "u64 hashfunc" where
  "inthash key = upb_inthash (key_num key)"

definition inteql :: "u64 eqlfunc" where
  "inteql k1 k2 \<longleftrightarrow> key_num k1 = k2"

definition kInttableSentinel :: upb_value where
  "kInttableSentinel = 2 ^ 64 - 1"

definition presence_mask_arr_size :: "u32 \<Rightarrow> u32" where
  "presence_mask_arr_size array_size = (array_size + 7) div 8"

definition upb_inttable_arrhas :: "upb_inttable \<Rightarrow> u64 \<Rightarrow> bool" where
  "upb_inttable_arrhas t key \<longleftrightarrow> (it_presence t ! unat (key div 8)) AND push_bit (unat (key mod 8)) 1 \<noteq> 0"

definition inttable_array_get :: "upb_inttable \<Rightarrow> u64 \<Rightarrow> upb_value option" where
  "inttable_array_get t key = (if upb_inttable_arrhas t key then Some (it_array t ! unat key) else None)"

text \<open>Where a key's value is: a slot of the array or an entry of the table; the outer \<open>None\<close> is a chain without end.\<close>

datatype slot = Array_Slot nat | Table_Slot nat

definition inttable_val :: "upb_inttable \<Rightarrow> u64 \<Rightarrow> slot option option" where
  "inttable_val t key =
     (if key < ucast (it_array_size t) then
        Some (map_option (\<lambda>_. Array_Slot (unat key)) (inttable_array_get t key))
      else map_option (map_option Table_Slot) (findentry (it_t t) key (upb_inthash key) inteql))"

definition slot_value :: "upb_inttable \<Rightarrow> slot \<Rightarrow> upb_value" where
  "slot_value t s = (case s of Array_Slot i \<Rightarrow> it_array t ! i | Table_Slot e \<Rightarrow> ent_val (tab_entries (it_t t) ! e))"

definition upb_inttable_count :: "upb_inttable \<Rightarrow> u64" where
  "upb_inttable_count t = ucast (tab_count (it_t t) + it_array_count t)"

definition upb_inttable_sizedinit :: "u32 \<Rightarrow> nat \<Rightarrow> upb_Arena \<Rightarrow> upb_inttable option \<times> upb_Arena" where
  "upb_inttable_sizedinit asize hsize_lg2 a =
     (case table_init hsize_lg2 a of
        (None, a) \<Rightarrow> (None, a)
      | (Some t, a) \<Rightarrow>
          let array_size = max 1 asize;
              array_bytes = unat array_size * 8;
              presence_bytes = presence_mask_arr_size array_size
          in (case upb_Arena_Malloc a (array_bytes + unat presence_bytes) of
                (None, a) \<Rightarrow> (None, a)
              | (Some _, a) \<Rightarrow>
                  (Some \<lparr>it_t = t, it_array = replicate (unat array_size) (- 1),
                     it_presence = replicate (unat presence_bytes) 0,
                     it_array_size = array_size, it_array_count = 0\<rparr>, a)))"

definition upb_inttable_init :: "upb_Arena \<Rightarrow> upb_inttable option \<times> upb_Arena" where
  "upb_inttable_init a = upb_inttable_sizedinit 0 3 a"

text \<open>\<open>None\<close> where an assertion fails: the key is already in the array part, or in the base table's \<open>insert\<close>.\<close>

definition upb_inttable_insert ::
  "upb_inttable \<Rightarrow> u64 \<Rightarrow> upb_value \<Rightarrow> upb_Arena \<Rightarrow> (bool \<times> upb_inttable \<times> upb_Arena) option" where
  "upb_inttable_insert t key val a =
     (if key < ucast (it_array_size t) then
        if upb_inttable_arrhas t key then None
        else
          let i = unat (key div 8) in
          Some (True,
            t\<lparr>it_array_count := it_array_count t + 1,
              it_array := (it_array t)[unat key := val],
              it_presence := (it_presence t)[i := it_presence t ! i OR push_bit (unat (key mod 8)) 1]\<rparr>, a)
      else
        (case (if isfull (it_t t) then
                 (case table_init (upb_log2_table_size (it_t t) + 1) a of
                    (None, a) \<Rightarrow> Some (False, it_t t, a)
                  | (Some new_table, a) \<Rightarrow>
                      (case rehash inthash (it_t t) new_table (- 1) of
                         None \<Rightarrow> None
                       | Some new_table \<Rightarrow> Some (True, new_table, a)))
               else Some (True, it_t t, a)) of
           None \<Rightarrow> None
         | Some (False, _, a) \<Rightarrow> Some (False, t, a)
         | Some (True, h, a) \<Rightarrow>
             (case table_insert h (num_key key) val (upb_inthash key) inthash of
                None \<Rightarrow> None
              | Some h \<Rightarrow> Some (True, t\<lparr>it_t := h\<rparr>, a))))"

definition upb_inttable_lookup :: "upb_inttable \<Rightarrow> u64 \<Rightarrow> upb_value option option" where
  "upb_inttable_lookup t key = map_option (map_option (slot_value t)) (inttable_val t key)"

definition upb_inttable_replace :: "upb_inttable \<Rightarrow> u64 \<Rightarrow> upb_value \<Rightarrow> (bool \<times> upb_inttable) option" where
  "upb_inttable_replace t key val =
     (case inttable_val t key of
        None \<Rightarrow> None
      | Some None \<Rightarrow> Some (False, t)
      | Some (Some (Array_Slot i)) \<Rightarrow> Some (True, t\<lparr>it_array := (it_array t)[i := val]\<rparr>)
      | Some (Some (Table_Slot e)) \<Rightarrow>
          let h = it_t t; es = tab_entries h
          in Some (True, t\<lparr>it_t := h\<lparr>tab_entries := es[e := (es ! e)\<lparr>ent_val := val\<rparr>]\<rparr>\<rparr>))"

definition upb_inttable_remove :: "upb_inttable \<Rightarrow> u64 \<Rightarrow> (upb_value option \<times> upb_inttable) option" where
  "upb_inttable_remove t key =
     (if key < ucast (it_array_size t) then
        if upb_inttable_arrhas t key then
          let i = unat (key div 8) in
          Some (Some (it_array t ! unat key),
            t\<lparr>it_array_count := it_array_count t - 1,
              it_array := (it_array t)[unat key := kInttableSentinel],
              it_presence := (it_presence t)[i := it_presence t ! i AND NOT (push_bit (unat (key mod 8)) 1)]\<rparr>)
        else Some (None, t)
      else
        (case table_rm (it_t t) key (upb_inthash key) inteql of
           None \<Rightarrow> None
         | Some (val, h) \<Rightarrow> Some (val, t\<lparr>it_t := h\<rparr>)))"

definition upb_inttable_clear :: "upb_inttable \<Rightarrow> upb_inttable" where
  "upb_inttable_clear t =
     (let h = it_t t in
      t\<lparr>it_array_count := 0,
        it_array := replicate (unat (it_array_size t)) (- 1),
        it_presence := replicate (unat (presence_mask_arr_size (it_array_size t))) 0,
        it_t := h\<lparr>tab_count := 0, tab_entries := replicate (unat (upb_table_size h)) zero_entry\<rparr>\<rparr>)"

section \<open>Iteration\<close>

text \<open>\<open>while ((size_t)++i < t->array_size)\<close>\<close>

function array_next_loop :: "upb_inttable \<Rightarrow> u64 \<Rightarrow> (u64 \<times> upb_value) option" where
  "array_next_loop t i =
     (let i = i + 1 in
      if i < ucast (it_array_size t) then
        (case inttable_array_get t i of
           Some ent \<Rightarrow> Some (i, ent)
         | None \<Rightarrow> array_next_loop t i)
      else None)"
  by pat_completeness auto
termination
proof (relation "measure (\<lambda>(t, i). unat (it_array_size t) - unat (i + 1))")
  fix t :: upb_inttable and i x :: u64
  assume x: "x = i + 1" "x < ucast (it_array_size t)"
  then have "unat x < unat (it_array_size t)" by (simp add: word_less_nat_alt unat_ucast_u32)
  then show "((t, x), (t, i)) \<in> measure (\<lambda>(t, i). unat (it_array_size t) - unat (i + 1))"
    using x(1) unat_Suc_below [OF x(2)] by simp
qed simp

declare array_next_loop.simps [simp del]

text \<open>The second half of \<open>upb_inttable_next\<close>: the key, the value and the new iterator.\<close>

definition inttable_next_table :: "upb_inttable \<Rightarrow> u64 \<Rightarrow> (u64 \<times> upb_value \<times> u64) option" where
  "inttable_next_table t i =
     (let tab_idx = table_next (it_t t) (i - ucast (it_array_size t)) in
      if tab_idx < ucast (upb_table_size (it_t t)) then
        let ent = tab_entries (it_t t) ! unat tab_idx
        in Some (key_num (ent_key ent), ent_val ent, tab_idx + ucast (it_array_size t))
      else None)"

text \<open>When the loop over the array ends without an entry, \<open>i\<close> is the last index of the array.\<close>

definition upb_inttable_next :: "upb_inttable \<Rightarrow> u64 \<Rightarrow> (u64 \<times> upb_value \<times> u64) option" where
  "upb_inttable_next t iter =
     (if iter + 1 \<le> ucast (it_array_size t) then
        (case array_next_loop t iter of
           Some (i, ent) \<Rightarrow> Some (i, ent, i)
         | None \<Rightarrow> inttable_next_table t (ucast (it_array_size t) - 1))
      else inttable_next_table t iter)"

definition upb_inttable_removeiter :: "upb_inttable \<Rightarrow> u64 \<Rightarrow> upb_inttable" where
  "upb_inttable_removeiter t i =
     (if i < ucast (it_array_size t) then
        t\<lparr>it_array_count := it_array_count t - 1, it_array := (it_array t)[unat i := - 1]\<rparr>
      else
        (let h = it_t t; e = unat (i - ucast (it_array_size t)); es = tab_entries h;
             prev = find (\<lambda>p. ent_next (es ! p) = Some e) [0..<unat (upb_table_size h)];
             es = (case prev of None \<Rightarrow> es | Some p \<Rightarrow> es[p := (es ! p)\<lparr>ent_next := ent_next (es ! e)\<rparr>])
         in t\<lparr>it_t := h\<lparr>tab_count := tab_count h - 1,
                tab_entries := es[e := (es ! e)\<lparr>ent_key := None, ent_next := None\<rparr>]\<rparr>\<rparr>))"

definition upb_inttable_setentryvalue :: "upb_inttable \<Rightarrow> u64 \<Rightarrow> upb_value \<Rightarrow> upb_inttable" where
  "upb_inttable_setentryvalue t iter v =
     (if iter < ucast (it_array_size t) then t\<lparr>it_array := (it_array t)[unat iter := v]\<rparr>
      else
        let h = it_t t; e = unat (iter - ucast (it_array_size t)); es = tab_entries h
        in t\<lparr>it_t := h\<lparr>tab_entries := es[e := (es ! e)\<lparr>ent_val := v\<rparr>]\<rparr>\<rparr>)"

definition upb_inttable_done :: "upb_inttable \<Rightarrow> u64 \<Rightarrow> bool" where
  "upb_inttable_done t iter \<longleftrightarrow>
     (if iter \<ge> ucast (it_array_size t + upb_table_size (it_t t)) then True
      else if iter < ucast (it_array_size t) then \<not> upb_inttable_arrhas t iter
      else upb_tabent_isempty (tab_entries (it_t t) ! unat (iter - ucast (it_array_size t))))"

definition upb_inttable_iter_key :: "upb_inttable \<Rightarrow> u64 \<Rightarrow> u64" where
  "upb_inttable_iter_key t iter =
     (if iter < ucast (it_array_size t) then iter
      else key_num (ent_key (tab_entries (it_t t) ! unat (iter - ucast (it_array_size t)))))"

definition upb_inttable_iter_value :: "upb_inttable \<Rightarrow> u64 \<Rightarrow> upb_value" where
  "upb_inttable_iter_value t iter =
     (if iter < ucast (it_array_size t) then it_array t ! unat iter
      else ent_val (tab_entries (it_t t) ! unat (iter - ucast (it_array_size t))))"

lemma unat_add_u32: "unat (x :: u64) < 2 ^ 32 \<Longrightarrow> unat (x + ucast (n :: u32)) = unat x + unat n"
proof -
  assume "unat x < 2 ^ 32"
  moreover have "unat (ucast n :: u64) = unat n" by (simp add: unat_ucast_u32)
  moreover have "unat n < 2 ^ 32" using unsigned_less [where ?'a = nat and w = n] by simp
  ultimately show ?thesis using unat_add_lem [of x "ucast n"] by simp
qed

lemma array_next_loop_advances:
  "array_next_loop t i = Some (j, v) \<Longrightarrow> i + 1 \<le> j \<and> j < ucast (it_array_size t)"
proof (induction t i rule: array_next_loop.induct)
  case (1 t i)
  from "1.prems" have lt: "i + 1 < ucast (it_array_size t)"
    by (subst (asm) array_next_loop.simps) (simp add: Let_def split: if_splits)
  show ?case
  proof (cases "inttable_array_get t (i + 1)")
    case None
    with "1.prems" lt have "array_next_loop t (i + 1) = Some (j, v)"
      by (subst (asm) array_next_loop.simps) simp
    from "1.IH" [OF refl lt None this] have *: "i + 1 + 1 \<le> j" "j < ucast (it_array_size t)" by simp_all
    have "i + 1 \<le> i + 1 + 1" using unat_Suc_below [OF lt] by (simp add: word_le_nat_alt)
    with * show ?thesis by (metis order_trans)
  next
    case (Some e)
    with "1.prems" lt show ?thesis by (subst (asm) array_next_loop.simps) simp
  qed
qed

lemma inttable_next_advances:
  assumes "upb_inttable_next t iter = Some (key, val, j)"
  shows "unat (iter + 1) \<le> unat j" "unat j < unat (it_array_size t) + unat (upb_table_size (it_t t))"
    "unat (j + 1) = Suc (unat j)"
proof -
  let ?n = "ucast (it_array_size t) :: u64" and ?s = "ucast (upb_table_size (it_t t)) :: u64"
  have n: "unat ?n = unat (it_array_size t)" "unat ?n < 2 ^ 32"
    using unsigned_less [where ?'a = nat and w = "it_array_size t"] by (simp_all add: unat_ucast_u32)
  have s: "unat ?s = unat (upb_table_size (it_t t))" "unat ?s < 2 ^ 32"
    using unsigned_less [where ?'a = nat and w = "upb_table_size (it_t t)"] by (simp_all add: unat_ucast_u32)
  have tab: "unat j = unat x + unat ?n" "unat x < unat ?s" "i + 1 \<le> x"
    if "j = x + ?n" "x = table_next (it_t t) i" "x < ?s" for x i
  proof -
    show x: "unat x < unat ?s" using that(3) by (simp add: word_less_nat_alt)
    with s have "unat x < 2 ^ 32" by simp
    then show "unat j = unat x + unat ?n" unfolding that(1) n(1) by (rule unat_add_u32)
    show "i + 1 \<le> x" using table_next_advances [of "it_t t" i] that by simp
  qed
  have "unat (iter + 1) \<le> unat j \<and> unat j < unat ?n + unat ?s"
  proof (cases "iter + 1 \<le> ?n")
    case True
    show ?thesis
    proof (cases "array_next_loop t iter")
      case None
      with True assms obtain x where x: "j = x + ?n" "x = table_next (it_t t) (- 1)" "x < ?s"
        by (auto simp: upb_inttable_next_def inttable_next_table_def Let_def split: if_splits)
      from tab(1,2) [OF x] True show ?thesis by (simp add: word_le_nat_alt)
    next
      case (Some r)
      then obtain v where "array_next_loop t iter = Some (j, v)"
        using True assms by (cases r) (simp add: upb_inttable_next_def Let_def)
      from array_next_loop_advances [OF this] show ?thesis by (simp add: word_le_nat_alt word_less_nat_alt)
    qed
  next
    case False
    with assms obtain x where x: "j = x + ?n" "x = table_next (it_t t) (iter - ?n)" "x < ?s"
      by (auto simp: upb_inttable_next_def inttable_next_table_def Let_def split: if_splits)
    have eq: "iter - ?n + 1 = (iter + 1) - ?n" by simp
    have "unat ((iter + 1) - ?n) = unat (iter + 1) - unat ?n" using False by (intro unat_sub) simp
    then have "unat (iter + 1) - unat ?n \<le> unat x" using tab(3) [OF x, unfolded eq word_le_nat_alt] by linarith
    with tab(1,2) [OF x] False show ?thesis by linarith
  qed
  then show "unat (iter + 1) \<le> unat j" "unat j < unat (it_array_size t) + unat (upb_table_size (it_t t))"
    using n s by simp_all
  then have "unat j + unat (1 :: u64) < 2 ^ LENGTH(64)" using n s by simp
  then show "unat (j + 1) = Suc (unat j)" using unat_add_lem [of j 1] by simp
qed

text \<open>The loop over a table that the header describes.\<close>

function inttable_iterate :: "upb_inttable \<Rightarrow> u64 \<Rightarrow> (u64 \<times> upb_value) list" where
  "inttable_iterate t iter =
     (case upb_inttable_next t iter of
        None \<Rightarrow> []
      | Some (key, val, iter) \<Rightarrow> (key, val) # inttable_iterate t iter)"
  by pat_completeness auto
termination
proof (relation "measure (\<lambda>(t, i). unat (it_array_size t) + unat (upb_table_size (it_t t)) - unat (i + 1))")
  fix t iter r key q val j
  assume r: "upb_inttable_next t iter = Some r" "(key, q) = r" "(val, j) = q"
  then have "upb_inttable_next t iter = Some (key, val, j)" by simp
  from inttable_next_advances [OF this]
  show "((t, j), (t, iter)) \<in> measure (\<lambda>(t, i). unat (it_array_size t) + unat (upb_table_size (it_t t)) - unat (i + 1))"
    by simp
qed simp

declare inttable_iterate.simps [simp del]

section \<open>The integer table is a map\<close>

lemma inteql_keys: "hash_keys inteql"
  by unfold_locales (simp add: inteql_def key_num_def)

interpretation int: hash_keys inthash inteql
  by (rule inteql_keys)

abbreviation arr_has :: "upb_inttable \<Rightarrow> nat \<Rightarrow> bool" where
  "arr_has t i \<equiv> bit (it_presence t ! (i div 8)) (i mod 8)"

definition inttable_map :: "upb_inttable \<Rightarrow> u64 \<Rightarrow> upb_value option" where
  "inttable_map t k =
     (if k < ucast (it_array_size t) then if arr_has t (unat k) then Some (it_array t ! unat k) else None
      else table_map (it_t t) k)"

text \<open>
  The invariant: the base table holds no key of the array part, hence not the empty key 0, and the
  counter of the array counts the bits of the presence mask.
\<close>

definition inttable_inv :: "upb_inttable \<Rightarrow> bool" where
  "inttable_inv t \<longleftrightarrow> table_inv inthash (it_t t) \<and> 0 < it_array_size t \<and> unat (it_array_size t) + 8 \<le> 2 ^ 32 \<and>
     length (it_array t) = unat (it_array_size t) \<and> length (it_presence t) = (unat (it_array_size t) + 7) div 8 \<and>
     (\<forall>k < ucast (it_array_size t). table_map (it_t t) k = None) \<and>
     unat (it_array_count t) = card {i. i < unat (it_array_size t) \<and> arr_has t i}"

lemma inttable_invD:
  assumes "inttable_inv t"
  shows "table_inv inthash (it_t t)" "0 < it_array_size t" "unat (it_array_size t) + 8 \<le> 2 ^ 32"
    "length (it_array t) = unat (it_array_size t)" "length (it_presence t) = (unat (it_array_size t) + 7) div 8"
    "\<And>k. k < ucast (it_array_size t) \<Longrightarrow> table_map (it_t t) k = None"
    "unat (it_array_count t) = card {i. i < unat (it_array_size t) \<and> arr_has t i}"
  using assms unfolding inttable_inv_def by blast+

text \<open>A bit of the mask.\<close>

lemma byte_bit_test: "n < 8 \<Longrightarrow> (b :: byte) AND push_bit n 1 \<noteq> 0 \<longleftrightarrow> bit b n"
  using and_exp_eq_0_iff_not_bit [of b n] by (simp add: push_bit_eq_mult)

lemma bit_byte_set: "n < 8 \<Longrightarrow> bit ((b :: byte) OR 2 ^ n) m \<longleftrightarrow> bit b m \<or> m = n"
  by (auto simp: bit_simps)

lemma bit_byte_clear: "n < 8 \<Longrightarrow> m < 8 \<Longrightarrow> bit ((b :: byte) AND NOT (2 ^ n)) m \<longleftrightarrow> bit b m \<and> m \<noteq> n"
  by (auto simp: bit_simps)

lemma unat_div_mod_8 [simp]: "unat ((k :: u64) div 8) = unat k div 8" "unat ((k :: u64) mod 8) = unat k mod 8"
  by (simp_all add: unat_div unat_mod)

lemma arrhas_iff: "upb_inttable_arrhas t k \<longleftrightarrow> arr_has t (unat k)"
  unfolding upb_inttable_arrhas_def unat_div_mod_8 by (rule byte_bit_test) simp

lemma less_array_size: "(k :: u64) < ucast (n :: u32) \<longleftrightarrow> unat k < unat n"
  by (simp add: word_less_nat_alt unat_ucast_u32)

lemma unat_presence_size: "unat n + 8 \<le> 2 ^ 32 \<Longrightarrow> unat (presence_mask_arr_size n) = (unat n + 7) div 8"
proof -
  assume "unat n + 8 \<le> 2 ^ 32"
  then have "unat (n + 7) = unat n + 7" using unat_add_lem [of n 7] by simp
  then show ?thesis by (simp add: presence_mask_arr_size_def unat_div)
qed

lemma inttable_array_get_map: "k < ucast (it_array_size t) \<Longrightarrow> inttable_array_get t k = inttable_map t k"
  by (simp add: inttable_array_get_def inttable_map_def arrhas_iff)

lemma inttable_lookup_map:
  assumes "inttable_inv t"
  shows "upb_inttable_lookup t k = Some (inttable_map t k)"
proof (cases "k < ucast (it_array_size t)")
  case True
  then show ?thesis
    by (simp add: upb_inttable_lookup_def inttable_val_def inttable_array_get_def inttable_map_def arrhas_iff slot_value_def)
next
  case False
  have h: "upb_inthash k = inthash (Some k)" by (simp add: inthash_def key_num_def)
  have "table_lookup (it_t t) k (inthash (Some k)) inteql = Some (table_map (it_t t) k)"
    by (rule int.table_lookup_map [OF inttable_invD(1) [OF assms]])
  with False show ?thesis
    by (simp add: upb_inttable_lookup_def inttable_val_def h table_lookup_def inttable_map_def option.map_comp comp_def slot_value_def)
qed

text \<open>Setting and clearing the bit of a key.\<close>

lemma arr_has_set:
  assumes "inttable_inv t" and "n < unat (it_array_size t)"
  shows "bit ((it_presence t)[n div 8 := it_presence t ! (n div 8) OR push_bit (n mod 8) 1] ! (i div 8)) (i mod 8) \<longleftrightarrow>
    arr_has t i \<or> i = n"
proof -
  have "n div 8 < length (it_presence t)" using assms(2) unfolding inttable_invD(5) [OF assms(1)] by linarith
  moreover have "i = n \<longleftrightarrow> i div 8 = n div 8 \<and> i mod 8 = n mod 8" by (metis div_mult_mod_eq)
  ultimately show ?thesis by (cases "i div 8 = n div 8") (simp_all add: bit_byte_set)
qed

lemma arr_has_clear:
  assumes "inttable_inv t" and "n < unat (it_array_size t)"
  shows "bit ((it_presence t)[n div 8 := it_presence t ! (n div 8) AND NOT (push_bit (n mod 8) 1)] ! (i div 8)) (i mod 8) \<longleftrightarrow>
    arr_has t i \<and> i \<noteq> n"
proof -
  have "n div 8 < length (it_presence t)" using assms(2) unfolding inttable_invD(5) [OF assms(1)] by linarith
  moreover have "i = n \<longleftrightarrow> i div 8 = n div 8 \<and> i mod 8 = n mod 8" by (metis div_mult_mod_eq)
  ultimately show ?thesis by (cases "i div 8 = n div 8") (simp_all add: bit_byte_clear)
qed

lemma set_insert_card: "finite A \<Longrightarrow> n \<notin> A \<Longrightarrow> card {i. i \<in> A \<or> i = n} = Suc (card A)"
  by (simp add: Collect_disj_eq)

text \<open>The base table keeps to the keys above the array when a key above it is added or any is removed.\<close>

lemma inttable_inv_table:
  assumes "inttable_inv t" and "table_inv inthash h"
    and "\<And>k. k < ucast (it_array_size t) \<Longrightarrow> table_map h k = None"
  shows "inttable_inv (t\<lparr>it_t := h\<rparr>)"
  unfolding inttable_inv_def using assms(2,3) inttable_invD [OF assms(1)] by simp

lemma inttable_map_table:
  "inttable_map (t\<lparr>it_t := h\<rparr>) = (\<lambda>k. if k < ucast (it_array_size t) then inttable_map t k else table_map h k)"
  by (simp add: inttable_map_def fun_eq_iff)

lemma inttable_insert_array:
  assumes inv: "inttable_inv t" and k: "k < ucast (it_array_size t)" and fresh: "inttable_map t k = None"
  shows "\<exists>t'. upb_inttable_insert t k v a = Some (True, t', a) \<and> inttable_inv t' \<and> inttable_map t' = (inttable_map t)(k \<mapsto> v)"
proof -
  note d = inttable_invD [OF inv]
  let ?i = "unat (k div 8)"
  let ?t = "t\<lparr>it_array_count := it_array_count t + 1, it_array := (it_array t)[unat k := v],
    it_presence := (it_presence t)[?i := it_presence t ! ?i OR push_bit (unat (k mod 8)) 1]\<rparr>"
  have no: "\<not> arr_has t (unat k)" using fresh k by (auto simp: inttable_map_def)
  have n: "unat k < unat (it_array_size t)" using k by (simp add: less_array_size)
  have has: "arr_has ?t i \<longleftrightarrow> arr_has t i \<or> i = unat k" for i
    using arr_has_set [OF inv n, of i] by simp
  have "{i. i < unat (it_array_size t) \<and> arr_has t i} \<subseteq> {..<unat (it_array_size t)}" by blast
  then have c: "unat (it_array_count t) \<le> unat (it_array_size t)" unfolding d(7) using card_mono [of "{..<unat (it_array_size t)}"] by fastforce
  then have "unat (it_array_count t + 1) = Suc (unat (it_array_count t))"
    using d(3) unat_add_lem [of "it_array_count t" 1] by simp
  moreover have "{i. i < unat (it_array_size t) \<and> (arr_has t i \<or> i = unat k)} =
      {i. i \<in> {i. i < unat (it_array_size t) \<and> arr_has t i} \<or> i = unat k}" using n by blast
  ultimately have count: "unat (it_array_count ?t) = card {i. i < unat (it_array_size t) \<and> arr_has ?t i}"
    unfolding has using d(7) no set_insert_card [of "{i. i < unat (it_array_size t) \<and> arr_has t i}" "unat k"] by simp
  have "inttable_inv ?t" unfolding inttable_inv_def using d count by simp
  moreover have "inttable_map ?t = (inttable_map t)(k \<mapsto> v)"
    using has n k d(4) by (auto simp: inttable_map_def fun_eq_iff nth_list_update less_array_size word_unat_eq_iff)
  moreover have "upb_inttable_insert t k v a = Some (True, ?t, a)"
    using k no by (simp add: upb_inttable_insert_def arrhas_iff Let_def)
  ultimately show ?thesis by blast
qed

definition inttable_fits :: "upb_inttable \<Rightarrow> u64 \<Rightarrow> bool" where
  "inttable_fits t k \<longleftrightarrow> length (tab_entries (it_t t)) < 2 ^ 31"

lemma inttable_insert_hash:
  assumes inv: "inttable_inv t" and k: "\<not> k < ucast (it_array_size t)" and fresh: "inttable_map t k = None"
  obtains h a' where "upb_inttable_insert t k v a = Some (True, t\<lparr>it_t := h\<rparr>, a')" "inttable_inv (t\<lparr>it_t := h\<rparr>)"
      "inttable_map (t\<lparr>it_t := h\<rparr>) = (inttable_map t)(k \<mapsto> v)" "tab_count h = tab_count (it_t t) + 1"
      "length (tab_entries h) = length (tab_entries (it_t t)) \<or>
       length (tab_entries h) = 2 * length (tab_entries (it_t t)) \<and> isfull (it_t t)"
      "arena_refuses a' = arena_refuses a"
  | a' where "upb_inttable_insert t k v a = Some (False, t, a')"
      "arena_refuses a \<or> \<not> length (tab_entries (it_t t)) < 2 ^ 31" "arena_refuses a' = arena_refuses a"
proof -
  note d = inttable_invD [OF inv]
  have "k \<noteq> 0"
  proof
    assume "k = 0"
    moreover have "(0 :: u64) < ucast (it_array_size t)" unfolding less_array_size using d(2) by (simp add: word_less_nat_alt)
    ultimately show False using k by simp
  qed
  then have nk: "num_key k = Some k" "upb_inthash k = inthash (Some k)" by (simp_all add: num_key_def inthash_def key_num_def)
  have fresh': "table_map (it_t t) k = None" using fresh k by (simp add: inttable_map_def)
  show ?thesis
  proof (cases rule: int.table_room [OF d(1), of a])
    case (1 h a')
    from 1(3) fresh' have "table_map h k = None" by simp
    from int.table_insert_ok [OF 1(2) this 1(4), of v] obtain h' where h': "table_insert h (Some k) v (inthash (Some k)) inthash = Some h'"
      "table_inv inthash h'" "table_map h' = (table_map h)(k \<mapsto> v)" by blast
    show ?thesis
    proof (rule that(1) [of h' a'])
      show "inttable_inv (t\<lparr>it_t := h'\<rparr>)"
        by (rule inttable_inv_table [OF inv h'(2)]) (use k d(6) 1(3) h'(3) in auto)
      show "inttable_map (t\<lparr>it_t := h'\<rparr>) = (inttable_map t)(k \<mapsto> v)"
        unfolding inttable_map_table using k 1(3) h'(3) by (auto simp: inttable_map_def fun_eq_iff)
      show "upb_inttable_insert t k v a = Some (True, t\<lparr>it_t := h'\<rparr>, a')"
        using k 1(1) h'(1) nk by (simp add: upb_inttable_insert_def)
    qed (use table_insert_size [OF h'(1)] 1(5-7) in simp_all)
  next
    case (2 a')
    show ?thesis by (rule that(2) [of a']) (use 2 k in \<open>simp_all add: upb_inttable_insert_def\<close>)
  qed
qed

lemma inttable_remove_ok:
  assumes inv: "inttable_inv t"
  shows "\<exists>t'. upb_inttable_remove t k = Some (inttable_map t k, t') \<and> inttable_inv t' \<and>
    inttable_map t' = (inttable_map t)(k := None) \<and> (\<forall>k'. inttable_fits t k' \<longrightarrow> inttable_fits t' k')"
proof (cases "k < ucast (it_array_size t)")
  case array: True
  note d = inttable_invD [OF inv]
  let ?i = "unat (k div 8)"
  let ?t = "t\<lparr>it_array_count := it_array_count t - 1, it_array := (it_array t)[unat k := kInttableSentinel],
    it_presence := (it_presence t)[?i := it_presence t ! ?i AND NOT (push_bit (unat (k mod 8)) 1)]\<rparr>"
  have n: "unat k < unat (it_array_size t)" using array by (simp add: less_array_size)
  show ?thesis
  proof (cases "arr_has t (unat k)")
    case True
    have has: "arr_has ?t i \<longleftrightarrow> arr_has t i \<and> i \<noteq> unat k" for i
      using arr_has_clear [OF inv n, of i] by simp
    have eq: "{i. i < unat (it_array_size t) \<and> arr_has t i \<and> i \<noteq> unat k} = {i. i < unat (it_array_size t) \<and> arr_has t i} - {unat k}"
      by blast
    have "unat k \<in> {i. i < unat (it_array_size t) \<and> arr_has t i}" using True n by simp
    then have pos: "0 < unat (it_array_count t)" unfolding d(7) by (subst card_gt_0_iff) auto
    then have "1 \<le> it_array_count t" by (simp add: word_le_nat_alt)
    then have "unat (it_array_count t - 1) = unat (it_array_count t) - 1" by (simp add: unat_sub)
    then have count: "unat (it_array_count ?t) = card {i. i < unat (it_array_size t) \<and> arr_has ?t i}"
      unfolding has eq using True n d(7) by simp
    have "inttable_inv ?t" unfolding inttable_inv_def using d count by simp
    moreover have "inttable_map ?t = (inttable_map t)(k := None)"
      using has n array d(4) by (auto simp: inttable_map_def fun_eq_iff nth_list_update less_array_size word_unat_eq_iff)
    moreover have "upb_inttable_remove t k = Some (inttable_map t k, ?t)"
      using array True by (simp add: upb_inttable_remove_def arrhas_iff inttable_map_def Let_def)
    ultimately show ?thesis by (simp add: inttable_fits_def)
  next
    case False
    with array inv show ?thesis
      by (intro exI [of _ t]) (auto simp: upb_inttable_remove_def arrhas_iff inttable_map_def)
  qed
next
  case False
  note d = inttable_invD [OF inv]
  have h: "upb_inthash k = inthash (Some k)" by (simp add: inthash_def key_num_def)
  from int.table_rm_ok [OF d(1), of k] obtain h' where h': "table_rm (it_t t) k (inthash (Some k)) inteql = Some (table_map (it_t t) k, h')"
    "table_inv inthash h'" "table_map h' = (table_map (it_t t))(k := None)" "tab_mask h' = tab_mask (it_t t)" by blast
  have "length (tab_entries h') = length (tab_entries (it_t t))"
    using table_inv_size(1) [OF h'(2)] table_inv_size(1) [OF d(1)] h'(4) by (simp add: upb_table_size_def)
  then have "inttable_fits t k' \<longrightarrow> inttable_fits (t\<lparr>it_t := h'\<rparr>) k'" for k' by (simp add: inttable_fits_def)
  moreover have "inttable_inv (t\<lparr>it_t := h'\<rparr>)"
    by (rule inttable_inv_table [OF inv h'(2)]) (use d(6) h'(3) in auto)
  moreover have "inttable_map (t\<lparr>it_t := h'\<rparr>) = (inttable_map t)(k := None)"
    unfolding inttable_map_table using False h'(3) by (auto simp: inttable_map_def fun_eq_iff)
  moreover have "upb_inttable_remove t k = Some (inttable_map t k, t\<lparr>it_t := h'\<rparr>)"
    using False h'(1) h by (simp add: upb_inttable_remove_def inttable_map_def)
  ultimately show ?thesis by blast
qed

interpretation inttab: map_table inttable_inv inttable_map upb_inttable_lookup upb_inttable_remove upb_inttable_insert inttable_fits
proof
  fix t :: upb_inttable and k v a
  assume inv: "inttable_inv t"
  show "upb_inttable_lookup t k = Some (inttable_map t k)" by (rule inttable_lookup_map [OF inv])
  show "\<exists>t'. upb_inttable_remove t k = Some (inttable_map t k, t') \<and> inttable_inv t' \<and>
    inttable_map t' = (inttable_map t)(k := None) \<and> (\<forall>k'. inttable_fits t k' \<longrightarrow> inttable_fits t' k')"
    by (rule inttable_remove_ok [OF inv])
  assume fresh: "inttable_map t k = None"
  show "\<exists>ok t' a'. upb_inttable_insert t k v a = Some (ok, t', a') \<and> inttable_inv t' \<and>
    inttable_map t' = (if ok then (inttable_map t)(k \<mapsto> v) else inttable_map t) \<and> (ok \<or> arena_refuses a \<or> \<not> inttable_fits t k)"
  proof (cases "k < ucast (it_array_size t)")
    case True
    with inttable_insert_array [OF inv True fresh, of v a] show ?thesis by auto
  next
    case False
    show ?thesis
    proof (cases rule: inttable_insert_hash [OF inv False fresh, of v a])
      case (1 h a')
      then show ?thesis by simp blast
    next
      case (2 a')
      then show ?thesis using inv by (intro exI [of _ False] exI [of _ t] exI [of _ a']) (simp add: inttable_fits_def)
    qed
  qed
qed

section \<open>Creating, replacing and clearing\<close>

lemma arr_has_zero: "(n + 7) div 8 = m \<Longrightarrow> i < n \<Longrightarrow> \<not> bit (replicate m (0 :: byte) ! (i div 8)) (i mod 8)"
proof -
  assume "(n + 7) div 8 = m" and "i < n"
  then have "i div 8 < m" by linarith
  then show ?thesis by simp
qed

text \<open>A table whose array, mask and entries are all unset is the empty map.\<close>

lemma inttable_empty_ok:
  assumes "table_inv inthash (it_t t)" and "table_map (it_t t) = Map.empty" and "0 < it_array_size t"
    and n: "unat (it_array_size t) + 8 \<le> 2 ^ 32" and "length (it_array t) = unat (it_array_size t)"
    and p: "it_presence t = replicate (unat (presence_mask_arr_size (it_array_size t))) 0" and "it_array_count t = 0"
  shows "inttable_inv t" "inttable_map t = Map.empty"
proof -
  note m = unat_presence_size [OF n]
  have no: "\<not> arr_has t i" if "i < unat (it_array_size t)" for i
    unfolding p by (rule arr_has_zero [OF m [symmetric] that])
  then have none: "{i. i < unat (it_array_size t) \<and> arr_has t i} = {}" by blast
  show "inttable_inv t"
    unfolding inttable_inv_def none using assms m by simp
  show "inttable_map t = Map.empty"
    using no assms(2) by (auto simp: inttable_map_def fun_eq_iff less_array_size)
qed

lemma inttable_sizedinit_ok:
  assumes i: "upb_inttable_sizedinit n lg a = (Some t, a')" and n: "unat n + 8 \<le> 2 ^ 32"
  shows "inttable_inv t" "inttable_map t = Map.empty" "it_array_size t = max 1 n"
    "length (tab_entries (it_t t)) = 2 ^ lg" "arena_refuses a' = arena_refuses a"
proof -
  from i obtain h a1 x where h: "table_init lg a = (Some h, a1)"
    and m: "upb_Arena_Malloc a1 (unat (max 1 n) * 8 + unat (presence_mask_arr_size (max 1 n))) = (Some x, a')"
    and t: "t = \<lparr>it_t = h, it_array = replicate (unat (max 1 n)) (- 1),
      it_presence = replicate (unat (presence_mask_arr_size (max 1 n))) 0, it_array_size = max 1 n, it_array_count = 0\<rparr>"
    by (auto simp: upb_inttable_sizedinit_def Let_def split: prod.splits option.splits)
  have "unat (max 1 n) + 8 \<le> 2 ^ 32" using n by (simp add: max_def)
  moreover have "0 < max 1 n" by (simp add: max_def word_less_nat_alt word_le_nat_alt)
  ultimately show "inttable_inv t" "inttable_map t = Map.empty"
    using table_init_ok(1) [OF h, where hf = inthash] table_init_ok(2) [OF h] by (auto simp: t intro!: inttable_empty_ok)
  show "it_array_size t = max 1 n" "length (tab_entries (it_t t)) = 2 ^ lg" using table_init_ok(3) [OF h] by (simp_all add: t)
  show "arena_refuses a' = arena_refuses a" using arena_Malloc_same [OF m] table_init_arena [OF h] by simp
qed

lemma inttable_sizedinit_None:
  assumes "upb_inttable_sizedinit n lg a = (None, a')" and "lg < 32"
  shows "arena_refuses a"
proof (cases "table_init lg a :: u64 upb_table option \<times> upb_Arena")
  case (Pair h a1)
  show ?thesis
  proof (cases h)
    case None
    with Pair table_init_None [OF _ assms(2)] show ?thesis by blast
  next
    case (Some h')
    with assms(1) Pair have "fst (upb_Arena_Malloc a1 (unat (max 1 n) * 8 + unat (presence_mask_arr_size (max 1 n)))) = None"
      by (auto simp: upb_inttable_sizedinit_def Let_def split: prod.splits option.splits)
    then have "arena_refuses a1" by (metis arena_refuses_Malloc prod.collapse)
    with table_init_arena [OF Pair] show ?thesis by simp
  qed
qed

lemma table_clear_ok:
  assumes "table_inv hf h"
  shows "table_inv hf (h\<lparr>tab_count := 0, tab_entries := replicate (unat (upb_table_size h)) zero_entry\<rparr>)"
    "table_map (h\<lparr>tab_count := 0, tab_entries := replicate (unat (upb_table_size h)) zero_entry\<rparr>) = Map.empty"
proof -
  note n = table_inv_size [OF assms]
  from assms obtain lg where lg: "lg < 32" "tab_mask h = push_bit lg 1 - 1" "length (tab_entries h) = 2 ^ lg"
    by (auto simp: table_inv_def)
  have "scatter (main_pos hf (push_bit lg 1 - 1)) (2 ^ lg) (\<lambda>_. None) (entry_next (replicate (2 ^ lg) zero_entry))"
    using main_pos_less [OF lg(1)] by (rule scatter_empty)
  with lg show "table_inv hf (h\<lparr>tab_count := 0, tab_entries := replicate (unat (upb_table_size h)) zero_entry\<rparr>)"
    unfolding n(1) by (auto simp: table_inv_def)
  show "table_map (h\<lparr>tab_count := 0, tab_entries := replicate (unat (upb_table_size h)) zero_entry\<rparr>) = Map.empty"
    by (auto simp: table_map_def zero_entry_def find_None_iff fun_eq_iff)
qed

lemma inttable_clear_ok:
  assumes "inttable_inv t"
  shows "inttable_inv (upb_inttable_clear t)" "inttable_map (upb_inttable_clear t) = Map.empty"
  using inttable_invD [OF assms] table_clear_ok [OF inttable_invD(1) [OF assms]]
  by (auto simp: upb_inttable_clear_def Let_def intro!: inttable_empty_ok)

lemma inttable_replace_ok:
  assumes inv: "inttable_inv t"
  shows "\<exists>t'. upb_inttable_replace t k v = Some (inttable_map t k \<noteq> None, t') \<and> inttable_inv t' \<and>
    inttable_map t' = (if inttable_map t k = None then inttable_map t else (inttable_map t)(k \<mapsto> v))"
proof (cases "k < ucast (it_array_size t)")
  case array: True
  note d = inttable_invD [OF inv]
  show ?thesis
  proof (cases "arr_has t (unat k)")
    case True
    let ?t = "t\<lparr>it_array := (it_array t)[unat k := v]\<rparr>"
    have "inttable_inv ?t" unfolding inttable_inv_def using d by simp
    moreover have "inttable_map ?t = (inttable_map t)(k \<mapsto> v)"
      using array True d(4) by (auto simp: inttable_map_def fun_eq_iff nth_list_update less_array_size word_unat_eq_iff)
    moreover have "upb_inttable_replace t k v = Some (True, ?t)"
      using array True by (simp add: upb_inttable_replace_def inttable_val_def inttable_array_get_def arrhas_iff)
    ultimately show ?thesis using array True by (simp add: inttable_map_def)
  next
    case False
    with array inv show ?thesis
      by (simp add: upb_inttable_replace_def inttable_val_def inttable_array_get_def arrhas_iff inttable_map_def)
  qed
next
  case False
  note d = inttable_invD [OF inv]
  have h: "upb_inthash k = inthash (Some k)" by (simp add: inthash_def key_num_def)
  show ?thesis
  proof (cases rule: int.findentry_ok [OF d(1), of k])
    case (1 i w)
    let ?h = "(it_t t)\<lparr>tab_entries := (tab_entries (it_t t))[i := (tab_entries (it_t t) ! i)\<lparr>ent_val := v\<rparr>]\<rparr>"
    note s = table_set_value_ok [OF d(1) 1(2), of v]
    have "inttable_inv (t\<lparr>it_t := ?h\<rparr>)"
      by (rule inttable_inv_table [OF inv s(1)]) (use False d(6) s(2) in auto)
    moreover have "inttable_map (t\<lparr>it_t := ?h\<rparr>) = (inttable_map t)(k \<mapsto> v)"
      unfolding inttable_map_table using False s(2) by (auto simp: inttable_map_def fun_eq_iff)
    moreover have "upb_inttable_replace t k v = Some (True, t\<lparr>it_t := ?h\<rparr>)"
      using False 1(1) h by (simp add: upb_inttable_replace_def inttable_val_def Let_def)
    moreover have "table_map (it_t t) k = Some w" using table_map_iff [OF table_inv_scatter [OF d(1)]] 1(2) by blast
    then have "inttable_map t k = Some w" using False by (simp add: inttable_map_def)
    ultimately show ?thesis by simp
  next
    case 2
    then have "table_map (it_t t) k = None" using table_map_None [OF table_inv_scatter [OF d(1)]] by blast
    then have "inttable_map t k = None" using False by (simp add: inttable_map_def)
    with 2 False inv h show ?thesis by (simp add: upb_inttable_replace_def inttable_val_def)
  qed
qed

section \<open>What iteration visits\<close>

lemma find_of_filter: "List.find P xs = (case filter P xs of [] \<Rightarrow> None | x # _ \<Rightarrow> Some x)"
  by (induction xs) auto

lemma array_next_loop_find:
  assumes "unat (i + 1) \<le> unat (it_array_size t)"
  shows "array_next_loop t i = map_option (\<lambda>j. (of_nat j, it_array t ! j)) (find (arr_has t) [unat (i + 1)..<unat (it_array_size t)])"
  using assms
proof (induction t i rule: array_next_loop.induct)
  case (1 t i)
  show ?case
  proof (cases "i + 1 < ucast (it_array_size t)")
    case True
    note n = unat_Suc_below [OF True]
    have lt: "unat (i + 1) < unat (it_array_size t)" using True by (simp add: less_array_size)
    show ?thesis
    proof (cases "arr_has t (unat (i + 1))")
      case has: True
      with True lt show ?thesis
        by (subst array_next_loop.simps) (simp add: Let_def inttable_array_get_def arrhas_iff upt_conv_Cons)
    next
      case False
      then have g: "inttable_array_get t (i + 1) = None" by (simp add: inttable_array_get_def arrhas_iff)
      have "unat (i + 1 + 1) \<le> unat (it_array_size t)" using n lt by simp
      from "1.IH" [OF refl True g this, unfolded n] True g False lt show ?thesis
        by (subst array_next_loop.simps) (simp add: Let_def upt_conv_Cons)
    qed
  next
    case False
    then have "unat (i + 1) = unat (it_array_size t)" using "1.prems" by (simp add: less_array_size)
    with False show ?thesis by (subst array_next_loop.simps) (simp add: Let_def)
  qed
qed

lemma inttable_next_table_iterate:
  assumes inv: "table_inv inthash (it_t t)" and i: "unat (i + 1) \<le> length (tab_entries (it_t t))"
  shows "inttable_next_table t (i + ucast (it_array_size t)) = None \<and> table_iterate (it_t t) i = [] \<or>
    (\<exists>k v j. inttable_next_table t (i + ucast (it_array_size t)) = Some (k, v, of_nat j + ucast (it_array_size t)) \<and>
      table_iterate (it_t t) i = (k, v) # table_iterate (it_t t) (of_nat j) \<and>
      j < length (tab_entries (it_t t)) \<and> unat (i + 1) \<le> j \<and> unat ((of_nat j :: u64) + 1) = Suc j)"
proof (cases rule: table_next_cases [OF inv i])
  case (1 j)
  from 1(6) obtain k where k: "ent_key (tab_entries (it_t t) ! j) = Some k" by auto
  have u: "unat (table_next (it_t t) i) = j" unfolding 1(1) by (rule 1(2))
  have "inttable_next_table t (i + ucast (it_array_size t)) =
      Some (k, ent_val (tab_entries (it_t t) ! j), table_next (it_t t) i + ucast (it_array_size t))"
    using 1(8) u k by (simp add: inttable_next_table_def Let_def key_num_def)
  moreover have "table_iterate (it_t t) i = (k, ent_val (tab_entries (it_t t) ! j)) # table_iterate (it_t t) (table_next (it_t t) i)"
    by (subst table_iterate.simps) (use 1(8) u k in \<open>simp add: Let_def\<close>)
  ultimately show ?thesis unfolding 1(1) using 1(3-5) by blast
next
  case 2
  then have "inttable_next_table t (i + ucast (it_array_size t)) = None" by (simp add: inttable_next_table_def Let_def not_less)
  moreover have "table_iterate (it_t t) i = []" by (subst table_iterate.simps) (use 2(1) in \<open>simp add: Let_def not_less\<close>)
  ultimately show ?thesis by blast
qed

lemma inttable_iterate_table:
  assumes inv: "table_inv inthash (it_t t)" and "j < length (tab_entries (it_t t))"
  shows "inttable_iterate t (of_nat j + ucast (it_array_size t)) = table_iterate (it_t t) (of_nat j)"
  using assms(2)
proof (induction "length (tab_entries (it_t t)) - j" arbitrary: j rule: less_induct)
  case less
  let ?n = "ucast (it_array_size t) :: u64"
  note len = table_inv_size(3) [OF inv]
  have u: "unat (of_nat j :: u64) = j" using less.prems len by (simp add: unat_of_nat take_bit_nat_eq_self)
  have n: "unat ?n < 2 ^ 32" "unat ?n = unat (it_array_size t)"
    using unsigned_less [where ?'a = nat and w = "it_array_size t"] by (simp_all add: unat_ucast_u32)
  have s: "unat (of_nat j + ?n) = j + unat ?n" using unat_add_u32 [of "of_nat j" "it_array_size t"] u less.prems len n by simp
  have s1: "unat (of_nat j + ?n + 1) = j + unat ?n + 1"
    using unat_add_lem [of "of_nat j + ?n" 1] s less.prems len n by simp
  then have "\<not> of_nat j + ?n + 1 \<le> ?n" unfolding word_le_nat_alt s1 by simp
  then have nx: "upb_inttable_next t (of_nat j + ?n) = inttable_next_table t (of_nat j + ?n)" by (simp add: upb_inttable_next_def)
  have j1: "unat ((of_nat j :: u64) + 1) = Suc j"
    using unat_add_lem [of "of_nat j :: u64" 1] u less.prems len by simp
  with less.prems have "unat ((of_nat j :: u64) + 1) \<le> length (tab_entries (it_t t))" by simp
  from inttable_next_table_iterate [OF inv this] show ?case
  proof (elim disjE conjE exE)
    assume "inttable_next_table t (of_nat j + ?n) = None" "table_iterate (it_t t) (of_nat j) = []"
    then show ?thesis by (subst inttable_iterate.simps) (simp add: nx)
  next
    fix k v l
    assume l: "inttable_next_table t (of_nat j + ?n) = Some (k, v, of_nat l + ?n)"
      "table_iterate (it_t t) (of_nat j) = (k, v) # table_iterate (it_t t) (of_nat l)"
      "l < length (tab_entries (it_t t))" "unat ((of_nat j :: u64) + 1) \<le> l"
    have "inttable_iterate t (of_nat l + ?n) = table_iterate (it_t t) (of_nat l)"
      by (rule less.hyps) (use l(3,4) j1 less.prems in auto)
    then show ?thesis unfolding l(2) by (subst inttable_iterate.simps) (simp add: nx l(1))
  qed
qed

lemma filter_upt_find:
  "find P [s..<n] = None \<Longrightarrow> filter P [s..<n] = []"
  "find P [s..<n] = Some j \<Longrightarrow> filter P [s..<n] = j # filter P [Suc j..<n]"
proof -
  show "find P [s..<n] = None \<Longrightarrow> filter P [s..<n] = []" by (auto simp: find_None_iff filter_empty_conv)
  assume "find P [s..<n] = Some j"
  then have j: "s \<le> j" "j < n" "P j" "\<And>i. s \<le> i \<Longrightarrow> i < j \<Longrightarrow> \<not> P i" using find_upt_Some [of P s n j] by blast+
  have "[s..<n] = [s..<j] @ j # [Suc j..<n]" using j by (metis upt_add_eq_append upt_conv_Cons le_add_diff_inverse less_imp_le)
  moreover have "filter P [s..<j] = []" using j(4) by (auto simp: filter_empty_conv)
  ultimately show "filter P [s..<n] = j # filter P [Suc j..<n]" using j(3) by simp
qed

definition array_pairs :: "upb_inttable \<Rightarrow> nat \<Rightarrow> (u64 \<times> upb_value) list" where
  "array_pairs t s = map (\<lambda>j. (of_nat j, it_array t ! j)) (filter (arr_has t) [s..<unat (it_array_size t)])"

lemma inttable_iterate_eq:
  assumes inv: "inttable_inv t" and "unat (i + 1) \<le> unat (it_array_size t)"
  shows "inttable_iterate t i = array_pairs t (unat (i + 1)) @ table_iterate (it_t t) (- 1)"
  using assms(2)
proof (induction "unat (it_array_size t) - unat (i + 1)" arbitrary: i rule: less_induct)
  case less
  note d = inttable_invD [OF inv]
  let ?n = "ucast (it_array_size t) :: u64"
  have le: "i + 1 \<le> ?n" using less.prems by (simp add: word_le_nat_alt unat_ucast_u32)
  note lp = array_next_loop_find [OF less.prems]
  show ?case
  proof (cases "find (arr_has t) [unat (i + 1)..<unat (it_array_size t)]")
    case None
    with lp le have nx: "upb_inttable_next t i = inttable_next_table t (?n - 1)" by (simp add: upb_inttable_next_def)
    have "unat (- 1 + 1 :: u64) \<le> length (tab_entries (it_t t))" by simp
    from inttable_next_table_iterate [OF d(1) this] have "inttable_iterate t i = table_iterate (it_t t) (- 1)"
    proof (elim disjE conjE exE)
      fix k v l
      assume l: "inttable_next_table t (- 1 + ?n) = Some (k, v, of_nat l + ?n)"
        "table_iterate (it_t t) (- 1) = (k, v) # table_iterate (it_t t) (of_nat l)" "l < length (tab_entries (it_t t))"
      from l(1) have "inttable_next_table t (?n - 1) = Some (k, v, of_nat l + ?n)" by simp
      then show ?thesis unfolding l(2) inttable_iterate_table [OF d(1) l(3), symmetric]
        by (subst inttable_iterate.simps) (simp add: nx)
    qed (subst inttable_iterate.simps, simp add: nx)
    then show ?thesis unfolding array_pairs_def filter_upt_find(1) [OF None] by simp
  next
    case (Some j)
    then have j: "unat (i + 1) \<le> j" "j < unat (it_array_size t)" using find_upt_Some by auto
    have u: "unat ((of_nat j :: u64) + 1) = Suc j"
      using j(2) d(3) unat_add_lem [of "of_nat j :: u64" 1] by (simp add: unat_of_nat take_bit_nat_eq_self)
    have "inttable_iterate t (of_nat j) = array_pairs t (unat ((of_nat j :: u64) + 1)) @ table_iterate (it_t t) (- 1)"
      by (rule less.hyps) (use j u in auto)
    moreover have "upb_inttable_next t i = Some (of_nat j, it_array t ! j, of_nat j)" using lp le Some by (simp add: upb_inttable_next_def)
    ultimately show ?thesis unfolding array_pairs_def filter_upt_find(2) [OF Some] u
      by (subst inttable_iterate.simps) simp
  qed
qed

text \<open>Every key exactly once.\<close>

lemma inttable_iterate_ok:
  assumes inv: "inttable_inv t"
  shows "distinct (map fst (inttable_iterate t (- 1)))" "map_of (inttable_iterate t (- 1)) = inttable_map t"
proof -
  note d = inttable_invD [OF inv]
  let ?A = "array_pairs t 0" and ?T = "table_iterate (it_t t) (- 1)" and ?n = "it_array_size t"
  have it: "inttable_iterate t (- 1) = ?A @ ?T" using inttable_iterate_eq [OF inv, of "- 1"] by simp
  have small: "unat (of_nat j :: u64) = j" if "j < unat ?n" for j
    using that d(3) by (simp add: unat_of_nat take_bit_nat_eq_self)
  have A: "(k, v) \<in> set ?A \<longleftrightarrow> unat k < unat ?n \<and> arr_has t (unat k) \<and> it_array t ! unat k = v" for k v
  proof
    assume "unat k < unat ?n \<and> arr_has t (unat k) \<and> it_array t ! unat k = v"
    then show "(k, v) \<in> set ?A" by (auto simp: array_pairs_def intro!: image_eqI [where x = "unat k"])
  qed (use small in \<open>auto simp: array_pairs_def\<close>)
  have T: "distinct (map fst ?T) \<and> (\<forall>k v. (k, v) \<in> set ?T \<longleftrightarrow> (\<exists>j. entry_kv (tab_entries (it_t t)) j = Some (k, v)))"
    using table_iterate_ok [OF d(1), of "- 1"] by simp
  then have T': "(k, v) \<in> set ?T \<longleftrightarrow> table_map (it_t t) k = Some v" for k v
    using table_map_iff [OF table_inv_scatter [OF d(1)]] by blast
  have "inj_on (of_nat :: nat \<Rightarrow> u64) {..<unat ?n}" by (rule inj_on_inverseI [where g = unat]) (simp add: small)
  then have dA: "distinct (map fst ?A)"
    by (auto simp: array_pairs_def distinct_map comp_def inj_on_def intro: inj_onD)
  have "k < ucast ?n \<Longrightarrow> (k, v) \<notin> set ?T" for k v using d(6) T' by simp
  then have "set (map fst ?A) \<inter> set (map fst ?T) = {}" using A by (auto simp: less_array_size)
  with dA T show dist: "distinct (map fst (inttable_iterate t (- 1)))" unfolding it by simp
  have "map_of (inttable_iterate t (- 1)) k = Some v \<longleftrightarrow> inttable_map t k = Some v" for k v
    unfolding map_of_eq_Some_iff [OF dist] unfolding it set_append Un_iff A T'
    using d(6) [of k] by (auto simp: inttable_map_def less_array_size)
  then show "map_of (inttable_iterate t (- 1)) = inttable_map t" by (rule map_eqI)
qed

section \<open>Removing during iteration\<close>

text \<open>
  \<open>upb_inttable_removeiter\<close> does not do what \<open>upb_inttable_remove\<close> does. In the array part it clears neither
  the presence bit nor does the slot's value matter for a lookup: the key stays in the map.
\<close>

lemma inttable_removeiter_array_keeps_key:
  assumes "inttable_inv t" and k: "k < ucast (it_array_size t)" and v: "inttable_map t k \<noteq> None"
  shows "upb_inttable_lookup (upb_inttable_removeiter t k) k = Some (Some kInttableSentinel)"
proof -
  have "arr_has t (unat k)" using k v by (auto simp: inttable_map_def split: if_splits)
  moreover have "unat k < length (it_array t)" using k inttable_invD(4) [OF assms(1)] by (simp add: less_array_size)
  ultimately show ?thesis using k
    by (simp add: upb_inttable_removeiter_def upb_inttable_lookup_def inttable_val_def inttable_array_get_def arrhas_iff
      slot_value_def kInttableSentinel_def)
qed

text \<open>
  In the table part the entry that starts a chain has no predecessor, and the entries behind it are lost: in
  a table of eight entries the keys 8 and 16 share a bucket, and removing the first one hides the second.
\<close>

definition two_in_a_chain :: upb_inttable where
  "two_in_a_chain = \<lparr>it_t = \<lparr>tab_entries =
       [\<lparr>ent_val = 80, ent_key = Some 8, ent_next = Some 1\<rparr>, \<lparr>ent_val = 160, ent_key = Some 16, ent_next = None\<rparr>] @
       replicate 6 zero_entry, tab_count = 2, tab_mask = 7\<rparr>,
     it_array = [5], it_presence = [1], it_array_size = 1, it_array_count = 1\<rparr>"

lemma two_in_a_chain_reached:
  "table_insert (it_t two_in_a_chain\<lparr>tab_entries := replicate 8 zero_entry, tab_count := 0\<rparr>) (Some 8) 80 (upb_inthash 8) inthash =
     Some (it_t two_in_a_chain\<lparr>tab_entries := \<lparr>ent_val = 80, ent_key = Some 8, ent_next = None\<rparr> # replicate 7 zero_entry, tab_count := 1\<rparr>)"
  "table_insert (it_t two_in_a_chain\<lparr>tab_entries := \<lparr>ent_val = 80, ent_key = Some 8, ent_next = None\<rparr> # replicate 7 zero_entry, tab_count := 1\<rparr>)
     (Some 16) 160 (upb_inthash 16) inthash = Some (it_t two_in_a_chain)"
  by code_simp+


section \<open>Properties\<close>

text \<open>C36: the integer table is a map. With small keys in an array and the others in chains, a lookup answers
  what the table's map holds; a replacement changes the value of a key that is there and nothing else; a
  removal takes exactly the key out; an insertion of a new key adds it, and fails, with the map unchanged,
  only when the arena refuses or the hash part is at its largest size. No assertion of the code fails.\<close>

theorem inttable_refines_map:
  assumes "inttable_inv t"
  shows "upb_inttable_lookup t k = Some (inttable_map t k) \<and>
    (\<exists>t'. upb_inttable_replace t k v = Some (inttable_map t k \<noteq> None, t') \<and> inttable_inv t' \<and>
      inttable_map t' = (if inttable_map t k = None then inttable_map t else (inttable_map t)(k \<mapsto> v))) \<and>
    (\<exists>t'. upb_inttable_remove t k = Some (inttable_map t k, t') \<and> inttable_inv t' \<and>
      inttable_map t' = (inttable_map t)(k := None)) \<and>
    (inttable_map t k \<noteq> None \<or> (\<exists>ok t' a'. upb_inttable_insert t k v a = Some (ok, t', a') \<and> inttable_inv t' \<and>
      inttable_map t' = (if ok then (inttable_map t)(k \<mapsto> v) else inttable_map t) \<and>
      (ok \<or> arena_refuses a \<or> 2 ^ 31 \<le> length (tab_entries (it_t t)))))"
proof (intro conjI)
  show "upb_inttable_lookup t k = Some (inttable_map t k)" by (rule inttab.lookup_law [OF assms])
  show "\<exists>t'. upb_inttable_replace t k v = Some (inttable_map t k \<noteq> None, t') \<and> inttable_inv t' \<and>
      inttable_map t' = (if inttable_map t k = None then inttable_map t else (inttable_map t)(k \<mapsto> v))"
    by (rule inttable_replace_ok [OF assms])
  show "\<exists>t'. upb_inttable_remove t k = Some (inttable_map t k, t') \<and> inttable_inv t' \<and>
      inttable_map t' = (inttable_map t)(k := None)"
    using inttab.remove_law [OF assms, of k] by blast
  show "inttable_map t k \<noteq> None \<or> (\<exists>ok t' a'. upb_inttable_insert t k v a = Some (ok, t', a') \<and> inttable_inv t' \<and>
      inttable_map t' = (if ok then (inttable_map t)(k \<mapsto> v) else inttable_map t) \<and>
      (ok \<or> arena_refuses a \<or> 2 ^ 31 \<le> length (tab_entries (it_t t))))"
  proof (cases "inttable_map t k")
    case None
    have "\<not> inttable_fits t k \<longleftrightarrow> 2 ^ 31 \<le> length (tab_entries (it_t t))"
      unfolding inttable_fits_def by (simp only: not_less)
    with inttab.insert_law [OF assms None, of v a] show ?thesis by simp
  qed simp
qed

lemma inttable_example:
  obtains t where "fst (upb_inttable_init arena_unlimited) = Some t" "inttable_inv t" "inttable_map t = Map.empty"
    "length (tab_entries (it_t t)) = 8"
proof -
  have "fst (upb_inttable_init arena_unlimited) \<noteq> None"
    by (simp add: upb_inttable_init_def upb_inttable_sizedinit_def table_init_def upb_table_size_def sizeof_upb_tabent_def
      upb_Arena_Malloc_def arena_unlimited_def Let_def push_bit_eq_mult)
  then obtain t a' where "upb_inttable_init arena_unlimited = (Some t, a')"
    by (cases "upb_inttable_init arena_unlimited") auto
  with inttable_sizedinit_ok [of 0 3 arena_unlimited t a'] that [of t] show ?thesis by (simp add: upb_inttable_init_def)
qed

lemma inttable_refines_map_witness:
  "\<exists>t. fst (upb_inttable_init arena_unlimited) = Some t \<and> upb_inttable_lookup t 8 = Some None \<and>
    (\<exists>t' a'. upb_inttable_insert t 8 80 arena_unlimited = Some (True, t', a') \<and> inttable_map t' = [8 \<mapsto> 80])"
proof -
  obtain t where t: "fst (upb_inttable_init arena_unlimited) = Some t" "inttable_inv t" "inttable_map t = Map.empty"
    "length (tab_entries (it_t t)) = 8" by (rule inttable_example)
  from inttable_refines_map [OF t(2), of 8 80 arena_unlimited] t show ?thesis by auto
qed

end
