(* ===== verification/Int_Compact.thy ===== *)
theory Int_Compact
  imports Int_Table
begin

text \<open>
  \<open>upb_inttable_compact\<close> of \<open>upb/hash/common.c\<close>: a histogram of the keys gives the size of the array
  part, and all entries are inserted into a table of that size.
\<close>

section \<open>The operation\<close>

definition is_pow2 :: "u64 \<Rightarrow> bool" where
  "is_pow2 v \<longleftrightarrow> v = 0 \<or> v AND (v - 1) = 0"

text \<open>\<open>while (v >>= 1) ret++\<close>\<close>

function log2_loop :: "u64 \<Rightarrow> nat \<Rightarrow> nat" where
  "log2_loop v ret = (let v = drop_bit 1 v in if v \<noteq> 0 then log2_loop v (ret + 1) else ret)"
  by pat_completeness auto
termination
proof (relation "measure (\<lambda>(v, r). unat v)")
  fix v x :: u64 and ret :: nat
  assume x: "x = drop_bit 1 v" "x \<noteq> 0"
  then have "v \<noteq> 0" by auto
  then have "0 < unat v" by (simp add: unat_gt_0)
  moreover have "unat x = unat v div 2" using unat_drop_bit [of 1 v] by (simp only: x(1)) simp
  ultimately show "((x, ret + 1), (v, ret)) \<in> measure (\<lambda>(v, r). unat v)" by simp
qed simp

declare log2_loop.simps [simp del]

definition UPB_MAXARRSIZE :: nat where
  "UPB_MAXARRSIZE = 16"

definition log2ceil :: "u64 \<Rightarrow> nat" where
  "log2ceil v = (let ret = log2_loop v 0 in min UPB_MAXARRSIZE (if is_pow2 v then ret else ret + 1))"

text \<open>The histogram, and the largest key of each bucket.\<close>

definition compact_histogram :: "(u64 \<times> upb_value) list \<Rightarrow> u32 list \<times> u64 list" where
  "compact_histogram =
     foldl (\<lambda>(counts, mx) (key, val).
         let bucket = log2ceil key in (counts[bucket := counts ! bucket + 1], mx[bucket := max (mx ! bucket) key]))
       (replicate (UPB_MAXARRSIZE + 1) 0, replicate (UPB_MAXARRSIZE + 1) 0)"

text \<open>
  The loop that looks for the size of the array. The comparison with a tenth of a power of two, which no
  integer equals, is over the integers.
\<close>

fun compact_size :: "u32 list \<Rightarrow> nat \<Rightarrow> u32 \<Rightarrow> nat \<times> u32" where
  "compact_size counts 0 arr_count = (0, arr_count)"
| "compact_size counts (Suc n) arr_count =
     (if counts ! Suc n = 0 then compact_size counts n arr_count
      else if 10 * unat arr_count \<ge> 2 ^ Suc n then (Suc n, arr_count)
      else compact_size counts n (arr_count - counts ! Suc n))"

text \<open>The loop that fills the new table, which does not look at what \<open>upb_inttable_insert\<close> returns.\<close>

fun compact_fill :: "(u64 \<times> upb_value) list \<Rightarrow> upb_inttable \<Rightarrow> upb_Arena \<Rightarrow> (upb_inttable \<times> upb_Arena) option" where
  "compact_fill [] new_t a = Some (new_t, a)"
| "compact_fill ((key, val) # ps) new_t a =
     (case upb_inttable_insert new_t key val a of
        None \<Rightarrow> None
      | Some (_, new_t, a) \<Rightarrow> compact_fill ps new_t a)"

text \<open>The outer \<open>None\<close> is a failed assertion.\<close>

definition upb_inttable_compact :: "upb_inttable \<Rightarrow> upb_Arena \<Rightarrow> (bool \<times> upb_inttable \<times> upb_Arena) option" where
  "upb_inttable_compact t a =
     (let pairs = inttable_iterate t (- 1);
          (counts, mx) = compact_histogram pairs;
          (size_lg2, arr_count) = compact_size counts UPB_MAXARRSIZE (ucast (upb_inttable_count t))
      in if \<not> ucast arr_count \<le> upb_inttable_count t then None
         else
           let arr_size = mx ! size_lg2 + 1;
               hash_count = ucast (upb_inttable_count t - ucast arr_count) :: u32;
               hash_size = if hash_count \<noteq> 0 then entries_needed_for (unat hash_count) else 0;
               hashsize_lg2 = log2ceil (of_nat hash_size)
           in (case upb_inttable_sizedinit (ucast arr_size) hashsize_lg2 a of
                 (None, a) \<Rightarrow> Some (False, t, a)
               | (Some new_t, a) \<Rightarrow>
                   (case compact_fill pairs new_t a of
                      None \<Rightarrow> None
                    | Some (new_t, a) \<Rightarrow>
                        if ucast (it_array_size new_t) \<noteq> arr_size then None else Some (True, new_t, a))))"

section \<open>The histogram\<close>

lemma log2ceil_le: "log2ceil k \<le> 16"
  by (simp add: log2ceil_def UPB_MAXARRSIZE_def Let_def)

definition in_bucket :: "nat \<Rightarrow> (u64 \<times> upb_value) list \<Rightarrow> nat" where
  "in_bucket b ps = length (filter (\<lambda>(k, v). log2ceil k = b) ps)"

lemma in_bucket_sum: "(\<Sum>b\<le>16. in_bucket b ps) = length ps"
proof (induction ps)
  case (Cons p ps)
  obtain k v where p: "p = (k, v)" by (cases p)
  have "(\<Sum>b\<le>16. in_bucket b (p # ps)) = (\<Sum>b\<le>16. in_bucket b ps + (if b = log2ceil k then 1 else 0))"
    by (intro sum.cong) (auto simp: in_bucket_def p)
  also have "\<dots> = length ps + (\<Sum>b\<le>(16 :: nat). if b = log2ceil k then 1 else 0)" using Cons by (simp add: sum.distrib)
  also have "(\<Sum>b\<le>(16 :: nat). if b = log2ceil k then 1 else 0) = (1 :: nat)" using log2ceil_le [of k] by simp
  finally show ?case by simp
qed (simp add: in_bucket_def)

lemma histogram_ok:
  assumes "length ps < 2 ^ 32" and "compact_histogram ps = (counts, mx)"
  shows "length counts = 17 \<and> length mx = 17 \<and>
    (\<forall>b \<le> 16. unat (counts ! b) = in_bucket b ps \<and> (mx ! b = 0 \<or> mx ! b \<in> fst ` set ps))"
  using assms
proof (induction ps arbitrary: counts mx rule: rev_induct)
  case Nil
  then show ?case by (auto simp: compact_histogram_def UPB_MAXARRSIZE_def in_bucket_def nth_replicate)
next
  case (snoc p ps)
  obtain k v where p: "p = (k, v)" by (cases p)
  obtain c m where h: "compact_histogram ps = (c, m)" by (cases "compact_histogram ps")
  let ?b = "log2ceil k"
  have r: "counts = c[?b := c ! ?b + 1]" "mx = m[?b := max (m ! ?b) k]"
    using snoc.prems(2) h by (simp_all add: compact_histogram_def p Let_def)
  from snoc.IH [OF _ h] snoc.prems(1) have IH: "length c = 17" "length m = 17"
    "\<And>b. b \<le> 16 \<Longrightarrow> unat (c ! b) = in_bucket b ps" "\<And>b. b \<le> 16 \<Longrightarrow> m ! b = 0 \<or> m ! b \<in> fst ` set ps" by auto
  note kb = log2ceil_le [of k]
  have "in_bucket ?b ps \<le> length ps" by (simp add: in_bucket_def)
  then have "unat (c ! ?b) + 1 < 2 ^ 32" using IH(3) [OF kb] snoc.prems(1) by simp
  then have inc: "unat (c ! ?b + 1) = unat (c ! ?b) + 1" using unat_add_lem [of "c ! ?b" 1] by simp
  have "unat (counts ! b) = in_bucket b (ps @ [p])" if "b \<le> 16" for b
    using IH(1) IH(3) [OF that] inc kb by (auto simp: r in_bucket_def p nth_list_update)
  moreover have "mx ! b = 0 \<or> mx ! b \<in> fst ` set (ps @ [p])" if "b \<le> 16" for b
    using IH(2) IH(4) [OF that] kb by (auto simp: r p nth_list_update max_def)
  ultimately show ?case using IH(1,2) by (simp add: r(1,2))
qed

lemma compact_size_ok:
  assumes "compact_size counts n arr = (lg, arr')" and "\<And>b. b \<le> n \<Longrightarrow> unat (counts ! b) = f b"
    and "unat arr = (\<Sum>b\<le>n. f b)"
  shows "lg \<le> n \<and> unat arr' = (\<Sum>b\<le>lg. f b) \<and> arr' \<le> arr"
  using assms
proof (induction counts n arr rule: compact_size.induct)
  case (2 counts n arr)
  have c: "unat (counts ! Suc n) = f (Suc n)" and sum: "unat arr = f (Suc n) + (\<Sum>b\<le>n. f b)" using "2.prems" by simp_all
  show ?case
  proof (cases "counts ! Suc n = 0")
    case True
    then have "f (Suc n) = 0" using c by simp
    with True "2.IH"(1) [OF True] "2.prems" sum show ?thesis by simp
  next
    case False
    show ?thesis
    proof (cases "10 * unat arr \<ge> 2 ^ Suc n")
      case True
      with False "2.prems" show ?thesis by auto
    next
      case lt: False
      have le: "counts ! Suc n \<le> arr" using c sum by (simp add: word_le_nat_alt)
      then have "unat (arr - counts ! Suc n) = (\<Sum>b\<le>n. f b)" using c sum by (simp add: unat_sub)
      moreover have "arr - counts ! Suc n \<le> arr" using le by (simp add: word_le_nat_alt unat_sub)
      moreover have "compact_size counts n (arr - counts ! Suc n) = (lg, arr')" using False lt "2.prems"(1) by simp
      ultimately show ?thesis using "2.IH"(2) [OF False lt] "2.prems"(2) by fastforce
    qed
  qed
qed simp

text \<open>
  The bucket of all keys above 32768, which the comment of the loop leaves out of the scan, is the first one that the
  loop looks at: with enough entries the array reaches up to the largest key of the table.
\<close>

lemma compact_size_takes_capped_bucket:
  "counts ! 16 \<noteq> 0 \<Longrightarrow> 6554 \<le> unat arr_count \<Longrightarrow> compact_size counts UPB_MAXARRSIZE arr_count = (16, arr_count)"
  using compact_size.simps(2) [of counts 15 arr_count] by (simp add: UPB_MAXARRSIZE_def)

section \<open>Counting the entries\<close>

lemma table_iterate_length:
  assumes inv: "table_inv hf h"
  shows "length (table_iterate h (- 1)) = unat (tab_count h)"
proof -
  let ?T = "table_iterate h (- 1)" and ?kv = "entry_kv (tab_entries h)"
  have T: "distinct (map fst ?T)" "\<And>k v. (k, v) \<in> set ?T \<longleftrightarrow> (\<exists>j. ?kv j = Some (k, v))"
    using table_iterate_ok [OF inv, of "- 1"] by simp_all
  have "set ?T = (\<lambda>j. the (?kv j)) ` dom ?kv"
  proof (intro equalityI subsetI)
    fix x assume x: "x \<in> set ?T"
    obtain k v where "x = (k, v)" by (cases x)
    with x T(2) obtain j where "?kv j = Some x" by blast
    then show "x \<in> (\<lambda>j. the (?kv j)) ` dom ?kv" by (intro image_eqI [where x = j]) auto
  next
    fix x assume "x \<in> (\<lambda>j. the (?kv j)) ` dom ?kv"
    then obtain j where j: "?kv j = Some x" by auto
    obtain k v where "x = (k, v)" by (cases x)
    with j T(2) show "x \<in> set ?T" by blast
  qed
  moreover have "inj_on (\<lambda>j. the (?kv j)) (dom ?kv)"
  proof (rule inj_onI)
    fix i j assume "i \<in> dom ?kv" "j \<in> dom ?kv" "the (?kv i) = the (?kv j)"
    then obtain x where x: "?kv i = Some x" "?kv j = Some x" by auto
    obtain k v where "x = (k, v)" by (cases x)
    with x scatter_unique [OF table_inv_scatter [OF inv], of i k v j v] show "i = j" by simp
  qed
  ultimately have "card (set ?T) = card (dom ?kv)" by (simp add: card_image)
  moreover have "distinct ?T" using T(1) by (simp add: distinct_map)
  ultimately show ?thesis using inv distinct_card [of ?T] by (simp add: table_inv_def)
qed

lemma array_pairs_length:
  assumes "inttable_inv t"
  shows "length (array_pairs t 0) = unat (it_array_count t)"
proof -
  have "length (filter (arr_has t) [0..<unat (it_array_size t)]) =
      card {i. i < length [0..<unat (it_array_size t)] \<and> arr_has t ([0..<unat (it_array_size t)] ! i)}"
    by (rule length_filter_conv_card)
  also have "\<dots> = card {i. i < unat (it_array_size t) \<and> arr_has t i}" by (rule arg_cong [where f = card]) auto
  finally show ?thesis using inttable_invD(7) [OF assms] by (simp add: array_pairs_def)
qed

lemma inttable_iterate_length:
  assumes "inttable_inv t"
  shows "length (inttable_iterate t (- 1)) = unat (tab_count (it_t t)) + unat (it_array_count t)"
  using inttable_iterate_eq [OF assms, of "- 1"] array_pairs_length [OF assms] table_iterate_length [OF inttable_invD(1) [OF assms]]
  by simp

text \<open>\<open>upb_inttable_count\<close> is exact as long as the sum fits in 32 bits.\<close>

lemma inttable_count_ok:
  assumes "inttable_inv t" and "length (inttable_iterate t (- 1)) < 2 ^ 32"
  shows "unat (upb_inttable_count t) = length (inttable_iterate t (- 1))"
proof -
  have "unat (tab_count (it_t t) + it_array_count t) = unat (tab_count (it_t t)) + unat (it_array_count t)"
    using unat_add_lem [of "tab_count (it_t t)" "it_array_count t"] assms(2) inttable_iterate_length [OF assms(1)] by simp
  then show ?thesis using inttable_iterate_length [OF assms(1)] by (simp add: upb_inttable_count_def unat_ucast_u32)
qed

section \<open>Filling the new table\<close>

text \<open>The hash part has at most twice the buckets that its load needs, or 65536.\<close>

definition hash_fit :: "upb_inttable \<Rightarrow> bool" where
  "hash_fit t \<longleftrightarrow> length (tab_entries (it_t t)) \<le> 2 ^ 16 \<or>
     7 * length (tab_entries (it_t t)) \<le> 16 * unat (tab_count (it_t t))"

lemma compact_insert_step:
  assumes inv: "inttable_inv t" and fresh: "inttable_map t k = None" and fit: "hash_fit t"
    and n: "unat (tab_count (it_t t)) < 2 ^ 29"
  obtains ok t' a' where "upb_inttable_insert t k v a = Some (ok, t', a')" "inttable_inv t'" "hash_fit t'"
    "inttable_map t' = (if ok then (inttable_map t)(k \<mapsto> v) else inttable_map t)" "ok \<or> arena_refuses a"
    "arena_refuses a' = arena_refuses a" "it_array_size t' = it_array_size t"
    "unat (tab_count (it_t t')) \<le> unat (tab_count (it_t t)) + 1"
proof (cases "k < ucast (it_array_size t)")
  case True
  from inttable_insert_array [OF inv True fresh, of v a] obtain t' where
    t': "upb_inttable_insert t k v a = Some (True, t', a)" "inttable_inv t'" "inttable_map t' = (inttable_map t)(k \<mapsto> v)" by blast
  have "\<not> upb_inttable_arrhas t k" using t'(1) True by (auto simp: upb_inttable_insert_def split: if_splits)
  then have "it_t t' = it_t t \<and> it_array_size t' = it_array_size t"
    using t'(1) True by (auto simp: upb_inttable_insert_def Let_def)
  with t' fit show ?thesis by (intro that [of True t' a]) (simp_all add: hash_fit_def)
next
  case False
  note d = inttable_invD [OF inv]
  have len: "length (tab_entries (it_t t)) < 2 ^ 31" using fit n by (auto simp: hash_fit_def)
  show ?thesis
  proof (cases rule: inttable_insert_hash [OF inv False fresh, of v a])
    case (1 h a')
    have c: "unat (tab_count h) = unat (tab_count (it_t t)) + 1"
      using unat_add_lem [of "tab_count (it_t t)" 1] n by (simp add: 1(4))
    from 1(5) have "hash_fit (t\<lparr>it_t := h\<rparr>)"
    proof (elim disjE conjE)
      assume "length (tab_entries h) = length (tab_entries (it_t t))"
      then show ?thesis using fit c by (auto simp: hash_fit_def)
    next
      assume len: "length (tab_entries h) = 2 * length (tab_entries (it_t t))" and "isfull (it_t t)"
      then have "unat (tab_count (it_t t)) = length (tab_entries (it_t t)) - length (tab_entries (it_t t)) div 8"
        using isfull_iff [OF d(1)] by simp
      then have "7 * length (tab_entries h) \<le> 16 * unat (tab_count h)" using len c by linarith
      then show ?thesis by (simp add: hash_fit_def)
    qed
    with 1 c show ?thesis by (intro that [of True "t\<lparr>it_t := h\<rparr>" a']) simp_all
  next
    case (2 a')
    with inv fit len show ?thesis by (intro that [of False t a']) simp_all
  qed
qed

lemma compact_fill_ok:
  assumes "inttable_inv t" and "distinct (map fst ps)" and "\<forall>k \<in> fst ` set ps. inttable_map t k = None" and "hash_fit t"
    and "unat (tab_count (it_t t)) + length ps \<le> 2 ^ 29"
  shows "\<exists>t' a'. compact_fill ps t a = Some (t', a') \<and> inttable_inv t' \<and> it_array_size t' = it_array_size t \<and>
    (arena_refuses a \<or> inttable_map t' = inttable_map t ++ map_of ps)"
  using assms
proof (induction ps arbitrary: t a)
  case (Cons p ps)
  obtain k v where p: "p = (k, v)" by (cases p)
  have fresh: "inttable_map t k = None" using Cons.prems(3) by (simp add: p)
  have "unat (tab_count (it_t t)) < 2 ^ 29" using Cons.prems(5) by simp
  from compact_insert_step [OF Cons.prems(1) fresh Cons.prems(4) this, of v a] obtain ok t1 a1 where
    t1: "upb_inttable_insert t k v a = Some (ok, t1, a1)" "inttable_inv t1" "hash_fit t1"
    "inttable_map t1 = (if ok then (inttable_map t)(k \<mapsto> v) else inttable_map t)" "ok \<or> arena_refuses a"
    "arena_refuses a1 = arena_refuses a" "it_array_size t1 = it_array_size t"
    "unat (tab_count (it_t t1)) \<le> unat (tab_count (it_t t)) + 1" by metis
  have k: "k \<notin> fst ` set ps" using Cons.prems(2) by (simp add: p)
  have "\<forall>l \<in> fst ` set ps. inttable_map t1 l = None"
  proof
    fix l assume l: "l \<in> fst ` set ps"
    then have "l \<noteq> k" using k l by blast
    moreover have "inttable_map t l = None" using Cons.prems(3) l by auto
    ultimately show "inttable_map t1 l = None" by (simp add: t1(4))
  qed
  from Cons.IH [OF t1(2) _ this t1(3), of a1] Cons.prems(2,5) t1(8) obtain t2 a2 where
    t2: "compact_fill ps t1 a1 = Some (t2, a2)" "inttable_inv t2" "it_array_size t2 = it_array_size t1"
    "arena_refuses a1 \<or> inttable_map t2 = inttable_map t1 ++ map_of ps" by auto
  have "k \<notin> dom (map_of ps)" using k by (simp add: dom_map_of_conv_image_fst)
  note add = map_add_upd_left [OF this, of "inttable_map t" v]
  then have "arena_refuses a \<or> inttable_map t2 = inttable_map t ++ map_of (p # ps)"
    unfolding p map_of.simps fst_conv snd_conv map_add_upd using t2(4) t1(4,5,6) add by (auto simp del: fun_upd_apply)
  moreover have "compact_fill (p # ps) t a = Some (t2, a2)" using t1(1) t2(1) by (simp add: p)
  moreover have "it_array_size t2 = it_array_size t" using t2(3) t1(7) by simp
  ultimately show ?case using t2(2) by blast
qed simp

section \<open>Property\<close>

text \<open>C37: compacting keeps the map. For a table of field numbers (keys below \<open>2^29\<close>), whatever the
  histogram says about the size of the array, compacting satisfies its three assertions and gives a table in
  its invariant; it has the same map, unless the arena refuses memory; when it returns false the table
  is untouched.\<close>

theorem inttable_compact_same_map:
  assumes inv: "inttable_inv t" and keys: "\<forall>k. inttable_map t k \<noteq> None \<longrightarrow> k < 2 ^ 29"
  shows "\<exists>ok t' a'. upb_inttable_compact t a = Some (ok, t', a') \<and> inttable_inv t' \<and>
    (arena_refuses a \<or> ok \<and> inttable_map t' = inttable_map t) \<and> (ok \<or> t' = t)"
proof -
  define ps where "ps = inttable_iterate t (- 1)"
  note it = inttable_iterate_ok [OF inv, folded ps_def]
  have small: "unat k < 2 ^ 29" if "k \<in> fst ` set ps" for k
  proof -
    from that have "inttable_map t k \<noteq> None" unfolding it(2) [symmetric] by (simp add: map_of_eq_None_iff)
    with keys show ?thesis by (simp add: word_less_nat_alt)
  qed
  have "length ps = card (fst ` set ps)" using distinct_card [OF it(1)] by simp
  also have "\<dots> = card (unat ` fst ` set ps)" by (rule card_image [symmetric]) (auto intro!: inj_onI simp: word_unat_eq_iff)
  also have "\<dots> \<le> card {..<(2 :: nat) ^ 29}" using small by (intro card_mono) auto
  finally have len: "length ps \<le> 2 ^ 29" by simp
  obtain counts mx where h: "compact_histogram ps = (counts, mx)" by (cases "compact_histogram ps")
  from histogram_ok [OF _ h] len have hist: "\<And>b. b \<le> 16 \<Longrightarrow> unat (counts ! b) = in_bucket b ps"
    "\<And>b. b \<le> 16 \<Longrightarrow> mx ! b = 0 \<or> mx ! b \<in> fst ` set ps" by auto
  have count: "unat (upb_inttable_count t) = length ps"
    unfolding ps_def by (rule inttable_count_ok [OF inv]) (use len in \<open>simp add: ps_def\<close>)
  then have count32: "unat (ucast (upb_inttable_count t) :: u32) = length ps"
    using len by (simp add: unsigned_ucast_eq take_bit_nat_eq_self)
  obtain lg arr where sz: "compact_size counts 16 (ucast (upb_inttable_count t)) = (lg, arr)"
    by (cases "compact_size counts 16 (ucast (upb_inttable_count t))")
  have "unat (ucast (upb_inttable_count t) :: u32) = (\<Sum>b\<le>16. in_bucket b ps)" unfolding count32 in_bucket_sum ..
  from compact_size_ok [OF sz hist(1) this] have lg: "lg \<le> 16" "arr \<le> ucast (upb_inttable_count t)" by simp_all
  have le: "ucast arr \<le> upb_inttable_count t" using lg(2) count count32 by (simp add: word_le_nat_alt unat_ucast_u32)
  let ?n = "mx ! lg + 1"
  have "unat (mx ! lg) < 2 ^ 29" using hist(2) [OF lg(1)] small by auto
  then have n: "unat ?n = unat (mx ! lg) + 1" "unat ?n \<le> 2 ^ 29" using unat_add_lem [of "mx ! lg" 1] by simp_all
  then have n32: "unat (ucast ?n :: u32) = unat ?n" by (simp add: unsigned_ucast_eq take_bit_nat_eq_self)
  define hc where "hc = (ucast (upb_inttable_count t - ucast arr) :: u32)"
  define hl where "hl = log2ceil (of_nat (if hc \<noteq> 0 then entries_needed_for (unat hc) else 0))"
  have hl: "hl \<le> 16" unfolding hl_def by (rule log2ceil_le)
  have eq: "upb_inttable_compact t a =
     (case upb_inttable_sizedinit (ucast ?n) hl a of
        (None, a) \<Rightarrow> Some (False, t, a)
      | (Some new_t, a) \<Rightarrow>
          (case compact_fill ps new_t a of
             None \<Rightarrow> None
           | Some (new_t, a) \<Rightarrow> if ucast (it_array_size new_t) \<noteq> ?n then None else Some (True, new_t, a)))"
    unfolding upb_inttable_compact_def Let_def ps_def [symmetric] h prod.case UPB_MAXARRSIZE_def sz hc_def hl_def
    using le by simp
  obtain r a1 where si: "upb_inttable_sizedinit (ucast ?n) hl a = (r, a1)" by (cases "upb_inttable_sizedinit (ucast ?n) hl a")
  show ?thesis
  proof (cases r)
    case None
    from inttable_sizedinit_None [OF si [unfolded None]] hl have "arena_refuses a" by simp
    with inv si None show ?thesis unfolding eq by (intro exI [of _ False]) simp
  next
    case (Some new)
    have "unat (ucast ?n :: u32) + 8 \<le> 2 ^ 32" using n n32 by simp
    note new = inttable_sizedinit_ok [OF si [unfolded Some] this]
    have "unat (tab_count (it_t new)) = 0"
      using si Some by (auto simp: upb_inttable_sizedinit_def Let_def split: prod.splits option.splits dest: table_init_ok(4))
    moreover have "(2 :: nat) ^ hl \<le> 2 ^ 16" using hl by (intro power_increasing) simp_all
    then have "hash_fit new" using new(4) by (simp add: hash_fit_def)
    ultimately obtain t' a' where t': "compact_fill ps new a1 = Some (t', a')" "inttable_inv t'"
      "it_array_size t' = it_array_size new" "arena_refuses a1 \<or> inttable_map t' = inttable_map new ++ map_of ps"
      using compact_fill_ok [OF new(1) it(1), of a1] new(2) len by auto
    have "it_array_size new = ucast ?n" unfolding new(3) using n n32 by (simp add: max_def word_le_nat_alt)
    then have "ucast (it_array_size t') = ?n" using t'(3) n32 by (simp add: word_unat_eq_iff unat_ucast_u32)
    then show ?thesis unfolding eq using si Some t' new(2,5) it(2) by (intro exI [of _ True]) simp
  qed
qed

lemma inttable_compact_same_map_witness:
  "\<exists>t t1 a1 t2 a2. fst (upb_inttable_init arena_unlimited) = Some t \<and>
    upb_inttable_insert t 8 80 arena_unlimited = Some (True, t1, a1) \<and>
    upb_inttable_compact t1 arena_unlimited = Some (True, t2, a2) \<and> inttable_map t2 = [8 \<mapsto> 80]"
proof -
  obtain t where t: "fst (upb_inttable_init arena_unlimited) = Some t" "inttable_inv t" "inttable_map t = Map.empty"
    "length (tab_entries (it_t t)) = 8" by (rule inttable_example)
  have "inttable_map t 8 = None" using t by simp
  from inttab.insert_law [OF t(2) this, of 80 arena_unlimited] t obtain t1 a1 where
    t1: "upb_inttable_insert t 8 80 arena_unlimited = Some (True, t1, a1)" "inttable_inv t1" "inttable_map t1 = [8 \<mapsto> 80]"
    by (auto simp: inttable_fits_def)
  have "\<forall>k. inttable_map t1 k \<noteq> None \<longrightarrow> k < 2 ^ 29" using t1(3) by simp
  from inttable_compact_same_map [OF t1(2) this, of arena_unlimited] t t1 show ?thesis by auto
qed

end
