(* ===== verification/Upb_Map.thy ===== *)
theory Upb_Map
  imports Str_Table Int_Compact Mini_Table
begin

text \<open>
  The maps of messages: \<open>upb/message/internal/map.h\<close> and \<open>upb/message/map.c\<close>. A map is a table of strings
  or of integers with the sizes of its keys and values; string values are views that the arena holds. The
  theory uses both tables through their common interface.
\<close>

section \<open>Maps\<close>

definition UPB_MAPTYPE_STRING :: nat where
  "UPB_MAPTYPE_STRING = 0"

datatype upb_MapInsertStatus = MapInserted | MapReplaced | MapOutOfMemory

text \<open>The union of the two tables; \<open>is_strtable\<close> says which one it is.\<close>

datatype upb_Map_Table = Strtable upb_strtable | Inttable upb_inttable

text \<open>The string views that values point to are in the memory of the arena: an address gives the bytes.\<close>

record upb_Map =
  map_key_size :: nat
  map_val_size :: nat
  map_is_frozen :: bool
  map_t :: upb_Map_Table
  map_views :: "u64 \<Rightarrow> byte list"

text \<open>A key or value of the user: the bytes of a scalar, or a string.\<close>

datatype upb_MessageValue = Msg_Scalar u64 | Msg_Str "byte list"

definition map_is_strtable :: "upb_Map \<Rightarrow> bool" where
  "map_is_strtable m \<longleftrightarrow> (case map_t m of Strtable _ \<Rightarrow> True | Inttable _ \<Rightarrow> False)"

text \<open>Reading the member of the union that the type of the key selects.\<close>

definition upb_map_tokey :: "upb_MessageValue \<Rightarrow> byte list" where
  "upb_map_tokey key = (case key of Msg_Str s \<Rightarrow> s | Msg_Scalar _ \<Rightarrow> [])"

definition upb_map_tointkey :: "upb_MessageValue \<Rightarrow> nat \<Rightarrow> u64" where
  "upb_map_tointkey key key_size = (case key of Msg_Scalar n \<Rightarrow> take_bit (8 * key_size) n | Msg_Str _ \<Rightarrow> 0)"

definition upb_map_tovalue ::
  "upb_MessageValue \<Rightarrow> nat \<Rightarrow> (u64 \<Rightarrow> byte list) \<Rightarrow> upb_Arena \<Rightarrow> upb_value option \<times> (u64 \<Rightarrow> byte list) \<times> upb_Arena" where
  "upb_map_tovalue val sz views a =
     (if sz = UPB_MAPTYPE_STRING then
        (case upb_Arena_Malloc a 16 of
           (None, a) \<Rightarrow> (None, views, a)
         | (Some strp, a) \<Rightarrow> (Some (of_int strp), views(of_int strp := upb_map_tokey val), a))
      else (Some (upb_map_tointkey val sz), views, a))"

definition upb_map_fromvalue :: "upb_value \<Rightarrow> nat \<Rightarrow> (u64 \<Rightarrow> byte list) \<Rightarrow> upb_MessageValue" where
  "upb_map_fromvalue val sz views =
     (if sz = UPB_MAPTYPE_STRING then Msg_Str (views val) else Msg_Scalar (take_bit (8 * sz) val))"

section \<open>Operations\<close>

definition upb_Map_CTypeSize :: "upb_CType \<Rightarrow> nat" where
  "upb_Map_CTypeSize ctype =
     (case ctype of
        kUpb_CType_Bool \<Rightarrow> 1
      | kUpb_CType_Float \<Rightarrow> 4
      | kUpb_CType_Int32 \<Rightarrow> 4
      | kUpb_CType_UInt32 \<Rightarrow> 4
      | kUpb_CType_Enum \<Rightarrow> 4
      | kUpb_CType_Message \<Rightarrow> 8
      | kUpb_CType_Double \<Rightarrow> 8
      | kUpb_CType_Int64 \<Rightarrow> 8
      | kUpb_CType_UInt64 \<Rightarrow> 8
      | kUpb_CType_String \<Rightarrow> UPB_MAPTYPE_STRING
      | kUpb_CType_Bytes \<Rightarrow> UPB_MAPTYPE_STRING)"

text \<open>\<open>_upb_Map_New\<close>: the map, or NULL.\<close>

definition upb_Map_New :: "u64 \<Rightarrow> (u64 \<Rightarrow> byte list) \<Rightarrow> nat \<Rightarrow> nat \<Rightarrow> upb_Arena \<Rightarrow> upb_Map option \<times> upb_Arena" where
  "upb_Map_New seed views key_size value_size a =
     (case upb_Arena_Malloc a 48 of
        (None, a) \<Rightarrow> (None, a)
      | (Some _, a) \<Rightarrow>
          if key_size \<le> 8 \<and> key_size \<noteq> UPB_MAPTYPE_STRING then
            (case upb_inttable_init a of
               (None, a) \<Rightarrow> (None, a)
             | (Some t, a) \<Rightarrow> (Some \<lparr>map_key_size = key_size, map_val_size = value_size, map_is_frozen = False,
                 map_t = Inttable t, map_views = views\<rparr>, a))
          else
            (case upb_strtable_init 4 a of
               (None, a) \<Rightarrow> (None, a)
             | (Some t, a) \<Rightarrow> (Some \<lparr>map_key_size = key_size, map_val_size = value_size, map_is_frozen = False,
                 map_t = Strtable t, map_views = views\<rparr>, a)))"

definition internal_upb_Map_Size :: "upb_Map \<Rightarrow> u64" where
  "internal_upb_Map_Size m = (case map_t m of Strtable t \<Rightarrow> ucast (tab_count t) | Inttable t \<Rightarrow> upb_inttable_count t)"

text \<open>In the operations the outer \<open>None\<close> is a failed assertion.\<close>

definition upb_Map_Get :: "u64 \<Rightarrow> upb_Map \<Rightarrow> upb_MessageValue \<Rightarrow> upb_MessageValue option option" where
  "upb_Map_Get seed m key =
     map_option (map_option (\<lambda>tabval. upb_map_fromvalue tabval (map_val_size m) (map_views m)))
       (case map_t m of
          Strtable t \<Rightarrow> upb_strtable_lookup2 seed t (upb_map_tokey key)
        | Inttable t \<Rightarrow> upb_inttable_lookup t (upb_map_tointkey key (map_key_size m)))"

definition upb_Map_Clear :: "upb_Map \<Rightarrow> upb_Map option" where
  "upb_Map_Clear m =
     (if map_is_frozen m then None
      else Some (m\<lparr>map_t := (case map_t m of
             Strtable t \<Rightarrow> Strtable (upb_strtable_clear t)
           | Inttable t \<Rightarrow> Inttable (upb_inttable_clear t))\<rparr>))"

definition internal_upb_Map_Delete :: "u64 \<Rightarrow> upb_Map \<Rightarrow> upb_MessageValue \<Rightarrow> (upb_value option \<times> upb_Map) option" where
  "internal_upb_Map_Delete seed m key =
     (if map_is_frozen m then None
      else
        (case map_t m of
           Strtable t \<Rightarrow>
             map_option (\<lambda>(val, t). (val, m\<lparr>map_t := Strtable t\<rparr>)) (upb_strtable_remove2 seed t (upb_map_tokey key))
         | Inttable t \<Rightarrow>
             map_option (\<lambda>(val, t). (val, m\<lparr>map_t := Inttable t\<rparr>))
               (upb_inttable_remove t (upb_map_tointkey key (map_key_size m)))))"

text \<open>
  \<open>upb_Map_Delete\<close> declares \<open>v\<close> without a value, here the argument \<open>v\<close>, and \<open>rm\<close> writes it only when it
  finds the key. The result is what the function returns and what it stores through \<open>val\<close>.
\<close>

definition upb_Map_Delete ::
  "u64 \<Rightarrow> upb_value \<Rightarrow> upb_Map \<Rightarrow> upb_MessageValue \<Rightarrow> (bool \<times> upb_MessageValue \<times> upb_Map) option" where
  "upb_Map_Delete seed v m key =
     map_option (\<lambda>(val, m).
         let v = (case val of Some w \<Rightarrow> w | None \<Rightarrow> v)
         in (val \<noteq> None, upb_map_fromvalue v (map_val_size m) (map_views m), m))
       (internal_upb_Map_Delete seed m key)"

text \<open>The removal and the insertion of \<open>_upb_Map_Insert\<close>, on either table.\<close>

definition tab_replace ::
  "u64 \<Rightarrow> upb_Map_Table \<Rightarrow> nat \<Rightarrow> upb_MessageValue \<Rightarrow> upb_value \<Rightarrow> upb_Arena \<Rightarrow>
   (bool \<times> bool \<times> upb_Map_Table \<times> upb_Arena) option" where
  "tab_replace seed tab key_size key tabval a =
     (case tab of
        Strtable t \<Rightarrow>
          map_option (\<lambda>(ok, removed, t, a). (ok, removed, Strtable t, a))
            (table_replace (upb_strtable_remove2 seed) (upb_strtable_insert seed) t (upb_map_tokey key) tabval a)
      | Inttable t \<Rightarrow>
          map_option (\<lambda>(ok, removed, t, a). (ok, removed, Inttable t, a))
            (table_replace upb_inttable_remove upb_inttable_insert t (upb_map_tointkey key key_size) tabval a))"

definition upb_Map_Insert ::
  "u64 \<Rightarrow> upb_Map \<Rightarrow> upb_MessageValue \<Rightarrow> upb_MessageValue \<Rightarrow> upb_Arena \<Rightarrow>
   (upb_MapInsertStatus \<times> upb_Map \<times> upb_Arena) option" where
  "upb_Map_Insert seed m key val a =
     (if map_is_frozen m then None
      else
        (case upb_map_tovalue val (map_val_size m) (map_views m) a of
           (None, _, a) \<Rightarrow> Some (MapOutOfMemory, m, a)
         | (Some tabval, views, a) \<Rightarrow>
             map_option (\<lambda>(ok, removed, t, a).
                 (if \<not> ok then MapOutOfMemory else if removed then MapReplaced else MapInserted,
                  m\<lparr>map_views := views, map_t := t\<rparr>, a))
               (tab_replace seed (map_t m) (map_key_size m) key tabval a)))"

definition upb_map_fromkey :: "byte list \<Rightarrow> upb_MessageValue" where
  "upb_map_fromkey key = Msg_Str key"

definition upb_Map_Next :: "upb_Map \<Rightarrow> u64 \<Rightarrow> (upb_MessageValue \<times> upb_MessageValue \<times> u64) option" where
  "upb_Map_Next m iter =
     (case map_t m of
        Strtable t \<Rightarrow>
          map_option (\<lambda>(strkey, v, iter). (upb_map_fromkey strkey, upb_map_fromvalue v (map_val_size m) (map_views m), iter))
            (upb_strtable_next2 t iter)
      | Inttable t \<Rightarrow>
          map_option (\<lambda>(intkey, v, iter). (Msg_Scalar (take_bit (8 * map_key_size m) intkey),
              upb_map_fromvalue v (map_val_size m) (map_views m), iter))
            (upb_inttable_next t iter))"

text \<open>The arena is NULL in this call: a string value, which needs memory, is not supported.\<close>

definition upb_Map_SetEntryValue :: "upb_Map \<Rightarrow> u64 \<Rightarrow> upb_MessageValue \<Rightarrow> upb_Map option" where
  "upb_Map_SetEntryValue m iter val =
     (if map_val_size m = UPB_MAPTYPE_STRING then None
      else
        let v = upb_map_tointkey val (map_val_size m)
        in Some (m\<lparr>map_t := (case map_t m of
               Strtable t \<Rightarrow> Strtable (upb_strtable_setentryvalue t iter v)
             | Inttable t \<Rightarrow> Inttable (upb_inttable_setentryvalue t iter v))\<rparr>))"

definition upb_MapIterator_Done :: "upb_Map \<Rightarrow> u64 \<Rightarrow> bool" where
  "upb_MapIterator_Done m iter =
     (case map_t m of Strtable t \<Rightarrow> upb_strtable_done t iter | Inttable t \<Rightarrow> upb_inttable_done t iter)"

definition upb_MapIterator_Key :: "upb_Map \<Rightarrow> u64 \<Rightarrow> upb_MessageValue" where
  "upb_MapIterator_Key m iter =
     (case map_t m of
        Strtable t \<Rightarrow> upb_map_fromkey (upb_strtable_iter_key t iter)
      | Inttable t \<Rightarrow> Msg_Scalar (take_bit (8 * map_key_size m) (upb_inttable_iter_key t iter)))"

definition upb_MapIterator_Value :: "upb_Map \<Rightarrow> u64 \<Rightarrow> upb_MessageValue" where
  "upb_MapIterator_Value m iter =
     upb_map_fromvalue
       (case map_t m of Strtable t \<Rightarrow> upb_strtable_iter_value t iter | Inttable t \<Rightarrow> upb_inttable_iter_value t iter)
       (map_val_size m) (map_views m)"

section \<open>A map is a finite map\<close>

text \<open>The table of a map by key, and the contents that a user sees.\<close>

definition tab_map :: "upb_Map_Table \<Rightarrow> upb_MessageValue \<Rightarrow> upb_value option" where
  "tab_map tab key =
     (case (tab, key) of
        (Strtable t, Msg_Str s) \<Rightarrow> table_map t s
      | (Inttable t, Msg_Scalar n) \<Rightarrow> inttable_map t n
      | _ \<Rightarrow> None)"

definition map_contents :: "upb_Map \<Rightarrow> upb_MessageValue \<Rightarrow> upb_MessageValue option" where
  "map_contents m key = map_option (\<lambda>v. upb_map_fromvalue v (map_val_size m) (map_views m)) (tab_map (map_t m) key)"

text \<open>The invariant: that of the table, and integer keys have the width of their type.\<close>

definition map_inv :: "u64 \<Rightarrow> upb_Map \<Rightarrow> bool" where
  "map_inv seed m \<longleftrightarrow>
     (case map_t m of
        Strtable t \<Rightarrow> strtable_inv seed t
      | Inttable t \<Rightarrow> inttable_inv t \<and> (\<forall>k. inttable_map t k \<noteq> None \<longrightarrow> take_bit (8 * map_key_size m) k = k))"

lemma take_tointkey [simp]: "take_bit (8 * sz) (upb_map_tointkey key sz) = upb_map_tointkey key sz"
  by (simp add: upb_map_tointkey_def split: upb_MessageValue.split)

text \<open>The form in which a key or a value is stored.\<close>

definition stored_key :: "upb_Map \<Rightarrow> upb_MessageValue \<Rightarrow> upb_MessageValue" where
  "stored_key m key =
     (case map_t m of
        Strtable _ \<Rightarrow> Msg_Str (upb_map_tokey key)
      | Inttable _ \<Rightarrow> Msg_Scalar (upb_map_tointkey key (map_key_size m)))"

definition stored_value :: "upb_Map \<Rightarrow> upb_MessageValue \<Rightarrow> upb_MessageValue" where
  "stored_value m val =
     (if map_val_size m = UPB_MAPTYPE_STRING then Msg_Str (upb_map_tokey val)
      else Msg_Scalar (upb_map_tointkey val (map_val_size m)))"

definition map_fits :: "upb_Map \<Rightarrow> upb_MessageValue \<Rightarrow> bool" where
  "map_fits m key \<longleftrightarrow>
     (case map_t m of Strtable t \<Rightarrow> strtable_fits t (upb_map_tokey key)
      | Inttable t \<Rightarrow> inttable_fits t (upb_map_tointkey key (map_key_size m)))"

lemma tab_map_upd:
  "table_map t' = (table_map t)(s := x) \<Longrightarrow> tab_map (Strtable t') = (tab_map (Strtable t))(Msg_Str s := x)"
  "inttable_map i' = (inttable_map i)(n := x) \<Longrightarrow> tab_map (Inttable i') = (tab_map (Inttable i))(Msg_Scalar n := x)"
  by (auto simp: tab_map_def fun_eq_iff split: upb_MessageValue.split)

text \<open>Values that are read through other views are the same where the views agree.\<close>

lemma map_contents_upd:
  assumes "tab_map (map_t m') = (tab_map (map_t m))(k := x)" and "map_val_size m' = map_val_size m"
    and "\<And>v. v \<in> ran (tab_map (map_t m)) \<Longrightarrow>
      upb_map_fromvalue v (map_val_size m) (map_views m') = upb_map_fromvalue v (map_val_size m) (map_views m)"
  shows "map_contents m' = (map_contents m)(k := map_option (\<lambda>v. upb_map_fromvalue v (map_val_size m) (map_views m')) x)"
proof
  fix key
  show "map_contents m' key =
    ((map_contents m)(k := map_option (\<lambda>v. upb_map_fromvalue v (map_val_size m) (map_views m')) x)) key"
    using assms(3) by (cases "tab_map (map_t m) key") (auto simp: map_contents_def assms(1,2) ran_def)
qed

text \<open>The two tables under one contract.\<close>

lemma tab_replace_ok:
  assumes "map_inv seed m"
  obtains ok t a' where
    "tab_replace seed (map_t m) (map_key_size m) key v a = Some (ok, tab_map (map_t m) (stored_key m key) \<noteq> None, t, a')"
    "map_inv seed (m\<lparr>map_t := t\<rparr>)" "tab_map t = (tab_map (map_t m))(stored_key m key := if ok then Some v else None)"
    "ok \<or> arena_refuses a \<or> \<not> map_fits m key"
proof (cases "map_t m")
  case (Strtable t)
  from assms have "strtable_inv seed t" by (simp add: map_inv_def Strtable)
  from strtab.replace_ok [OF this, of "upb_map_tokey key" v a] obtain ok t' a' where
    r: "table_replace (upb_strtable_remove2 seed) (upb_strtable_insert seed) t (upb_map_tokey key) v a =
      Some (ok, table_map t (upb_map_tokey key) \<noteq> None, t', a')" "strtable_inv seed t'"
    "table_map t' = (table_map t)(upb_map_tokey key := if ok then Some v else None)"
    "ok \<or> arena_refuses a \<or> \<not> strtable_fits t (upb_map_tokey key)" by blast
  show ?thesis
    by (rule that [of ok "Strtable t'" a'])
      (use r tab_map_upd(1) [OF r(3)] in \<open>simp_all add: tab_replace_def Strtable map_inv_def stored_key_def map_fits_def tab_map_def [of _ "Msg_Str _"]\<close>)
next
  case (Inttable t)
  let ?k = "upb_map_tointkey key (map_key_size m)"
  from assms have t: "inttable_inv t" "\<forall>k. inttable_map t k \<noteq> None \<longrightarrow> take_bit (8 * map_key_size m) k = k"
    by (simp_all add: map_inv_def Inttable)
  from inttab.replace_ok [OF t(1), of ?k v a] obtain ok t' a' where
    r: "table_replace upb_inttable_remove upb_inttable_insert t ?k v a = Some (ok, inttable_map t ?k \<noteq> None, t', a')"
    "inttable_inv t'" "inttable_map t' = (inttable_map t)(?k := if ok then Some v else None)"
    "ok \<or> arena_refuses a \<or> \<not> inttable_fits t ?k" by blast
  show ?thesis
    by (rule that [of ok "Inttable t'" a'])
      (use r t(2) tab_map_upd(2) [OF r(3)] in \<open>simp_all add: tab_replace_def Inttable map_inv_def stored_key_def map_fits_def tab_map_def [of _ "Msg_Scalar _"]\<close>)
qed

lemma upb_Map_Get_ok:
  assumes "map_inv seed m"
  shows "upb_Map_Get seed m key = Some (map_contents m (stored_key m key))"
proof (cases "map_t m")
  case (Strtable t)
  with assms have "strtable_inv seed t" by (simp add: map_inv_def)
  from strtab.lookup_law [OF this, of "upb_map_tokey key"] show ?thesis
    by (simp add: upb_Map_Get_def map_contents_def stored_key_def tab_map_def Strtable)
next
  case (Inttable t)
  with assms have "inttable_inv t" by (simp add: map_inv_def)
  from inttab.lookup_law [OF this, of "upb_map_tointkey key (map_key_size m)"] show ?thesis
    by (simp add: upb_Map_Get_def map_contents_def stored_key_def tab_map_def Inttable)
qed

lemma internal_upb_Map_Delete_ok:
  assumes inv: "map_inv seed m" and "\<not> map_is_frozen m"
  obtains m' where "internal_upb_Map_Delete seed m key = Some (tab_map (map_t m) (stored_key m key), m')" "map_inv seed m'"
    "map_contents m' = (map_contents m)(stored_key m key := None)" "map_val_size m' = map_val_size m" "map_views m' = map_views m"
proof (cases "map_t m")
  case (Strtable t)
  with inv have "strtable_inv seed t" by (simp add: map_inv_def)
  from strtab.remove_law [OF this, of "upb_map_tokey key"] obtain t' where t':
    "upb_strtable_remove2 seed t (upb_map_tokey key) = Some (table_map t (upb_map_tokey key), t')" "strtable_inv seed t'"
    "table_map t' = (table_map t)(upb_map_tokey key := None)" by blast
  show ?thesis
  proof (rule that [of "m\<lparr>map_t := Strtable t'\<rparr>"])
    show "map_contents (m\<lparr>map_t := Strtable t'\<rparr>) = (map_contents m)(stored_key m key := None)"
      using map_contents_upd [of "m\<lparr>map_t := Strtable t'\<rparr>" m "stored_key m key" None] tab_map_upd(1) [OF t'(3)]
      by (simp add: stored_key_def Strtable)
  qed (use t' assms(2) in \<open>simp_all add: internal_upb_Map_Delete_def map_inv_def stored_key_def tab_map_def Strtable\<close>)
next
  case (Inttable t)
  let ?k = "upb_map_tointkey key (map_key_size m)"
  from inv Inttable have t: "inttable_inv t" "\<forall>k. inttable_map t k \<noteq> None \<longrightarrow> take_bit (8 * map_key_size m) k = k"
    by (simp_all add: map_inv_def)
  from inttab.remove_law [OF t(1), of ?k] obtain t' where t':
    "upb_inttable_remove t ?k = Some (inttable_map t ?k, t')" "inttable_inv t'" "inttable_map t' = (inttable_map t)(?k := None)" by blast
  show ?thesis
  proof (rule that [of "m\<lparr>map_t := Inttable t'\<rparr>"])
    show "map_contents (m\<lparr>map_t := Inttable t'\<rparr>) = (map_contents m)(stored_key m key := None)"
      using map_contents_upd [of "m\<lparr>map_t := Inttable t'\<rparr>" m "stored_key m key" None] tab_map_upd(2) [OF t'(3)]
      by (simp add: stored_key_def Inttable)
  qed (use t' t(2) assms(2) in \<open>simp_all add: internal_upb_Map_Delete_def map_inv_def stored_key_def tab_map_def Inttable\<close>)
qed

lemma upb_Map_Clear_ok:
  assumes inv: "map_inv seed m" and "\<not> map_is_frozen m"
  shows "\<exists>m'. upb_Map_Clear m = Some m' \<and> map_inv seed m' \<and> map_contents m' = Map.empty"
proof (cases "map_t m")
  case (Strtable t)
  with inv have "strtable_inv seed t" by (simp add: map_inv_def)
  from table_clear_ok [OF this] show ?thesis using assms(2)
    by (auto simp: upb_Map_Clear_def map_inv_def map_contents_def tab_map_def upb_strtable_clear_def table_clear_def
      Strtable fun_eq_iff split: upb_MessageValue.split)
next
  case (Inttable t)
  with inv have "inttable_inv t" by (simp add: map_inv_def)
  from inttable_clear_ok [OF this] show ?thesis using assms(2)
    by (auto simp: upb_Map_Clear_def map_inv_def map_contents_def tab_map_def Inttable fun_eq_iff split: upb_MessageValue.split)
qed

text \<open>The addresses that the string values of a map point to.\<close>

definition map_pointers :: "upb_Map \<Rightarrow> u64 set" where
  "map_pointers m = (if map_val_size m = UPB_MAPTYPE_STRING then ran (tab_map (map_t m)) else {})"

lemma upb_map_tovalue_cases:
  obtains a' where "upb_map_tovalue val sz views a = (None, views, a')" "arena_refuses a" "arena_refuses a' = arena_refuses a"
  | v views' a' where "upb_map_tovalue val sz views a = (Some v, views', a')" "arena_refuses a' = arena_refuses a"
      "upb_map_fromvalue v sz views' = (if sz = UPB_MAPTYPE_STRING then Msg_Str (upb_map_tokey val) else Msg_Scalar (upb_map_tointkey val sz))"
      "if sz = UPB_MAPTYPE_STRING then arena_malloc a (arena_requests a) 16 \<noteq> None \<and>
         v = of_int (the (arena_malloc a (arena_requests a) 16)) \<and> views' = views(v := upb_map_tokey val) else views' = views"
proof (cases "sz = UPB_MAPTYPE_STRING")
  case True
  show ?thesis
  proof (cases "arena_malloc a (arena_requests a) 16")
    case None
    with True that(1) show ?thesis by (auto simp: upb_map_tovalue_def upb_Arena_Malloc_def arena_refuses_def)
  next
    case (Some p)
    with True that(2) show ?thesis by (simp add: upb_map_tovalue_def upb_Arena_Malloc_def upb_map_fromvalue_def)
  qed
next
  case False
  then have "upb_map_fromvalue (upb_map_tointkey val sz) sz views = Msg_Scalar (upb_map_tointkey val sz)"
    by (simp add: upb_map_fromvalue_def upb_map_tointkey_def split: upb_MessageValue.split)
  with False that(2) show ?thesis by (simp add: upb_map_tovalue_def)
qed

section \<open>Iteration\<close>

text \<open>The loop over a map: every call of \<open>upb_Map_Next\<close> gives one more pair.\<close>

function map_iterate :: "upb_Map \<Rightarrow> u64 \<Rightarrow> (upb_MessageValue \<times> upb_MessageValue) list" where
  "map_iterate m iter =
     (case upb_Map_Next m iter of
        None \<Rightarrow> []
      | Some (key, val, iter) \<Rightarrow> (key, val) # map_iterate m iter)"
  by pat_completeness auto
termination
proof (relation "measure (\<lambda>(m, i). case map_t m of
    Strtable t \<Rightarrow> unat (upb_table_size t) - unat (i + 1)
  | Inttable t \<Rightarrow> unat (it_array_size t) + unat (upb_table_size (it_t t)) - unat (i + 1))")
  fix m iter r key q val j
  assume r: "upb_Map_Next m iter = Some r" "(key, q) = r" "(val, j) = q"
  show "((m, j), (m, iter)) \<in> measure (\<lambda>(m, i). case map_t m of
      Strtable t \<Rightarrow> unat (upb_table_size t) - unat (i + 1)
    | Inttable t \<Rightarrow> unat (it_array_size t) + unat (upb_table_size (it_t t)) - unat (i + 1))"
  proof (cases "map_t m")
    case (Strtable t)
    with r obtain k v where "upb_strtable_next2 t iter = Some (k, v, j)" by (auto simp: upb_Map_Next_def)
    from strtable_next2_advances [OF this] Strtable show ?thesis by simp
  next
    case (Inttable t)
    with r obtain k v where "upb_inttable_next t iter = Some (k, v, j)" by (auto simp: upb_Map_Next_def)
    from inttable_next_advances [OF this] Inttable show ?thesis by simp
  qed
qed simp

declare map_iterate.simps [simp del]

lemma map_iterate_eq:
  "map_iterate m iter =
     (case map_t m of
        Strtable t \<Rightarrow> map (\<lambda>(k, v). (Msg_Str k, upb_map_fromvalue v (map_val_size m) (map_views m))) (strtable_iterate t iter)
      | Inttable t \<Rightarrow> map (\<lambda>(k, v). (Msg_Scalar (take_bit (8 * map_key_size m) k),
          upb_map_fromvalue v (map_val_size m) (map_views m))) (inttable_iterate t iter))"
proof (induction m iter rule: map_iterate.induct)
  case (1 m iter)
  show ?case
  proof (cases "map_t m")
    case (Strtable t)
    then show ?thesis using "1.IH"
      by (subst map_iterate.simps, subst strtable_iterate.simps) (auto simp: upb_Map_Next_def upb_map_fromkey_def split: option.split)
  next
    case (Inttable t)
    then show ?thesis using "1.IH"
      by (subst map_iterate.simps, subst inttable_iterate.simps) (auto simp: upb_Map_Next_def split: option.split)
  qed
qed

lemma distinct_rekey:
  "inj c \<Longrightarrow> distinct (map fst ps) \<Longrightarrow> distinct (map fst (map (\<lambda>(k, v). (c k, rd v)) ps))"
  by (induction ps) (auto simp: inj_eq image_iff)

lemma map_of_rekey:
  assumes "map_of ps = f" and "inj c" and "\<And>k. g (c k) = map_option rd (f k)" and "\<And>x. x \<notin> range c \<Longrightarrow> g x = None"
  shows "map_of (map (\<lambda>(k, v). (c k, rd v)) ps) = g"
proof
  fix x
  have dom: "map_of (map (\<lambda>(k, v). (c k, rd v)) qs) (c k) = map_option rd (map_of qs k)" for qs k
    using assms(2) by (induction qs) (auto simp: inj_eq)
  show "map_of (map (\<lambda>(k, v). (c k, rd v)) ps) x = g x"
  proof (cases "x \<in> range c")
    case True
    then show ?thesis using dom assms(1,3) by auto
  next
    case False
    then have "map_of (map (\<lambda>(k, v). (c k, rd v)) ps) x = None" unfolding map_of_eq_None_iff by auto
    then show ?thesis using False assms(4) by simp
  qed
qed

section \<open>Properties\<close>

text \<open>C32: inserting into a map updates it. With a string value the bytes lie where the arena puts the view,
  which is an address that no value of the map has; a map of strings and a map of integers do the same,
  keys and scalar values at the width of their types. The key gets the value and every other key
  keeps its own; the status tells whether the key was there. Out of memory happens only when the
  arena refuses or the table cannot grow, and then the old entry of the key may already be gone.\<close>

theorem upb_Map_Insert_refines_update:
  assumes inv: "map_inv seed m" and "\<not> map_is_frozen m"
    and fresh: "\<forall>p. arena_malloc a (arena_requests a) 16 = Some p \<longrightarrow> of_int p \<notin> map_pointers m"
  shows "\<exists>st m' a'. upb_Map_Insert seed m key val a = Some (st, m', a') \<and> map_inv seed m' \<and>
    (case st of
       MapInserted \<Rightarrow> map_contents m (stored_key m key) = None \<and>
         map_contents m' = (map_contents m)(stored_key m key \<mapsto> stored_value m val)
     | MapReplaced \<Rightarrow> map_contents m (stored_key m key) \<noteq> None \<and>
         map_contents m' = (map_contents m)(stored_key m key \<mapsto> stored_value m val)
     | MapOutOfMemory \<Rightarrow> (arena_refuses a \<or> \<not> map_fits m key) \<and>
         (map_contents m' = map_contents m \<or> map_contents m' = (map_contents m)(stored_key m key := None)))"
proof (cases rule: upb_map_tovalue_cases [of val "map_val_size m" "map_views m" a])
  case (1 a')
  then show ?thesis using assms by (intro exI [of _ MapOutOfMemory]) (simp add: upb_Map_Insert_def)
next
  case (2 v views a1)
  let ?m = "m\<lparr>map_views := views\<rparr>" and ?k = "stored_key m key"
  have same: "upb_map_fromvalue w (map_val_size m) views = upb_map_fromvalue w (map_val_size m) (map_views m)"
    if "w \<in> ran (tab_map (map_t m))" for w
    using that fresh 2(4) by (auto simp: upb_map_fromvalue_def map_pointers_def split: if_splits)
  have val: "upb_map_fromvalue v (map_val_size m) views = stored_value m val" using 2(3) by (simp add: stored_value_def)
  obtain ok t a2 where r:
    "tab_replace seed (map_t m) (map_key_size m) key v a1 = Some (ok, tab_map (map_t m) ?k \<noteq> None, t, a2)"
    "map_inv seed (m\<lparr>map_t := t\<rparr>)" "tab_map t = (tab_map (map_t m))(?k := if ok then Some v else None)"
    "ok \<or> arena_refuses a1 \<or> \<not> map_fits m key"
    by (rule tab_replace_ok [OF inv, of key v a1])
  have "map_contents (?m\<lparr>map_t := t\<rparr>) = (map_contents m)(?k := if ok then Some (stored_value m val) else None)"
    using map_contents_upd [of "?m\<lparr>map_t := t\<rparr>" m ?k "if ok then Some v else None"] r(3) same val by (cases ok) simp_all
  moreover have "upb_Map_Insert seed m key val a =
      Some (if \<not> ok then MapOutOfMemory else if tab_map (map_t m) ?k \<noteq> None then MapReplaced else MapInserted, ?m\<lparr>map_t := t\<rparr>, a2)"
    unfolding upb_Map_Insert_def using assms(2) 2(1) r(1) by simp
  moreover have "map_contents m ?k = None \<longleftrightarrow> tab_map (map_t m) ?k = None" by (simp add: map_contents_def)
  moreover have "map_inv seed (?m\<lparr>map_t := t\<rparr>)" using r(2) by (simp add: map_inv_def split: upb_Map_Table.splits)
  ultimately show ?thesis using r(4) 2(2) by (cases ok) simp_all
qed

lemma map_example:
  obtains m a where "upb_Map_New 7 (\<lambda>_. []) 4 0 arena_unlimited = (Some m, a)" "map_inv 7 m" "map_contents m = Map.empty"
    "\<not> map_is_frozen m" "map_key_size m = 4" "map_val_size m = 0" "\<exists>t. map_t m = Inttable t \<and> length (tab_entries (it_t t)) = 8"
proof -
  let ?a = "arena_unlimited\<lparr>arena_requests := 1\<rparr>"
  have "fst (upb_inttable_init ?a) \<noteq> None"
    by (simp add: upb_inttable_init_def upb_inttable_sizedinit_def table_init_def upb_table_size_def sizeof_upb_tabent_def
      upb_Arena_Malloc_def arena_unlimited_def Let_def push_bit_eq_mult)
  then obtain t a' where t: "upb_inttable_init ?a = (Some t, a')" by (cases "upb_inttable_init ?a") auto
  with inttable_sizedinit_ok [of 0 3 ?a t a'] have ok: "inttable_inv t" "inttable_map t = Map.empty" "length (tab_entries (it_t t)) = 8"
    by (simp_all add: upb_inttable_init_def)
  have "upb_Arena_Malloc arena_unlimited 48 = (Some 4096, ?a)" by (simp add: upb_Arena_Malloc_def arena_unlimited_def)
  with t have n: "upb_Map_New 7 (\<lambda>_. []) 4 0 arena_unlimited = (Some \<lparr>map_key_size = 4, map_val_size = 0, map_is_frozen = False,
      map_t = Inttable t, map_views = \<lambda>_. []\<rparr>, a')" by (simp add: upb_Map_New_def UPB_MAPTYPE_STRING_def)
  show ?thesis
    by (rule that [OF n]) (use ok in \<open>auto simp: map_inv_def map_contents_def tab_map_def fun_eq_iff split: upb_MessageValue.split\<close>)
qed

lemma upb_Map_Insert_refines_update_witness:
  "\<exists>m a m' a'. upb_Map_New 7 (\<lambda>_. []) 4 0 arena_unlimited = (Some m, a) \<and>
    upb_Map_Insert 7 m (Msg_Scalar 5) (Msg_Str [104, 105]) arena_unlimited = Some (MapInserted, m', a') \<and>
    map_contents m' = [Msg_Scalar 5 \<mapsto> Msg_Str [104, 105]]"
proof -
  obtain m a where m: "upb_Map_New 7 (\<lambda>_. []) 4 0 arena_unlimited = (Some m, a)" "map_inv 7 m" "map_contents m = Map.empty"
    "\<not> map_is_frozen m" "map_key_size m = 4" "map_val_size m = 0" "\<exists>t. map_t m = Inttable t \<and> length (tab_entries (it_t t)) = 8"
    by (rule map_example)
  have "tab_map (map_t m) k = None" for k using fun_cong [OF m(3), of k] by (simp add: map_contents_def)
  then have "\<forall>p. arena_malloc arena_unlimited (arena_requests arena_unlimited) 16 = Some p \<longrightarrow> of_int p \<notin> map_pointers m"
    by (simp add: map_pointers_def ran_def)
  note ins = upb_Map_Insert_refines_update [OF m(2,4) this, of "Msg_Scalar 5" "Msg_Str [104, 105]"]
  have "map_fits m (Msg_Scalar 5)" using m(7) by (auto simp: map_fits_def inttable_fits_def)
  moreover have "take_bit 32 (5 :: u64) = 5" by code_simp
  then have "stored_key m (Msg_Scalar 5) = Msg_Scalar 5" "stored_value m (Msg_Str [104, 105]) = Msg_Str [104, 105]"
    using m(5,6,7) by (auto simp: stored_key_def stored_value_def upb_map_tointkey_def upb_map_tokey_def UPB_MAPTYPE_STRING_def)
  moreover from ins obtain st m' a' where r: "upb_Map_Insert 7 m (Msg_Scalar 5) (Msg_Str [104, 105]) arena_unlimited = Some (st, m', a')"
    "case st of
       MapInserted \<Rightarrow> map_contents m (stored_key m (Msg_Scalar 5)) = None \<and>
         map_contents m' = (map_contents m)(stored_key m (Msg_Scalar 5) \<mapsto> stored_value m (Msg_Str [104, 105]))
     | MapReplaced \<Rightarrow> map_contents m (stored_key m (Msg_Scalar 5)) \<noteq> None \<and>
         map_contents m' = (map_contents m)(stored_key m (Msg_Scalar 5) \<mapsto> stored_value m (Msg_Str [104, 105]))
     | MapOutOfMemory \<Rightarrow> (arena_refuses arena_unlimited \<or> \<not> map_fits m (Msg_Scalar 5)) \<and>
         (map_contents m' = map_contents m \<or> map_contents m' = (map_contents m)(stored_key m (Msg_Scalar 5) := None))"
    by blast
  ultimately show ?thesis using m(1,3) by (cases st) auto
qed



text \<open>C34: iterating over a map visits its contents once. The loop over \<open>upb_Map_Next\<close> from the begin iterator ends;
  no key comes twice, and the pairs are the contents of the map, for both kinds of table, with integer keys and
  scalar values at their widths and string values read through their views.\<close>

theorem upb_Map_Next_visits_contents:
  assumes inv: "map_inv seed m"
  shows "distinct (map fst (map_iterate m (- 1))) \<and> map_of (map_iterate m (- 1)) = map_contents m"
proof (cases "map_t m")
  case (Strtable t)
  with inv have "strtable_inv seed t" by (simp add: map_inv_def)
  note it = strtable_iterates_map [OF this]
  let ?rd = "\<lambda>v. upb_map_fromvalue v (map_val_size m) (map_views m)"
  have eq: "map_iterate m (- 1) = map (\<lambda>(k, v). (Msg_Str k, ?rd v)) (strtable_iterate t (- 1))"
    by (simp add: map_iterate_eq Strtable)
  have "map_of (map_iterate m (- 1)) = map_contents m"
    unfolding eq using it by (intro map_of_rekey) (auto simp: map_contents_def tab_map_def Strtable inj_on_def split: upb_MessageValue.split)
  moreover have "distinct (map fst (map_iterate m (- 1)))"
    unfolding eq by (rule distinct_rekey) (use it in \<open>simp_all add: inj_on_def\<close>)
  ultimately show ?thesis by blast
next
  case (Inttable t)
  with inv have t: "inttable_inv t" "\<And>k. inttable_map t k \<noteq> None \<Longrightarrow> take_bit (8 * map_key_size m) k = k" by (simp_all add: map_inv_def)
  note it = inttable_iterate_ok [OF t(1)]
  let ?rd = "\<lambda>v. upb_map_fromvalue v (map_val_size m) (map_views m)"
  have k: "take_bit (8 * map_key_size m) k = k" if "(k, v) \<in> set (inttable_iterate t (- 1))" for k v
    using t(2) [of k] it that by (metis map_of_is_SomeI option.distinct(1))
  have eq: "map_iterate m (- 1) = map (\<lambda>(k, v). (Msg_Scalar k, ?rd v)) (inttable_iterate t (- 1))"
    using k by (auto simp: map_iterate_eq Inttable)
  have "map_of (map_iterate m (- 1)) = map_contents m"
    unfolding eq using it by (intro map_of_rekey) (auto simp: map_contents_def tab_map_def Inttable inj_on_def split: upb_MessageValue.split)
  moreover have "distinct (map fst (map_iterate m (- 1)))"
    unfolding eq by (rule distinct_rekey) (use it in \<open>simp_all add: inj_on_def\<close>)
  ultimately show ?thesis by blast
qed

lemma upb_Map_Next_visits_contents_witness:
  "\<exists>m a. upb_Map_New 7 (\<lambda>_. []) 4 0 arena_unlimited = (Some m, a) \<and> map_iterate m (- 1) = []"
proof -
  obtain m a where m: "upb_Map_New 7 (\<lambda>_. []) 4 0 arena_unlimited = (Some m, a)" "map_inv 7 m" "map_contents m = Map.empty"
    "\<not> map_is_frozen m" "map_key_size m = 4" "map_val_size m = 0" "\<exists>t. map_t m = Inttable t \<and> length (tab_entries (it_t t)) = 8"
    by (rule map_example)
  from upb_Map_Next_visits_contents [OF m(2)] m(1,3) show ?thesis by auto
qed

end
